(* ===== verification/Prelude.thy ===== *)
theory Prelude
  imports Main "HOL-Library.Word"
begin

text \<open>
  Shared vocabulary of the development: machine integers and byte strings of the C++ code
  (\<open>uint8_t\<close> to \<open>int64_t\<close>, \<open>std::string\<close>), the fact collections that the component
  theories add to, the object representation of integers in both byte orders, and generic
  lemmas on bytes, words, association lists and lists.
\<close>

unbundle bit_operations_syntax

section \<open>Fact collections\<close>

named_theorems stream_simps
  "rewrite rules that execute the stream operations on known contents"

named_theorems codec_simps
  "rewrite rules that execute one encoder or decoder step"

section \<open>Types of the program\<close>

text \<open>
  Signed and unsigned integers of one width share one word type: the code's conversions
  between them do not change the bits. Signedness is written at each use (\<open>ucast\<close> against
  \<open>scast\<close>, \<open>drop_bit\<close> against \<open>signed_drop_bit\<close>). \<open>float\<close> and \<open>double\<close> are only moved
  as bit patterns (\<open>std::memmove\<close>), so they are their object representation.
\<close>

type_synonym byte = "8 word"
type_synonym uint8 = "8 word"
type_synonym int8 = "8 word"
type_synonym uint16 = "16 word"
type_synonym int16 = "16 word"
type_synonym uint32 = "32 word"
type_synonym int32 = "32 word"
type_synonym uint64 = "64 word"
type_synonym int64 = "64 word"
type_synonym float_bits = "32 word"
type_synonym double_bits = "64 word"

text \<open>\<open>std::string\<close> is a sequence of bytes; \<open>str\<close> reads an ASCII literal of the source.\<close>

type_synonym cstring = "byte list"

definition str :: "string \<Rightarrow> cstring" where
  "str s = map of_char s"

lemma str_simps [simp]:
  "str [] = []"
  "str (c # cs) = of_char c # str cs"
  "length (str cs) = length cs"
  by (simp_all add: str_def)

section \<open>Bytes of an integer\<close>

text \<open>
  \<open>le_bytes n w\<close> lists the \<open>n\<close> low bytes of \<open>w\<close>, least significant first, and
  \<open>of_le_bytes\<close> reads them back; the big-endian pair is the reversal.
\<close>

primrec le_bytes :: "nat \<Rightarrow> 'a::len word \<Rightarrow> byte list" where
  "le_bytes 0 w = []"
| "le_bytes (Suc n) w = ucast w # le_bytes n (drop_bit 8 w)"

primrec of_le_bytes :: "byte list \<Rightarrow> 'a::len word" where
  "of_le_bytes [] = 0"
| "of_le_bytes (b # bs) = ucast b OR push_bit 8 (of_le_bytes bs)"

definition be_bytes :: "nat \<Rightarrow> 'a::len word \<Rightarrow> byte list" where
  "be_bytes n w = rev (le_bytes n w)"

definition of_be_bytes :: "byte list \<Rightarrow> 'a::len word" where
  "of_be_bytes bs = of_le_bytes (rev bs)"

lemma length_le_bytes [simp]: "length (le_bytes n w) = n"
  by (induction n arbitrary: w) auto

lemma length_be_bytes [simp]: "length (be_bytes n w) = n"
  by (simp add: be_bytes_def)

lemma of_le_bytes_le_bytes:
  "of_le_bytes (le_bytes n w) = take_bit (8 * n) (w :: 'a::len word)"
proof (induction n arbitrary: w)
  case 0
  show ?case by simp
next
  case (Suc n)
  show ?case
    by (rule bit_eqI)
      (auto simp: Suc.IH bit_simps not_less not_le intro: le_less_trans)
qed

lemma of_le_bytes_full [simp]:
  "LENGTH('a) = 8 * n \<Longrightarrow> of_le_bytes (le_bytes n w) = (w :: 'a::len word)"
  by (metis of_le_bytes_le_bytes take_bit_length_eq)

lemma of_be_bytes_be_bytes [simp]:
  "LENGTH('a) = 8 * n \<Longrightarrow> of_be_bytes (be_bytes n w) = (w :: 'a::len word)"
  by (simp add: of_be_bytes_def be_bytes_def)

lemma nth_le_bytes [simp]:
  "i < n \<Longrightarrow> le_bytes n w ! i = ucast (drop_bit (8 * i) w)"
proof (induction n arbitrary: w i)
  case 0
  then show ?case by simp
next
  case (Suc n)
  then show ?case by (cases i) (simp_all add: add.commute)
qed

lemma bit_of_le_bytes:
  "bit (of_le_bytes bs :: 'a::len word) k \<longleftrightarrow>
     k < LENGTH('a) \<and> k div 8 < length bs \<and> bit (bs ! (k div 8)) (k mod 8)"
proof (induction bs arbitrary: k)
  case Nil
  show ?case by simp
next
  case (Cons b bs)
  show ?case
  proof (cases "k < 8")
    case True
    then show ?thesis by (auto simp: bit_simps)
  next
    case False
    then obtain j where j: "k = j + 8" by (metis add.commute le_Suc_ex not_less)
    have "\<not> bit b k"
      using False by (auto dest: bit_imp_le_length)
    moreover have "k div 8 = Suc (j div 8)" by (simp add: j)
    ultimately show ?thesis
      by (auto simp: j bit_simps Cons.IH)
  qed
qed

lemma le_bytes_of_le_bytes:
  assumes "8 * length bs \<le> LENGTH('a::len)"
  shows "le_bytes (length bs) (of_le_bytes bs :: 'a word) = bs"
proof (rule nth_equalityI)
  show "length (le_bytes (length bs) (of_le_bytes bs :: 'a word)) = length bs"
    by simp
next
  fix i
  assume "i < length (le_bytes (length bs) (of_le_bytes bs :: 'a word))"
  then have i: "i < length bs" by simp
  show "le_bytes (length bs) (of_le_bytes bs :: 'a word) ! i = bs ! i"
  proof (rule bit_word_eqI)
    fix k
    assume "k < LENGTH(8)"
    then have "k < 8" by simp
    moreover from this have "8 * i + k < LENGTH('a)" using i assms by linarith
    ultimately show "bit (le_bytes (length bs) (of_le_bytes bs :: 'a word) ! i) k
        \<longleftrightarrow> bit (bs ! i) k"
      using i by (simp add: bit_simps bit_of_le_bytes)
  qed
qed

section \<open>Byte order of the host\<close>

text \<open>
  \<open>PortableEndian.hpp\<close> maps \<open>htole32\<close>, \<open>htobe16\<close> and their kin to a byte swap or to the
  identity, depending on the host. The code applies one of them and then copies the object
  representation of the result to a stream (\<open>reinterpret_cast\<close> and \<open>write\<close>), or the other
  way round. \<open>host_le\<close> is true on a little-endian host.
\<close>

definition byte_swap :: "nat \<Rightarrow> 'a::len word \<Rightarrow> 'a word" where
  "byte_swap n w = of_le_bytes (be_bytes n w)"

definition object_bytes :: "bool \<Rightarrow> nat \<Rightarrow> 'a::len word \<Rightarrow> byte list" where
  "object_bytes host_le n w = (if host_le then le_bytes n w else be_bytes n w)"

definition of_object_bytes :: "bool \<Rightarrow> byte list \<Rightarrow> 'a::len word" where
  "of_object_bytes host_le bs = (if host_le then of_le_bytes bs else of_be_bytes bs)"

definition htole :: "bool \<Rightarrow> nat \<Rightarrow> 'a::len word \<Rightarrow> 'a word" where
  "htole host_le n w = (if host_le then w else byte_swap n w)"

definition htobe :: "bool \<Rightarrow> nat \<Rightarrow> 'a::len word \<Rightarrow> 'a word" where
  "htobe host_le n w = (if host_le then byte_swap n w else w)"

lemma le_bytes_byte_swap:
  "LENGTH('a::len) = 8 * n \<Longrightarrow> le_bytes n (byte_swap n w :: 'a word) = be_bytes n w"
  using le_bytes_of_le_bytes [of "be_bytes n w", where 'a = 'a] by (simp add: byte_swap_def)

lemma byte_swap_byte_swap:
  "LENGTH('a::len) = 8 * n \<Longrightarrow> byte_swap n (byte_swap n w) = (w :: 'a word)"
  using le_bytes_byte_swap [of n w] by (simp add: byte_swap_def be_bytes_def)

text \<open>
  The bytes that reach the stream do not depend on the host, and reading them back with
  \<open>letoh\<close> or \<open>betoh\<close> (the same swap) gives the value. The component theories use
  \<open>le_bytes\<close> and \<open>be_bytes\<close> directly on the strength of these four lemmas.
\<close>

lemma object_bytes_htole:
  "LENGTH('a::len) = 8 * n \<Longrightarrow> object_bytes h n (htole h n (w :: 'a word)) = le_bytes n w"
  by (simp add: object_bytes_def htole_def be_bytes_def le_bytes_byte_swap)

lemma object_bytes_htobe:
  "LENGTH('a::len) = 8 * n \<Longrightarrow> object_bytes h n (htobe h n (w :: 'a word)) = be_bytes n w"
  by (simp add: object_bytes_def htobe_def le_bytes_byte_swap)

lemma htole_of_object_bytes:
  assumes "LENGTH('a::len) = 8 * length bs"
  shows "htole h (length bs) (of_object_bytes h bs :: 'a word) = of_le_bytes bs"
proof -
  have "be_bytes (length bs) (of_be_bytes bs :: 'a word) = bs"
    using le_bytes_of_le_bytes [of "rev bs", where 'a = 'a] assms
    by (simp add: be_bytes_def of_be_bytes_def)
  then show ?thesis
    by (simp add: htole_def of_object_bytes_def byte_swap_def)
qed

lemma htobe_of_object_bytes:
  assumes "LENGTH('a::len) = 8 * length bs"
  shows "htobe h (length bs) (of_object_bytes h bs :: 'a word) = of_be_bytes bs"
proof -
  have "le_bytes (length bs) (of_le_bytes bs :: 'a word) = bs"
    using assms by (simp add: le_bytes_of_le_bytes)
  then show ?thesis
    by (simp add: htobe_def of_object_bytes_def byte_swap_def be_bytes_def of_be_bytes_def)
qed

section \<open>White space\<close>

text \<open>\<open>isspace\<close> in the classic locale, which formatted input skips and stops at.\<close>

definition is_space :: "byte \<Rightarrow> bool" where
  "is_space c \<longleftrightarrow> c = 32 \<or> (9 \<le> c \<and> c \<le> 13)"

section \<open>Conversions between words and integers\<close>

lemma ucast_of_int:
  "LENGTH('b) \<le> LENGTH('a) \<Longrightarrow> (ucast (of_int k :: 'a::len word) :: 'b::len word) = of_int k"
  by (auto intro!: bit_word_eqI simp: bit_simps)

lemma ucast_of_nat:
  "LENGTH('b) \<le> LENGTH('a) \<Longrightarrow> (ucast (of_nat k :: 'a::len word) :: 'b::len word) = of_nat k"
  using ucast_of_int [where 'a = 'a and 'b = 'b, of "int k"] by simp

lemma ucast_ucast_64 [simp]:
  "ucast (ucast (b8 :: 8 word) :: uint64) = b8"
  "ucast (ucast (b16 :: 16 word) :: uint64) = b16"
  "ucast (ucast (b32 :: 32 word) :: uint64) = b32"
  by (auto intro!: bit_word_eqI simp: bit_simps)

lemma sint_of_int:
  "- (2 ^ (LENGTH('a) - 1)) \<le> i \<Longrightarrow> i < 2 ^ (LENGTH('a) - 1) \<Longrightarrow> sint (of_int i :: 'a::len word) = i"
  by (simp add: signed_of_int signed_take_bit_int_eq_self)

lemma sint_bounds:
  "- (2 ^ (LENGTH('a) - 1)) \<le> sint w \<and> sint w < 2 ^ (LENGTH('a) - 1)" for w :: "'a::len word"
  using sint_ge sint_lt by blast

lemma sint_nonneg:
  fixes w :: "'a::len word"
  assumes "0 \<le> sint w"
  shows "sint w = int (unat w)"
proof -
  define m where "m = LENGTH('a) - 1"
  have m: "LENGTH('a) = Suc m" by (simp add: m_def)
  have "\<not> bit w m" using assms bit_last_iff [of w] by (simp add: m)
  then have b: "\<not> bit (uint w) m" by (simp add: bit_simps)
  then have "sint w = take_bit m (uint w)"
    by (simp add: sint_uint m signed_take_bit_eq_if_positive)
  also have "\<dots> = take_bit (Suc m) (uint w)" using b by (simp add: take_bit_Suc_from_most)
  also have "\<dots> = uint w" unfolding m [symmetric] by (simp add: take_bit_int_eq_self)
  finally show ?thesis by simp
qed

lemma unat_ucast_up:
  fixes w :: "'a::len word"
  assumes "LENGTH('a) \<le> LENGTH('b::len)"
  shows "unat (ucast w :: 'b word) = unat w"
proof -
  have "unat w < 2 ^ LENGTH('a)" by (rule unsigned_less)
  also have "(2::nat) ^ LENGTH('a) \<le> 2 ^ LENGTH('b)" using assms by (rule power_increasing) simp
  finally show ?thesis by (simp add: unsigned_ucast_eq take_bit_nat_eq_self)
qed

lemma or_disjoint: "n < 2 ^ k \<Longrightarrow> push_bit k a OR (of_nat n :: 'a::len word) = push_bit k a + of_nat n"
proof (rule disjunctive_add [symmetric])
  fix j
  assume "n < 2 ^ k"
  then have "take_bit k n = n" by (simp add: take_bit_nat_eq_self)
  then have "bit n j \<Longrightarrow> j < k" by (metis bit_take_bit_iff)
  then show "\<not> bit (push_bit k a) j \<or> \<not> bit (of_nat n :: 'a word) j"
    by (auto simp: bit_simps)
qed

lemma sint_eq_unat:
  fixes w :: "'a::len word"
  assumes "unat w < 2 ^ (LENGTH('a) - 1)"
  shows "sint w = int (unat w)"
proof -
  have "int (unat w) < int (2 ^ (LENGTH('a) - 1))" using assms by (simp only: of_nat_less_iff)
  moreover have "- (2 ^ (LENGTH('a) - 1)) \<le> int (unat w)"
    by (rule order_trans [of _ 0]) simp_all
  ultimately have "signed_take_bit (LENGTH('a) - 1) (int (unat w)) = int (unat w)"
    by (intro signed_take_bit_int_eq_self) simp_all
  then show ?thesis by (simp add: sint_uint)
qed

section \<open>Association lists\<close>

text \<open>
  \<open>std::map\<close> and \<open>std::unordered_map\<close> are association lists with distinct keys; no code
  modelled here depends on their iteration order. \<open>assign\<close> is \<open>m[k] = v\<close>, \<open>emplace\<close> keeps
  an entry that is already there, as \<open>std::map::emplace\<close> does, and \<open>map_of\<close> is the lookup.
\<close>

primrec assign :: "'k \<Rightarrow> 'v \<Rightarrow> ('k \<times> 'v) list \<Rightarrow> ('k \<times> 'v) list" where
  "assign k v [] = [(k, v)]"
| "assign k v (p # ps) = (if fst p = k then (k, v) # ps else p # assign k v ps)"

definition emplace :: "'k \<Rightarrow> 'v \<Rightarrow> ('k \<times> 'v) list \<Rightarrow> ('k \<times> 'v) list" where
  "emplace k v m = (if map_of m k = None then m @ [(k, v)] else m)"

lemma map_of_assign [simp]: "map_of (assign k v m) = (map_of m)(k \<mapsto> v)"
  by (induction m) (auto simp: fun_eq_iff)

lemma map_of_emplace [simp]:
  "map_of (emplace k v m) = (if map_of m k = None then (map_of m)(k \<mapsto> v) else map_of m)"
  by (auto simp: emplace_def fun_eq_iff map_add_def split: option.splits)

lemma assign_same: "map_of m k = Some v \<Longrightarrow> assign k v m = m"
  by (induction m) auto

lemma map_of_filter_key: "map_of (filter (\<lambda>p. fst p \<noteq> l) m) k = (if k = l then None else map_of m k)"
  by (induction m) auto

lemma distinct_assign [intro]:
  "distinct (map fst m) \<Longrightarrow> distinct (map fst (assign k v m))"
proof (induction m)
  case Nil
  show ?case by simp
next
  case (Cons p m)
  have "fst ` set (assign k v m) = insert k (fst ` set m)"
    by (simp flip: dom_map_of_conv_image_fst)
  with Cons show ?case by auto
qed

lemma distinct_emplace [intro]:
  "distinct (map fst m) \<Longrightarrow> distinct (map fst (emplace k v m))"
  by (auto simp: emplace_def map_of_eq_None_iff)

end
