(* ===== verification/Streams.thy ===== *)
theory Streams
  imports Prelude
begin

text \<open>
  The C++ standard streams the codecs read from and write to: \<open>std::istream\<close> over an
  in-memory or file buffer with its \<open>eofbit\<close> and \<open>failbit\<close>, and the append-only use of
  \<open>std::ostream\<close>. The operations follow the C++14 description of \<open>basic_istream\<close>; the
  bytes already consumed are kept (in reverse) for \<open>unget\<close> and \<open>seekg\<close>.
\<close>

section \<open>Input streams\<close>

record istream =
  past :: "byte list"
  rest :: "byte list"
  eofbit :: bool
  failbit :: bool

definition istream_of :: "byte list \<Rightarrow> istream" where
  "istream_of bs = \<lparr>past = [], rest = bs, eofbit = False, failbit = False\<rparr>"

definition good :: "istream \<Rightarrow> bool" where
  "good s \<longleftrightarrow> \<not> eofbit s \<and> \<not> failbit s"

text \<open>\<open>get()\<close>: \<open>None\<close> is \<open>Traits::eof()\<close>, the value \<open>-1\<close>.\<close>

definition in_get :: "istream \<Rightarrow> byte option \<times> istream" where
  "in_get s =
     (if good s then
        (case rest s of
           [] \<Rightarrow> (None, s\<lparr>eofbit := True, failbit := True\<rparr>)
         | b # bs \<Rightarrow> (Some b, s\<lparr>past := b # past s, rest := bs\<rparr>))
      else (None, s\<lparr>failbit := True\<rparr>))"

text \<open>\<open>static_cast<uint8_t>(in.get())\<close> and \<open>static_cast<uint64_t>(in.get())\<close>.\<close>

definition to_uint8 :: "byte option \<Rightarrow> uint8" where
  "to_uint8 x = (case x of None \<Rightarrow> - 1 | Some b \<Rightarrow> b)"

definition to_uint64 :: "byte option \<Rightarrow> uint64" where
  "to_uint64 x = (case x of None \<Rightarrow> - 1 | Some b \<Rightarrow> ucast b)"

text \<open>\<open>read(p, n)\<close>: the bytes stored at \<open>p\<close>; their number is \<open>gcount()\<close>.\<close>

definition in_read :: "nat \<Rightarrow> istream \<Rightarrow> byte list \<times> istream" where
  "in_read n s =
     (if good s then
        (if n \<le> length (rest s)
         then (take n (rest s), s\<lparr>past := rev (take n (rest s)) @ past s, rest := drop n (rest s)\<rparr>)
         else (rest s, s\<lparr>past := rev (rest s) @ past s, rest := [],
                         eofbit := True, failbit := True\<rparr>))
      else ([], s\<lparr>failbit := True\<rparr>))"

text \<open>\<open>unget()\<close> clears \<open>eofbit\<close> first and does nothing on a stream that has failed.\<close>

definition in_unget :: "istream \<Rightarrow> istream" where
  "in_unget s =
     (let s = s\<lparr>eofbit := False\<rparr> in
      if failbit s then s
      else (case past s of
              [] \<Rightarrow> s\<lparr>failbit := True\<rparr>
            | b # bs \<Rightarrow> s\<lparr>past := bs, rest := b # rest s\<rparr>))"

text \<open>\<open>clear()\<close>, and \<open>seekg(pos)\<close> on a stream that is good.\<close>

definition in_clear :: "istream \<Rightarrow> istream" where
  "in_clear s = s\<lparr>eofbit := False, failbit := False\<rparr>"

definition in_seekg :: "nat \<Rightarrow> istream \<Rightarrow> istream" where
  "in_seekg n s =
     (let s = s\<lparr>eofbit := False\<rparr>; bs = rev (past s) @ rest s in
      if failbit s then s
      else if n \<le> length bs then s\<lparr>past := rev (take n bs), rest := drop n bs\<rparr>
      else s\<lparr>failbit := True\<rparr>)"

definition in_tellg :: "istream \<Rightarrow> nat" where
  "in_tellg s = length (past s)"

section \<open>Facts on input streams\<close>

lemma good_simps [simp]:
  "good (s\<lparr>past := p\<rparr>) = good s"
  "good (s\<lparr>rest := r\<rparr>) = good s"
  "\<not> good (s\<lparr>eofbit := True\<rparr>)"
  "\<not> good (s\<lparr>failbit := True\<rparr>)"
  by (simp_all add: good_def)

lemma good_istream_of [simp]: "good (istream_of bs)" "rest (istream_of bs) = bs"
  "past (istream_of bs) = []"
  by (simp_all add: istream_of_def good_def)

lemma to_uint_simps [simp]:
  "to_uint8 (Some b) = b" "to_uint64 (Some b) = ucast b"
  by (simp_all add: to_uint8_def to_uint64_def)

text \<open>\<open>at s bs\<close>: the stream is good and \<open>bs\<close> is what is left of it.\<close>

definition at :: "istream \<Rightarrow> byte list \<Rightarrow> bool" where
  "at s bs \<longleftrightarrow> good s \<and> rest s = bs"

lemma at_istream_of [simp, intro]: "at (istream_of bs) bs"
  by (simp add: at_def)

lemma at_goodD [dest]: "at s bs \<Longrightarrow> good s"
  by (simp add: at_def)

text \<open>The stream after \<open>bs\<close> has been consumed from it.\<close>

definition consumed :: "byte list \<Rightarrow> istream \<Rightarrow> istream" where
  "consumed bs s = s\<lparr>past := rev bs @ past s, rest := drop (length bs) (rest s)\<rparr>"

lemma consumed_Nil [simp]: "consumed [] s = s"
  by (simp add: consumed_def)

lemma consumed_consumed [simp]: "consumed ys (consumed xs s) = consumed (xs @ ys) s"
  by (simp add: consumed_def add.commute)

lemma good_consumed [simp]: "good (consumed bs s) = good s"
  by (simp add: consumed_def)

lemma at_consumed [intro]: "at s (xs @ ys) \<Longrightarrow> at (consumed xs s) ys"
  by (simp add: at_def consumed_def)

lemma rest_consumed [simp]: "rest (consumed bs s) = drop (length bs) (rest s)"
  by (simp add: consumed_def)

lemma in_get_at [stream_simps]: "at s (b # bs) \<Longrightarrow> in_get s = (Some b, consumed [b] s)"
  by (auto simp: at_def in_get_def consumed_def)

lemma in_read_0: "good s \<Longrightarrow> in_read 0 s = ([], s)"
  by (simp add: in_read_def)

lemma in_read_at [stream_simps]:
  "at s (xs @ ys) \<Longrightarrow> n = length xs \<Longrightarrow> in_read n s = (xs, consumed xs s)"
  by (auto simp: at_def in_read_def consumed_def)

lemma in_read_add:
  assumes "good s" and "k \<le> length (rest s)"
  shows "in_read (k + m) s =
    (fst (in_read k s) @ fst (in_read m (snd (in_read k s))), snd (in_read m (snd (in_read k s))))"
proof -
  obtain xs ys where "rest s = xs @ ys" "length xs = k"
    using assms(2) by (metis append_take_drop_id length_take min.absorb2)
  with assms(1) show ?thesis by (auto simp: in_read_def)
qed

lemma in_unget_consumed [stream_simps]:
  "at s (b # bs) \<Longrightarrow> in_unget (consumed [b] s) = s"
  by (cases s) (auto simp: at_def in_unget_def consumed_def good_def Let_def)

lemma length_rest_in_get: "in_get s = (x, s') \<Longrightarrow> length (rest s') \<le> length (rest s)"
  by (auto simp: in_get_def split: if_splits list.splits)

lemma length_rest_in_read: "in_read n s = (x, s') \<Longrightarrow> length (rest s') \<le> length (rest s)"
  by (auto simp: in_read_def split: if_splits)

lemma length_in_read: "length (fst (in_read n s)) \<le> n"
  by (auto simp: in_read_def)

text \<open>
  A loop \<open>while (in.good())\<close> whose body reads at least once stops: every pass consumes a
  byte or leaves the stream not good.
\<close>

definition stream_measure :: "istream \<Rightarrow> nat" where
  "stream_measure s = (if good s then Suc (length (rest s)) else 0)"

lemma stream_measure_in_get:
  "good s \<Longrightarrow> in_get s = (x, s') \<Longrightarrow> stream_measure s' < stream_measure s"
  by (auto simp: in_get_def stream_measure_def split: list.splits)

lemma stream_measure_in_get_le: "in_get s = (x, s') \<Longrightarrow> stream_measure s' \<le> stream_measure s"
  by (auto simp: in_get_def stream_measure_def split: if_splits list.splits)

lemma stream_measure_in_read_le: "in_read n s = (x, s') \<Longrightarrow> stream_measure s' \<le> stream_measure s"
  by (auto simp: in_read_def stream_measure_def split: if_splits)

section \<open>Output streams\<close>

text \<open>The codecs only append; \<open>str()\<close> is the stream itself.\<close>

type_synonym ostream = "byte list"

definition out_put :: "byte \<Rightarrow> ostream \<Rightarrow> ostream" where
  "out_put b out = out @ [b]"

definition out_write :: "byte list \<Rightarrow> ostream \<Rightarrow> ostream" where
  "out_write bs out = out @ bs"

lemmas out_simps [simp] = out_put_def out_write_def

end
