(* ===== verification/Values.thy ===== *)
theory Values
  imports Streams
begin

text \<open>
  \<open>linb::any\<close> as the code uses it: a value of one of the field types, or nothing. The same
  type serves as the value of a message field. \<open>'m\<close> is the class type held besides the
  scalars: a nested message, a \<open>GenericMessage\<close>, or the nested map of the MsgPack decoder.
\<close>

section \<open>The type-erased value\<close>

datatype 'm any =
    A_empty
  | A_bool bool
  | A_char byte
  | A_int8 int8
  | A_uint8 uint8
  | A_int16 int16
  | A_uint16 uint16
  | A_int32 int32
  | A_uint32 uint32
  | A_int64 int64
  | A_uint64 uint64
  | A_float float_bits
  | A_double double_bits
  | A_string cstring
  | A_obj 'm

text \<open>
  \<open>any_cast<T>\<close> gives the value when the stored type is exactly \<open>T\<close> and throws
  \<open>bad_any_cast\<close> (here \<open>None\<close>) otherwise: there is no conversion between integer types.
\<close>

definition any_cast_bool :: "'m any \<Rightarrow> bool option" where
  "any_cast_bool a = (case a of A_bool v \<Rightarrow> Some v | _ \<Rightarrow> None)"

definition any_cast_char :: "'m any \<Rightarrow> byte option" where
  "any_cast_char a = (case a of A_char v \<Rightarrow> Some v | _ \<Rightarrow> None)"

definition any_cast_int64 :: "'m any \<Rightarrow> int64 option" where
  "any_cast_int64 a = (case a of A_int64 v \<Rightarrow> Some v | _ \<Rightarrow> None)"

definition any_cast_uint64 :: "'m any \<Rightarrow> uint64 option" where
  "any_cast_uint64 a = (case a of A_uint64 v \<Rightarrow> Some v | _ \<Rightarrow> None)"

definition any_cast_float :: "'m any \<Rightarrow> float_bits option" where
  "any_cast_float a = (case a of A_float v \<Rightarrow> Some v | _ \<Rightarrow> None)"

definition any_cast_double :: "'m any \<Rightarrow> double_bits option" where
  "any_cast_double a = (case a of A_double v \<Rightarrow> Some v | _ \<Rightarrow> None)"

definition any_cast_string :: "'m any \<Rightarrow> cstring option" where
  "any_cast_string a = (case a of A_string v \<Rightarrow> Some v | _ \<Rightarrow> None)"

definition any_cast_obj :: "'m any \<Rightarrow> 'm option" where
  "any_cast_obj a = (case a of A_obj v \<Rightarrow> Some v | _ \<Rightarrow> None)"

lemmas any_cast_defs =
  any_cast_bool_def any_cast_char_def any_cast_int64_def any_cast_uint64_def
  any_cast_float_def any_cast_double_def any_cast_string_def any_cast_obj_def

lemma any_cast_simps [simp]:
  "any_cast_bool (A_bool b) = Some b"
  "any_cast_int64 (A_int64 i) = Some i"
  "any_cast_int64 (A_uint64 u) = None"
  "any_cast_uint64 (A_uint64 u) = Some u"
  "any_cast_float (A_float f) = Some f"
  "any_cast_double (A_double d) = Some d"
  "any_cast_string (A_string s) = Some s"
  "any_cast_obj (A_obj m) = Some m"
  by (simp_all add: any_cast_defs)

section \<open>Types of values\<close>

text \<open>
  The static type of a field's C++ variable is the constructor of its value; assigning to
  the variable never changes it. \<open>any_type\<close> is \<open>any::type()\<close>, and
  \<open>same_type\<close> compares two of them.
\<close>

datatype type_info =
    T_none | T_bool | T_char | T_int8 | T_uint8 | T_int16 | T_uint16 | T_int32 | T_uint32
  | T_int64 | T_uint64 | T_float | T_double | T_string | T_class

primrec any_type :: "'m any \<Rightarrow> type_info" where
  "any_type A_empty = T_none"
| "any_type (A_bool _) = T_bool"
| "any_type (A_char _) = T_char"
| "any_type (A_int8 _) = T_int8"
| "any_type (A_uint8 _) = T_uint8"
| "any_type (A_int16 _) = T_int16"
| "any_type (A_uint16 _) = T_uint16"
| "any_type (A_int32 _) = T_int32"
| "any_type (A_uint32 _) = T_uint32"
| "any_type (A_int64 _) = T_int64"
| "any_type (A_uint64 _) = T_uint64"
| "any_type (A_float _) = T_float"
| "any_type (A_double _) = T_double"
| "any_type (A_string _) = T_string"
| "any_type (A_obj _) = T_class"

definition same_type :: "'m any \<Rightarrow> 'n any \<Rightarrow> bool" where
  "same_type a b \<longleftrightarrow> any_type a = any_type b"

definition is_scalar :: "'m any \<Rightarrow> bool" where
  "is_scalar a = (case a of A_obj _ \<Rightarrow> False | A_empty \<Rightarrow> False | _ \<Rightarrow> True)"

text \<open>A scalar seen at another class type: the bits are the same.\<close>

primrec scalar_as :: "'m any \<Rightarrow> 'n any" where
  "scalar_as A_empty = A_empty"
| "scalar_as (A_bool v) = A_bool v"
| "scalar_as (A_char v) = A_char v"
| "scalar_as (A_int8 v) = A_int8 v"
| "scalar_as (A_uint8 v) = A_uint8 v"
| "scalar_as (A_int16 v) = A_int16 v"
| "scalar_as (A_uint16 v) = A_uint16 v"
| "scalar_as (A_int32 v) = A_int32 v"
| "scalar_as (A_uint32 v) = A_uint32 v"
| "scalar_as (A_int64 v) = A_int64 v"
| "scalar_as (A_uint64 v) = A_uint64 v"
| "scalar_as (A_float v) = A_float v"
| "scalar_as (A_double v) = A_double v"
| "scalar_as (A_string v) = A_string v"
| "scalar_as (A_obj _) = A_empty"

lemma same_type_refl [simp]: "same_type a a"
  by (simp add: same_type_def)

lemma same_type_scalar_as [simp]: "is_scalar a \<Longrightarrow> same_type (scalar_as a) a"
  by (cases a) (auto simp: is_scalar_def same_type_def)

lemma scalar_as_scalar_as [simp]: "is_scalar a \<Longrightarrow> scalar_as (scalar_as a) = a"
  by (cases a) (auto simp: is_scalar_def)

lemma is_scalar_simps [simp]:
  "\<not> is_scalar (A_obj m)" "\<not> is_scalar A_empty" "is_scalar (A_bool b)" "is_scalar (A_char c)"
  "is_scalar (A_int8 x8)" "is_scalar (A_uint8 x8)" "is_scalar (A_int16 x16)"
  "is_scalar (A_uint16 x16)" "is_scalar (A_int32 x32)" "is_scalar (A_uint32 x32)"
  "is_scalar (A_int64 x64)" "is_scalar (A_uint64 x64)" "is_scalar (A_float x32)"
  "is_scalar (A_double x64)" "is_scalar (A_string s)"
  by (simp_all add: is_scalar_def)

lemma is_scalar_same_type: "same_type a b \<Longrightarrow> is_scalar a = is_scalar b"
  by (cases a; cases b) (simp_all add: same_type_def)

lemma same_type_iff:
  "same_type b A_empty \<longleftrightarrow> b = A_empty"
  "same_type b (A_bool v1) \<longleftrightarrow> (\<exists>w. b = A_bool w)"
  "same_type b (A_char v8) \<longleftrightarrow> (\<exists>w. b = A_char w)"
  "same_type b (A_int8 v8) \<longleftrightarrow> (\<exists>w. b = A_int8 w)"
  "same_type b (A_uint8 v8) \<longleftrightarrow> (\<exists>w. b = A_uint8 w)"
  "same_type b (A_int16 v16) \<longleftrightarrow> (\<exists>w. b = A_int16 w)"
  "same_type b (A_uint16 v16) \<longleftrightarrow> (\<exists>w. b = A_uint16 w)"
  "same_type b (A_int32 v32) \<longleftrightarrow> (\<exists>w. b = A_int32 w)"
  "same_type b (A_uint32 v32) \<longleftrightarrow> (\<exists>w. b = A_uint32 w)"
  "same_type b (A_int64 v64) \<longleftrightarrow> (\<exists>w. b = A_int64 w)"
  "same_type b (A_uint64 v64) \<longleftrightarrow> (\<exists>w. b = A_uint64 w)"
  "same_type b (A_float v32) \<longleftrightarrow> (\<exists>w. b = A_float w)"
  "same_type b (A_double v64) \<longleftrightarrow> (\<exists>w. b = A_double w)"
  "same_type b (A_string vs) \<longleftrightarrow> (\<exists>w. b = A_string w)"
  "same_type b (A_obj vm) \<longleftrightarrow> (\<exists>w. b = A_obj w)"
  by (cases b; simp add: same_type_def)+

end
