(* ===== verification/Visitors.thy ===== *)
theory Visitors
  imports Values
begin

text \<open>
  The visitor protocol that every generated message class and \<open>GenericMessage\<close> implements
  (\<open>accept\<close>) and that every codec implements (\<open>preVisit\<close>, \<open>visit\<close>, \<open>postVisit\<close>). The
  generated code is produced from the template in \<open>MetaMessageToCPPTransformator.cpp\<close>; the
  definitions here are that template's \<open>accept\<close> members for an arbitrary message.
\<close>

section \<open>Visitable messages\<close>

text \<open>
  A message object: \<open>ID()\<close>, \<open>ShortName()\<close>, \<open>LongName()\<close> and its fields in declaration
  order, each with field identifier, type name, name and value. A field whose value is
  \<open>A_obj\<close> is a nested message.
\<close>

datatype visitable =
  Visitable (msg_ID: int32) (msg_ShortName: cstring) (msg_LongName: cstring)
    (msg_fields: "(uint32 \<times> cstring \<times> cstring \<times> visitable any) list")

type_synonym field = "uint32 \<times> cstring \<times> cstring \<times> visitable any"

section \<open>Visitors\<close>

text \<open>
  A visitor is a class with its state \<open>'s\<close>. \<open>v_visit\<close> covers the overloads of \<open>visit\<close> for
  the scalar field types: it may assign to the field and change the state. The template
  overload for a nested message builds a visitor for it (\<open>v_enter\<close>, \<open>None\<close> when it returns
  without doing so), lets the message accept that visitor, and uses its final state
  (\<open>v_leave\<close>).
\<close>

record ('s, 'm) visitor =
  v_pre :: "int32 \<Rightarrow> cstring \<Rightarrow> cstring \<Rightarrow> 's \<Rightarrow> 's"
  v_visit :: "uint32 \<Rightarrow> cstring \<Rightarrow> cstring \<Rightarrow> 'm any \<Rightarrow> 's \<Rightarrow> 'm any \<times> 's"
  v_enter :: "uint32 \<Rightarrow> cstring \<Rightarrow> cstring \<Rightarrow> 's \<Rightarrow> 's option"
  v_leave :: "uint32 \<Rightarrow> cstring \<Rightarrow> cstring \<Rightarrow> 's \<Rightarrow> 's \<Rightarrow> 's"
  v_post :: "'s \<Rightarrow> 's"

section \<open>accept\<close>

text \<open>
  \<open>accept(Visitor&)\<close> of the template: \<open>preVisit\<close>, \<open>doVisit\<close> on every field in order,
  \<open>postVisit\<close>. \<open>do_visit\<close> selects the scalar overload or the template overload of \<open>visit\<close>.
\<close>

text \<open>The part of a message's size that its field list and a field value make up.\<close>

abbreviation value_size :: "visitable any \<Rightarrow> nat" where
  "value_size \<equiv> size_any size"

abbreviation fields_size :: "field list \<Rightarrow> nat" where
  "fields_size \<equiv>
     size_list (size_prod (\<lambda>_. 0) (size_prod (\<lambda>_. 0) (size_prod (\<lambda>_. 0) value_size)))"

function (sequential) accept :: "('s, visitable) visitor \<Rightarrow> visitable \<Rightarrow> 's \<Rightarrow> visitable \<times> 's"
  and accept_fields :: "('s, visitable) visitor \<Rightarrow> field list \<Rightarrow> 's \<Rightarrow> field list \<times> 's"
  and do_visit :: "('s, visitable) visitor \<Rightarrow> uint32 \<Rightarrow> cstring \<Rightarrow> cstring \<Rightarrow> visitable any \<Rightarrow> 's
    \<Rightarrow> visitable any \<times> 's"
where
  "accept V (Visitable i sn ln fs) s =
     (let (fs', s') = accept_fields V fs (v_pre V i sn ln s)
      in (Visitable i sn ln fs', v_post V s'))"
| "accept_fields V [] s = ([], s)"
| "accept_fields V ((i, tn, n, a) # fs) s =
     (let (a', s1) = do_visit V i tn n a s; (fs', s2) = accept_fields V fs s1
      in ((i, tn, n, a') # fs', s2))"
| "do_visit V i tn n (A_obj m) s =
     (case v_enter V i tn n s of
        None \<Rightarrow> (A_obj m, s)
      | Some t \<Rightarrow> (let (m', t') = accept V m t in (A_obj m', v_leave V i tn n s t')))"
| "do_visit V i tn n a s = v_visit V i tn n a s"
  by pat_completeness auto
termination
  by (relation "measure (\<lambda>x. case x of
        Inl (V, m, s) \<Rightarrow> size m
      | Inr (Inl (V, fs, s)) \<Rightarrow> fields_size fs
      | Inr (Inr (V, i, tn, n, a, s)) \<Rightarrow> value_size a)") auto

text \<open>
  \<open>accept(uint32_t fieldId, Visitor&)\<close> of the template: the chain of \<open>if\<close>s visits the first
  field with that identifier and returns; \<open>preVisit\<close> and \<open>postVisit\<close> are commented out there.
  It is written over the visitor's \<open>visit\<close> overload set.
\<close>

type_synonym 's visit_fun =
  "uint32 \<Rightarrow> cstring \<Rightarrow> cstring \<Rightarrow> visitable any \<Rightarrow> 's \<Rightarrow> visitable any \<times> 's"

fun visit_first :: "'s visit_fun \<Rightarrow> uint32 \<Rightarrow> field list \<Rightarrow> 's \<Rightarrow> field list \<times> 's" where
  "visit_first vis k [] s = ([], s)"
| "visit_first vis k ((i, tn, n, a) # fs) s =
     (if i = k then (let (a', s') = vis i tn n a s in ((i, tn, n, a') # fs, s'))
      else (let (fs', s') = visit_first vis k fs s in ((i, tn, n, a) # fs', s')))"

fun accept_field :: "'s visit_fun \<Rightarrow> uint32 \<Rightarrow> visitable \<Rightarrow> 's \<Rightarrow> visitable \<times> 's" where
  "accept_field vis k (Visitable i sn ln fs) s =
     (let (fs', s') = visit_first vis k fs s in (Visitable i sn ln fs', s'))"

text \<open>
  The three-callback \<open>accept(preVisit, visit, postVisit)\<close> forwards the same callbacks to a
  nested message (\<open>tripletForwardVisitorSelector<true>\<close>), which is the visitor whose nested
  visitor is itself.
\<close>

definition triplet_visitor ::
  "(int32 \<Rightarrow> cstring \<Rightarrow> cstring \<Rightarrow> 's \<Rightarrow> 's) \<Rightarrow>
   (uint32 \<Rightarrow> cstring \<Rightarrow> cstring \<Rightarrow> 'm any \<Rightarrow> 's \<Rightarrow> 'm any \<times> 's) \<Rightarrow> ('s \<Rightarrow> 's) \<Rightarrow> ('s, 'm) visitor" where
  "triplet_visitor pre vis post =
     \<lparr>v_pre = pre, v_visit = vis, v_enter = (\<lambda>_ _ _ s. Some s),
      v_leave = (\<lambda>_ _ _ _ t. t), v_post = post\<rparr>"

definition accept_triplet ::
  "(int32 \<Rightarrow> cstring \<Rightarrow> cstring \<Rightarrow> 's \<Rightarrow> 's) \<Rightarrow> 's visit_fun \<Rightarrow> ('s \<Rightarrow> 's) \<Rightarrow>
   visitable \<Rightarrow> 's \<Rightarrow> visitable \<times> 's" where
  "accept_triplet pre vis post = accept (triplet_visitor pre vis post)"

section \<open>Shape and nesting depth\<close>

text \<open>How deeply messages are nested; its recursion is the induction on messages.\<close>

function depth :: "visitable \<Rightarrow> nat"
  and fields_depth :: "field list \<Rightarrow> nat"
  and value_depth :: "visitable any \<Rightarrow> nat" where
  "depth (Visitable i sn ln fs) = fields_depth fs"
| "fields_depth [] = 0"
| "fields_depth ((i, tn, n, a) # fs) = max (value_depth a) (fields_depth fs)"
| "value_depth a = (case a of A_obj m \<Rightarrow> Suc (depth m) | _ \<Rightarrow> 0)"
  by pat_completeness auto
termination
  by (relation "measure (\<lambda>x. case x of
        Inl m \<Rightarrow> size m | Inr (Inl fs) \<Rightarrow> fields_size fs | Inr (Inr a) \<Rightarrow> value_size a)") auto

lemmas message_induct = depth_fields_depth_value_depth.induct [case_names Msg Nil Cons Val]

text \<open>
  Two message objects of one generated class differ in their values only. \<open>same_shape\<close> is
  that relation: identifiers, names and field types agree, in nested messages too.
\<close>

function same_shape :: "visitable \<Rightarrow> visitable \<Rightarrow> bool"
  and same_fields :: "field list \<Rightarrow> field list \<Rightarrow> bool"
  and same_value :: "visitable any \<Rightarrow> visitable any \<Rightarrow> bool" where
  "same_shape (Visitable i sn ln fs) (Visitable i' sn' ln' gs) \<longleftrightarrow>
     i = i' \<and> sn = sn' \<and> ln = ln' \<and> same_fields fs gs"
| "same_fields [] gs \<longleftrightarrow> gs = []"
| "same_fields ((i, tn, n, a) # fs) gs \<longleftrightarrow>
     (case gs of [] \<Rightarrow> False
      | (i', tn', n', b) # gs' \<Rightarrow>
          i = i' \<and> tn = tn' \<and> n = n' \<and> same_value a b \<and> same_fields fs gs')"
| "same_value a b \<longleftrightarrow>
     (case a of
        A_obj m \<Rightarrow> (case b of A_obj m' \<Rightarrow> same_shape m m' | _ \<Rightarrow> False)
      | _ \<Rightarrow> same_type a b)"
  by pat_completeness auto
termination
  by (relation "measure (\<lambda>x. case x of
        Inl (m, m') \<Rightarrow> size m
      | Inr (Inl (fs, gs)) \<Rightarrow> fields_size fs
      | Inr (Inr (a, b)) \<Rightarrow> value_size a)") auto

lemma same_shape_refl [simp]: "same_shape m m" and same_fields_refl [simp]: "same_fields fs fs"
  and same_value_refl [simp]: "same_value a a"
  by (induction m and fs and a rule: message_induct) (auto split: any.splits)

lemma do_visit_scalar: "is_scalar a \<Longrightarrow> do_visit V i tn n a s = v_visit V i tn n a s"
  by (cases a) auto

lemma same_fields_ConsD:
  "same_fields gs ((i, tn, n, b) # fs) \<Longrightarrow>
     \<exists>a gs'. gs = (i, tn, n, a) # gs' \<and> same_value a b \<and> same_fields gs' fs"
  by (cases gs rule: list.exhaust) auto

lemma same_fields_NilD: "same_fields gs [] \<Longrightarrow> gs = []"
  by (cases gs rule: list.exhaust) auto

lemma same_value_scalar: "is_scalar b \<Longrightarrow> same_value a b \<Longrightarrow> is_scalar a \<and> same_type a b"
  by (cases a; cases b) (auto simp: same_type_def)

lemma is_scalar_same_type_rev: "same_type a b \<Longrightarrow> is_scalar b \<Longrightarrow> is_scalar a"
  by (cases b) (auto simp: same_type_iff is_scalar_def)

lemma same_type_sym: "same_type a b \<Longrightarrow> same_type b a"
  by (simp add: same_type_def)

lemma same_value_of_type: "is_scalar a \<Longrightarrow> same_type a b \<Longrightarrow> same_value a b"
  by (cases a) (auto simp: same_value.simps is_scalar_def)

lemma value_depth_scalar: "is_scalar a \<Longrightarrow> value_depth a = 0"
  by (cases a) (auto simp: is_scalar_def)

lemma same_value_obj: "same_value a (A_obj m) \<Longrightarrow> \<exists>m'. a = A_obj m' \<and> same_shape m' m"
  by (cases a) (auto simp: same_type_def)

declare same_value.simps [simp del]

text \<open>Every field of a message has a type.\<close>

function typed :: "visitable \<Rightarrow> bool"
  and typed_fields :: "field list \<Rightarrow> bool"
  and typed_value :: "visitable any \<Rightarrow> bool" where
  "typed (Visitable i sn ln fs) \<longleftrightarrow> typed_fields fs"
| "typed_fields [] \<longleftrightarrow> True"
| "typed_fields ((i, tn, n, a) # fs) \<longleftrightarrow> typed_value a \<and> typed_fields fs"
| "typed_value a \<longleftrightarrow> (case a of A_empty \<Rightarrow> False | A_obj m \<Rightarrow> typed m | _ \<Rightarrow> True)"
  by pat_completeness auto
termination
  by (relation "measure (\<lambda>x. case x of
        Inl m \<Rightarrow> size m | Inr (Inl fs) \<Rightarrow> fields_size fs | Inr (Inr a) \<Rightarrow> value_size a)") auto

declare typed_value.simps [simp del]

lemma typed_value_cases [consumes 1, case_names scalar nested]:
  "typed_value a \<Longrightarrow> (is_scalar a \<Longrightarrow> P) \<Longrightarrow> (\<And>m. a = A_obj m \<Longrightarrow> typed m \<Longrightarrow> P) \<Longrightarrow> P"
  by (cases a) (auto simp: typed_value.simps is_scalar_def)

section \<open>Contracts of visitors\<close>

text \<open>
  An encoder takes its fields by reference but never assigns to them: visiting a message
  with it leaves the message as it was.
\<close>

locale reader_visitor =
  fixes V :: "('s, visitable) visitor"
  assumes visit_keeps: "fst (v_visit V i tn n a s) = a"
begin

lemma accept_keeps: "\<And>s. fst (accept V m s) = m"
  and accept_fields_keeps: "\<And>s. fst (accept_fields V fs s) = fs"
  and do_visit_keeps: "\<And>i tn n s. fst (do_visit V i tn n a s) = a"
proof (induction m and fs and a rule: message_induct)
  case (Val a)
  then show ?case
    by (cases a) (auto simp: visit_keeps split_beta split: option.splits)
qed (simp_all add: split_beta)

end

text \<open>
  Every overload of \<open>visit\<close> takes a variable of its own type and assigns values of this type:
  whatever a visitor does, the message keeps its shape.
\<close>

locale typed_visitor =
  fixes V :: "('s, visitable) visitor"
  assumes visit_type: "is_scalar a \<Longrightarrow> same_type (fst (v_visit V i tn n a s)) a"
begin

lemma accept_shape: "\<And>s. typed m \<Longrightarrow> same_shape (fst (accept V m s)) m"
  and accept_fields_shape: "\<And>s. typed_fields fs \<Longrightarrow> same_fields (fst (accept_fields V fs s)) fs"
  and do_visit_shape: "\<And>i tn n s. typed_value a \<Longrightarrow> same_value (fst (do_visit V i tn n a s)) a"
proof (induction m and fs and a rule: message_induct)
  case (Val a)
  show ?case
  proof (cases rule: typed_value_cases [OF Val.prems])
    case 1
    then have "same_type (fst (v_visit V i tn n a s)) a" by (rule visit_type)
    then show ?thesis using 1 is_scalar_same_type_rev
      by (intro same_value_of_type) (auto simp: do_visit_scalar)
  next
    case (2 m)
    then show ?thesis
      using Val.IH [OF 2(1)] by (simp add: same_value.simps split_beta split: option.split)
  qed
qed (simp_all add: split_beta)

end

sublocale reader_visitor \<subseteq> typed_visitor
  by unfold_locales (simp add: visit_keeps)

text \<open>
  What a decoder promises. \<open>ready s fs k\<close>: in state \<open>s\<close> the decoder holds the values of the
  fields \<open>fs\<close>, to be visited in this order, and \<open>k\<close> stands for what it holds beyond them (the
  rest of a stream, or nothing). Visiting the next field assigns the held value to a variable of
  the same type and leaves the decoder ready for the fields after it.
\<close>

locale field_decoder =
  fixes D :: "('s, visitable) visitor"
    and ready :: "'s \<Rightarrow> field list \<Rightarrow> 'k \<Rightarrow> bool"
  assumes ready_scalar:
      "ready s ((i, tn, n, v) # fs) k \<Longrightarrow> is_scalar v \<Longrightarrow> same_type a v \<Longrightarrow>
       \<exists>s'. v_visit D i tn n a s = (v, s') \<and> ready s' fs k"
    and ready_nested:
      "ready s ((i, tn, n, A_obj (Visitable j sn ln gs)) # fs) k \<Longrightarrow>
       \<exists>t k'. v_enter D i tn n s = Some t \<and> ready (v_pre D j sn ln t) gs k' \<and>
         (\<forall>t'. ready t' [] k' \<longrightarrow> ready (v_leave D i tn n s (v_post D t')) fs k)"
    and ready_typed: "\<not> ready s ((i, tn, n, A_empty) # fs) k"
begin

lemma accept_ready:
    "\<And>m' s k. same_shape m' m \<Longrightarrow>
       ready (v_pre D (msg_ID m) (msg_ShortName m) (msg_LongName m) s) (msg_fields m) k \<Longrightarrow>
       \<exists>s'. accept D m' s = (m, v_post D s') \<and> ready s' [] k"
  and accept_fields_ready:
    "\<And>gs s k. same_fields gs fs \<Longrightarrow> ready s fs k \<Longrightarrow>
       \<exists>s'. accept_fields D gs s = (fs, s') \<and> ready s' [] k"
  and do_visit_ready:
    "\<And>i tn n a s fs k. same_value a v \<Longrightarrow> ready s ((i, tn, n, v) # fs) k \<Longrightarrow>
       \<exists>s'. do_visit D i tn n a s = (v, s') \<and> ready s' fs k"
proof (induction m and fs and v rule: message_induct)
  case (Msg i sn ln fs)
  obtain gs where m': "m' = Visitable i sn ln gs" and gs: "same_fields gs fs"
    using Msg.prems(1) by (cases m') auto
  obtain s' where "accept_fields D gs (v_pre D i sn ln s) = (fs, s')" "ready s' [] k"
    using Msg.IH [OF gs] Msg.prems(2) by auto
  then show ?case by (auto simp: m')
next
  case Nil
  then show ?case by (auto dest: same_fields_NilD)
next
  case (Cons i tn n v fs)
  obtain a gs' where gs: "gs = (i, tn, n, a) # gs'"
    and a: "same_value a v" and gs': "same_fields gs' fs"
    using same_fields_ConsD [OF Cons.prems(1)] by auto
  obtain s1 where 1: "do_visit D i tn n a s = (v, s1)" and r: "ready s1 fs k"
    using Cons.IH(1) [OF a Cons.prems(2)] by auto
  show ?case using Cons.IH(2) [OF gs' r] 1 by (auto simp: gs)
next
  case (Val v)
  show ?case
  proof (cases "is_scalar v")
    case True
    then show ?thesis
      using ready_scalar [OF Val.prems(2)] same_value_scalar [OF _ Val.prems(1)]
      by (auto simp: do_visit_scalar)
  next
    case False
    then obtain m where v: "v = A_obj m"
      using Val.prems(2) ready_typed by (cases v) auto
    obtain j sn ln gs where m: "m = Visitable j sn ln gs" by (cases m)
    obtain m' where a: "a = A_obj m'" and m': "same_shape m' m"
      using Val.prems(1) v by (auto dest: same_value_obj)
    obtain t k' where t: "v_enter D i tn n s = Some t" "ready (v_pre D j sn ln t) gs k'"
      and l: "\<And>t'. ready t' [] k' \<Longrightarrow> ready (v_leave D i tn n s (v_post D t')) fs k"
      using ready_nested Val.prems(2) unfolding v m by blast
    obtain s' where "accept D m' t = (m, v_post D s')" "ready s' [] k'"
      using Val.IH [OF v m', of t k'] t(2) m by auto
    then show ?thesis using t(1) l by (auto simp: a v)
  qed
qed

end

section \<open>A sample message\<close>

text \<open>A message with a string, a negative number and a nested message.\<close>

definition sample_inner :: "uint16 \<Rightarrow> visitable" where
  "sample_inner v = Visitable 7 (str ''B'') (str ''B'') [(1, str ''uint16'', str ''b'', A_uint16 v)]"

definition sample :: "int32 \<Rightarrow> cstring \<Rightarrow> uint16 \<Rightarrow> visitable" where
  "sample x s v = Visitable 9 (str ''A'') (str ''p.A'')
     [(1, str ''int32'', str ''x'', A_int32 x), (5, str ''string'', str ''s'', A_string s),
      (6, str ''B'', str ''b'', A_obj (sample_inner v))]"

lemma sample_shape: "same_shape (sample x s v) (sample y t w)"
  by (simp add: sample_def sample_inner_def same_value.simps same_type_def)

end
