(* ===== verification/ToProto.thy ===== *)
theory ToProto
  imports Visitors
begin

text \<open>
  \<open>ToProtoVisitor\<close>: the Protobuf encoder. The visitor's state is its output buffer
  \<open>m_buffer\<close>. Every \<open>encode\<close> returns the stream and the number of bytes written, as the
  C++ members do.
\<close>

section \<open>Constants\<close>

definition VARINT :: uint8 where "VARINT = 0"
definition EIGHT_BYTES :: uint8 where "EIGHT_BYTES = 1"
definition LENGTH_DELIMITED :: uint8 where "LENGTH_DELIMITED = 2"
definition FOUR_BYTES :: uint8 where "FOUR_BYTES = 5"

lemmas proto_constants = VARINT_def EIGHT_BYTES_def LENGTH_DELIMITED_def FOUR_BYTES_def

section \<open>Variable-length integers\<close>

text \<open>The \<open>while\<close> loop of \<open>toVarInt\<close> over the stream, the value and the size counter.\<close>

function toVarInt_loop :: "ostream \<Rightarrow> uint64 \<Rightarrow> nat \<Rightarrow> ostream \<times> uint64 \<times> nat" where
  "toVarInt_loop out v sz =
     (if 0x7f < v
      then toVarInt_loop (out_put (ucast (v AND 0x7f) OR 0x80) out) (drop_bit 7 v) (Suc sz)
      else (out, v, sz))"
  by pat_completeness auto
termination
proof (relation "measure (\<lambda>(out, v, sz). unat v)")
  fix out sz and v :: uint64
  assume "0x7f < v"
  then have "unat v div 128 < unat v"
    by (simp add: word_less_nat_alt)
  then show "((out_put (ucast (v AND 0x7f) OR 0x80) out, drop_bit 7 v, Suc sz), (out, v, sz))
    \<in> measure (\<lambda>(out, v, sz). unat v)"
    by (simp add: drop_bit_eq_div unat_div_distrib)
qed simp

declare toVarInt_loop.simps [simp del]

definition toVarInt :: "ostream \<Rightarrow> uint64 \<Rightarrow> ostream \<times> nat" where
  "toVarInt out v =
     (let (out, v, sz) = toVarInt_loop out v 1
      in (out_put (ucast v AND 0x7f) out, sz))"

section \<open>ZigZag and keys\<close>

text \<open>
  8- and 16-bit arguments are promoted to \<open>int\<close> (32 bits) before the shifts, \<open>>>\<close> on a
  signed operand is arithmetic, and \<open><<\<close> on a negative operand is the shift of its bits.
\<close>

definition toZigZag8 :: "int8 \<Rightarrow> uint8" where
  "toZigZag8 v = ucast (push_bit 1 (scast v :: int32) XOR signed_drop_bit 7 (scast v :: int32))"

definition toZigZag16 :: "int16 \<Rightarrow> uint16" where
  "toZigZag16 v = ucast (push_bit 1 (scast v :: int32) XOR signed_drop_bit 15 (scast v :: int32))"

definition toZigZag32 :: "int32 \<Rightarrow> uint32" where
  "toZigZag32 v = push_bit 1 v XOR signed_drop_bit 31 v"

definition toZigZag64 :: "int64 \<Rightarrow> uint64" where
  "toZigZag64 v = push_bit 1 v XOR signed_drop_bit 63 v"

text \<open>\<open>fieldIdentifier << 0x3\<close> is computed in 32 bits and only then widened.\<close>

definition encodeKey :: "uint32 \<Rightarrow> uint8 \<Rightarrow> uint64" where
  "encodeKey fieldIdentifier protoType =
     ucast (push_bit 3 fieldIdentifier OR (ucast protoType :: uint32))"

section \<open>The overloads of \<open>encode\<close>\<close>

definition encode_bool :: "bool \<Rightarrow> ostream \<Rightarrow> ostream \<times> nat" where
  "encode_bool v out = toVarInt out (if v then 1 else 0)"

definition encode_int8 :: "int8 \<Rightarrow> ostream \<Rightarrow> ostream \<times> nat" where
  "encode_int8 v out = toVarInt out (ucast (toZigZag8 v))"

definition encode_uint8 :: "uint8 \<Rightarrow> ostream \<Rightarrow> ostream \<times> nat" where
  "encode_uint8 v out = toVarInt out (ucast v)"

definition encode_int16 :: "int16 \<Rightarrow> ostream \<Rightarrow> ostream \<times> nat" where
  "encode_int16 v out = toVarInt out (ucast (toZigZag16 v))"

definition encode_uint16 :: "uint16 \<Rightarrow> ostream \<Rightarrow> ostream \<times> nat" where
  "encode_uint16 v out = toVarInt out (ucast v)"

definition encode_int32 :: "int32 \<Rightarrow> ostream \<Rightarrow> ostream \<times> nat" where
  "encode_int32 v out = toVarInt out (ucast (toZigZag32 v))"

definition encode_uint32 :: "uint32 \<Rightarrow> ostream \<Rightarrow> ostream \<times> nat" where
  "encode_uint32 v out = toVarInt out (ucast v)"

definition encode_int64 :: "int64 \<Rightarrow> ostream \<Rightarrow> ostream \<times> nat" where
  "encode_int64 v out = toVarInt out (toZigZag64 v)"

definition encode_uint64 :: "uint64 \<Rightarrow> ostream \<Rightarrow> ostream \<times> nat" where
  "encode_uint64 v out = toVarInt out v"

definition encode_float :: "float_bits \<Rightarrow> ostream \<Rightarrow> ostream \<times> nat" where
  "encode_float v out = (out_write (le_bytes 4 v) out, 4)"

definition encode_double :: "double_bits \<Rightarrow> ostream \<Rightarrow> ostream \<times> nat" where
  "encode_double v out = (out_write (le_bytes 8 v) out, 8)"

definition encode_string :: "cstring \<Rightarrow> ostream \<Rightarrow> ostream \<times> nat" where
  "encode_string v out =
     (let (out, sz) = toVarInt out (of_nat (length v))
      in (out_write v out, sz + length v))"

text \<open>\<open>toKeyValue<T>\<close>, over the \<open>encode\<close> overload for \<open>T\<close>.\<close>

definition toKeyValue :: "uint32 \<Rightarrow> (ostream \<Rightarrow> ostream \<times> nat) \<Rightarrow> ostream \<Rightarrow> ostream \<times> nat" where
  "toKeyValue fieldIdentifier enc out =
     (let (out, sz1) = toVarInt out (encodeKey fieldIdentifier VARINT);
          (out, sz2) = enc out
      in (out, sz1 + sz2))"

section \<open>The visitor\<close>

text \<open>The overloads of \<open>visit\<close> for scalars; a \<open>char\<close> is encoded as \<open>uint8_t\<close>.\<close>

fun toProto_visit :: "uint32 \<Rightarrow> cstring \<Rightarrow> cstring \<Rightarrow> 'm any \<Rightarrow> ostream \<Rightarrow> 'm any \<times> ostream" where
  "toProto_visit i tn n (A_bool v) out = (A_bool v, fst (toKeyValue i (encode_bool v) out))"
| "toProto_visit i tn n (A_char v) out = (A_char v, fst (toKeyValue i (encode_uint8 v) out))"
| "toProto_visit i tn n (A_int8 v) out = (A_int8 v, fst (toKeyValue i (encode_int8 v) out))"
| "toProto_visit i tn n (A_uint8 v) out = (A_uint8 v, fst (toKeyValue i (encode_uint8 v) out))"
| "toProto_visit i tn n (A_int16 v) out = (A_int16 v, fst (toKeyValue i (encode_int16 v) out))"
| "toProto_visit i tn n (A_uint16 v) out = (A_uint16 v, fst (toKeyValue i (encode_uint16 v) out))"
| "toProto_visit i tn n (A_int32 v) out = (A_int32 v, fst (toKeyValue i (encode_int32 v) out))"
| "toProto_visit i tn n (A_uint32 v) out = (A_uint32 v, fst (toKeyValue i (encode_uint32 v) out))"
| "toProto_visit i tn n (A_int64 v) out = (A_int64 v, fst (toKeyValue i (encode_int64 v) out))"
| "toProto_visit i tn n (A_uint64 v) out = (A_uint64 v, fst (toKeyValue i (encode_uint64 v) out))"
| "toProto_visit i tn n (A_float v) out =
     (A_float v, fst (encode_float v (fst (toVarInt out (encodeKey i FOUR_BYTES)))))"
| "toProto_visit i tn n (A_double v) out =
     (A_double v, fst (encode_double v (fst (toVarInt out (encodeKey i EIGHT_BYTES)))))"
| "toProto_visit i tn n (A_string v) out =
     (A_string v, fst (encode_string v (fst (toVarInt out (encodeKey i LENGTH_DELIMITED)))))"
| "toProto_visit i tn n a out = (a, out)"

text \<open>
  The template overload for nested messages writes the key, lets the message accept a fresh
  encoder, and writes that encoder's data with its length.
\<close>

definition toProto :: "(ostream, visitable) visitor" where
  "toProto =
     \<lparr>v_pre = (\<lambda>_ _ _ out. out),
      v_visit = toProto_visit,
      v_enter = (\<lambda>_ _ _ out. Some []),
      v_leave = (\<lambda>i tn n out nested.
        fst (encode_string nested (fst (toVarInt out (encodeKey i LENGTH_DELIMITED))))),
      v_post = (\<lambda>out. out)\<rparr>"

text \<open>Encoding a message with a new \<open>ToProtoVisitor\<close> and taking \<open>encodedData()\<close>.\<close>

definition proto_encode :: "visitable \<Rightarrow> byte list" where
  "proto_encode m = snd (accept toProto m [])"

section \<open>Reference encoding\<close>

text \<open>
  The wire format as a function of the values: base-128 groups, least significant first, and
  the concatenation of the fields. The encoder is proved equal to it.
\<close>

fun leb128 :: "nat \<Rightarrow> byte list" where
  "leb128 n = (if n < 128 then [of_nat n] else of_nat (128 + n mod 128) # leb128 (n div 128))"

declare leb128.simps [simp del]

text \<open>ZigZag as arithmetic: non-negative values become even, negative ones odd.\<close>

definition zigzag :: "int \<Rightarrow> nat" where
  "zigzag i = (if i < 0 then nat (- 2 * i - 1) else nat (2 * i))"

fun scalar_bytes :: "'m any \<Rightarrow> byte list" where
  "scalar_bytes (A_bool v) = leb128 (of_bool v)"
| "scalar_bytes (A_char v) = leb128 (unat v)"
| "scalar_bytes (A_int8 v) = leb128 (zigzag (sint v))"
| "scalar_bytes (A_uint8 v) = leb128 (unat v)"
| "scalar_bytes (A_int16 v) = leb128 (zigzag (sint v))"
| "scalar_bytes (A_uint16 v) = leb128 (unat v)"
| "scalar_bytes (A_int32 v) = leb128 (zigzag (sint v))"
| "scalar_bytes (A_uint32 v) = leb128 (unat v)"
| "scalar_bytes (A_int64 v) = leb128 (zigzag (sint v))"
| "scalar_bytes (A_uint64 v) = leb128 (unat v)"
| "scalar_bytes (A_float v) = le_bytes 4 v"
| "scalar_bytes (A_double v) = le_bytes 8 v"
| "scalar_bytes (A_string v) = leb128 (length v mod 2 ^ 64) @ v"
| "scalar_bytes _ = []"

text \<open>The wire type of a value, and the key in front of it.\<close>

fun wire_type :: "'m any \<Rightarrow> nat" where
  "wire_type (A_float _) = 5"
| "wire_type (A_double _) = 1"
| "wire_type (A_string _) = 2"
| "wire_type (A_obj _) = 2"
| "wire_type _ = 0"

definition key_bytes :: "uint32 \<Rightarrow> nat \<Rightarrow> byte list" where
  "key_bytes i w = leb128 (8 * (unat i mod 2 ^ 29) + w)"

text \<open>Lengths are \<open>std::size_t\<close> values, hence the \<open>mod\<close>.\<close>

definition length_delimited :: "uint32 \<Rightarrow> byte list \<Rightarrow> byte list" where
  "length_delimited i bs = key_bytes i 2 @ leb128 (length bs mod 2 ^ 64) @ bs"

function proto_bytes :: "visitable \<Rightarrow> byte list"
  and proto_fields :: "field list \<Rightarrow> byte list"
  and proto_value :: "uint32 \<Rightarrow> visitable any \<Rightarrow> byte list" where
  "proto_bytes (Visitable i sn ln fs) = proto_fields fs"
| "proto_fields [] = []"
| "proto_fields ((i, tn, n, a) # fs) = proto_value i a @ proto_fields fs"
| "proto_value i a =
     (case a of
        A_empty \<Rightarrow> []
      | A_obj m \<Rightarrow> length_delimited i (proto_bytes m)
      | _ \<Rightarrow> key_bytes i (wire_type a) @ scalar_bytes a)"
  by pat_completeness auto
termination
  by (relation "measure (\<lambda>x. case x of
        Inl m \<Rightarrow> size m | Inr (Inl fs) \<Rightarrow> fields_size fs | Inr (Inr (i, a)) \<Rightarrow> value_size a)") auto

section \<open>The encoder writes the reference encoding\<close>

lemma seven_bits: "(ucast v AND 0x7f :: byte) = take_bit 7 (ucast (v :: uint64))"
  by (simp add: take_bit_eq_mask mask_eq_exp_minus_1)

lemma seven_bits_mod: "(of_nat (unat v mod 128) :: byte) = take_bit 7 (ucast (v :: uint64))"
proof -
  have "(of_nat (unat v) :: byte) = ucast v"
    by (metis of_nat_unat ucast_eq unsigned_of_nat)
  moreover have "unat v mod 128 = take_bit 7 (unat v)" by (simp add: take_bit_eq_mod)
  ultimately show ?thesis by (simp flip: take_bit_of_nat)
qed

lemma or_msb: "take_bit 7 w OR 0x80 = 0x80 + take_bit 7 (w :: byte)"
proof -
  have e: "(0x80 :: byte) = push_bit 7 1" by (simp add: push_bit_eq_mult)
  have "0x80 + take_bit 7 w = 0x80 OR take_bit 7 w"
    by (rule disjunctive_add) (auto simp: e bit_simps simp del: push_bit_of_1)
  then show ?thesis by (simp add: or.commute)
qed

lemma low_bits_byte:
  "(ucast (v AND 0x7f) OR 0x80 :: byte) = of_nat (128 + unat (v :: uint64) mod 128)"
proof -
  have "v AND 0x7f = take_bit 7 v" by (simp add: take_bit_eq_mask mask_eq_exp_minus_1)
  then have "(ucast (v AND 0x7f) :: byte) = take_bit 7 (ucast v)"
    by (auto intro!: bit_eqI simp: bit_simps)
  then show ?thesis
    by (simp only: or_msb of_nat_add seven_bits_mod) simp
qed

lemma toVarInt_loop_leb128:
  "(case toVarInt_loop out v n of (out', v', n') \<Rightarrow> (out_put (ucast v' AND 0x7f) out', n'))
     = (out @ leb128 (unat v), n + length (leb128 (unat v)) - 1)"
proof (induction out v n rule: toVarInt_loop.induct)
  case (1 out v n)
  show ?case
  proof (cases "0x7f < v")
    case True
    then have "128 \<le> unat v" by (simp add: word_less_nat_alt)
    then have l: "leb128 (unat v) = of_nat (128 + unat v mod 128) # leb128 (unat v div 128)"
      by (subst leb128.simps) simp
    have "unat (drop_bit 7 v) = unat v div 128"
      by (simp add: drop_bit_eq_div unat_div_distrib)
    with "1.IH" [OF True] True show ?thesis
      by (subst toVarInt_loop.simps) (simp add: l low_bits_byte)
  next
    case False
    then have "unat v < 128" by (simp add: word_less_nat_alt not_less)
    moreover from this have "(ucast v AND 0x7f :: byte) = of_nat (unat v)"
      using seven_bits_mod [of v] by (simp add: seven_bits)
    ultimately show ?thesis using False
      by (subst toVarInt_loop.simps) (simp add: leb128.simps [of "unat v"])
  qed
qed

lemma toVarInt_leb128 [codec_simps]:
  "toVarInt out v = (out @ leb128 (unat v), length (leb128 (unat v)))"
  using toVarInt_loop_leb128 [of out v 1] by (simp add: toVarInt_def split_beta)

lemma length_leb128_pos: "0 < length (leb128 n)"
  by (subst leb128.simps) simp

lemma leb128_nonempty [simp]: "leb128 n \<noteq> []"
  using length_leb128_pos [of n] by auto

text \<open>A value below \<open>2 ^ (7 * k)\<close> takes at most \<open>k\<close> bytes.\<close>

lemma length_leb128_le: "n < 2 ^ (7 * k) \<Longrightarrow> 0 < k \<Longrightarrow> length (leb128 n) \<le> k"
proof (induction n arbitrary: k rule: leb128.induct)
  case (1 n)
  show ?case
  proof (cases "n < 128")
    case True
    with "1.prems" show ?thesis by (simp add: leb128.simps [of n])
  next
    case False
    then obtain j where k: "k = Suc j" and j: "0 < j"
      using "1.prems" by (cases k rule: nat.exhaust; cases "k = 1") auto
    have "n div 128 < 2 ^ (7 * j)"
      using "1.prems" by (simp add: k power_add div_less_iff_less_mult mult.commute)
    with "1.IH" [OF False] j False show ?thesis
      by (simp add: leb128.simps [of n] k)
  qed
qed

section \<open>ZigZag is the arithmetic encoding\<close>

lemma div_sign: "- (2 ^ n) \<le> i \<Longrightarrow> i < 2 ^ n \<Longrightarrow> i div 2 ^ n = (if i < 0 then - 1 else 0 :: int)"
  by (auto simp: div_pos_pos_trivial int_div_pos_eq [of i "2 ^ n" "- 1" "i + 2 ^ n"])

lemma signed_drop_bit_sign:
  assumes "- (2 ^ n) \<le> sint w" "sint w < 2 ^ n"
  shows "signed_drop_bit n w = (if sint w < 0 then - 1 else 0 :: 'a::len word)"
proof (rule signed_word_eqI)
  show "sint (signed_drop_bit n w) = sint (if sint w < 0 then - 1 else 0 :: 'a::len word)"
    using div_sign [OF assms] by (simp add: sint_signed_drop_bit_eq drop_bit_eq_div)
qed

lemma zigzag_word:
  assumes "- (2 ^ n) \<le> sint w" "sint w < 2 ^ n"
  shows "push_bit 1 w XOR signed_drop_bit n w = (of_nat (zigzag (sint w)) :: 'a::len word)"
proof -
  have "push_bit 1 w = of_int (2 * sint w)" by (simp add: push_bit_eq_mult)
  moreover have "NOT (w * 2) = (of_int (- 2 * sint w - 1) :: 'a word)"
    by (simp add: not_eq_complement)
  ultimately show ?thesis
    using signed_drop_bit_sign [OF assms] by (simp add: zigzag_def mult.commute)
qed

lemma zigzag_less: "- (2 ^ n) \<le> i \<Longrightarrow> i < 2 ^ n \<Longrightarrow> zigzag i < 2 ^ Suc n"
  by (auto simp: zigzag_def nat_less_iff)

lemma unat_toZigZag8 [codec_simps]: "unat (toZigZag8 v) = zigzag (sint v)"
proof -
  have b: "- (2 ^ 7) \<le> sint v" "sint v < 2 ^ 7" using sint_bounds [of v] by simp_all
  have s: "sint (scast v :: int32) = sint v"
    by (rule sint_up_scast) (simp add: is_up)
  show ?thesis
    using b zigzag_less [OF b] unfolding toZigZag8_def
    by (subst zigzag_word)
      (simp_all add: s unsigned_ucast_eq unsigned_of_nat take_bit_nat_eq_self)
qed

lemma unat_toZigZag16 [codec_simps]: "unat (toZigZag16 v) = zigzag (sint v)"
proof -
  have b: "- (2 ^ 15) \<le> sint v" "sint v < 2 ^ 15" using sint_bounds [of v] by simp_all
  have s: "sint (scast v :: int32) = sint v"
    by (rule sint_up_scast) (simp add: is_up)
  show ?thesis
    using b zigzag_less [OF b] unfolding toZigZag16_def
    by (subst zigzag_word)
      (simp_all add: s unsigned_ucast_eq unsigned_of_nat take_bit_nat_eq_self)
qed

lemma unat_toZigZag32 [codec_simps]: "unat (toZigZag32 v) = zigzag (sint v)"
proof -
  have b: "- (2 ^ 31) \<le> sint v" "sint v < 2 ^ 31" using sint_bounds [of v] by simp_all
  show ?thesis
    using b zigzag_less [OF b] unfolding toZigZag32_def
    by (subst zigzag_word) (simp_all add: unat_of_nat)
qed

lemma unat_toZigZag64 [codec_simps]: "unat (toZigZag64 v) = zigzag (sint v)"
proof -
  have b: "- (2 ^ 63) \<le> sint v" "sint v < 2 ^ 63" using sint_bounds [of v] by simp_all
  show ?thesis
    using b zigzag_less [OF b] unfolding toZigZag64_def
    by (subst zigzag_word) (simp_all add: unat_of_nat)
qed

section \<open>Keys, scalars and whole messages\<close>

lemma unat_encodeKey:
  assumes "p < 8"
  shows "unat (encodeKey i p) = 8 * (unat i mod 2 ^ 29) + unat p"
proof -
  have p: "unat p < 8" using assms by (simp add: word_less_nat_alt)
  have t: "take_bit 3 p = p"
    by (simp add: word_unat_eq_iff unsigned_take_bit_eq take_bit_nat_eq_self p)
  have "push_bit 3 i OR (ucast p :: uint32) = push_bit 3 i + ucast p"
  proof (rule disjunctive_add [symmetric])
    fix k
    have "bit p k \<Longrightarrow> k < 3"
      by (metis t bit_take_bit_iff)
    then show "\<not> bit (push_bit 3 i) k \<or> \<not> bit (ucast p :: uint32) k"
      by (auto simp: bit_simps)
  qed
  moreover have "unat (push_bit 3 i) = 8 * (unat i mod 2 ^ 29)"
    using mult_mod_right [of 8 "unat i" "2 ^ 29"]
    by (simp add: push_bit_eq_mult unat_word_ariths mult.commute)
  moreover have "8 * (unat i mod 2 ^ 29) + unat p < 2 ^ 32"
    using p mod_less_divisor [of "2 ^ 29" "unat i"] by simp
  moreover have "unat (ucast p :: uint32) = unat p"
    using p by (simp add: unsigned_ucast_eq take_bit_nat_eq_self)
  ultimately show ?thesis
    by (simp add: encodeKey_def unsigned_ucast_eq unat_word_ariths take_bit_nat_eq_self)
qed

lemma leb128_key [codec_simps]:
  "leb128 (unat (encodeKey i VARINT)) = key_bytes i 0"
  "leb128 (unat (encodeKey i EIGHT_BYTES)) = key_bytes i 1"
  "leb128 (unat (encodeKey i LENGTH_DELIMITED)) = key_bytes i 2"
  "leb128 (unat (encodeKey i FOUR_BYTES)) = key_bytes i 5"
  by (simp_all add: unat_encodeKey proto_constants key_bytes_def)

lemma encode_string_bytes [codec_simps]:
  "encode_string v out =
     (out @ leb128 (length v mod 2 ^ 64) @ v, length (leb128 (length v mod 2 ^ 64)) + length v)"
  by (simp add: encode_string_def toVarInt_leb128 unat_of_nat)

lemmas encode_defs =
  encode_bool_def encode_int8_def encode_uint8_def encode_int16_def encode_uint16_def
  encode_int32_def encode_uint32_def encode_int64_def encode_uint64_def encode_float_def
  encode_double_def

lemma unat_ucast_64 [simp]:
  "unat (ucast (b8 :: 8 word) :: uint64) = unat b8"
  "unat (ucast (b16 :: 16 word) :: uint64) = unat b16"
  "unat (ucast (b32 :: 32 word) :: uint64) = unat b32"
  using unsigned_less [of b8, where 'a = nat] unsigned_less [of b16, where 'a = nat]
    unsigned_less [of b32, where 'a = nat]
  by (simp_all add: unsigned_ucast_eq take_bit_nat_eq_self)

lemma toProto_visit_keeps [simp]: "fst (toProto_visit i tn n a out) = a"
  by (cases a) auto

lemma toProto_visit_bytes:
  "is_scalar a \<Longrightarrow> toProto_visit i tn n a out = (a, out @ proto_value i a)"
  by (cases a) (simp_all add: encode_defs toKeyValue_def codec_simps split_beta)

lemma accept_toProto_bytes:
    "\<And>out. accept toProto m out = (m, out @ proto_bytes m)"
  and accept_fields_toProto_bytes:
    "\<And>out. accept_fields toProto fs out = (fs, out @ proto_fields fs)"
  and do_visit_toProto_bytes:
    "\<And>i tn n out. do_visit toProto i tn n a out = (a, out @ proto_value i a)"
proof (induction m and fs and a rule: message_induct)
  case (Val a)
  show ?case
  proof (cases "is_scalar a")
    case True
    then show ?thesis by (simp add: do_visit_scalar toProto_def toProto_visit_bytes)
  next
    case False
    with Val show ?thesis
      by (cases a) (simp_all add: toProto_def length_delimited_def codec_simps)
  qed
qed (simp_all add: toProto_def)

interpretation to_proto: reader_visitor toProto
  by unfold_locales (simp add: toProto_def)

end
