(* ===== verification/FromProto.thy ===== *)
theory FromProto
  imports ToProto
begin

text \<open>
  \<open>FromProtoVisitor\<close>: the Protobuf decoder, with its two ways of decoding. The first,
  \<open>decodeFrom(std::istream&)\<close>, fills a map from field identifiers to values that a message
  visits afterwards; the second, \<open>decodeFrom(std::istream&, T&)\<close>, assigns each value to the
  message as it is read.
\<close>

section \<open>State\<close>

text \<open>
  The members of the class. \<open>fp_string\<close> is what the last read left in \<open>m_stringValue\<close>.
  \<open>fp_undef\<close> is no member: it records that the C++ program has left the behaviour the
  language defines (a shift by 64 or more, or the use of bytes of \<open>m_stringValue\<close> that the last read
  has not filled, which includes lengths that cannot be allocated). The values computed afterwards
  mean nothing, and the properties of the decoder are stated where it stays \<open>False\<close>.
  The union members hold the object representation on a little-endian host.
\<close>

record from_proto =
  fp_direct :: bool
  fp_map :: "(uint32 \<times> unit any) list"
  fp_value :: uint64
  fp_double :: double_bits
  fp_float :: float_bits
  fp_string :: "byte list"
  fp_keyFieldType :: uint64
  fp_protoType :: uint8
  fp_fieldId :: uint32
  fp_undef :: bool

definition fromProto_new :: from_proto where
  "fromProto_new =
     \<lparr>fp_direct = False, fp_map = [], fp_value = 0, fp_double = 0, fp_float = 0, fp_string = [],
      fp_keyFieldType = 0, fp_protoType = VARINT, fp_fieldId = 0, fp_undef = False\<rparr>"

section \<open>Reading from the stream\<close>

text \<open>\<open>readBytesFromStream\<close> reads in chunks of at most 1024 bytes.\<close>

function readBytes_loop :: "istream \<Rightarrow> nat \<Rightarrow> byte list \<Rightarrow> byte list \<times> istream" where
  "readBytes_loop s n buf =
     (if 0 < n \<and> good s
      then (let (bs, s') = in_read (if 1024 < n then 1024 else n) s
            in readBytes_loop s' (n - length bs) (buf @ bs))
      else (buf, s))"
  by pat_completeness auto
termination
proof (relation "measure (\<lambda>(s, n, buf). n + stream_measure s)")
  fix s n bs s' and buf :: "byte list" and x
  assume "0 < n \<and> good s" and x: "x = in_read (if 1024 < n then 1024 else n) s" "(bs, s') = x"
  then have "n - length bs + stream_measure s' < n + stream_measure s"
    by (auto simp: in_read_def stream_measure_def split: if_splits)
  then show "((s', n - length bs, buf @ bs), (s, n, buf)) \<in> measure (\<lambda>(s, n, buf). n + stream_measure s)"
    by simp
qed simp

declare readBytes_loop.simps [simp del]

definition readBytesFromStream :: "istream \<Rightarrow> nat \<Rightarrow> byte list \<times> istream" where
  "readBytesFromStream s n = readBytes_loop s n []"

text \<open>
  The loop of \<open>fromVarInt\<close>: number of bytes taken, value, whether a shift was out of range,
  stream. At the end of the stream \<open>get()\<close> yields \<open>-1\<close>, whose low bits are or-ed in as well.
\<close>

function fromVarInt_loop :: "istream \<Rightarrow> uint64 \<Rightarrow> nat \<Rightarrow> bool \<Rightarrow> nat \<times> uint64 \<times> bool \<times> istream" where
  "fromVarInt_loop s v sz ub =
     (if good s
      then (let (x, s') = in_get s; C = to_uint64 x;
                v' = v OR push_bit (7 * sz) (C AND 0x7f);
                ub' = (ub \<or> 64 \<le> 7 * sz)
            in if C AND 0x80 = 0 then (Suc sz, v', ub', s')
               else fromVarInt_loop s' v' (Suc sz) ub')
      else (sz, v, ub, s))"
  by pat_completeness auto
termination
  by (relation "measure (\<lambda>(s, v, sz, ub). stream_measure s)")
    (auto intro: stream_measure_in_get simp: eq_commute [of _ "in_get _"])

declare fromVarInt_loop.simps [simp del]

definition fromVarInt :: "istream \<Rightarrow> nat \<times> uint64 \<times> bool \<times> istream" where
  "fromVarInt s = fromVarInt_loop s 0 0 False"

section \<open>ZigZag\<close>

definition fromZigZag8 :: "uint8 \<Rightarrow> int8" where
  "fromZigZag8 v = ucast (drop_bit 1 (ucast v :: int32) XOR - (ucast v AND 1))"

definition fromZigZag16 :: "uint16 \<Rightarrow> int16" where
  "fromZigZag16 v = ucast (drop_bit 1 (ucast v :: int32) XOR - (ucast v AND 1))"

definition fromZigZag32 :: "uint32 \<Rightarrow> int32" where
  "fromZigZag32 v = drop_bit 1 v XOR - (v AND 1)"

definition fromZigZag64 :: "uint64 \<Rightarrow> int64" where
  "fromZigZag64 v = drop_bit 1 v XOR - (v AND 1)"

section \<open>Decoding one key and its value\<close>

text \<open>
  The body both decoding loops share: read the key, store type and field identifier, and read
  the value for one of the four wire types into the matching member. The first result is the
  value the map-based loop emplaces, \<open>None\<close> for the wire types the \<open>switch\<close> does not list.
  A short read leaves the old bytes of the union members in place.
\<close>

definition overwrite :: "byte list \<Rightarrow> byte list \<Rightarrow> byte list" where
  "overwrite bs old = bs @ drop (length bs) old"

definition read_entry :: "from_proto \<Rightarrow> istream \<Rightarrow> unit any option \<times> from_proto \<times> istream" where
  "read_entry fp s =
     (let (sz, k, ub, s) = fromVarInt s;
          fp = fp\<lparr>fp_keyFieldType := k, fp_undef := fp_undef fp \<or> ub\<rparr>
      in if 0 < sz
         then
           (let fp = fp\<lparr>fp_protoType := ucast (k AND 7), fp_fieldId := ucast (drop_bit 3 k)\<rparr>
            in if fp_protoType fp = VARINT then
                 (let (_, v, ub, s) = fromVarInt s
                  in (Some (A_uint64 v), fp\<lparr>fp_value := v, fp_undef := fp_undef fp \<or> ub\<rparr>, s))
               else if fp_protoType fp = EIGHT_BYTES then
                 (let (bs, s) = readBytesFromStream s 8;
                      d = of_le_bytes (overwrite bs (le_bytes 8 (fp_double fp)))
                  in (Some (A_double d), fp\<lparr>fp_double := d\<rparr>, s))
               else if fp_protoType fp = FOUR_BYTES then
                 (let (bs, s) = readBytesFromStream s 4;
                      f = of_le_bytes (overwrite bs (le_bytes 4 (fp_float fp)))
                  in (Some (A_float f), fp\<lparr>fp_float := f\<rparr>, s))
               else if fp_protoType fp = LENGTH_DELIMITED then
                 (let (_, v, ub, s) = fromVarInt s;
                      (bs, s) = readBytesFromStream s (unat v)
                  in (Some (A_string bs),
                      fp\<lparr>fp_value := v, fp_string := bs,
                        fp_undef := fp_undef fp \<or> ub \<or> length bs < unat v\<rparr>, s))
               else (None, fp, s))
         else (None, fp, s))"

section \<open>decodeFrom into the map\<close>

lemma stream_measure_readBytes_loop:
  "readBytes_loop s n buf = (bs, s') \<Longrightarrow> stream_measure s' \<le> stream_measure s"
proof (induction s n buf rule: readBytes_loop.induct)
  case (1 s n buf)
  show ?case
  proof (cases "0 < n \<and> good s")
    case True
    obtain cs t where r: "in_read (if 1024 < n then 1024 else n) s = (cs, t)" by fastforce
    with True "1.prems" have "readBytes_loop t (n - length cs) (buf @ cs) = (bs, s')"
      by (subst (asm) readBytes_loop.simps) simp
    with "1.IH" True r have "stream_measure s' \<le> stream_measure t" by auto
    also have "\<dots> \<le> stream_measure s" using r by (rule stream_measure_in_read_le)
    finally show ?thesis .
  next
    case False
    with "1.prems" show ?thesis by (auto simp: readBytes_loop.simps [of s])
  qed
qed

lemma stream_measure_readBytes:
  "readBytesFromStream s n = (bs, s') \<Longrightarrow> stream_measure s' \<le> stream_measure s"
  by (simp add: readBytesFromStream_def stream_measure_readBytes_loop)

lemma stream_measure_fromVarInt_loop:
  "fromVarInt_loop s v sz ub = (sz', v', ub', s') \<Longrightarrow>
     stream_measure s' \<le> stream_measure s \<and> (good s \<longrightarrow> stream_measure s' < stream_measure s)"
proof (induction s v sz ub rule: fromVarInt_loop.induct)
  case (1 s v sz ub)
  show ?case
  proof (cases "good s")
    case True
    obtain x t where g: "in_get s = (x, t)" by fastforce
    from stream_measure_in_get [OF True g] "1.IH" [OF True g [symmetric] refl refl refl refl]
      "1.prems" True g
    show ?thesis
      by (subst (asm) (2) fromVarInt_loop.simps) (fastforce split: if_splits simp: Let_def)
  next
    case False
    with "1.prems" show ?thesis by (auto simp: fromVarInt_loop.simps [of s])
  qed
qed

lemma stream_measure_fromVarInt:
  assumes "fromVarInt s = (sz, v, ub, s')"
  shows "stream_measure s' \<le> stream_measure s"
    and "good s \<Longrightarrow> stream_measure s' < stream_measure s"
  using stream_measure_fromVarInt_loop assms by (auto simp: fromVarInt_def)

lemma stream_measure_read_entry:
  assumes g: "good s" and r: "read_entry fp s = (a, fp', s')"
  shows "stream_measure s' < stream_measure s"
proof -
  obtain sz k ub t where k: "fromVarInt s = (sz, k, ub, t)" by (metis prod_cases4)
  obtain sz2 v ub2 t2 where v: "fromVarInt t = (sz2, v, ub2, t2)" by (metis prod_cases4)
  obtain bs8 t8 where b8: "readBytesFromStream t 8 = (bs8, t8)" by fastforce
  obtain bs4 t4 where b4: "readBytesFromStream t 4 = (bs4, t4)" by fastforce
  obtain bs t3 where b: "readBytesFromStream t2 (unat v) = (bs, t3)" by fastforce
  note le = stream_measure_fromVarInt(1) [OF v] stream_measure_readBytes [OF b8]
    stream_measure_readBytes [OF b4] stream_measure_readBytes [OF b]
  show ?thesis
    using r le stream_measure_fromVarInt(2) [OF k g]
    by (auto simp: read_entry_def k v b8 b4 b Let_def split: if_splits)
qed

function decode_loop :: "from_proto \<Rightarrow> istream \<Rightarrow> from_proto \<times> istream" where
  "decode_loop fp s =
     (if good s
      then (case read_entry fp s of
              (None, fp', s') \<Rightarrow> decode_loop fp' s'
            | (Some a, fp', s') \<Rightarrow>
                decode_loop (fp'\<lparr>fp_map := emplace (fp_fieldId fp') a (fp_map fp')\<rparr>) s')
      else (fp, s))"
  by pat_completeness auto
termination
  by (relation "measure (\<lambda>(fp, s). stream_measure s)")
    (auto intro: stream_measure_read_entry simp: eq_commute [of _ "read_entry _ _"])

declare decode_loop.simps [simp del]

definition decodeFrom :: "from_proto \<Rightarrow> istream \<Rightarrow> from_proto \<times> istream" where
  "decodeFrom fp s = decode_loop (fp\<lparr>fp_map := []\<rparr>) s"

section \<open>Visiting\<close>

text \<open>
  The integer overloads of \<open>visit\<close>: how the 64-bit value read from the wire becomes the field's
  value. The direct branch applies it to \<open>m_value\<close>, the other one to the value in the map.
\<close>

fun from_uint64 :: "uint64 \<Rightarrow> 'm any \<Rightarrow> 'm any" where
  "from_uint64 v (A_bool _) = A_bool (v \<noteq> 0)"
| "from_uint64 v (A_char _) = A_char (ucast v)"
| "from_uint64 v (A_int8 _) = A_int8 (fromZigZag8 (ucast v))"
| "from_uint64 v (A_uint8 _) = A_uint8 (ucast v)"
| "from_uint64 v (A_int16 _) = A_int16 (fromZigZag16 (ucast v))"
| "from_uint64 v (A_uint16 _) = A_uint16 (ucast v)"
| "from_uint64 v (A_int32 _) = A_int32 (fromZigZag32 (ucast v))"
| "from_uint64 v (A_uint32 _) = A_uint32 (ucast v)"
| "from_uint64 v (A_int64 _) = A_int64 (fromZigZag64 v)"
| "from_uint64 v (A_uint64 _) = A_uint64 v"
| "from_uint64 v a = a"

text \<open>\<open>visit\<close> while decoding directly: the members hold the value last read.\<close>

fun visit_direct :: "'m any \<Rightarrow> from_proto \<Rightarrow> 'm any \<times> from_proto" where
  "visit_direct (A_float _) fp = (A_float (fp_float fp), fp)"
| "visit_direct (A_double _) fp = (A_double (fp_double fp), fp)"
| "visit_direct (A_string _) fp =
     (A_string (take (unat (fp_value fp)) (fp_string fp)),
      fp\<lparr>fp_undef := fp_undef fp \<or> length (fp_string fp) < unat (fp_value fp)\<rparr>)"
| "visit_direct a fp = (from_uint64 (fp_value fp) a, fp)"

text \<open>\<open>visit\<close> from the map: a missing field or a value of another type leaves the variable.\<close>

fun visit_map :: "unit any option \<Rightarrow> 'm any \<Rightarrow> 'm any" where
  "visit_map None a = a"
| "visit_map (Some r) (A_float f) =
     (case any_cast_float r of Some v \<Rightarrow> A_float v | None \<Rightarrow> A_float f)"
| "visit_map (Some r) (A_double d) =
     (case any_cast_double r of Some v \<Rightarrow> A_double v | None \<Rightarrow> A_double d)"
| "visit_map (Some r) (A_string s) =
     (case any_cast_string r of Some v \<Rightarrow> A_string v | None \<Rightarrow> A_string s)"
| "visit_map (Some r) a =
     (case any_cast_uint64 r of Some v \<Rightarrow> from_uint64 v a | None \<Rightarrow> a)"

definition fromProto_visit ::
  "uint32 \<Rightarrow> cstring \<Rightarrow> cstring \<Rightarrow> 'm any \<Rightarrow> from_proto \<Rightarrow> 'm any \<times> from_proto" where
  "fromProto_visit i tn n a fp =
     (if fp_direct fp then visit_direct a fp else (visit_map (map_of (fp_map fp) i) a, fp))"

text \<open>
  The visitor as \<open>accept(Visitor&)\<close> uses it, after \<open>decodeFrom(std::istream&)\<close>: for a nested
  message the template overload decodes the bytes held for the field with a new decoder and lets
  the message accept it. (In direct mode this overload calls the other \<open>decodeFrom\<close>, below.)
\<close>

definition fromProto :: "(from_proto, visitable) visitor" where
  "fromProto =
     \<lparr>v_pre = (\<lambda>_ _ _ fp. fp),
      v_visit = fromProto_visit,
      v_enter = (\<lambda>i tn n fp.
        case map_of (fp_map fp) i of
          None \<Rightarrow> None
        | Some r \<Rightarrow>
            (case any_cast_string r of
               None \<Rightarrow> None
             | Some bs \<Rightarrow> Some (fst (decodeFrom fromProto_new (istream_of bs))))),
      v_leave = (\<lambda>i tn n fp nested. fp\<lparr>fp_undef := fp_undef fp \<or> fp_undef nested\<rparr>),
      v_post = (\<lambda>fp. fp)\<rparr>"

text \<open>Decode into the map with a new visitor, then let the message accept it.\<close>

definition proto_decode :: "byte list \<Rightarrow> visitable \<Rightarrow> visitable \<times> from_proto" where
  "proto_decode bs m = accept fromProto m (fst (decodeFrom fromProto_new (istream_of bs)))"

section \<open>decodeFrom into a message\<close>

text \<open>
  \<open>decodeFrom(std::istream&, T&)\<close> over the handler for nested messages: each entry read from
  the stream is visited at once, in the first field with its identifier.
\<close>

type_synonym nested_decoder = "byte list \<Rightarrow> visitable \<Rightarrow> visitable \<times> bool"

definition direct_visit :: "nested_decoder \<Rightarrow> from_proto visit_fun" where
  "direct_visit nd i tn n a fp =
     (case a of
        A_obj m \<Rightarrow>
          (let (m', ub) = nd (take (unat (fp_value fp)) (fp_string fp)) m
           in (A_obj m', fp\<lparr>fp_undef := fp_undef fp \<or> ub
                 \<or> length (fp_string fp) < unat (fp_value fp)\<rparr>))
      | _ \<Rightarrow> fromProto_visit i tn n a fp)"

function direct_loop ::
  "nested_decoder \<Rightarrow> from_proto \<Rightarrow> istream \<Rightarrow> visitable \<Rightarrow> visitable \<times> from_proto \<times> istream" where
  "direct_loop nd fp s m =
     (if good s
      then (case read_entry fp s of
              (None, fp', s') \<Rightarrow> direct_loop nd fp' s' m
            | (Some a, fp', s') \<Rightarrow>
                (case accept_field (direct_visit nd) (fp_fieldId fp') m fp' of
                   (m', fp'') \<Rightarrow> direct_loop nd fp'' s' m'))
      else (m, fp, s))"
  by pat_completeness auto
termination
  by (relation "measure (\<lambda>(nd, fp, s, m). stream_measure s)")
    (auto intro: stream_measure_read_entry simp: eq_commute [of _ "read_entry _ _"])

declare direct_loop.simps [simp del]

text \<open>
  The recursion into nested messages follows the message's own nesting, so its depth is the
  number of levels needed; \<open>decodeFrom_direct\<close> supplies exactly that many.
\<close>

primrec decode_nested :: "nat \<Rightarrow> nested_decoder" where
  "decode_nested 0 bs m = (m, False)"
| "decode_nested (Suc d) bs m =
     (let (m', fp, s) = direct_loop (decode_nested d) (fromProto_new\<lparr>fp_direct := True\<rparr>) (istream_of bs) m
      in (m', fp_undef fp))"

definition decodeFrom_direct ::
  "from_proto \<Rightarrow> istream \<Rightarrow> visitable \<Rightarrow> visitable \<times> from_proto \<times> istream" where
  "decodeFrom_direct fp s m =
     (let (m', fp', s') = direct_loop (decode_nested (depth m)) (fp\<lparr>fp_direct := True\<rparr>) s m
      in (m', fp'\<lparr>fp_direct := False\<rparr>, s'))"

end
