(* ===== verification/ProtoCorrect.thy ===== *)
theory ProtoCorrect
  imports FromProto
begin

text \<open>
  Correctness of the Protobuf codec: the decoder's integer and byte readers invert the
  encoder's, both decoding loops read back every field of an encoded message, and the
  message-level round trip follows from the visitor contract.
\<close>

section \<open>Reading in chunks is one read\<close>

lemma readBytes_loop_in_read:
  "good s \<Longrightarrow> readBytes_loop s n buf = (buf @ fst (in_read n s), snd (in_read n s))"
proof (induction s n buf rule: readBytes_loop.induct)
  case (1 s n buf)
  consider "n = 0" | "0 < n" "n \<le> 1024" | "1024 < n" by linarith
  then show ?case
  proof cases
    case 1
    then show ?thesis
      using "1.prems" by (simp add: readBytes_loop.simps [of s] in_read_0)
  next
    case 2
    then show ?thesis
      using "1.prems" by (auto simp: readBytes_loop.simps in_read_def)
  next
    case 3
    then obtain m where n: "n = 1024 + m" and m: "0 < m"
      by (metis add.commute less_imp_add_positive)
    show ?thesis
    proof (cases "1024 \<le> length (rest s)")
      case True
      define s' where "s' = snd (in_read 1024 s)"
      have r: "in_read 1024 s = (take 1024 (rest s), s')" and g: "good s'"
        using True "1.prems" by (simp_all add: in_read_def s'_def)
      have "readBytes_loop s' m (buf @ take 1024 (rest s))
          = ((buf @ take 1024 (rest s)) @ fst (in_read m s'), snd (in_read m s'))"
        using "1.IH" [of "in_read 1024 s"] r g 3 "1.prems" True n by auto
      moreover have "in_read n s = (take 1024 (rest s) @ fst (in_read m s'), snd (in_read m s'))"
        using in_read_add [OF "1.prems" True, of m] r by (simp add: n)
      ultimately show ?thesis
        using "1.prems" True n m r by (subst readBytes_loop.simps) simp
    next
      case False
      then show ?thesis
        using 3 "1.prems" by (auto simp: readBytes_loop.simps in_read_def)
    qed
  qed
qed

lemma readBytesFromStream_in_read: "good s \<Longrightarrow> readBytesFromStream s n = in_read n s"
  by (simp add: readBytesFromStream_def readBytes_loop_in_read)

lemma readBytesFromStream_at [stream_simps]:
  "at s (xs @ ys) \<Longrightarrow> n = length xs \<Longrightarrow> readBytesFromStream s n = (xs, consumed xs s)"
  by (simp add: readBytesFromStream_in_read at_goodD stream_simps)

section \<open>ZigZag\<close>

text \<open>The inverse of the arithmetic encoding.\<close>

definition unzigzag :: "nat \<Rightarrow> int" where
  "unzigzag n = (if even n then int (n div 2) else - int (n div 2) - 1)"

lemma unzigzag_zigzag [simp]: "unzigzag (zigzag i) = i"
  by (auto simp: unzigzag_def zigzag_def even_nat_iff nat_div_distrib) 

lemma drop_bit_xor_sign:
  assumes "2 \<le> LENGTH('a)"
  shows "drop_bit (Suc 0) w XOR - (w AND 1) = (of_int (unzigzag (unat w)) :: 'a::len word)"
proof -
  have "of_nat (unat (w div 2)) = w div 2" by simp
  then have d: "drop_bit (Suc 0) w = of_int (int (unat w div 2))"
    using assms by (simp add: drop_bit_eq_div unat_div)
  have p: "even (unat w) \<longleftrightarrow> \<not> bit w 0"
    using bit_unsigned_iff [of w 0, where 'a = nat] by (auto simp: bit_0 [of "unat w"])
  have o: "w AND 1 = of_bool (bit w 0)"
    by (rule bit_word_eqI) (auto simp: bit_simps)
  show ?thesis
    by (cases "bit w 0") (simp_all add: p o d unzigzag_def not_eq_complement)
qed

lemma fromZigZag64_toZigZag64: "fromZigZag64 (toZigZag64 v) = v"
  by (simp add: fromZigZag64_def drop_bit_xor_sign unat_toZigZag64)
lemma fromZigZag32_toZigZag32: "fromZigZag32 (toZigZag32 v) = v"
  by (simp add: fromZigZag32_def drop_bit_xor_sign unat_toZigZag32)

lemma unat_ucast_32: "unat (ucast (w::8 word) :: int32) = unat w" "unat (ucast (w'::16 word) :: int32) = unat w'"
  using unsigned_less [of w, where 'a = nat] unsigned_less [of w', where 'a = nat]
  by (simp_all add: unsigned_ucast_eq take_bit_nat_eq_self)
lemma ucast_scast: "ucast (scast v8 :: int32) = (v8 :: int8)" "ucast (scast v16 :: int32) = (v16 :: int16)"
  by (auto intro!: bit_word_eqI simp: bit_simps)
lemma fromZigZag8_toZigZag8: "fromZigZag8 (toZigZag8 v) = v"
  by (simp add: fromZigZag8_def drop_bit_xor_sign unat_ucast_32 unat_toZigZag8 ucast_scast)


lemma fromZigZag16_toZigZag16: "fromZigZag16 (toZigZag16 v) = v"
  by (simp add: fromZigZag16_def drop_bit_xor_sign unat_ucast_32 unat_toZigZag16 ucast_scast)

lemma take_bit_ucast_byte: "take_bit 7 (ucast (of_nat n :: byte)) = (take_bit 7 (of_nat n) :: uint64)"
  by (auto intro!: bit_word_eqI simp: bit_simps)
lemma and_7f: "w AND 0x7f = take_bit 7 (w :: uint64)"
  by (simp add: take_bit_eq_mask mask_eq_exp_minus_1)
lemma and_80: "w AND 0x80 = 0 \<longleftrightarrow> \<not> bit w 7" for w :: uint64
  using and_exp_eq_0_iff_not_bit [of w 7] by simp
lemma byte_msb: "bit (ucast (of_nat n :: byte) :: uint64) 7 \<longleftrightarrow> odd (n div 128)"
  using bit_iff_odd [of n 7] by (simp add: bit_simps)

lemma or_groups: "take_bit 7 (of_nat n) OR push_bit 7 (of_nat (n div 128)) = (of_nat n :: uint64)"
proof -
  have "n div 128 = drop_bit 7 n" by (simp add: drop_bit_eq_div)
  then show ?thesis
  by (auto intro!: bit_word_eqI simp: bit_simps)
qed


text \<open>\<open>leb128\<close> bytes read as 64-bit values.\<close>

lemma leb128_last_byte:
  assumes "n < 128"
  shows "to_uint64 (Some (of_nat n)) AND 0x80 = 0"
    and "to_uint64 (Some (of_nat n)) AND 0x7f = of_nat n"
proof -
  show "to_uint64 (Some (of_nat n)) AND 0x80 = 0"
    using assms by (simp add: and_80 byte_msb)
  have "take_bit 7 n = n" using assms by (simp add: take_bit_nat_eq_self)
  then show "to_uint64 (Some (of_nat n)) AND 0x7f = of_nat n"
    by (simp add: and_7f take_bit_ucast_byte take_bit_of_nat)
qed

lemma leb128_more_byte:
  "to_uint64 (Some (of_nat (128 + n mod 128))) AND 0x80 \<noteq> 0"
  "to_uint64 (Some (of_nat (128 + n mod 128))) AND 0x7f = take_bit 7 (of_nat n)"
proof -
  have "(128 + n mod 128) div 128 = 1" by simp
  then show "to_uint64 (Some (of_nat (128 + n mod 128))) AND 0x80 \<noteq> 0"
    by (simp only: to_uint_simps and_80 byte_msb) simp
  have "take_bit 7 (128 + n mod 128) = take_bit 7 n" by (simp add: take_bit_eq_mod)
  then have "take_bit 7 (of_nat (128 + n mod 128)) = (take_bit 7 (of_nat n) :: uint64)"
    by (simp only: take_bit_of_nat)
  then show "to_uint64 (Some (of_nat (128 + n mod 128))) AND 0x7f = take_bit 7 (of_nat n)"
    by (simp only: to_uint_simps and_7f take_bit_ucast_byte)
qed

lemma fromVarInt_loop_leb128:
  assumes "at s (leb128 n @ r)" and "n * 2 ^ (7 * sz) < 2 ^ 64" and "7 * sz < 64"
  shows "fromVarInt_loop s v sz ub
    = (sz + length (leb128 n), v OR push_bit (7 * sz) (of_nat n), ub, consumed (leb128 n) s)"
  using assms
proof (induction n arbitrary: s v sz rule: leb128.induct)
  case (1 n)
  show ?case
  proof (cases "n < 128")
    case True
    then have l: "leb128 n = [of_nat n]" by (simp add: leb128.simps)
    with "1.prems" have "in_get s = (Some (of_nat n), consumed [of_nat n] s)"
      by (intro in_get_at) simp
    with "1.prems" True l show ?thesis
      by (subst fromVarInt_loop.simps) (auto simp: leb128_last_byte simp del: to_uint_simps push_bit_and)
  next
    case False
    let ?b = "of_nat (128 + n mod 128) :: byte"
    have l: "leb128 n = ?b # leb128 (n div 128)"
      using False by (subst leb128.simps) simp
    with "1.prems"(1) have at: "at s (?b # leb128 (n div 128) @ r)" by simp
    then have at': "at (consumed [?b] s) (leb128 (n div 128) @ r)" by (intro at_consumed) simp
    have pow: "(2::nat) ^ (7 * Suc sz) = 128 * 2 ^ (7 * sz)" by (simp add: power_add)
    have le: "n div 128 * 2 ^ (7 * Suc sz) < 2 ^ 64"
    proof -
      have "n div 128 * 2 ^ (7 * Suc sz) = (n div 128 * 128) * 2 ^ (7 * sz)"
        by (simp only: pow mult.assoc)
      also have "\<dots> \<le> n * 2 ^ (7 * sz)" by (rule mult_le_mono1) simp
      finally show ?thesis using "1.prems"(2) by (rule le_less_trans)
    qed
    have "1 \<le> n div 128" using False by simp
    then have "(2::nat) ^ (7 * Suc sz) \<le> n div 128 * 2 ^ (7 * Suc sz)" by simp
    with le have "(2::nat) ^ (7 * Suc sz) < 2 ^ 64" by linarith
    then have sz: "7 * Suc sz < 64" by (rule power_less_imp_less_exp [rotated]) simp
    have push: "push_bit (7 * sz) (take_bit 7 (of_nat n)) OR push_bit (7 * Suc sz) (of_nat (n div 128))
      = (push_bit (7 * sz) (of_nat n) :: uint64)"
      using arg_cong [OF or_groups [of n], of "push_bit (7 * sz)"]
      by (simp add: push_bit_or add.commute)
    from "1.IH" [OF False at' le sz] at "1.prems"(3) show ?thesis
      by (subst fromVarInt_loop.simps)
        (auto simp: l in_get_at leb128_more_byte or.assoc push simp del: to_uint_simps of_nat_add mult_Suc_right push_bit_and)
  qed
qed

lemma fromVarInt_leb128 [stream_simps]:
  "at s (leb128 n @ r) \<Longrightarrow> n < 2 ^ 64 \<Longrightarrow>
     fromVarInt s = (length (leb128 n), of_nat n, False, consumed (leb128 n) s)"
  using fromVarInt_loop_leb128 [of s n r 0 0 False] by (simp add: fromVarInt_def)

section \<open>What the decoder holds for a field\<close>

text \<open>The 64-bit value a field of an integer type has on the wire.\<close>

fun wire_value :: "'m any \<Rightarrow> uint64" where
  "wire_value (A_bool v) = (if v then 1 else 0)"
| "wire_value (A_char v) = ucast v"
| "wire_value (A_int8 v) = ucast (toZigZag8 v)"
| "wire_value (A_uint8 v) = ucast v"
| "wire_value (A_int16 v) = ucast (toZigZag16 v)"
| "wire_value (A_uint16 v) = ucast v"
| "wire_value (A_int32 v) = ucast (toZigZag32 v)"
| "wire_value (A_uint32 v) = ucast v"
| "wire_value (A_int64 v) = toZigZag64 v"
| "wire_value (A_uint64 v) = v"
| "wire_value _ = 0"

fun held :: "visitable any \<Rightarrow> unit any" where
  "held (A_float v) = A_float v"
| "held (A_double v) = A_double v"
| "held (A_string v) = A_string v"
| "held (A_obj m) = A_string (proto_bytes m)"
| "held a = A_uint64 (wire_value a)"

definition after_entry :: "uint32 \<Rightarrow> visitable any \<Rightarrow> from_proto \<Rightarrow> from_proto" where
  "after_entry i a fp =
     (let fp = fp\<lparr>fp_keyFieldType := of_nat (8 * unat i + wire_type a),
                 fp_protoType := of_nat (wire_type a), fp_fieldId := i\<rparr>
      in case a of
           A_float v \<Rightarrow> fp\<lparr>fp_float := v\<rparr>
         | A_double v \<Rightarrow> fp\<lparr>fp_double := v\<rparr>
         | A_string v \<Rightarrow> fp\<lparr>fp_value := of_nat (length v), fp_string := v\<rparr>
         | A_obj m \<Rightarrow> fp\<lparr>fp_value := of_nat (length (proto_bytes m)), fp_string := proto_bytes m\<rparr>
         | _ \<Rightarrow> fp\<lparr>fp_value := wire_value a\<rparr>)"

text \<open>
  The messages the format can carry: field identifiers are distinct and below \<open>2 ^ 29\<close>, lengths
  fit \<open>std::size_t\<close>.
\<close>

function proto_ok :: "visitable \<Rightarrow> bool"
  and proto_ok_fields :: "field list \<Rightarrow> bool"
  and proto_ok_value :: "visitable any \<Rightarrow> bool" where
  "proto_ok (Visitable i sn ln fs) \<longleftrightarrow> proto_ok_fields fs \<and> distinct (map fst fs)"
| "proto_ok_fields [] \<longleftrightarrow> True"
| "proto_ok_fields ((i, tn, n, a) # fs) \<longleftrightarrow>
     unat i < 2 ^ 29 \<and> proto_ok_value a \<and> proto_ok_fields fs"
| "proto_ok_value a \<longleftrightarrow>
     (case a of
        A_empty \<Rightarrow> False
      | A_string v \<Rightarrow> length v < 2 ^ 64
      | A_obj m \<Rightarrow> length (proto_bytes m) < 2 ^ 64 \<and> proto_ok m
      | _ \<Rightarrow> True)"
  by pat_completeness auto
termination
  by (relation "measure (\<lambda>x. case x of
        Inl m \<Rightarrow> size m | Inr (Inl fs) \<Rightarrow> fields_size fs | Inr (Inr a) \<Rightarrow> value_size a)") auto

lemma scalar_bytes_wire:
  "is_scalar a \<Longrightarrow> wire_type a = 0 \<Longrightarrow> scalar_bytes a = leb128 (unat (wire_value a))"
  by (cases a) (auto simp: codec_simps)

lemma from_uint64_wire:
  "same_type b a \<Longrightarrow> is_scalar a \<Longrightarrow> wire_type a = 0 \<Longrightarrow> from_uint64 (wire_value a) b = a"
  by (cases a) (auto simp: same_type_iff fromZigZag8_toZigZag8 fromZigZag16_toZigZag16
      fromZigZag32_toZigZag32 fromZigZag64_toZigZag64)

lemma key_parts:
  assumes "unat i < 2 ^ 29" and "w < 8"
  shows "ucast ((of_nat (8 * unat i + w) :: uint64) AND 7) = (of_nat w :: uint8)"
    and "ucast (drop_bit 3 (of_nat (8 * unat i + w) :: uint64)) = (i :: uint32)"
proof -
  have "(of_nat (8 * unat i + w) :: uint64) AND 7 = of_nat (take_bit 3 (8 * unat i + w))"
    unfolding take_bit_of_nat [symmetric] by (simp add: take_bit_eq_mask mask_eq_exp_minus_1)
  also have "take_bit 3 (8 * unat i + w) = w" using assms(2) by (simp add: take_bit_eq_mod)
  finally show "ucast ((of_nat (8 * unat i + w) :: uint64) AND 7) = (of_nat w :: uint8)"
    using assms(2) by (auto intro!: bit_word_eqI simp: bit_simps)
  have "drop_bit 3 (of_nat (8 * unat i + w) :: uint64) = of_nat (unat i)"
  proof -
    have "unat (of_nat (8 * unat i + w) :: uint64) = 8 * unat i + w"
      using assms by (simp add: unat_of_nat del: of_nat_add of_nat_mult)
    moreover have "(8 * unat i + w) div 8 = unat i" using assms by simp
    ultimately show ?thesis
      using assms by (simp add: word_unat_eq_iff drop_bit_eq_div unat_div unsigned_of_nat
          take_bit_nat_eq_self del: of_nat_add of_nat_mult)
  qed
  then show "ucast (drop_bit 3 (of_nat (8 * unat i + w) :: uint64)) = (i :: uint32)"
    by simp
qed

lemma key_bytes_ok: "unat i < 2 ^ 29 \<Longrightarrow> key_bytes i w = leb128 (8 * unat i + w)"
  by (simp add: key_bytes_def)

lemma wire_type_less: "wire_type a < 8" by (cases a) auto

lemma read_length_delimited:
  assumes at: "at s (leb128 (length w) @ w @ r)" and l: "length w < 2 ^ 64"
  shows "fromVarInt s
      = (length (leb128 (length w)), of_nat (length w), False, consumed (leb128 (length w)) s)"
    and "readBytesFromStream (consumed (leb128 (length w)) s) (length w)
      = (w, consumed (leb128 (length w) @ w) s)"
    and "unat (of_nat (length w) :: uint64) = length w"
  using at l readBytesFromStream_at [OF at_consumed [OF at] refl]
  by (simp_all add: fromVarInt_leb128 unat_of_nat)

lemma read_entry_value:
  assumes at: "at s (proto_value i a @ r)" and a: "proto_ok_value a" and i: "unat i < 2 ^ 29"
  shows "read_entry fp s = (Some (held a), after_entry i a fp, consumed (proto_value i a) s)"
proof -
  define k where "k = 8 * unat i + wire_type a"
  define bs where "bs = (case a of A_obj m \<Rightarrow> leb128 (length (proto_bytes m) mod 2 ^ 64) @ proto_bytes m | _ \<Rightarrow> scalar_bytes a)"
  have v: "proto_value i a = leb128 k @ bs"
    using a by (cases a) (auto simp: k_def bs_def key_bytes_ok [OF i] length_delimited_def)
  have k: "k < 2 ^ 64" using i wire_type_less [of a] by (simp add: k_def)
  note at1 = at [unfolded v append_assoc]
  have t: "at (consumed (leb128 k) s) (bs @ r)" using at1 by (rule at_consumed)
  note kp = key_parts [OF i wire_type_less [of a], folded k_def]
  note step = read_entry_def fromVarInt_leb128 [OF at1 k] kp v proto_constants
  consider (int) "is_scalar a" "wire_type a = 0" | (float) f where "a = A_float f"
    | (double) d where "a = A_double d" | (string) w where "a = A_string w"
    | (obj) m where "a = A_obj m"
    using a by (cases a) auto
  then show ?thesis
  proof cases
    case int
    then have "bs = leb128 (unat (wire_value a))"
      by (cases a) (auto simp: bs_def scalar_bytes_wire codec_simps)
    with t have "fromVarInt (consumed (leb128 k) s)
      = (length bs, wire_value a, False, consumed (leb128 k @ bs) s)"
      using fromVarInt_leb128 [of _ "unat (wire_value a)" r] unsigned_less [of "wire_value a", where 'a = nat]
      by simp
    moreover from int have "held a = A_uint64 (wire_value a)" by (cases a) auto
    moreover from int have "after_entry i a fp = fp\<lparr>fp_keyFieldType := of_nat k,
        fp_protoType := 0, fp_fieldId := i, fp_value := wire_value a\<rparr>"
      by (cases a) (simp_all add: after_entry_def k_def Let_def)
    moreover have "ucast ((of_nat k :: uint64) AND 7) = (0 :: uint8)" using kp(1) int(2) by simp
    ultimately show ?thesis
      by (simp add: read_entry_def fromVarInt_leb128 [OF at1 k] kp(2) v proto_constants
          del: proto_value.simps)
  next
    case float
    with t have "readBytesFromStream (consumed (leb128 k) s) 4 = (bs, consumed (leb128 k @ bs) s)"
      by (auto simp: stream_simps bs_def)
    moreover from float have "bs = le_bytes 4 f" by (simp add: bs_def)
    moreover from float have "held a = A_float f" "wire_type a = 5" by simp_all
    moreover from float have "after_entry i a fp = fp\<lparr>fp_keyFieldType := of_nat k,
        fp_protoType := 5, fp_fieldId := i, fp_float := f\<rparr>"
      by (simp add: after_entry_def k_def)
    ultimately show ?thesis
      by (simp add: step overwrite_def del: proto_value.simps)
  next
    case double
    with t have "readBytesFromStream (consumed (leb128 k) s) 8 = (bs, consumed (leb128 k @ bs) s)"
      by (auto simp: stream_simps bs_def)
    moreover from double have "bs = le_bytes 8 d" by (simp add: bs_def)
    moreover from double have "held a = A_double d" "wire_type a = 1" by simp_all
    moreover from double have "after_entry i a fp = fp\<lparr>fp_keyFieldType := of_nat k,
        fp_protoType := 1, fp_fieldId := i, fp_double := d\<rparr>"
      by (simp add: after_entry_def k_def)
    ultimately show ?thesis
      by (simp add: step overwrite_def del: proto_value.simps)
  next
    case string
    then have l: "length w < 2 ^ 64" and bs: "bs = leb128 (length w) @ w"
      using a by (simp_all add: bs_def)
    have rl: "at (consumed (leb128 k) s) (leb128 (length w) @ w @ r)"
      using t unfolding bs append_assoc .
    note read_length_delimited [OF rl l]
    moreover from string have "held a = A_string w" "wire_type a = 2" by simp_all
    moreover from string have "after_entry i a fp = fp\<lparr>fp_keyFieldType := of_nat k,
        fp_protoType := 2, fp_fieldId := i, fp_value := of_nat (length w), fp_string := w\<rparr>"
      by (simp add: after_entry_def k_def)
    ultimately show ?thesis
      by (simp add: step bs del: proto_value.simps)
  next
    case obj
    let ?w = "proto_bytes m"
    from obj have l: "length ?w < 2 ^ 64" and bs: "bs = leb128 (length ?w) @ ?w"
      using a by (simp_all add: bs_def)
    have rl: "at (consumed (leb128 k) s) (leb128 (length ?w) @ ?w @ r)"
      using t unfolding bs append_assoc .
    note read_length_delimited [OF rl l]
    moreover from obj have "held a = A_string ?w" "wire_type a = 2" by simp_all
    moreover from obj have "after_entry i a fp = fp\<lparr>fp_keyFieldType := of_nat k,
        fp_protoType := 2, fp_fieldId := i, fp_value := of_nat (length ?w), fp_string := ?w\<rparr>"
      by (simp add: after_entry_def k_def)
    ultimately show ?thesis
      by (simp add: step bs del: proto_value.simps)
  qed
qed

declare proto_value.simps [simp del] proto_ok_value.simps [simp del]

section \<open>Decoding into the map\<close>

text \<open>The loop over the encoded fields, and its last pass at the end of the stream.\<close>

definition after_field :: "field \<Rightarrow> from_proto \<Rightarrow> from_proto" where
  "after_field f fp =
     (case f of (i, tn, n, a) \<Rightarrow>
        let fp = after_entry i a fp in fp\<lparr>fp_map := emplace i (held a) (fp_map fp)\<rparr>)"

lemma after_field_simps:
  "after_field (i, tn, n, a) fp =
     (after_entry i a fp)\<lparr>fp_map := emplace i (held a) (fp_map (after_entry i a fp))\<rparr>"
  by (simp add: after_field_def Let_def)

lemma after_entry_simps [simp]:
  "fp_map (after_entry i a fp) = fp_map fp" "fp_direct (after_entry i a fp) = fp_direct fp"
  "fp_undef (after_entry i a fp) = fp_undef fp" "fp_fieldId (after_entry i a fp) = i"
  by (simp_all add: after_entry_def Let_def split: any.split)

definition held_map :: "field list \<Rightarrow> (uint32 \<times> unit any) list" where
  "held_map fs = map (\<lambda>(i, tn, n, a). (i, held a)) fs"

lemma decode_loop_fields:
  "at s (proto_fields fs @ r) \<Longrightarrow> proto_ok_fields fs \<Longrightarrow>
     decode_loop fp s = decode_loop (fold after_field fs fp) (consumed (proto_fields fs) s)"
proof (induction fs arbitrary: fp s)
  case (Cons f fs)
  obtain i tn n a where f: "f = (i, tn, n, a)" by (cases f)
  have at: "at s (proto_value i a @ proto_fields fs @ r)" using Cons.prems by (simp add: f)
  note Cons.IH [OF at_consumed [OF at]]
  moreover from at have "good s" by auto
  ultimately show ?case
    using read_entry_value [OF at] Cons.prems(2)
    by (subst decode_loop.simps) (simp add: f after_field_simps)
qed simp

lemma fromVarInt_end:
  assumes "at s []" shows "\<exists>s'. fromVarInt s = (1, 0x7f, False, s') \<and> \<not> good s'"
proof -
  have g: "good s" and "in_get s = (None, s\<lparr>eofbit := True, failbit := True\<rparr>)"
    using assms by (auto simp: in_get_def at_def)
  moreover have "to_uint64 None = - 1" by (simp add: to_uint64_def)
  moreover have "(- 1 AND 0x7f :: uint64) = 0x7f" "(- 1 AND 0x80 :: uint64) \<noteq> 0" by simp_all
  ultimately show ?thesis
    unfolding fromVarInt_def
    by (subst fromVarInt_loop.simps, simp) (subst fromVarInt_loop.simps, simp add: good_def)
qed

lemma read_entry_end:
  assumes "at s []"
  shows "\<exists>s'. read_entry fp s = (None, fp\<lparr>fp_keyFieldType := 0x7f, fp_protoType := 7, fp_fieldId := 15\<rparr>, s')
     \<and> \<not> good s'"
proof -
  obtain s' where v: "fromVarInt s = (1, 0x7f, False, s')" "\<not> good s'"
    using fromVarInt_end [OF assms] by auto
  have "(ucast (0x7f AND 7 :: uint64) :: uint8) = 7" "(ucast (drop_bit 3 0x7f :: uint64) :: uint32) = 15"
    by (simp_all add: drop_bit_eq_div)
  then show ?thesis
    using v by (simp add: read_entry_def proto_constants)
qed

lemma map_of_fold_after_field:
  "map_of (fp_map (fold after_field fs fp)) x
     = (case map_of (fp_map fp) x of None \<Rightarrow> map_of (held_map fs) x | Some r \<Rightarrow> Some r)"
proof (induction fs arbitrary: fp)
  case (Cons f fs)
  obtain i tn n a where f: "f = (i, tn, n, a)" by (cases f)
  show ?case
    by (cases "map_of (fp_map fp) i")
      (auto simp: Cons.IH f after_field_simps held_map_def split: option.splits)
qed (simp add: held_map_def split: option.splits)

lemma fold_after_field_simps [simp]:
  "fp_direct (fold after_field fs fp) = fp_direct fp"
  "fp_undef (fold after_field fs fp) = fp_undef fp"
  by (induction fs arbitrary: fp) (auto simp: after_field_def Let_def)

lemma decodeFrom_fields:
  assumes "at s (proto_fields fs)" and "proto_ok_fields fs"
  shows "map_of (fp_map (fst (decodeFrom fp s))) = map_of (held_map fs)"
    and "fp_undef (fst (decodeFrom fp s)) = fp_undef fp"
    and "fp_direct (fst (decodeFrom fp s)) = fp_direct fp"
proof -
  let ?fp = "fold after_field fs (fp\<lparr>fp_map := []\<rparr>)" and ?s = "consumed (proto_fields fs) s"
  have e: "at ?s []" using assms(1) by (intro at_consumed) simp
  then have g: "good ?s" by auto
  obtain s' where r: "read_entry ?fp ?s
      = (None, ?fp\<lparr>fp_keyFieldType := 0x7f, fp_protoType := 7, fp_fieldId := 15\<rparr>, s')" "\<not> good s'"
    using read_entry_end [OF e] by blast
  have l: "decode_loop fp s' = (fp, s')" for fp
    using r(2) by (simp add: decode_loop.simps)
  have "decodeFrom fp s = decode_loop ?fp ?s"
    using assms by (simp add: decodeFrom_def decode_loop_fields [where r = "[]"])
  also have "\<dots> = (?fp\<lparr>fp_keyFieldType := 0x7f, fp_protoType := 7, fp_fieldId := 15\<rparr>, s')"
    by (subst decode_loop.simps) (simp only: g if_True r(1) prod.case option.case l)
  finally show "map_of (fp_map (fst (decodeFrom fp s))) = map_of (held_map fs)"
    and "fp_undef (fst (decodeFrom fp s)) = fp_undef fp"
    and "fp_direct (fst (decodeFrom fp s)) = fp_direct fp"
    by (simp_all add: map_of_fold_after_field fun_eq_iff)
qed

section \<open>The decoder honours the contract of decoders\<close>

text \<open>Ready: not decoding directly, and every field to come has its value in the map.\<close>

definition proto_ready :: "from_proto \<Rightarrow> field list \<Rightarrow> unit \<Rightarrow> bool" where
  "proto_ready fp fs k \<longleftrightarrow>
     \<not> fp_direct fp \<and> \<not> fp_undef fp \<and> proto_ok_fields fs \<and>
     (\<forall>(i, tn, n, a) \<in> set fs. map_of (fp_map fp) i = Some (held a))"

lemma map_of_held_map:
  "distinct (map fst fs) \<Longrightarrow> (i, tn, n, a) \<in> set fs \<Longrightarrow> map_of (held_map fs) i = Some (held a)"
  by (induction fs) (force simp: held_map_def)+

lemma decodeFrom_ready:
  assumes "proto_ok m" and "m = Visitable j sn ln gs"
  shows "proto_ready (fst (decodeFrom fromProto_new (istream_of (proto_bytes m)))) gs ()"
proof -
  have "at (istream_of (proto_fields gs)) (proto_fields gs)" by simp
  note d = decodeFrom_fields [OF this, of fromProto_new]
  show ?thesis
    using assms d by (auto simp: proto_ready_def fromProto_new_def map_of_held_map)
qed

lemma visit_map_held:
  "same_type a v \<Longrightarrow> is_scalar v \<Longrightarrow> visit_map (Some (held v)) a = v"
  using from_uint64_wire [of a v]
  by (cases v) (auto simp: same_type_iff is_scalar_def)

interpretation from_proto: field_decoder fromProto proto_ready
proof (unfold_locales, goal_cases)
  case (1 s i tn n v fs k a)
  then show ?case
    by (auto simp: proto_ready_def fromProto_def fromProto_visit_def visit_map_held)
next
  case (2 s i tn n j sn ln gs fs k)
  let ?m = "Visitable j sn ln gs"
  have ok: "proto_ok ?m" and l: "map_of (fp_map s) i = Some (A_string (proto_bytes ?m))"
    using 2 by (auto simp: proto_ready_def proto_ok_value.simps)
  show ?case
    using decodeFrom_ready [OF ok refl] 2 l
    by (intro exI [of _ "fst (decodeFrom fromProto_new (istream_of (proto_bytes ?m)))"] exI [of _ "()"])
      (auto simp: fromProto_def proto_ready_def)
next
  case (3 s i tn n fs k)
  then show ?case by (simp add: proto_ready_def proto_ok_value.simps)
qed

lemma proto_encode_bytes: "proto_encode m = proto_bytes m"
  by (simp add: proto_encode_def accept_toProto_bytes)

section \<open>Decoding straight into a message\<close>

lemma depth_same_shape: "same_shape m' m \<Longrightarrow> depth m' = depth m"
  and "\<And>gs. same_fields gs fs \<Longrightarrow> fields_depth gs = fields_depth fs"
  and "\<And>b. same_value b a \<Longrightarrow> value_depth b = value_depth a"
proof (induction m and fs and a arbitrary: m' rule: message_induct)
  case (Msg i sn ln fs)
  obtain gs where "m' = Visitable i sn ln gs" "same_fields gs fs"
    using Msg.prems by (cases m') auto
  with Msg.IH [OF this(2)] show ?case by simp
next
  case Nil
  then show ?case by (auto dest: same_fields_NilD)
next
  case (Cons i tn n a fs)
  obtain b gs' where g: "gs = (i, tn, n, b) # gs'" "same_value b a" "same_fields gs' fs"
    using same_fields_ConsD [OF Cons.prems] by auto
  show ?case using Cons.IH(1) [OF g(2)] Cons.IH(2) [OF g(3)]
    by (simp only: g(1) fields_depth.simps)
next
  case (Val a)
  show ?case
  proof (cases "\<exists>m. a = A_obj m")
    case True
    then obtain m where m: "a = A_obj m" by blast
    obtain m' where b: "b = A_obj m'" "same_shape m' m"
      using Val.prems same_value_obj unfolding m by blast
    from Val.IH [OF m b(2)] show ?thesis by (simp only: m b value_depth.simps any.case)
  next
    case False
    then have "value_depth a = 0" by (cases a) auto
    moreover have "value_depth b = 0"
      using False Val.prems by (cases b; cases a) (simp_all add: same_value.simps same_type_def)
    ultimately show ?thesis by simp
  qed
qed

text \<open>
  A nested decoder is exact below depth \<open>d\<close> when it reads back every message nested less
  deeply than that.
\<close>

definition exact_below :: "nat \<Rightarrow> nested_decoder \<Rightarrow> bool" where
  "exact_below d nd \<longleftrightarrow>
     (\<forall>m m'. depth m < d \<longrightarrow> proto_ok m \<longrightarrow> same_shape m' m \<longrightarrow> nd (proto_bytes m) m' = (m, False))"

lemma direct_visit_value:
  assumes nd: "exact_below d nd" "value_depth v \<le> d" and v: "proto_ok_value v" "same_value a v"
    and fp: "fp_direct fp"
  shows "direct_visit nd i tn n a (after_entry i v fp) = (v, after_entry i v fp)"
proof (cases "is_scalar v")
  case True
  then have a: "is_scalar a" "same_type a v"
    using v(2) by (auto dest: same_value_scalar)
  have "direct_visit nd i tn n a (after_entry i v fp) = visit_direct a (after_entry i v fp)"
    using a fp by (cases a) (simp_all add: direct_visit_def fromProto_visit_def is_scalar_def)
  also have "\<dots> = (v, after_entry i v fp)"
  proof (cases "wire_type v = 0")
    case w: True
    have "visit_direct a f = (from_uint64 (fp_value f) a, f)" for f
      using a w True by (cases v) (auto simp: same_type_iff)
    moreover have "fp_value (after_entry i v fp) = wire_value v"
      using True w by (cases v) (simp_all add: after_entry_def)
    ultimately show ?thesis using from_uint64_wire [OF a(2) True w] by simp
  next
    case False
    then show ?thesis
      using a(2) v(1) True
      by (cases v) (auto simp: same_type_iff after_entry_def proto_ok_value.simps unat_of_nat)
  qed
  finally show ?thesis .
next
  case False
  then obtain m where m: "v = A_obj m"
    using v(1) by (cases v) (auto simp: is_scalar_def proto_ok_value.simps)
  then obtain m' where a: "a = A_obj m'" and s: "same_shape m' m"
    using v(2) same_value_obj by blast
  have "nd (proto_bytes m) m' = (m, False)"
    using nd v(1) s by (simp add: exact_below_def m proto_ok_value.simps)
  moreover have "unat (of_nat (length (proto_bytes m)) :: uint64) = length (proto_bytes m)"
    using v(1) by (simp add: m proto_ok_value.simps unat_of_nat)
  ultimately show ?thesis
    by (simp add: direct_visit_def a m after_entry_def Let_def)
qed

lemma visit_first_skip:
  "k \<notin> fst ` set ps \<Longrightarrow> visit_first vis k (ps @ fs) s
     = (let (fs', s') = visit_first vis k fs s in (ps @ fs', s'))"
  by (induction ps) (auto split: prod.splits)

lemma direct_loop_step:
  assumes nd: "exact_below d nd" "value_depth v \<le> d"
    and v: "proto_ok_value v" "same_value a v" "unat i < 2 ^ 29"
    and at: "at s (proto_value i v @ r)" and fp: "fp_direct fp" and i: "i \<notin> fst ` set ps"
  shows "direct_loop nd fp s (Visitable j sn ln (ps @ (i, tn, n, a) # gs))
    = direct_loop nd (after_entry i v fp) (consumed (proto_value i v) s)
        (Visitable j sn ln (ps @ (i, tn, n, v) # gs))"
proof -
  have "good s" using at by auto
  moreover have "accept_field (direct_visit nd) i (Visitable j sn ln (ps @ (i, tn, n, a) # gs))
      (after_entry i v fp) = (Visitable j sn ln (ps @ (i, tn, n, v) # gs), after_entry i v fp)"
    using direct_visit_value [OF nd v(1,2) fp, of i tn n] i by (simp add: visit_first_skip)
  ultimately show ?thesis
    using read_entry_value [OF at v(1,3)] by (subst direct_loop.simps) simp
qed

lemma direct_loop_fields:
  assumes "exact_below d nd"
  shows "at s (proto_fields fs) \<Longrightarrow> proto_ok_fields fs \<Longrightarrow> fields_depth fs \<le> d \<Longrightarrow> fp_direct fp \<Longrightarrow>
    same_fields gs fs \<Longrightarrow> distinct (map fst (ps @ fs)) \<Longrightarrow>
    \<exists>fp' s'. direct_loop nd fp s (Visitable j sn ln (ps @ gs))
        = (Visitable j sn ln (ps @ fs), fp', s') \<and> fp_undef fp' = fp_undef fp \<and> fp_direct fp'"
proof (induction fs arbitrary: fp s ps gs)
  case Nil
  then have "at s []" and g: "good s" "gs = []" by (auto dest: same_fields_NilD)
  from read_entry_end [OF this(1), of fp]
  obtain fp' s' where r: "read_entry fp s = (None, fp', s')"
    and s': "\<not> good s'" and fp': "fp_undef fp' = fp_undef fp" "fp_direct fp' = fp_direct fp"
    by fastforce
  have "direct_loop nd fp' s' m = (m, fp', s')" for m
    using s' by (simp add: direct_loop.simps)
  then show ?case
    using fp' g Nil.prems(4) by (subst direct_loop.simps) (simp add: r)
next
  case (Cons f fs)
  obtain i tn n v where f: "f = (i, tn, n, v)" by (cases f)
  obtain a gs' where gs: "gs = (i, tn, n, a) # gs'" and a: "same_value a v"
    and gs': "same_fields gs' fs"
    using same_fields_ConsD Cons.prems(5) f by blast
  have at: "at s (proto_value i v @ proto_fields fs)" using Cons.prems(1) by (simp add: f)
  have ok: "proto_ok_value v" "unat i < 2 ^ 29" "value_depth v \<le> d"
    and i: "i \<notin> fst ` set ps"
    using Cons.prems by (auto simp: f)
  note direct_loop_step [OF assms ok(3) ok(1) a ok(2) at Cons.prems(4) i, of j sn ln tn n gs']
  moreover have "\<exists>fp' s'. direct_loop nd (after_entry i v fp) (consumed (proto_value i v) s)
        (Visitable j sn ln ((ps @ [f]) @ gs'))
      = (Visitable j sn ln ((ps @ [f]) @ fs), fp', s')
        \<and> fp_undef fp' = fp_undef (after_entry i v fp) \<and> fp_direct fp'"
    using Cons.prems at gs' by (intro Cons.IH) (auto simp: f)
  ultimately show ?case by (simp add: gs f)
qed

lemma exact_below_decode_nested: "exact_below d (decode_nested d)"
proof (induction d)
  case (Suc d)
  show ?case
    unfolding exact_below_def
  proof (intro allI impI)
    fix m m'
    assume m: "depth m < Suc d" "proto_ok m" "same_shape m' m"
    obtain j sn ln fs where fs: "m = Visitable j sn ln fs" by (cases m)
    obtain gs where gs: "m' = Visitable j sn ln gs" "same_fields gs fs"
      using m(3) fs by (cases m') auto
    have "at (istream_of (proto_fields fs)) (proto_fields fs)" by simp
    from direct_loop_fields [OF Suc.IH this, of "fromProto_new\<lparr>fp_direct := True\<rparr>" gs "[]" j sn ln]
    show "decode_nested (Suc d) (proto_bytes m) m' = (m, False)"
      using m gs by (auto simp: fs fromProto_new_def)
  qed
qed (simp add: exact_below_def)

text \<open>How the decoder treats scalar fields, one by one.\<close>

lemma accept_fields_scalars:
  "list_all (\<lambda>(i, tn, n, a). is_scalar a) gs \<Longrightarrow> \<not> fp_direct fp \<Longrightarrow>
     accept_fields fromProto gs fp
       = (map (\<lambda>(i, tn, n, a). (i, tn, n, visit_map (map_of (fp_map fp) i) a)) gs, fp)"
  by (induction gs) (auto simp: do_visit_scalar fromProto_visit_def fromProto_def)

lemma map_of_held_map_scalars:
  "map_of (held_map fs) i = map_option held (map_of (map (\<lambda>(k, tm, l, b). (k, b)) fs) i)"
  by (induction fs) (auto simp: held_map_def)

lemma proto_decode_scalars:
  assumes "list_all (\<lambda>(i, tn, n, a). is_scalar a) gs" and "proto_ok_fields fs"
  shows "fst (proto_decode (proto_fields fs) (Visitable j sn ln gs))
    = Visitable j sn ln (map (\<lambda>(i, tn, n, a). (i, tn, n, visit_map (map_of (held_map fs) i) a)) gs)"
proof -
  have "at (istream_of (proto_fields fs)) (proto_fields fs)" by simp
  note d = decodeFrom_fields [OF this assms(2), of fromProto_new]
  have "v_pre fromProto = (\<lambda>_ _ _ fp. fp)" "v_post fromProto = (\<lambda>fp. fp)"
    by (simp_all add: fromProto_def)
  then show ?thesis
    using accept_fields_scalars [OF assms(1)] d
    by (simp add: proto_decode_def fromProto_new_def)
qed

section \<open>Properties\<close>

lemma proto_decode_encode:
  assumes "proto_ok m" and "same_shape m' m"
  shows "\<exists>fp. proto_decode (proto_encode m) m' = (m, fp) \<and> \<not> fp_undef fp"
proof -
  obtain j sn ln gs where m: "m = Visitable j sn ln gs" by (cases m)
  have "v_pre fromProto = (\<lambda>_ _ _ fp. fp)" "v_post fromProto = (\<lambda>fp. fp)"
    by (simp_all add: fromProto_def)
  then show ?thesis
    using from_proto.accept_ready [OF assms(2)] decodeFrom_ready [OF assms(1) m]
    by (fastforce simp: proto_decode_def proto_encode_bytes m proto_ready_def)
qed

text \<open>
  C1: Encoding a message with \<open>ToProtoVisitor\<close> and decoding it with
  \<open>FromProtoVisitor::decodeFrom(std::istream&)\<close> and \<open>accept\<close> into an object of the same class
  restores every field, nested messages included, without undefined behaviour.
\<close>

theorem proto_roundtrip:
  assumes "proto_ok m" and "same_shape m' m"
  shows "\<exists>fp. proto_decode (proto_encode m) m' = (m, fp) \<and> \<not> fp_undef fp"
  using proto_decode_encode [OF assms] .

lemma sample_proto_ok: "proto_ok (sample (- 3) (str ''hi'') 300)"
  by (simp add: sample_def sample_inner_def proto_ok_value.simps proto_value.simps key_bytes_def
      leb128.simps)

theorem proto_roundtrip_witness:
  "\<exists>fp. proto_decode (proto_encode (sample (- 3) (str ''hi'') 300)) (sample 0 [] 0)
     = (sample (- 3) (str ''hi'') 300, fp) \<and> \<not> fp_undef fp"
  by (rule proto_roundtrip [OF sample_proto_ok sample_shape])

lemma decodeFrom_direct_encode:
  assumes "proto_ok m" and "same_shape m' m"
  shows "\<exists>fp s. decodeFrom_direct fromProto_new (istream_of (proto_encode m)) m' = (m, fp, s)
           \<and> \<not> fp_undef fp \<and> \<not> fp_direct fp"
proof -
  obtain j sn ln fs where fs: "m = Visitable j sn ln fs" by (cases m)
  obtain gs where gs: "m' = Visitable j sn ln gs" "same_fields gs fs"
    using assms(2) fs by (cases m') auto
  have "at (istream_of (proto_fields fs)) (proto_fields fs)" by simp
  from direct_loop_fields [OF exact_below_decode_nested this, of "depth m'"
      "fromProto_new\<lparr>fp_direct := True\<rparr>" gs "[]" j sn ln]
  show ?thesis
    using assms(1) gs depth_same_shape [OF assms(2)]
    by (auto simp: decodeFrom_direct_def proto_encode_bytes fs fromProto_new_def)
qed

text \<open>
  The same for the direct \<open>decodeFrom(std::istream&, T&)\<close>, which visits each field as
  it is read; afterwards the decoder is back in its map-based mode.
\<close>

theorem proto_direct_roundtrip:
  assumes "proto_ok m" and "same_shape m' m"
  shows "\<exists>fp s. decodeFrom_direct fromProto_new (istream_of (proto_encode m)) m' = (m, fp, s)
           \<and> \<not> fp_undef fp \<and> \<not> fp_direct fp"
  using decodeFrom_direct_encode [OF assms] .

theorem proto_direct_roundtrip_witness:
  "\<exists>fp s. decodeFrom_direct fromProto_new
       (istream_of (proto_encode (sample (- 3) (str ''hi'') 300))) (sample 0 [] 0)
     = (sample (- 3) (str ''hi'') 300, fp, s) \<and> \<not> fp_undef fp \<and> \<not> fp_direct fp"
  by (rule proto_direct_roundtrip [OF sample_proto_ok sample_shape])

text \<open>
  C27: \<open>ToProtoVisitor\<close> writes the wire format: the fields in declaration order, each a key and
  a varint, little-endian fixed-width or length-delimited value, nested messages as
  length-delimited encodings.
\<close>

theorem proto_encode_reference: "proto_encode m = proto_bytes m"
  by (rule proto_encode_bytes)

text \<open>
  \<open>toVarInt\<close> appends the base-128 groups of the value, between one and ten bytes, and returns
  their number; \<open>fromVarInt\<close> reads the value back, whatever follows.
\<close>

theorem toVarInt_fromVarInt:
  "toVarInt out v = (out @ leb128 (unat v), length (leb128 (unat v)))
   \<and> 1 \<le> snd (toVarInt out v) \<and> snd (toVarInt out v) \<le> 10
   \<and> fst (snd (fromVarInt (istream_of (fst (toVarInt [] v) @ r)))) = v"
proof -
  have v: "unat v < 2 ^ 64" using unsigned_less [of v, where 'a = nat] by simp
  then have "unat v < 2 ^ (7 * 10)" by (simp add: less_trans)
  then have "length (leb128 (unat v)) \<le> 10" by (intro length_leb128_le) simp_all
  moreover have "0 < length (leb128 (unat v))" by (rule length_leb128_pos)
  ultimately show ?thesis
    using fromVarInt_leb128 [of "istream_of (leb128 (unat v) @ r)" "unat v" r] v
    by (simp add: toVarInt_leb128 Suc_le_eq)
qed

text \<open>
  At every width ZigZag decoding inverts ZigZag encoding, and the encoding is the arithmetic
  one: non-negative numbers become even, negative ones odd.
\<close>

theorem zigzag_all:
  "fromZigZag8 (toZigZag8 a) = a \<and> fromZigZag16 (toZigZag16 b) = b
   \<and> fromZigZag32 (toZigZag32 c) = c \<and> fromZigZag64 (toZigZag64 d) = d
   \<and> unat (toZigZag8 a) = zigzag (sint a) \<and> unat (toZigZag16 b) = zigzag (sint b)
   \<and> unat (toZigZag32 c) = zigzag (sint c) \<and> unat (toZigZag64 d) = zigzag (sint d)"
  by (simp add: fromZigZag8_toZigZag8 fromZigZag16_toZigZag16 fromZigZag32_toZigZag32
      fromZigZag64_toZigZag64 codec_simps)

lemma fromVarInt_loop_msb:
  "at s (b # bs) \<Longrightarrow> bit b 7 \<Longrightarrow> fromVarInt_loop s v sz ub
    = fromVarInt_loop (consumed [b] s) (v OR push_bit (7 * sz) (ucast b AND 0x7f)) (Suc sz) (ub \<or> 64 \<le> 7 * sz)"
  by (subst fromVarInt_loop.simps) (auto simp: in_get_at and_80 bit_simps simp del: push_bit_and)

lemma fromVarInt_loop_msbs:
  "at s (bs @ r) \<Longrightarrow> list_all (\<lambda>b. bit b 7) bs \<Longrightarrow> \<exists>v'. fromVarInt_loop s v sz ub
    = fromVarInt_loop (consumed bs s) v' (sz + length bs) (ub \<or> bs \<noteq> [] \<and> 64 \<le> 7 * (sz + length bs - 1))"
proof (induction bs arbitrary: s v sz ub)
  case (Cons b bs)
  then have at: "at s (b # bs @ r)" by simp
  then have at': "at (consumed [b] s) (bs @ r)" by (intro at_consumed) simp
  have b: "bit b 7" using Cons.prems(2) by simp
  obtain v' where "fromVarInt_loop (consumed [b] s) (v OR push_bit (7 * sz) (ucast b AND 0x7f)) (Suc sz) (ub \<or> 64 \<le> 7 * sz)
    = fromVarInt_loop (consumed bs (consumed [b] s)) v' (Suc sz + length bs)
        ((ub \<or> 64 \<le> 7 * sz) \<or> bs \<noteq> [] \<and> 64 \<le> 7 * (Suc sz + length bs - 1))"
    using Cons.IH [OF at', of "v OR push_bit (7 * sz) (ucast b AND 0x7f)" "Suc sz" "ub \<or> 64 \<le> 7 * sz"] Cons.prems(2) by auto
  moreover have "((ub \<or> 64 \<le> 7 * sz) \<or> bs \<noteq> [] \<and> 64 \<le> 7 * (Suc sz + length bs - 1))
    = (ub \<or> (b # bs) \<noteq> [] \<and> 64 \<le> 7 * (sz + length (b # bs) - 1))"
    by auto
  ultimately show ?case
    unfolding fromVarInt_loop_msb [OF at b] by (intro exI [of _ v']) simp
qed auto


text \<open>
  A varint of any length is consumed up to its last byte; exactly from eleven bytes on,
  \<open>fromVarInt\<close> shifts by more than 63 bits, which C++ leaves undefined.
\<close>

theorem fromVarInt_overlong:
  assumes "at s (bs @ b # r)" and "list_all (\<lambda>c. bit c 7) bs" and "\<not> bit b 7"
  shows "\<exists>v. fromVarInt s = (Suc (length bs), v, 10 \<le> length bs, consumed (bs @ [b]) s)"
proof -
  have at: "at (consumed bs s) (b # r)" using assms(1) by (rule at_consumed)
  then have g: "good (consumed bs s)" by auto
  have b: "\<not> bit (ucast b :: uint64) 7" using assms(3) by (simp add: bit_simps)
  obtain v where v: "fromVarInt_loop s 0 0 False
      = fromVarInt_loop (consumed bs s) v (length bs) (bs \<noteq> [] \<and> 64 \<le> 7 * (length bs - 1))"
    using fromVarInt_loop_msbs [OF assms(1,2), of 0 0 False] by auto
  have "bs \<noteq> [] \<and> 64 \<le> 7 * (length bs - 1) \<or> 64 \<le> 7 * length bs \<longleftrightarrow> 10 \<le> length bs"
    by (cases bs) auto
  then show ?thesis
    using in_get_at [OF at] g b unfolding fromVarInt_def v
    by (subst fromVarInt_loop.simps) (simp add: and_80 del: push_bit_and)
qed

theorem fromVarInt_overlong_witness:
  "\<exists>v. fromVarInt (istream_of (replicate 10 0x80 @ [1]))
     = (11, v, True, consumed (replicate 10 0x80 @ [1]) (istream_of (replicate 10 0x80 @ [1])))"
proof -
  have "bit (0x80 :: byte) 7" "\<not> bit (1 :: byte) 7" by simp_all
  then show ?thesis
    using fromVarInt_overlong [of "istream_of (replicate 10 0x80 @ [1])" "replicate 10 0x80" 1 "[]"]
    by (simp add: list_all_iff del: replicate_Suc)
qed

text \<open>
  \<open>encodeKey\<close> loses the three high bits of a field identifier.
\<close>

theorem encodeKey_truncates:
  "encodeKey i p = encodeKey (take_bit 29 i) p"
  by (simp add: encodeKey_def; auto intro!: arg_cong [where f = ucast] bit_word_eqI simp: bit_simps)

text \<open>
  When a stream holds two entries for one field, decoding into the map keeps the first
  (\<open>emplace\<close>), decoding directly keeps the last.
\<close>

theorem proto_duplicate_entries:
  assumes "proto_ok_value v" and "proto_ok_value w" and "unat i < 2 ^ 29"
    and "is_scalar v" and "same_type w v" and "same_type a v"
  shows "fst (proto_decode (proto_value i v @ proto_value i w) (Visitable j sn ln [(i, tn, n, a)]))
      = Visitable j sn ln [(i, tn, n, v)]
    \<and> fst (decodeFrom_direct fromProto_new (istream_of (proto_value i v @ proto_value i w))
        (Visitable j sn ln [(i, tn, n, a)])) = Visitable j sn ln [(i, tn, n, w)]"
proof
  have a: "is_scalar a" "is_scalar w"
    using assms(4,5,6) by (auto dest!: is_scalar_same_type_rev)
  show "fst (proto_decode (proto_value i v @ proto_value i w) (Visitable j sn ln [(i, tn, n, a)]))
      = Visitable j sn ln [(i, tn, n, v)]"
    using proto_decode_scalars [of "[(i, tn, n, a)]" "[(i, tn, n, v), (i, tn, n, w)]"] assms a
    by (simp add: held_map_def visit_map_held)
  let ?s = "istream_of (proto_value i v @ proto_value i w)" and ?nd = "decode_nested 0"
  have s: "same_value a v" "same_value w v" "same_value v w" "value_depth v = 0" "value_depth w = 0"
    using assms(4-6) a
    by (simp_all add: same_value_of_type value_depth_scalar same_type_sym [OF assms(5)]
        del: value_depth.simps)
  have at: "at ?s (proto_value i v @ proto_value i w)" by simp
  then have at': "at (consumed (proto_value i v) ?s) (proto_value i w @ [])" by auto
  let ?fp = "fromProto_new\<lparr>fp_direct := True\<rparr>"
  have "direct_loop ?nd ?fp ?s (Visitable j sn ln [(i, tn, n, a)])
    = direct_loop ?nd (after_entry i v ?fp) (consumed (proto_value i v) ?s) (Visitable j sn ln [(i, tn, n, v)])"
    using direct_loop_step [OF exact_below_decode_nested _ assms(1) s(1) assms(3) at,
        where d = 0 and fp = ?fp and ps = "[]" and gs = "[]"] s(4) by simp
  also have "\<exists>fp' s'. \<dots> = (Visitable j sn ln [(i, tn, n, w)], fp', s')"
  proof -
    have o: "proto_ok_fields [(i, tn, n, w)]" "fields_depth [(i, tn, n, w)] \<le> 0"
      "fp_direct (after_entry i v ?fp)" "same_fields [(i, tn, n, v)] [(i, tn, n, w)]"
      using assms(2,3) s by (simp_all del: value_depth.simps)
    have "at (consumed (proto_value i v) ?s) (proto_fields [(i, tn, n, w)])"
      using at' by simp
    from direct_loop_fields [OF exact_below_decode_nested this o, of "[]" j sn ln]
    show ?thesis by simp blast
  qed
  finally show "fst (decodeFrom_direct fromProto_new ?s (Visitable j sn ln [(i, tn, n, a)]))
    = Visitable j sn ln [(i, tn, n, w)]"
    by (auto simp: decodeFrom_direct_def value_depth_scalar [OF a(1)] simp del: value_depth.simps)
qed

theorem proto_duplicate_entries_witness:
  "fst (proto_decode (proto_value 1 (A_uint8 5) @ proto_value 1 (A_uint8 6))
       (Visitable 7 [] [] [(1, [], [], A_uint8 0)])) = Visitable 7 [] [] [(1, [], [], A_uint8 5)]
   \<and> fst (decodeFrom_direct fromProto_new
         (istream_of (proto_value 1 (A_uint8 5) @ proto_value 1 (A_uint8 6)))
         (Visitable 7 [] [] [(1, [], [], A_uint8 0)])) = Visitable 7 [] [] [(1, [], [], A_uint8 6)]"
  by (rule proto_duplicate_entries)
    (simp_all add: proto_ok_value.simps is_scalar_def same_type_def)

text \<open>
  Decoding into a message whose fields differ from the encoded ones: fields with the same
  identifier take the encoded value, fields the stream does not have keep theirs, entries
  for unknown fields are skipped.
\<close>

theorem proto_decode_other_fields:
  assumes "proto_ok (Visitable j sn ln fs)"
    and "list_all (\<lambda>(i, tn, n, a). is_scalar a \<and>
           (\<forall>(k, tm, l, b) \<in> set fs. k = i \<longrightarrow> same_type a b)) gs"
  shows "fst (proto_decode (proto_encode (Visitable j sn ln fs)) (Visitable j' sn' ln' gs))
    = Visitable j' sn' ln' (map (\<lambda>(i, tn, n, a).
        (i, tn, n, case map_of (map (\<lambda>(k, tm, l, b). (k, b)) fs) i of None \<Rightarrow> a | Some b \<Rightarrow> b)) gs)"
proof -
  have *: "visit_map (map_of (held_map fs) i) a
      = (case map_of (map (\<lambda>(k, tm, l, b). (k, b)) fs) i of None \<Rightarrow> a | Some b \<Rightarrow> b)"
    if f: "(i, tn, n, a) \<in> set gs" for i tn n a
  proof (cases "map_of (map (\<lambda>(k, tm, l, b). (k, b)) fs) i")
    case (Some b)
    then obtain tm l where "(i, tm, l, b) \<in> set fs" by (force dest: map_of_SomeD)
    then have "same_type a b" "is_scalar a"
      using assms(2) f by (fastforce simp: list_all_iff)+
    then show ?thesis
      using Some visit_map_held [of a b] is_scalar_same_type_rev [OF same_type_sym, of a b]
      by (simp add: map_of_held_map_scalars)
  qed (simp add: map_of_held_map_scalars)
  have "list_all (\<lambda>(i, tn, n, a). is_scalar a) gs" using assms(2) by (auto simp: list_all_iff)
  from proto_decode_scalars [OF this, of fs j' sn' ln'] assms(1) * show ?thesis
    by (auto simp: proto_encode_bytes)
qed

theorem proto_decode_other_fields_witness:
  "fst (proto_decode
      (proto_encode (Visitable 7 [] [] [(1, [], [], A_uint8 5), (2, [], [], A_int32 (- 6))]))
      (Visitable 8 [] [] [(2, [], [], A_int32 0), (3, [], [], A_uint16 9)]))
    = Visitable 8 [] [] [(2, [], [], A_int32 (- 6)), (3, [], [], A_uint16 9)]"
  by (subst proto_decode_other_fields)
    (simp_all add: proto_ok_value.simps is_scalar_def same_type_def)

end
