(* ===== verification/Envelopes.thy ===== *)
theory Envelopes
  imports ProtoCorrect "HOL-Library.Signed_Division"
begin

text \<open>
  \<open>cluon.data.TimeStamp\<close> and \<open>cluon.data.Envelope\<close>, the arithmetic of \<open>Time.hpp\<close>, and the
  container format of \<open>Envelope.hpp\<close>: every envelope sent or recorded is a five-byte header
  with magic and length, followed by its Protobuf encoding.
\<close>

section \<open>The data structures\<close>

text \<open>The messages of \<open>cluonDataStructures.odvd\<close>.\<close>

record TimeStamp =
  ts_seconds :: int32
  ts_microseconds :: int32

record Envelope =
  env_dataType :: int32
  env_serializedData :: cstring
  env_sent :: TimeStamp
  env_received :: TimeStamp
  env_sampleTimeStamp :: TimeStamp
  env_senderStamp :: uint32

text \<open>The fields are default-initialised.\<close>

definition TimeStamp_new :: TimeStamp where
  "TimeStamp_new = \<lparr>ts_seconds = 0, ts_microseconds = 0\<rparr>"

definition Envelope_new :: Envelope where
  "Envelope_new =
     \<lparr>env_dataType = 0, env_serializedData = [], env_sent = TimeStamp_new,
      env_received = TimeStamp_new, env_sampleTimeStamp = TimeStamp_new, env_senderStamp = 0\<rparr>"

text \<open>What \<open>accept\<close> of the generated classes presents to a visitor, and the object seen back.\<close>

definition TimeStamp_msg :: "TimeStamp \<Rightarrow> visitable" where
  "TimeStamp_msg t = Visitable 12 (str ''TimeStamp'') (str ''cluon.data.TimeStamp'')
     [(1, str ''int32_t'', str ''seconds'', A_int32 (ts_seconds t)),
      (2, str ''int32_t'', str ''microseconds'', A_int32 (ts_microseconds t))]"

definition Envelope_msg :: "Envelope \<Rightarrow> visitable" where
  "Envelope_msg e = Visitable 1 (str ''Envelope'') (str ''cluon.data.Envelope'')
     [(1, str ''int32_t'', str ''dataType'', A_int32 (env_dataType e)),
      (2, str ''std::string'', str ''serializedData'', A_string (env_serializedData e)),
      (3, str ''cluon::data::TimeStamp'', str ''sent'', A_obj (TimeStamp_msg (env_sent e))),
      (4, str ''cluon::data::TimeStamp'', str ''received'', A_obj (TimeStamp_msg (env_received e))),
      (5, str ''cluon::data::TimeStamp'', str ''sampleTimeStamp'',
          A_obj (TimeStamp_msg (env_sampleTimeStamp e))),
      (6, str ''uint32_t'', str ''senderStamp'', A_uint32 (env_senderStamp e))]"

text \<open>
  The object that a visitor has changed, read back from its fields in order. Visitors keep the
  types of the fields, so the last equations are never used.
\<close>

definition TimeStamp_of :: "visitable \<Rightarrow> TimeStamp" where
  "TimeStamp_of m =
     (case map (snd \<circ> snd \<circ> snd) (msg_fields m) of
        [A_int32 s, A_int32 us] \<Rightarrow> \<lparr>ts_seconds = s, ts_microseconds = us\<rparr>
      | _ \<Rightarrow> TimeStamp_new)"

definition Envelope_of :: "visitable \<Rightarrow> Envelope" where
  "Envelope_of m =
     (case map (snd \<circ> snd \<circ> snd) (msg_fields m) of
        [A_int32 d, A_string p, A_obj s, A_obj r, A_obj t, A_uint32 i] \<Rightarrow>
          \<lparr>env_dataType = d, env_serializedData = p, env_sent = TimeStamp_of s,
           env_received = TimeStamp_of r, env_sampleTimeStamp = TimeStamp_of t,
           env_senderStamp = i\<rparr>
      | _ \<Rightarrow> Envelope_new)"

section \<open>Time\<close>

text \<open>64-bit \<open>/\<close> and \<open>%\<close> truncate towards zero; \<open>static_cast<int32_t>\<close> keeps the low 32 bits.\<close>

definition fromMicroseconds :: "int64 \<Rightarrow> TimeStamp" where
  "fromMicroseconds tp =
     \<lparr>ts_seconds = of_int (sint tp sdiv 1000000), ts_microseconds = of_int (sint tp smod 1000000)\<rparr>"

definition toMicroseconds :: "TimeStamp \<Rightarrow> int64" where
  "toMicroseconds tp = scast (ts_seconds tp) * 1000000 + scast (ts_microseconds tp)"

definition deltaInMicroseconds :: "TimeStamp \<Rightarrow> TimeStamp \<Rightarrow> int64" where
  "deltaInMicroseconds AFTER BEFORE = toMicroseconds AFTER - toMicroseconds BEFORE"

text \<open>
  \<open>convert\<close> of a \<open>std::chrono::system_clock::time_point\<close>. The clock's period is the standard
  library's choice, \<open>ticks\<close> per microsecond (1000 in libstdc++, where it counts nanoseconds).
  \<open>duration_cast\<close> to a coarser unit truncates; the second count is stored in 32 bits before it
  is converted back to microseconds.
\<close>

definition convert :: "int \<Rightarrow> int64 \<Rightarrow> TimeStamp" where
  "convert ticks tp =
     (let s = (of_int (sint tp sdiv (ticks * 1000000)) :: int32);
          us = (of_int (sint tp sdiv ticks) :: int64);
          partial_us = us - scast s * 1000000
      in \<lparr>ts_seconds = s, ts_microseconds = ucast partial_us\<rparr>)"

section \<open>Envelopes in a stream\<close>

text \<open>
  \<open>serializeEnvelope\<close>: put \<open>0x0D\<close>, write the shifted length as a little-endian integer, go
  back and overwrite its (zero) low byte with \<open>0xA4\<close>, append the payload.
\<close>

definition serializeEnvelope :: "Envelope \<Rightarrow> byte list" where
  "serializeEnvelope envelope =
     (let tmp = proto_encode (Envelope_msg envelope);
          len = push_bit 8 (of_nat (length tmp) :: uint32);
          sstr = out_put 0x0D [];
          posByte1 = length sstr;
          sstr = out_write (le_bytes 4 len) sstr;
          sstr = sstr[posByte1 := 0xA4];
          sstr = out_write tmp sstr
      in sstr)"

text \<open>
  \<open>extractEnvelope\<close> (the branch for other systems than Windows). The stream is left where the
  reads stopped; when the header does not match, the five bytes are gone. \<open>None\<close>: decoding the payload
  leaves the behaviour that the language defines, or may end the program, see \<open>fp_undef\<close>; lengths that
  cannot be allocated do so, as \<open>reserve\<close> throws in a \<open>noexcept\<close> function.
\<close>

definition extractEnvelope :: "istream \<Rightarrow> ((bool \<times> Envelope) \<times> istream) option" where
  "extractEnvelope s =
     (let retVal = False; env = Envelope_new in
      if good s
      then
        (let (buffer, s) = in_read 5 s in
         if length buffer = 5
         then
           (if buffer ! 0 = 0x0D \<and> buffer ! 1 = 0xA4
            then
              (let len = drop_bit 8 (of_le_bytes (take 4 (drop 1 buffer)) :: uint32);
                   (buffer, s) = in_read (unat len) s;
                   retVal = (sint len = int (length buffer))
               in if retVal
                  then
                    (let (m, fp, _) = decodeFrom_direct fromProto_new (istream_of (take (unat len) buffer))
                           (Envelope_msg env)
                     in if fp_undef fp then None else Some ((retVal, Envelope_of m), s))
                  else Some ((retVal, env), s))
            else Some ((retVal, env), s))
         else Some ((retVal, env), s))
      else Some ((retVal, env), s))"

text \<open>\<open>extractMessage<T>\<close>; \<open>msg\<close> is the default-constructed \<open>T\<close>. \<open>None\<close> as above.\<close>

definition extractMessage :: "Envelope \<Rightarrow> visitable \<Rightarrow> visitable option" where
  "extractMessage envelope msg =
     (let (m, fp) = proto_decode (env_serializedData envelope) msg in if fp_undef fp then None else Some m)"

section \<open>Facts\<close>

lemma TimeStamp_of_msg [simp]: "TimeStamp_of (TimeStamp_msg t) = t"
  by (simp add: TimeStamp_of_def TimeStamp_msg_def)

lemma Envelope_of_msg [simp]: "Envelope_of (Envelope_msg e) = e"
  by (simp add: Envelope_of_def Envelope_msg_def)

lemma same_shape_TimeStamp: "same_shape (TimeStamp_msg t) (TimeStamp_msg u)"
  by (simp add: TimeStamp_msg_def same_value.simps same_type_def)

lemma same_shape_Envelope: "same_shape (Envelope_msg e) (Envelope_msg f)"
  using same_shape_TimeStamp
  by (simp add: Envelope_msg_def same_value.simps same_type_def)

lemma length_leb128_64: "n < 2 ^ 64 \<Longrightarrow> length (leb128 n) \<le> 10"
  by (rule length_leb128_le) simp_all

lemma TimeStamp_bytes:
  "length (proto_bytes (TimeStamp_msg t)) \<le> 40" "proto_ok (TimeStamp_msg t)"
proof -
  have "zigzag (sint v) < 2 ^ 64" for v :: int32
    using unsigned_less [of "toZigZag32 v", where 'a = nat] by (simp add: unat_toZigZag32)
  note z = length_leb128_64 [OF this]
  have k: "length (leb128 8) \<le> 10" "length (leb128 16) \<le> 10" by (simp_all add: leb128.simps)
  show "length (proto_bytes (TimeStamp_msg t)) \<le> 40"
    using z [of "ts_seconds t"] z [of "ts_microseconds t"] k
    by (simp add: TimeStamp_msg_def proto_value.simps key_bytes_def)
  show "proto_ok (TimeStamp_msg t)"
    by (simp add: TimeStamp_msg_def proto_ok_value.simps)
qed

lemma Envelope_proto_ok:
  "length (env_serializedData e) < 2 ^ 64 \<Longrightarrow> proto_ok (Envelope_msg e)"
  using TimeStamp_bytes le_less_trans [OF TimeStamp_bytes(1), of "2 ^ 64"]
  by (simp add: Envelope_msg_def proto_ok_value.simps)

text \<open>The payload is part of the encoding.\<close>

lemma Envelope_payload_le:
  "length (env_serializedData e) \<le> length (proto_encode (Envelope_msg e))"
  by (simp add: proto_encode_bytes Envelope_msg_def proto_value.simps)

lemma Envelope_proto_ok_encoded:
  "length (proto_encode (Envelope_msg e)) < 2 ^ 24 \<Longrightarrow> proto_ok (Envelope_msg e)"
  using Envelope_payload_le [of e] by (intro Envelope_proto_ok) simp

text \<open>The header: magic, then the length modulo \<open>2 ^ 24\<close>.\<close>

lemma le_bytes_shifted: "le_bytes 4 (push_bit 8 w) = 0 # le_bytes 3 (take_bit 24 (w :: uint32))"
proof -
  have "(ucast (push_bit 8 w) :: byte) = 0" and d: "drop_bit 8 (push_bit 8 w) = take_bit 24 w"
    by (auto intro!: bit_word_eqI simp: bit_simps)
  moreover have "le_bytes (Suc 3) (push_bit 8 w)
      = ucast (push_bit 8 w) # le_bytes 3 (drop_bit 8 (push_bit 8 w))"
    by (rule le_bytes.simps)
  ultimately show ?thesis by (simp only: d Suc_numeral) simp
qed

lemma le_bytes_3_nat: "le_bytes 3 (take_bit 24 (of_nat n :: uint32)) = le_bytes 3 (of_nat (n mod 2 ^ 24) :: uint32)"
  by (metis take_bit_eq_mod take_bit_of_nat)

lemma serializeEnvelope_bytes:
  "serializeEnvelope e =
     0x0D # 0xA4 # le_bytes 3 (of_nat (length (proto_encode (Envelope_msg e)) mod 2 ^ 24) :: uint32)
       @ proto_encode (Envelope_msg e)"
  by (simp add: serializeEnvelope_def le_bytes_shifted le_bytes_3_nat Let_def)

lemma header_length:
  "drop_bit 8 (of_le_bytes (b # bs) :: uint32) = take_bit 24 (of_le_bytes bs)"
  by (auto intro!: bit_word_eqI simp: bit_simps)
    (use bit_imp_le_length [of b] in fastforce)

lemma header_length_3:
  "length bs = 3 \<Longrightarrow> drop_bit 8 (of_le_bytes (b # bs) :: uint32) = of_le_bytes bs"
  unfolding header_length by (auto intro!: bit_word_eqI simp: bit_simps bit_of_le_bytes)

lemma le_3_less: 
  assumes "length bs = 3" shows "unat (of_le_bytes bs :: uint32) < 2 ^ 24"
proof -
  have "of_le_bytes bs = (take_bit 24 (of_le_bytes bs) :: uint32)"
    using header_length_3 [OF assms] by (simp only: header_length)
  then have "unat (of_le_bytes bs :: uint32) = take_bit 24 (unat (of_le_bytes bs :: uint32))"
    by (metis unsigned_take_bit_eq)
  then show ?thesis by (metis take_bit_nat_less_exp)
qed

lemma sint_small: "unat (w :: uint32) < 2 ^ 24 \<Longrightarrow> sint w = int (unat w)"
  by (rule sint_eq_unat) simp

lemma extractMessage_encoded:
  assumes "proto_ok m" and "same_shape m' m" and "env_serializedData e = proto_encode m"
  shows "extractMessage e m' = Some m"
  using proto_decode_encode [OF assms(1,2)] assms(3) by (auto simp: extractMessage_def)

section \<open>Reading an envelope\<close>

text \<open>
  The value of a three-byte length field, and the envelope decoded from a payload, if this is
  defined.
\<close>

definition header_len :: "byte list \<Rightarrow> nat" where
  "header_len l = unat (of_le_bytes l :: uint32)"

definition payload_envelope :: "byte list \<Rightarrow> Envelope option" where
  "payload_envelope p =
     (case decodeFrom_direct fromProto_new (istream_of p) (Envelope_msg Envelope_new) of
        (m, fp, _) \<Rightarrow> if fp_undef fp then None else Some (Envelope_of m))"

lemma extractEnvelope_payload:
  assumes at: "at s (0x0D # 0xA4 # l @ p @ r)" and l: "length l = 3" and p: "length p = header_len l"
  shows "extractEnvelope s = map_option (\<lambda>e. ((True, e), consumed (0x0D # 0xA4 # l @ p) s)) (payload_envelope p)"
proof -
  let ?h = "0x0D # 0xA4 # l" and ?len = "drop_bit 8 (of_le_bytes (0xA4 # l)) :: uint32"
  have len: "?len = of_le_bytes l" using l by (rule header_length_3)
  have at': "at s (?h @ p @ r)" using at by simp
  then have g: "good s" by auto
  have h: "in_read 5 s = (?h, consumed ?h s)" using in_read_at [OF at'] l by simp
  have "at (consumed ?h s) (p @ r)" using at' by (rule at_consumed)
  then have b: "in_read (unat ?len) (consumed ?h s) = (p, consumed p (consumed ?h s))"
    using p by (intro in_read_at) (simp_all add: len header_len_def del: of_le_bytes.simps)
  have "sint ?len = int (length p)"
    unfolding len using p le_3_less [OF l] by (simp add: sint_small header_len_def)
  moreover have "take 3 l = l" using l by simp
  ultimately show ?thesis
    using g b p l
    by (simp add: extractEnvelope_def h payload_envelope_def len header_len_def split_beta
        del: of_le_bytes.simps)
qed

lemma extractEnvelope_fails:
  assumes "\<not> (good s \<and> (\<exists>l p r. rest s = 0x0D # 0xA4 # l @ p @ r \<and> length l = 3
             \<and> length p = header_len l))"
  shows "\<exists>s'. extractEnvelope s = Some ((False, Envelope_new), s')"
proof (rule ccontr)
  assume n: "\<not> (\<exists>s'. extractEnvelope s = Some ((False, Envelope_new), s'))"
  then have g: "good s" by (auto simp: extractEnvelope_def Let_def split: if_splits)
  obtain h s1 where h: "in_read 5 s = (h, s1)" by fastforce
  have h5: "length h = 5" and m: "h ! 0 = 0x0D" "h ! 1 = 0xA4"
    using n g h by (auto simp: extractEnvelope_def Let_def split: if_splits)
  then obtain l where hl: "h = 0x0D # 0xA4 # l" and l: "length l = 3"
    by (auto simp: length_Suc_conv numeral_eq_Suc)
  have hr: "rest s = h @ rest s1" and g1: "good s1"
    using h h5 g by (auto simp: in_read_def split: if_splits)
  let ?len = "drop_bit 8 (of_le_bytes (take 4 (drop 1 h))) :: uint32"
  have len: "?len = of_le_bytes l" using hl l header_length_3 [OF l] by (simp del: of_le_bytes.simps)
  obtain p s2 where p: "in_read (unat ?len) s1 = (p, s2)" by fastforce
  have "sint ?len = int (length p)"
    using n g h h5 m p by (auto simp: extractEnvelope_def Let_def split: if_splits)
  then have "int (unat (of_le_bytes l :: uint32)) = int (length p)"
    unfolding len sint_small [OF le_3_less [OF l]] .
  then have "length p = header_len l" unfolding of_nat_eq_iff header_len_def by (rule sym)
  moreover have "rest s1 = p @ rest s2" using p g1 by (auto simp: in_read_def split: if_splits)
  ultimately show False
    using assms g hr hl l by auto
qed

lemma payload_envelope_encode:
  "length (proto_encode (Envelope_msg e)) < 2 ^ 24 \<Longrightarrow>
     payload_envelope (proto_encode (Envelope_msg e)) = Some e"
  using decodeFrom_direct_encode [OF Envelope_proto_ok_encoded same_shape_Envelope, of e Envelope_new]
  by (auto simp: payload_envelope_def)

lemma header_len_le_bytes: "header_len (le_bytes 3 (of_nat (n mod 2 ^ 24) :: uint32)) = n mod 2 ^ 24"
proof -
  have "n mod 2 ^ 24 = take_bit 24 (n mod 2 ^ 24)" by (simp add: take_bit_eq_mod)
  moreover have "unat (of_nat (n mod 2 ^ 24) :: uint32) = n mod 2 ^ 24"
    using mod_less_divisor [of "2 ^ 24" n] by (simp add: unat_of_nat)
  ultimately show ?thesis
    by (simp add: header_len_def of_le_bytes_le_bytes unsigned_take_bit_eq)
qed

lemma extractEnvelope_serializeEnvelope:
  assumes "at s (serializeEnvelope e @ r)" and "length (proto_encode (Envelope_msg e)) < 2 ^ 24"
  shows "extractEnvelope s = Some ((True, e), consumed (serializeEnvelope e) s)"
proof -
  have m: "length (proto_encode (Envelope_msg e)) mod 2 ^ 24 = length (proto_encode (Envelope_msg e))"
    using assms(2) by simp
  have "length (proto_encode (Envelope_msg e)) = header_len
      (le_bytes 3 (of_nat (length (proto_encode (Envelope_msg e)) mod 2 ^ 24) :: uint32))"
    by (rule trans [OF m [symmetric] header_len_le_bytes [symmetric]])
  from extractEnvelope_payload
      [OF assms(1) [unfolded serializeEnvelope_bytes append_Cons append_assoc] length_le_bytes this]
  show ?thesis by (simp only: serializeEnvelope_bytes payload_envelope_encode [OF assms(2)] option.map)
qed

section \<open>Properties\<close>

text \<open>
  C2: An envelope whose encoding is shorter than \<open>2 ^ 24\<close> bytes is extracted from what
  \<open>serializeEnvelope\<close> wrote, whatever follows it in the stream, and exactly its bytes are
  consumed.
\<close>

theorem envelope_roundtrip:
  assumes "at s (serializeEnvelope e @ r)" and "length (proto_encode (Envelope_msg e)) < 2 ^ 24"
  shows "extractEnvelope s = Some ((True, e), consumed (serializeEnvelope e) s)"
  using extractEnvelope_serializeEnvelope [OF assms] .

definition sample_envelope :: Envelope where
  "sample_envelope =
     \<lparr>env_dataType = 9, env_serializedData = str ''abc'',
      env_sent = \<lparr>ts_seconds = 1, ts_microseconds = 2\<rparr>, env_received = TimeStamp_new,
      env_sampleTimeStamp = \<lparr>ts_seconds = - 1, ts_microseconds = 3\<rparr>, env_senderStamp = 7\<rparr>"

lemma sample_envelope_length: "length (proto_encode (Envelope_msg sample_envelope)) < 2 ^ 24"
  by (simp add: proto_encode_bytes sample_envelope_def Envelope_msg_def TimeStamp_msg_def
      TimeStamp_new_def proto_value.simps key_bytes_def leb128.simps zigzag_def length_delimited_def)

theorem envelope_roundtrip_witness:
  "extractEnvelope (istream_of (serializeEnvelope sample_envelope @ [1, 2]))
     = Some ((True, sample_envelope),
        consumed (serializeEnvelope sample_envelope)
          (istream_of (serializeEnvelope sample_envelope @ [1, 2])))"
  by (rule envelope_roundtrip [OF at_istream_of sample_envelope_length])

text \<open>Reading envelopes one after the other.\<close>

primrec extract_each :: "nat \<Rightarrow> istream \<Rightarrow> (bool \<times> Envelope) list option" where
  "extract_each 0 s = Some []"
| "extract_each (Suc n) s =
     (case extractEnvelope s of None \<Rightarrow> None | Some (x, s') \<Rightarrow> map_option (Cons x) (extract_each n s'))"

text \<open>
  Any sequence of envelopes written back to back is read back in order, and the read after
  the last one reports failure.
\<close>

theorem envelope_sequence:
  assumes "list_all (\<lambda>e. length (proto_encode (Envelope_msg e)) < 2 ^ 24) es"
  shows "extract_each (Suc (length es)) (istream_of (concat (map serializeEnvelope es)))
    = Some (map (Pair True) es @ [(False, Envelope_new)])"
proof -
  have "at s (concat (map serializeEnvelope es)) \<Longrightarrow>
      extract_each (Suc (length es)) s = Some (map (Pair True) es @ [(False, Envelope_new)])" for s
    using assms
  proof (induction es arbitrary: s)
    case Nil
    then obtain s' where "extractEnvelope s = Some ((False, Envelope_new), s')"
      using extractEnvelope_fails [of s] by (auto simp: at_def)
    then show ?case by simp
  next
    case (Cons e es)
    then have at: "at s (serializeEnvelope e @ concat (map serializeEnvelope es))" by simp
    from Cons.IH [OF at_consumed [OF at]] Cons.prems
      extractEnvelope_serializeEnvelope [OF at]
    show ?case by simp
  qed
  then show ?thesis by simp
qed

theorem envelope_sequence_witness:
  "extract_each (Suc (length [sample_envelope, sample_envelope]))
      (istream_of (concat (map serializeEnvelope [sample_envelope, sample_envelope])))
    = Some (map (Pair True) [sample_envelope, sample_envelope] @ [(False, Envelope_new)])"
  using sample_envelope_length by (intro envelope_sequence) simp

text \<open>
  C37: \<open>extractEnvelope\<close> succeeds exactly when the stream starts with the two magic bytes, a
  three-byte little-endian length and at least that many bytes, provided that decoding those is
  defined; if it is not, the call is not defined either. Otherwise the result is false, with the default
  envelope.
\<close>

theorem extractEnvelope_complete:
  "map_option fst (extractEnvelope s) =
     (if good s \<and> (\<exists>l p r. rest s = 0x0D # 0xA4 # l @ p @ r \<and> length l = 3 \<and> length p = header_len l)
      then map_option (Pair True) (payload_envelope (take (header_len (take 3 (drop 2 (rest s)))) (drop 5 (rest s))))
      else Some (False, Envelope_new))"
proof (cases "good s \<and> (\<exists>l p r. rest s = 0x0D # 0xA4 # l @ p @ r \<and> length l = 3 \<and> length p = header_len l)")
  case True
  then obtain l p r where at: "at s (0x0D # 0xA4 # l @ p @ r)" and l: "length l = 3"
    and p: "length p = header_len l" and r: "rest s = 0x0D # 0xA4 # l @ p @ r"
    by (auto simp: at_def)
  have "take 3 (drop 2 (rest s)) = l" "take (header_len l) (drop 5 (rest s)) = p"
    using l p by (simp_all add: r)
  with extractEnvelope_payload [OF at l p] True show ?thesis by (simp add: option.map_comp comp_def)
next
  case False
  with extractEnvelope_fails [OF False] show ?thesis by (auto simp only: if_False option.map fst_conv)
qed

text \<open>
  A payload whose last field announces more bytes than there are is such a payload: the string is
  made of bytes that nothing has been read into, or the memory for it cannot be allocated.
\<close>

lemma undef_read_entry: "fp_undef fp \<Longrightarrow> read_entry fp s = (a, fp', s') \<Longrightarrow> fp_undef fp'"
  by (auto simp: read_entry_def Let_def split: prod.splits if_splits)

lemma undef_direct_visit: "fp_undef fp \<Longrightarrow> direct_visit nd i tn n a fp = (a', fp') \<Longrightarrow> fp_undef fp'"
  by (cases a) (auto simp: direct_visit_def fromProto_visit_def split: prod.splits if_splits)

lemma undef_visit_first: "fp_undef fp \<Longrightarrow> visit_first (direct_visit nd) k fs fp = (fs', fp') \<Longrightarrow> fp_undef fp'"
  by (induction "direct_visit nd" k fs fp arbitrary: fs' rule: visit_first.induct)
    (auto split: prod.splits if_splits dest: undef_direct_visit)

lemma undef_accept_field: "fp_undef fp \<Longrightarrow> accept_field (direct_visit nd) k m fp = (m', fp') \<Longrightarrow> fp_undef fp'"
  by (cases m) (auto split: prod.splits dest: undef_visit_first)

lemma undef_direct_loop: "fp_undef fp \<Longrightarrow> direct_loop nd fp s m = (m', fp', s') \<Longrightarrow> fp_undef fp'"
proof (induction nd fp s m rule: direct_loop.induct)
  case (1 nd fp s m)
  show ?case
  proof (cases "good s")
    case True
    obtain a fp1 s1 where r: "read_entry fp s = (a, fp1, s1)" by (metis prod_cases3)
    obtain m2 fp2 where v: "accept_field (direct_visit nd) (fp_fieldId fp1) m fp1 = (m2, fp2)" by fastforce
    have u: "fp_undef fp1" "fp_undef fp2"
      using undef_read_entry [OF "1.prems"(1) r] undef_accept_field [OF _ v] by auto
    show ?thesis
    proof (cases a)
      case None
      then show ?thesis using "1.IH"(1) [OF True r [symmetric] None refl] "1.prems" True r u
        by (subst (asm) direct_loop.simps) simp
    next
      case (Some b)
      then show ?thesis using "1.IH"(2) [OF True r [symmetric] Some refl v [symmetric]] "1.prems" True r u v
        by (subst (asm) direct_loop.simps) simp
    qed
  qed (use "1.prems" in \<open>simp add: direct_loop.simps [of nd fp s]\<close>)
qed

lemma read_entry_truncated:
  assumes at: "at s (leb128 k @ leb128 n @ bs)" and k: "k = 8 * unat (i :: uint32) + 2" "unat i < 2 ^ 29"
    and n: "n < 2 ^ 64" "length bs < n" and r: "read_entry fp s = (a, fp1, s1)"
  shows "fp_undef fp1"
proof -
  have at1: "at (consumed (leb128 k) s) (leb128 n @ bs)" by (rule at_consumed [OF at])
  let ?t = "consumed (leb128 k @ leb128 n) s"
  have at2: "at ?t bs" using at_consumed [OF at1] by simp
  have k64: "k < 2 ^ 64" using k by simp
  obtain u where short: "readBytesFromStream ?t n = (bs, u)"
    using at2 n(2) by (simp add: readBytesFromStream_in_read at_goodD in_read_def at_def)
  have key: "ucast ((of_nat k :: uint64) AND 7) = (2 :: uint8)" using key_parts(1) [OF k(2), of 2] k(1) by simp
  show ?thesis
    using r n key unfolding read_entry_def fromVarInt_leb128 [OF at k64] Let_def
    by (simp add: fromVarInt_leb128 [OF at1 n(1)] proto_constants unat_of_nat short) auto
qed

lemma payload_envelope_truncated:
  assumes "unat (i :: uint32) < 2 ^ 29" and "n < 2 ^ 64" and "length bs < n"
  shows "payload_envelope (leb128 (8 * unat i + 2) @ leb128 n @ bs) = None"
proof -
  let ?p = "leb128 (8 * unat i + 2) @ leb128 n @ bs"
  let ?s = "istream_of ?p" and ?fp = "fromProto_new\<lparr>fp_direct := True\<rparr>"
  have at: "at ?s ?p" by (rule at_istream_of)
  obtain a fp1 s1 where r: "read_entry ?fp ?s = (a, fp1, s1)" by (metis prod_cases3)
  have u: "fp_undef fp1" by (rule read_entry_truncated [OF at refl assms r])
  obtain m' fp' s' where d: "direct_loop (decode_nested (depth (Envelope_msg Envelope_new))) ?fp ?s (Envelope_msg Envelope_new) = (m', fp', s')"
    by (metis prod_cases3)
  have "fp_undef fp'"
  proof (cases a)
    case None
    then show ?thesis using d r at_goodD [OF at] undef_direct_loop [OF u]
      by (subst (asm) direct_loop.simps) auto
  next
    case (Some b)
    then show ?thesis using d r at_goodD [OF at] undef_direct_loop [OF undef_accept_field [OF u]]
      by (subst (asm) direct_loop.simps) (auto split: prod.splits)
  qed
  then show ?thesis unfolding payload_envelope_def decodeFrom_direct_def d by simp
qed

text \<open>
  An envelope of twelve bytes whose string announces \<open>2 ^ 64 - 1\<close>.
\<close>

definition malformed :: cstring where
  "malformed = [0x0D, 0xA4, 0x0C, 0, 0, 0x12, 0xFF, 0xFF, 0xFF, 0xFF, 0xFF, 0xFF, 0xFF, 0xFF, 0xFF, 0x01, 0]"

lemma extractEnvelope_malformed: "extractEnvelope (istream_of malformed) = None"
proof -
  let ?l = "[0x0C, 0, 0] :: byte list" and ?p = "[0x12, 0xFF, 0xFF, 0xFF, 0xFF, 0xFF, 0xFF, 0xFF, 0xFF, 0xFF, 0x01, 0] :: byte list"
  have p: "leb128 (8 * unat (2 :: uint32) + 2) @ leb128 (2 ^ 64 - 1) @ [0] = ?p" by (simp add: leb128.simps)
  have "payload_envelope ?p = None"
    unfolding p [symmetric] by (rule payload_envelope_truncated) simp_all
  moreover have "at (istream_of malformed) (0x0D # 0xA4 # ?l @ ?p @ [])"
    using at_istream_of [of malformed] by (simp add: malformed_def)
  moreover have "length ?p = header_len ?l" by (simp add: header_len_def)
  ultimately show ?thesis using extractEnvelope_payload [of "istream_of malformed" ?l ?p "[]"] by simp
qed

text \<open>
  For payloads of \<open>2 ^ 24\<close> bytes and more the header holds the length modulo \<open>2 ^ 24\<close>: the
  reader takes a prefix of the payload and the rest stays in the stream.
\<close>

theorem serializeEnvelope_length_overflow:
  "extractEnvelope (istream_of (serializeEnvelope e)) =
     map_option (\<lambda>x. ((True, x), consumed (take (5 + length (proto_encode (Envelope_msg e)) mod 2 ^ 24) (serializeEnvelope e))
         (istream_of (serializeEnvelope e))))
       (payload_envelope (take (length (proto_encode (Envelope_msg e)) mod 2 ^ 24) (proto_encode (Envelope_msg e))))"
proof -
  let ?p = "proto_encode (Envelope_msg e)"
  let ?n = "length ?p mod 2 ^ 24"
  let ?l = "le_bytes 3 (of_nat ?n :: uint32)"
  have "serializeEnvelope e = 0x0D # 0xA4 # ?l @ take ?n ?p @ drop ?n ?p"
    by (simp add: serializeEnvelope_bytes)
  then have at: "at (istream_of (serializeEnvelope e)) (0x0D # 0xA4 # ?l @ take ?n ?p @ drop ?n ?p)"
    by (metis at_istream_of)
  have "length (take ?n ?p) = header_len ?l" by (simp only: header_len_le_bytes) simp
  note extractEnvelope_payload [OF at _ this]
  moreover have "take (5 + ?n) (serializeEnvelope e) = 0x0D # 0xA4 # ?l @ take ?n ?p"
  proof -
    have "serializeEnvelope e = (0x0D # 0xA4 # ?l) @ ?p" by (simp add: serializeEnvelope_bytes)
    moreover have "length (0x0D # 0xA4 # ?l) = 5" by simp
    ultimately show ?thesis by (simp only: take_append take_all_iff) simp
  qed
  ultimately show ?thesis by simp
qed

text \<open>
  Sending a message in an envelope and extracting it at the other end gives the message.
\<close>

theorem extractMessage_roundtrip:
  assumes "proto_ok m" and "same_shape m' m"
    and "length (proto_encode (Envelope_msg (e\<lparr>env_serializedData := proto_encode m\<rparr>))) < 2 ^ 24"
  shows "Option.bind (extractEnvelope (istream_of (serializeEnvelope (e\<lparr>env_serializedData := proto_encode m\<rparr>))))
    (\<lambda>((ok, e), _). extractMessage e m') = Some m"
proof -
  let ?e = "e\<lparr>env_serializedData := proto_encode m\<rparr>"
  have "at (istream_of (serializeEnvelope ?e)) (serializeEnvelope ?e @ [])" by simp
  from extractEnvelope_serializeEnvelope [OF this assms(3)]
    extractMessage_encoded [OF assms(1,2), of ?e]
  show ?thesis by simp
qed

theorem extractMessage_roundtrip_witness:
  "Option.bind (extractEnvelope (istream_of (serializeEnvelope
      (Envelope_new\<lparr>env_serializedData := proto_encode (sample (- 3) (str ''hi'') 300)\<rparr>))))
    (\<lambda>((ok, e), _). extractMessage e (sample 0 [] 0)) = Some (sample (- 3) (str ''hi'') 300)"
  by (rule extractMessage_roundtrip [OF sample_proto_ok sample_shape])
    (simp add: proto_encode_bytes sample_def sample_inner_def Envelope_new_def Envelope_msg_def
      TimeStamp_msg_def TimeStamp_new_def proto_value.simps key_bytes_def leb128.simps zigzag_def
      length_delimited_def)

section \<open>Time stamps\<close>

lemma sint_range_64: "- (2 ^ 63) \<le> sint (v :: int64) \<and> sint v < 2 ^ 63"
  using sint_bounds [of v] by simp
lemma sint_range_32: "- (2 ^ 31) \<le> sint (v :: int32) \<and> sint v < 2 ^ 31"
  using sint_bounds [of v] by simp

lemma sint_of_int_32: "- (2 ^ 31) \<le> i \<Longrightarrow> i < 2 ^ 31 \<Longrightarrow> sint (of_int i :: int32) = i"
  by (simp add: signed_of_int signed_take_bit_int_eq_self)
lemma sint_of_int_64: "- (2 ^ 63) \<le> i \<Longrightarrow> i < 2 ^ 63 \<Longrightarrow> sint (of_int i :: int64) = i"
  by (simp add: signed_of_int signed_take_bit_int_eq_self)

lemma scast_of_sint: "(scast (v :: int32) :: int64) = of_int (sint v)"
  by (rule scast_eq)

lemma sint_toMicroseconds:
  "sint (toMicroseconds t) = sint (ts_seconds t) * 1000000 + sint (ts_microseconds t)"
proof -
  have *: "- (2 ^ 63) \<le> sint (ts_seconds t) * 1000000 + sint (ts_microseconds t)"
    "sint (ts_seconds t) * 1000000 + sint (ts_microseconds t) < 2 ^ 63"
    using sint_range_32 [of "ts_seconds t"] sint_range_32 [of "ts_microseconds t"] by auto
  have "toMicroseconds t = of_int (sint (ts_seconds t) * 1000000 + sint (ts_microseconds t))"
    by (simp only: toMicroseconds_def scast_of_sint of_int_add of_int_mult of_int_numeral)
  then show ?thesis
    by (simp only: sint_of_int_64 *)
qed

lemma sdiv_smod_bounds:
  "i sdiv 1000000 * 1000000 + i smod 1000000 = i" "\<bar>i smod 1000000\<bar> < (1000000 :: int)"
  by (rule sdiv_mult_smod_eq) (simp add: signed_modulo_int_def abs_mult sgn_if)


lemma sdiv_pos: "0 \<le> i \<Longrightarrow> 0 < m \<Longrightarrow> i sdiv m = i div m \<and> i smod m = i mod (m :: int)"
  by (auto simp: signed_divide_int_def signed_modulo_int_def sgn_if)
lemma sdiv_neg: "i \<le> 0 \<Longrightarrow> 0 < m \<Longrightarrow> i sdiv m = - ((- i) div m) \<and> i smod m = - ((- i) mod (m :: int))"
  by (auto simp: signed_divide_int_def signed_modulo_int_def sgn_if)

lemma sdiv_less:
  assumes "- (2 ^ 31 * 1000000) - 1000000 < i" and "i < 2 ^ 31 * 1000000"
  shows "- (2 ^ 31) \<le> i sdiv 1000000 \<and> i sdiv 1000000 < (2 ^ 31 :: int)"
proof (cases "0 \<le> i")
  case True
  then have "0 \<le> i div 1000000" "i div 1000000 < 2 ^ 31"
    using assms by auto
  then show ?thesis using True sdiv_pos [of i 1000000] by simp
next
  case False
  then have "0 \<le> (- i) div 1000000" "(- i) div 1000000 < 2 ^ 31 + 1"
    using assms False by auto
  then show ?thesis using False sdiv_neg [of i 1000000] by simp
qed

text \<open>
  Splitting microseconds into a time stamp and joining them again is the identity as
  long as the seconds fit 32 bits.
\<close>

theorem toMicroseconds_fromMicroseconds:
  assumes "- (2 ^ 31 * 1000000) - 1000000 < sint tp" and "sint tp < 2 ^ 31 * 1000000"
  shows "toMicroseconds (fromMicroseconds tp) = tp"
proof -
  have "sint (of_int (sint tp sdiv 1000000) :: int32) = sint tp sdiv 1000000"
    using sdiv_less [OF assms] by (intro sint_of_int_32) auto
  moreover have "sint (of_int (sint tp smod 1000000) :: int32) = sint tp smod 1000000"
    using sdiv_smod_bounds(2) [of "sint tp"] by (intro sint_of_int_32) auto
  ultimately have "sint (toMicroseconds (fromMicroseconds tp)) = sint tp"
    using sdiv_smod_bounds(1) [of "sint tp"]
    by (simp add: sint_toMicroseconds fromMicroseconds_def)
  then show ?thesis by (rule signed_word_eqI)
qed

theorem toMicroseconds_fromMicroseconds_witness:
  "toMicroseconds (fromMicroseconds (- 1500000)) = - 1500000"
  by (rule toMicroseconds_fromMicroseconds) simp_all

definition ts_normal :: "TimeStamp \<Rightarrow> bool" where
  "ts_normal t \<longleftrightarrow>
     \<bar>sint (ts_microseconds t)\<bar> < 1000000
     \<and> (0 < sint (ts_seconds t) \<longrightarrow> 0 \<le> sint (ts_microseconds t))
     \<and> (sint (ts_seconds t) < 0 \<longrightarrow> sint (ts_microseconds t) \<le> 0)"

lemma sdiv_parts:
  fixes a b m :: int
  assumes "0 < m" "\<bar>b\<bar> < m" "0 < a \<longrightarrow> 0 \<le> b" "a < 0 \<longrightarrow> b \<le> 0"
  shows "(a * m + b) sdiv m = a" and "(a * m + b) smod m = b"
proof -
  consider "0 \<le> a" "0 \<le> b" | "a \<le> 0" "b \<le> 0" using assms(3,4) by linarith
  then have "(a * m + b) sdiv m = a \<and> (a * m + b) smod m = b"
  proof cases
    case 1
    then have "0 \<le> a * m + b" using assms(1) by simp
    then show ?thesis using sdiv_pos [of "a * m + b" m] assms 1 by simp
  next
    case 2
    then have "a * m \<le> 0" using assms(1) by (simp add: mult_nonpos_nonneg)
    then have "a * m + b \<le> 0" using 2 by simp
    moreover have "(- (a * m + b)) div m = - a" "(- (a * m + b)) mod m = - b"
    proof -
      have e: "- (a * m + b) = - b + - a * m" by simp
      show "(- (a * m + b)) div m = - a" "(- (a * m + b)) mod m = - b"
        unfolding e using assms 2 by (simp_all only: div_mult_self1 mod_mult_self1) auto
    qed
    ultimately show ?thesis using sdiv_neg [of "a * m + b" m] assms by simp
  qed
  then show "(a * m + b) sdiv m = a" "(a * m + b) smod m = b" by simp_all
qed

text \<open>
  Joining and splitting is the identity on time stamps whose two parts agree in sign and
  whose microseconds are below one second.
\<close>

theorem fromMicroseconds_toMicroseconds:
  assumes "ts_normal t"
  shows "fromMicroseconds (toMicroseconds t) = t"
  using assms sdiv_parts [of 1000000 "sint (ts_microseconds t)" "sint (ts_seconds t)"]
  by (simp add: fromMicroseconds_def sint_toMicroseconds ts_normal_def)

text \<open>
  \<open>deltaInMicroseconds\<close> is the exact difference for every pair of time stamps: its 64-bit
  arithmetic never overflows.
\<close>

theorem deltaInMicroseconds_exact:
  "sint (deltaInMicroseconds a b) =
     (sint (ts_seconds a) - sint (ts_seconds b)) * 1000000
       + (sint (ts_microseconds a) - sint (ts_microseconds b))"
proof -
  have "deltaInMicroseconds a b = of_int (sint (toMicroseconds a) - sint (toMicroseconds b))"
    by (simp add: deltaInMicroseconds_def)
  moreover have "- (2 ^ 63) \<le> sint (toMicroseconds a) - sint (toMicroseconds b)"
      "sint (toMicroseconds a) - sint (toMicroseconds b) < 2 ^ 63"
    unfolding sint_toMicroseconds
    using sint_range_32 [of "ts_seconds a"] sint_range_32 [of "ts_microseconds a"]
      sint_range_32 [of "ts_seconds b"] sint_range_32 [of "ts_microseconds b"] by auto
  ultimately have "sint (deltaInMicroseconds a b) = sint (toMicroseconds a) - sint (toMicroseconds b)"
    by (simp only: sint_of_int_64)
  then show ?thesis by (simp add: sint_toMicroseconds algebra_simps)
qed

lemma sdiv_sdiv: "0 < m \<Longrightarrow> 0 < n \<Longrightarrow> i sdiv m sdiv n = i sdiv (m * n :: int)"
proof -
  assume mn: "0 < m" "0 < n"
  show ?thesis
  proof (cases "0 \<le> i")
    case True
    then have "0 \<le> i div m" using mn by (simp add: pos_imp_zdiv_nonneg_iff)
    then show ?thesis using True mn by (simp add: sdiv_pos zdiv_zmult2_eq)
  next
    case False
    then have "0 \<le> (- i) div m" using mn by (simp add: pos_imp_zdiv_nonneg_iff del: minus_div_mult_eq_mod)
    then show ?thesis using False mn by (simp add: sdiv_neg sdiv_pos zdiv_zmult2_eq)
  qed
qed


text \<open>
  \<open>convert\<close> of a clock reading is \<open>fromMicroseconds\<close> of its microseconds, whatever the
  clock's period, while the seconds fit 32 bits.
\<close>

theorem convert_fromMicroseconds:
  assumes "0 < ticks" and "- (2 ^ 31 * 1000000) - 1000000 < sint tp sdiv ticks"
    and "sint tp sdiv ticks < 2 ^ 31 * 1000000"
  shows "convert ticks tp = fromMicroseconds (of_int (sint tp sdiv ticks))"
proof -
  define u where "u = sint tp sdiv ticks"
  have q: "sint tp sdiv (ticks * 1000000) = u sdiv 1000000"
    using assms(1) sdiv_sdiv [of ticks 1000000 "sint tp"] by (simp add: u_def)
  have u: "sint (of_int u :: int64) = u"
    using assms(2,3) by (intro sint_of_int_64) (auto simp: u_def)
  have "sint (of_int (u sdiv 1000000) :: int32) = u sdiv 1000000"
    using sdiv_less [OF assms(2,3)] by (intro sint_of_int_32) (auto simp: u_def)
  then have "(of_int u :: int64) - scast (of_int (u sdiv 1000000) :: int32) * 1000000
      = of_int (u - u sdiv 1000000 * 1000000)"
    by (simp only: scast_of_sint of_int_diff of_int_mult of_int_numeral)
  also have "u - u sdiv 1000000 * 1000000 = u smod 1000000"
    using sdiv_smod_bounds(1) [of u] by linarith
  finally have p: "(of_int u :: int64) - scast (of_int (u sdiv 1000000) :: int32) * 1000000
      = of_int (u smod 1000000)" .
  have "(ucast (of_int (u smod 1000000) :: int64) :: int32) = of_int (u smod 1000000)"
    by (rule ucast_of_int) simp
  then show ?thesis
    by (simp only: convert_def Let_def q u_def [symmetric] p fromMicroseconds_def u)
qed

theorem convert_fromMicroseconds_witness:
  "convert 1000 (- 1500000500) = fromMicroseconds (of_int (- 1500000))"
  using convert_fromMicroseconds [of 1000 "- 1500000500"]
  by (simp add: signed_divide_int_def sgn_if)

theorem fromMicroseconds_toMicroseconds_witness:
  "fromMicroseconds (toMicroseconds \<lparr>ts_seconds = - 1, ts_microseconds = - 500000\<rparr>)
     = \<lparr>ts_seconds = - 1, ts_microseconds = - 500000\<rparr>"
  by (rule fromMicroseconds_toMicroseconds) (simp add: ts_normal_def)

end
