(* ===== verification/LCM.thy ===== *)
theory LCM
  imports ProtoCorrect
begin

text \<open>
  \<open>ToLCMVisitor\<close> and \<open>FromLCMVisitor\<close>: the codec for the LCM format, in which the fields follow
  each other in big-endian order without keys, behind a hash of their names and types.
\<close>

section \<open>The hash of a message\<close>

text \<open>
  Both visitors hash the names, types and dimensions of the fields with the same step. \<open>char\<close>
  is signed, \<open>>>\<close> on \<open>int64_t\<close> is arithmetic, and the sums wrap.
\<close>

definition calculateHash_char :: "byte \<Rightarrow> int64 \<Rightarrow> int64" where
  "calculateHash_char c h = (push_bit 8 h XOR signed_drop_bit 55 h) + scast c"

text \<open>
  \<open>calculateHash(const std::string&)\<close>: at most 255 characters count for the length byte. The
  encoder then hashes every character of \<open>s\<close>, the decoder those of \<open>tmp\<close>.
\<close>

definition toLCM_calculateHash :: "cstring \<Rightarrow> int64 \<Rightarrow> int64" where
  "toLCM_calculateHash s h =
     (let tmp = (if 255 < length s then take 255 s else s)
      in fold calculateHash_char s (calculateHash_char (of_nat (length tmp)) h))"

definition fromLCM_calculateHash :: "cstring \<Rightarrow> int64 \<Rightarrow> int64" where
  "fromLCM_calculateHash s h =
     (let tmp = (if 255 < length s then take 255 s else s)
      in fold calculateHash_char tmp (calculateHash_char (of_nat (length tmp)) h))"

text \<open>\<open>hash()\<close>: the sum with the nested hashes, rotated.\<close>

definition lcm_hash :: "int64 \<Rightarrow> int64 list \<Rightarrow> int64" where
  "lcm_hash h hs =
     (let tmp = fold (\<lambda>v t. t + v) hs h
      in push_bit 1 tmp + (signed_drop_bit 63 tmp AND 1))"

definition lcm_initial_hash :: int64 where "lcm_initial_hash = 0x12345678"

section \<open>ToLCMVisitor\<close>

record to_lcm =
  tl_hash :: int64
  tl_buffer :: ostream
  tl_hashes :: "int64 list"

definition toLCM_new :: to_lcm where
  "toLCM_new = \<lparr>tl_hash = lcm_initial_hash, tl_buffer = [], tl_hashes = []\<rparr>"

definition toLCM_encodedData :: "bool \<Rightarrow> to_lcm \<Rightarrow> byte list" where
  "toLCM_encodedData withHash v =
     (let hashBuffer = be_bytes 8 (lcm_hash (tl_hash v) (tl_hashes v))
      in (if withHash then hashBuffer else []) @ tl_buffer v)"

text \<open>What the overloads for scalars share: hash name, type and dimension, write the bytes.\<close>

definition toLCM_put :: "cstring \<Rightarrow> string \<Rightarrow> byte list \<Rightarrow> to_lcm \<Rightarrow> to_lcm" where
  "toLCM_put n ty bs v =
     v\<lparr>tl_hash := calculateHash_char 0 (toLCM_calculateHash (str ty)
                    (toLCM_calculateHash n (tl_hash v))),
       tl_buffer := out_write bs (tl_buffer v)\<rparr>"

fun toLCM_visit :: "uint32 \<Rightarrow> cstring \<Rightarrow> cstring \<Rightarrow> 'm any \<Rightarrow> to_lcm \<Rightarrow> 'm any \<times> to_lcm" where
  "toLCM_visit i tn n (A_bool b) v = (A_bool b, toLCM_put n ''boolean'' [of_bool b] v)"
| "toLCM_visit i tn n (A_char c) v = (A_char c, toLCM_put n ''int8_t'' [c] v)"
| "toLCM_visit i tn n (A_int8 w) v = (A_int8 w, toLCM_put n ''int8_t'' [w] v)"
| "toLCM_visit i tn n (A_uint8 w) v = (A_uint8 w, toLCM_put n ''int8_t'' [w] v)"
| "toLCM_visit i tn n (A_int16 w) v = (A_int16 w, toLCM_put n ''int16_t'' (be_bytes 2 w) v)"
| "toLCM_visit i tn n (A_uint16 w) v = (A_uint16 w, toLCM_put n ''int16_t'' (be_bytes 2 w) v)"
| "toLCM_visit i tn n (A_int32 w) v = (A_int32 w, toLCM_put n ''int32_t'' (be_bytes 4 w) v)"
| "toLCM_visit i tn n (A_uint32 w) v = (A_uint32 w, toLCM_put n ''int32_t'' (be_bytes 4 w) v)"
| "toLCM_visit i tn n (A_int64 w) v = (A_int64 w, toLCM_put n ''int64_t'' (be_bytes 8 w) v)"
| "toLCM_visit i tn n (A_uint64 w) v = (A_uint64 w, toLCM_put n ''int64_t'' (be_bytes 8 w) v)"
| "toLCM_visit i tn n (A_float f) v = (A_float f, toLCM_put n ''float'' (be_bytes 4 f) v)"
| "toLCM_visit i tn n (A_double d) v = (A_double d, toLCM_put n ''double'' (be_bytes 8 d) v)"
| "toLCM_visit i tn n (A_string s) v =
     (A_string s, toLCM_put n ''string'' (be_bytes 4 (of_nat (length s + 1) :: uint32) @ s @ [0]) v)"
| "toLCM_visit i tn n a v = (a, v)"

text \<open>
  A nested message is encoded by a new visitor; its bytes go into the buffer without hash and
  its hash is kept for the sum. The type's name is not hashed.
\<close>

definition toLCM :: "(to_lcm, visitable) visitor" where
  "toLCM =
     \<lparr>v_pre = (\<lambda>_ _ _ v. v),
      v_visit = toLCM_visit,
      v_enter = (\<lambda>_ _ _ _. Some toLCM_new),
      v_leave = (\<lambda>i tn n v nested.
        v\<lparr>tl_hash := calculateHash_char 0 (toLCM_calculateHash n (tl_hash v)),
          tl_buffer := out_write (toLCM_encodedData False nested) (tl_buffer v),
          tl_hashes := tl_hashes v @ [lcm_hash (tl_hash nested) (tl_hashes nested)]\<rparr>),
      v_post = (\<lambda>v. v)\<rparr>"

definition lcm_encode :: "visitable \<Rightarrow> byte list" where
  "lcm_encode m = toLCM_encodedData True (snd (accept toLCM m toLCM_new))"

section \<open>FromLCMVisitor\<close>

text \<open>
  \<open>fl_buffer\<close> is the stream that nested decoders share with their parent. \<open>fl_cerr\<close> records
  whether the mismatch was reported, and \<open>fl_undef\<close>, which is no member, whether the decoder
  has used bytes that no read has filled or has read a \<open>bool\<close> from a byte other than 0 and 1.
\<close>

record from_lcm =
  fl_calculatedHash :: int64
  fl_expectedHash :: int64
  fl_buffer :: istream
  fl_hashes :: "int64 list"
  fl_cerr :: bool
  fl_undef :: bool

definition fromLCM_new :: "istream \<Rightarrow> from_lcm" where
  "fromLCM_new buf =
     \<lparr>fl_calculatedHash = lcm_initial_hash, fl_expectedHash = 0, fl_buffer = buf, fl_hashes = [],
      fl_cerr = False, fl_undef = False\<rparr>"

text \<open>
  \<open>decodeFrom\<close>. A short read leaves bytes of the old \<open>m_expectedHash\<close> (little-endian host) in
  place; inserting an empty stream buffer sets the fail bit of \<open>m_buffer\<close>.
\<close>

definition fromLCM_decodeFrom :: "from_lcm \<Rightarrow> istream \<Rightarrow> from_lcm" where
  "fromLCM_decodeFrom v s =
     (let (bs, s) = in_read 8 s;
          h = of_be_bytes (overwrite bs (le_bytes 8 (fl_expectedHash v)));
          buf = istream_of (rest s)
      in v\<lparr>fl_expectedHash := h,
           fl_buffer := (if rest s = [] then buf\<lparr>failbit := True\<rparr> else buf)\<rparr>)"

definition fromLCM_preVisit :: "int32 \<Rightarrow> cstring \<Rightarrow> cstring \<Rightarrow> from_lcm \<Rightarrow> from_lcm" where
  "fromLCM_preVisit i sn ln v =
     (if fl_expectedHash v \<noteq> 0
      then v\<lparr>fl_buffer := in_seekg 0 (in_clear (fl_buffer v)),
             fl_calculatedHash := lcm_initial_hash, fl_hashes := []\<rparr>
      else v)"

definition fromLCM_hash :: "from_lcm \<Rightarrow> int64" where
  "fromLCM_hash v = lcm_hash (fl_calculatedHash v) (fl_hashes v)"

definition fromLCM_postVisit :: "from_lcm \<Rightarrow> from_lcm" where
  "fromLCM_postVisit v =
     (if fl_expectedHash v \<noteq> 0 \<and> fl_expectedHash v \<noteq> fromLCM_hash v
      then v\<lparr>fl_cerr := True\<rparr> else v)"

text \<open>Hash name, type and dimension; then read \<open>k\<close> bytes.\<close>

definition fromLCM_get :: "cstring \<Rightarrow> string \<Rightarrow> nat \<Rightarrow> from_lcm \<Rightarrow> byte list \<times> from_lcm" where
  "fromLCM_get n ty k v =
     (let (bs, buf) = in_read k (fl_buffer v)
      in (bs, v\<lparr>fl_calculatedHash := calculateHash_char 0 (fromLCM_calculateHash (str ty)
                  (fromLCM_calculateHash n (fl_calculatedHash v))),
                fl_buffer := buf\<rparr>))"

text \<open>
  Reading into a zero-initialised variable: bytes that are missing stay zero. A one-byte field is
  read in place, so that it keeps its value when nothing is left.
\<close>

definition padded :: "nat \<Rightarrow> byte list \<Rightarrow> byte list" where
  "padded k bs = overwrite bs (replicate k 0)"

definition in_place :: "byte list \<Rightarrow> byte \<Rightarrow> byte" where
  "in_place bs old = (case bs of [] \<Rightarrow> old | b # _ \<Rightarrow> b)"

fun fromLCM_visit :: "uint32 \<Rightarrow> cstring \<Rightarrow> cstring \<Rightarrow> 'm any \<Rightarrow> from_lcm \<Rightarrow> 'm any \<times> from_lcm" where
  "fromLCM_visit i tn n (A_bool b) v =
     (let (bs, v) = fromLCM_get n ''boolean'' 1 v; c = in_place bs (of_bool b)
      in (A_bool (c \<noteq> 0), v\<lparr>fl_undef := fl_undef v \<or> 1 < c\<rparr>))"
| "fromLCM_visit i tn n (A_char c) v =
     (let (bs, v) = fromLCM_get n ''int8_t'' 1 v in (A_char (in_place bs c), v))"
| "fromLCM_visit i tn n (A_int8 w) v =
     (let (bs, v) = fromLCM_get n ''int8_t'' 1 v in (A_int8 (in_place bs w), v))"
| "fromLCM_visit i tn n (A_uint8 w) v =
     (let (bs, v) = fromLCM_get n ''int8_t'' 1 v in (A_uint8 (in_place bs w), v))"
| "fromLCM_visit i tn n (A_int16 w) v =
     (let (bs, v) = fromLCM_get n ''int16_t'' 2 v in (A_int16 (of_be_bytes (padded 2 bs)), v))"
| "fromLCM_visit i tn n (A_uint16 w) v =
     (let (bs, v) = fromLCM_get n ''int16_t'' 2 v in (A_uint16 (of_be_bytes (padded 2 bs)), v))"
| "fromLCM_visit i tn n (A_int32 w) v =
     (let (bs, v) = fromLCM_get n ''int32_t'' 4 v in (A_int32 (of_be_bytes (padded 4 bs)), v))"
| "fromLCM_visit i tn n (A_uint32 w) v =
     (let (bs, v) = fromLCM_get n ''int32_t'' 4 v in (A_uint32 (of_be_bytes (padded 4 bs)), v))"
| "fromLCM_visit i tn n (A_int64 w) v =
     (let (bs, v) = fromLCM_get n ''int64_t'' 8 v in (A_int64 (of_be_bytes (padded 8 bs)), v))"
| "fromLCM_visit i tn n (A_uint64 w) v =
     (let (bs, v) = fromLCM_get n ''int64_t'' 8 v in (A_uint64 (of_be_bytes (padded 8 bs)), v))"
| "fromLCM_visit i tn n (A_float f) v =
     (let (bs, v) = fromLCM_get n ''float'' 4 v in (A_float (of_be_bytes (padded 4 bs)), v))"
| "fromLCM_visit i tn n (A_double d) v =
     (let (bs, v) = fromLCM_get n ''double'' 8 v in (A_double (of_be_bytes (padded 8 bs)), v))"
| "fromLCM_visit i tn n (A_string s) v =
     (let (bs, v) = fromLCM_get n ''string'' 4 v; len = (of_be_bytes (padded 4 bs) :: int32)
      in if 0 < sint len
         then (let (bs, buf) = in_read (unat len) (fl_buffer v)
               in (A_string (take (unat len - 1) bs),
                   v\<lparr>fl_buffer := buf, fl_undef := fl_undef v \<or> length bs < unat len - 1\<rparr>))
         else (A_string [], v))"
| "fromLCM_visit i tn n a v = (a, v)"

text \<open>
  The overload for nested messages constructs a decoder over the same buffer, whose expected
  hash is zero.
\<close>

definition fromLCM :: "(from_lcm, visitable) visitor" where
  "fromLCM =
     \<lparr>v_pre = fromLCM_preVisit,
      v_visit = fromLCM_visit,
      v_enter = (\<lambda>i tn n v. Some (fromLCM_new (fl_buffer v))),
      v_leave = (\<lambda>i tn n v nested.
        v\<lparr>fl_calculatedHash := calculateHash_char 0 (fromLCM_calculateHash n (fl_calculatedHash v)),
          fl_buffer := fl_buffer nested,
          fl_hashes := fl_hashes v @ [fromLCM_hash nested],
          fl_undef := fl_undef v \<or> fl_undef nested\<rparr>),
      v_post = fromLCM_postVisit\<rparr>"

definition lcm_decode :: "byte list \<Rightarrow> visitable \<Rightarrow> visitable \<times> from_lcm" where
  "lcm_decode bs m = accept fromLCM m (fromLCM_decodeFrom (fromLCM_new (istream_of [])) (istream_of bs))"

section \<open>Reference encoding\<close>

fun lcm_scalar :: "'m any \<Rightarrow> byte list" where
  "lcm_scalar (A_bool b) = [of_bool b]"
| "lcm_scalar (A_char c) = [c]"
| "lcm_scalar (A_int8 w) = [w]"
| "lcm_scalar (A_uint8 w) = [w]"
| "lcm_scalar (A_int16 w) = be_bytes 2 w"
| "lcm_scalar (A_uint16 w) = be_bytes 2 w"
| "lcm_scalar (A_int32 w) = be_bytes 4 w"
| "lcm_scalar (A_uint32 w) = be_bytes 4 w"
| "lcm_scalar (A_int64 w) = be_bytes 8 w"
| "lcm_scalar (A_uint64 w) = be_bytes 8 w"
| "lcm_scalar (A_float f) = be_bytes 4 f"
| "lcm_scalar (A_double d) = be_bytes 8 d"
| "lcm_scalar (A_string s) = be_bytes 4 (of_nat (length s + 1) :: uint32) @ s @ [0]"
| "lcm_scalar _ = []"

fun lcm_type :: "'m any \<Rightarrow> string" where
  "lcm_type (A_bool _) = ''boolean''"
| "lcm_type (A_char _) = ''int8_t''"
| "lcm_type (A_int8 _) = ''int8_t''"
| "lcm_type (A_uint8 _) = ''int8_t''"
| "lcm_type (A_int16 _) = ''int16_t''"
| "lcm_type (A_uint16 _) = ''int16_t''"
| "lcm_type (A_int32 _) = ''int32_t''"
| "lcm_type (A_uint32 _) = ''int32_t''"
| "lcm_type (A_int64 _) = ''int64_t''"
| "lcm_type (A_uint64 _) = ''int64_t''"
| "lcm_type (A_float _) = ''float''"
| "lcm_type (A_double _) = ''double''"
| "lcm_type (A_string _) = ''string''"
| "lcm_type _ = []"

text \<open>The payload of a message.\<close>

function lcm_bytes :: "visitable \<Rightarrow> byte list"
  and lcm_fields :: "field list \<Rightarrow> byte list"
  and lcm_value :: "visitable any \<Rightarrow> byte list" where
  "lcm_bytes (Visitable i sn ln fs) = lcm_fields fs"
| "lcm_fields [] = []"
| "lcm_fields ((i, tn, n, a) # fs) = lcm_value a @ lcm_fields fs"
| "lcm_value a = (case a of A_obj m \<Rightarrow> lcm_bytes m | _ \<Rightarrow> lcm_scalar a)"
  by pat_completeness auto
termination
  by (relation "measure (\<lambda>x. case x of
        Inl m \<Rightarrow> size m | Inr (Inl fs) \<Rightarrow> fields_size fs | Inr (Inr a) \<Rightarrow> value_size a)") auto

text \<open>The hash of a message, over the function \<open>f\<close> that hashes a string.\<close>

function msg_hash :: "(cstring \<Rightarrow> int64 \<Rightarrow> int64) \<Rightarrow> visitable \<Rightarrow> int64"
  and fields_hash :: "(cstring \<Rightarrow> int64 \<Rightarrow> int64) \<Rightarrow> field list \<Rightarrow> int64 \<times> int64 list \<Rightarrow> int64 \<times> int64 list"
  and value_hash :: "(cstring \<Rightarrow> int64 \<Rightarrow> int64) \<Rightarrow> cstring \<Rightarrow> visitable any \<Rightarrow> int64 \<times> int64 list
    \<Rightarrow> int64 \<times> int64 list" where
  "msg_hash f (Visitable i sn ln fs) = (let (h, hs) = fields_hash f fs (lcm_initial_hash, []) in lcm_hash h hs)"
| "fields_hash f [] st = st"
| "fields_hash f ((i, tn, n, a) # fs) st = fields_hash f fs (value_hash f n a st)"
| "value_hash f n a st =
     (case st of (h, hs) \<Rightarrow>
        (case a of
           A_empty \<Rightarrow> (h, hs)
         | A_obj m \<Rightarrow> (calculateHash_char 0 (f n h), hs @ [msg_hash f m])
         | _ \<Rightarrow> (calculateHash_char 0 (f (str (lcm_type a)) (f n h)), hs)))"
  by pat_completeness auto
termination
  by (relation "measure (\<lambda>x. case x of
        Inl (f, m) \<Rightarrow> size m | Inr (Inl (f, fs, st)) \<Rightarrow> fields_size fs
      | Inr (Inr (f, n, a, st)) \<Rightarrow> value_size a)") auto

declare lcm_value.simps [simp del] value_hash.simps [simp del]

lemma toLCM_sel [simp]:
  "v_pre toLCM = (\<lambda>_ _ _ v. v)" "v_post toLCM = (\<lambda>v. v)" "v_visit toLCM = toLCM_visit"
  "v_enter toLCM = (\<lambda>_ _ _ _. Some toLCM_new)"
  by (simp_all add: toLCM_def)

definition toLCM_after :: "int64 \<times> int64 list \<Rightarrow> byte list \<Rightarrow> to_lcm \<Rightarrow> to_lcm" where
  "toLCM_after st bs v = \<lparr>tl_hash = fst st, tl_buffer = tl_buffer v @ bs, tl_hashes = snd st\<rparr>"

lemma toLCM_visit_scalar:
  "is_scalar a \<Longrightarrow> toLCM_visit i tn n a v
     = (a, toLCM_after (value_hash toLCM_calculateHash n a (tl_hash v, tl_hashes v)) (lcm_value a) v)"
  by (cases a) (simp_all add: toLCM_put_def toLCM_after_def value_hash.simps lcm_value.simps is_scalar_def)

lemma accept_toLCM:
    "\<And>v. accept toLCM m v = (m, toLCM_after
        (fields_hash toLCM_calculateHash (msg_fields m) (tl_hash v, tl_hashes v)) (lcm_bytes m) v)"
  and accept_fields_toLCM:
    "\<And>v. accept_fields toLCM fs v = (fs, toLCM_after
        (fields_hash toLCM_calculateHash fs (tl_hash v, tl_hashes v)) (lcm_fields fs) v)"
  and do_visit_toLCM:
    "\<And>i tn n v. do_visit toLCM i tn n a v = (a, toLCM_after
        (value_hash toLCM_calculateHash n a (tl_hash v, tl_hashes v)) (lcm_value a) v)"
proof (induction m and fs and a rule: message_induct)
  case (Val a)
  show ?case
  proof (cases "is_scalar a")
    case True
    then show ?thesis by (simp add: do_visit_scalar toLCM_visit_scalar)
  next
    case False
    then consider "a = A_empty" | m where "a = A_obj m" by (cases a) (auto simp: is_scalar_def)
    then show ?thesis
    proof cases
      case 1
      then show ?thesis by (simp add: toLCM_def value_hash.simps lcm_value.simps toLCM_after_def)
    next
      case (2 m)
      obtain j sn ln gs where m: "m = Visitable j sn ln gs" by (cases m)
      note Val [OF 2, of toLCM_new]
      moreover have "v_leave toLCM i tn n v (toLCM_after st (lcm_bytes m) toLCM_new)
          = toLCM_after (calculateHash_char 0 (toLCM_calculateHash n (tl_hash v)),
              tl_hashes v @ [lcm_hash (fst st) (snd st)]) (lcm_bytes m) v" for i tn n v st
        by (simp add: toLCM_def toLCM_after_def toLCM_new_def toLCM_encodedData_def)
      moreover have "(tl_hash toLCM_new, tl_hashes toLCM_new) = (lcm_initial_hash, [])"
        by (simp add: toLCM_new_def)
      ultimately show ?thesis
        by (simp add: 2 value_hash.simps lcm_value.simps split_beta del: accept.simps) (simp add: m split_beta)
    qed
  qed
qed (simp_all add: toLCM_after_def)

interpretation to_lcm: reader_visitor toLCM
  by unfold_locales (simp add: toLCM_def, rename_tac a v, case_tac a; simp)

lemma lcm_encode_bytes:
  "lcm_encode m = be_bytes 8 (msg_hash toLCM_calculateHash m) @ lcm_bytes m"
  by (simp add: lcm_encode_def accept_toLCM toLCM_after_def toLCM_new_def toLCM_encodedData_def
      del: accept.simps) (cases m; simp add: split_beta)

section \<open>The decoder honours the contract of decoders\<close>

text \<open>Strings whose length with the final zero fits \<open>int32_t\<close>.\<close>

function lcm_ok :: "visitable \<Rightarrow> bool"
  and lcm_ok_fields :: "field list \<Rightarrow> bool"
  and lcm_ok_value :: "visitable any \<Rightarrow> bool" where
  "lcm_ok (Visitable i sn ln fs) \<longleftrightarrow> lcm_ok_fields fs"
| "lcm_ok_fields [] \<longleftrightarrow> True"
| "lcm_ok_fields ((i, tn, n, a) # fs) \<longleftrightarrow> lcm_ok_value a \<and> lcm_ok_fields fs"
| "lcm_ok_value a \<longleftrightarrow>
     (case a of
        A_empty \<Rightarrow> False
      | A_string s \<Rightarrow> length s + 1 < 2 ^ 31
      | A_obj m \<Rightarrow> lcm_ok m
      | _ \<Rightarrow> True)"
  by pat_completeness auto
termination
  by (relation "measure (\<lambda>x. case x of
        Inl m \<Rightarrow> size m | Inr (Inl fs) \<Rightarrow> fields_size fs | Inr (Inr a) \<Rightarrow> value_size a)") auto

declare lcm_ok_value.simps [simp del]

text \<open>
  Ready: the encoded fields come next in the buffer. The index holds what follows them there, the
  hash after them, and the expected hash.
\<close>

definition lcm_at :: "istream \<Rightarrow> byte list \<Rightarrow> bool" where
  "lcm_at s bs \<longleftrightarrow> rest s = bs \<and> (good s \<or> bs = [])"

lemma lcm_at_at: "lcm_at s bs \<Longrightarrow> bs \<noteq> [] \<Longrightarrow> at s bs" "at s bs \<Longrightarrow> lcm_at s bs"
  by (auto simp: lcm_at_def at_def)

definition lcm_ready ::
  "from_lcm \<Rightarrow> field list \<Rightarrow> byte list \<times> (int64 \<times> int64 list) \<times> int64 \<Rightarrow> bool" where
  "lcm_ready v fs k \<longleftrightarrow>
     (case k of (r, st, e) \<Rightarrow>
        lcm_at (fl_buffer v) (lcm_fields fs @ r) \<and> lcm_ok_fields fs \<and>
        fields_hash fromLCM_calculateHash fs (fl_calculatedHash v, fl_hashes v) = st \<and>
        fl_expectedHash v = e \<and> \<not> fl_cerr v \<and> \<not> fl_undef v)"

lemma fromLCM_get_at:
  "at (fl_buffer v) (bs @ r) \<Longrightarrow> length bs = k \<Longrightarrow> fromLCM_get n ty k v
     = (bs, v\<lparr>fl_calculatedHash := calculateHash_char 0 (fromLCM_calculateHash (str ty)
                  (fromLCM_calculateHash n (fl_calculatedHash v))),
                fl_buffer := consumed bs (fl_buffer v)\<rparr>)"
  by (simp add: fromLCM_get_def in_read_at)

lemma padded_full [simp]: "length bs = k \<Longrightarrow> padded k bs = bs"
  by (simp add: padded_def overwrite_def)

definition fromLCM_after :: "int64 \<times> int64 list \<Rightarrow> byte list \<Rightarrow> from_lcm \<Rightarrow> from_lcm" where
  "fromLCM_after st bs v =
     v\<lparr>fl_calculatedHash := fst st, fl_buffer := consumed bs (fl_buffer v), fl_hashes := snd st\<rparr>"

lemma fromLCM_visit_scalar:
  assumes at: "at (fl_buffer v) (lcm_value a @ r)" and a: "is_scalar a" "same_type b a"
    and ok: "lcm_ok_value a"
  shows "fromLCM_visit i tn n b v
     = (a, fromLCM_after (value_hash fromLCM_calculateHash n a (fl_calculatedHash v, fl_hashes v))
             (lcm_value a) v)"
proof (cases "\<exists>s. a = A_string s")
  case False
  have "1 < (of_bool x :: byte) \<longleftrightarrow> False" for x by (cases x) simp_all
  then show ?thesis
    using a at False fromLCM_get_at [OF at]
    by (cases a)
      (auto simp: same_type_iff lcm_value.simps in_place_def fromLCM_after_def value_hash.simps is_scalar_def)
next
  case True
  then obtain s where s: "a = A_string s" by blast
  obtain t where b: "b = A_string t" using a(2) s by (auto simp: same_type_iff)
  let ?n = "of_nat (length s + 1) :: int32"
  have l: "length s + 1 < 2 ^ 31" using ok by (simp add: s lcm_ok_value.simps)
  have at1: "at (fl_buffer v) (be_bytes 4 ?n @ (s @ [0]) @ r)"
    using at by (simp add: s lcm_value.simps)
  note at2 = at_consumed [OF at1]
  have u: "unat ?n = length s + 1" using l by (simp add: unat_of_nat del: of_nat_Suc)
  then have "sint ?n = int (length s + 1)"
    using l sint_eq_unat [of ?n] by (simp only: len_num0 len_num1 len_bit0 len_bit1) simp
  then have "0 < sint ?n" by simp
  then show ?thesis
    using fromLCM_get_at [OF at1, of 4 n "''string''"] in_read_at [OF at2, of "unat ?n"] u
    by (simp add: b s lcm_value.simps fromLCM_after_def value_hash.simps)
qed


lemma fromLCM_sel [simp]:
  "v_pre fromLCM = fromLCM_preVisit" "v_post fromLCM = fromLCM_postVisit"
  "v_visit fromLCM = fromLCM_visit" "v_enter fromLCM = (\<lambda>i tn n v. Some (fromLCM_new (fl_buffer v)))"
  by (simp_all add: fromLCM_def)

lemma value_hash_split: "value_hash f n a (fst st, snd st) = value_hash f n a st"
  by simp

lemma lcm_value_nonempty: "is_scalar a \<Longrightarrow> lcm_value a \<noteq> []"
proof -
  assume "is_scalar a"
  then have "0 < length (lcm_value a)" by (cases a) (simp_all add: lcm_value.simps is_scalar_def)
  then show ?thesis by simp
qed

interpretation from_lcm: field_decoder fromLCM lcm_ready
proof (unfold_locales, goal_cases)
  case (1 v i tn n a fs k b)
  obtain r st e where k: "k = (r, st, e)" by (cases k)
  have "lcm_value a \<noteq> []" using 1(2) by (rule lcm_value_nonempty)
  then have at: "at (fl_buffer v) (lcm_value a @ lcm_fields fs @ r)" and ok: "lcm_ok_value a"
    using 1(1) by (auto simp: lcm_ready_def k intro: lcm_at_at)
  show ?case
    using fromLCM_visit_scalar [OF at 1(2,3) ok, of i tn n] 1(1) lcm_at_at(2) [OF at_consumed [OF at]]
    by (auto simp: lcm_ready_def k fromLCM_after_def)
next
  case (2 v i tn n j sn ln gs fs k)
  obtain r st e where k: "k = (r, st, e)" by (cases k)
  let ?m = "Visitable j sn ln gs" and ?t = "fromLCM_new (fl_buffer v)"
  let ?st = "fields_hash fromLCM_calculateHash gs (lcm_initial_hash, [])"
  have "lcm_ready ?t gs (lcm_fields fs @ r, ?st, 0)"
    using 2 by (simp add: lcm_ready_def k fromLCM_new_def lcm_value.simps lcm_ok_value.simps)
  moreover have "lcm_ready (v_leave fromLCM i tn n v (fromLCM_postVisit t')) fs k"
    if t: "lcm_ready t' [] (lcm_fields fs @ r, ?st, 0)" for t'
  proof -
    have "fl_calculatedHash t' = fst ?st" "fl_hashes t' = snd ?st"
      using t by (simp_all add: lcm_ready_def) (metis fst_conv, metis snd_conv)
    then show ?thesis using t 2
    by (auto simp: lcm_ready_def k fromLCM_def fromLCM_postVisit_def value_hash.simps fromLCM_hash_def
        split_beta lcm_value.simps)
  qed
  ultimately show ?case
    by (intro exI [of _ ?t] exI [of _ "(lcm_fields fs @ r, ?st, 0)"])
      (simp add: fromLCM_preVisit_def fromLCM_new_def)
next
  case (3 v i tn n fs k)
  then show ?case by (cases k) (simp add: lcm_ready_def lcm_ok_value.simps)
qed

section \<open>Properties\<close>

text \<open>Names of at most 255 characters hash the same on both sides.\<close>

function short_names :: "visitable \<Rightarrow> bool"
  and short_names_fields :: "field list \<Rightarrow> bool"
  and short_names_value :: "visitable any \<Rightarrow> bool" where
  "short_names (Visitable i sn ln fs) \<longleftrightarrow> short_names_fields fs"
| "short_names_fields [] \<longleftrightarrow> True"
| "short_names_fields ((i, tn, n, a) # fs) \<longleftrightarrow>
     length n \<le> 255 \<and> short_names_value a \<and> short_names_fields fs"
| "short_names_value a \<longleftrightarrow> (case a of A_obj m \<Rightarrow> short_names m | _ \<Rightarrow> True)"
  by pat_completeness auto
termination
  by (relation "measure (\<lambda>x. case x of
        Inl m \<Rightarrow> size m | Inr (Inl fs) \<Rightarrow> fields_size fs | Inr (Inr a) \<Rightarrow> value_size a)") auto

lemma calculateHash_short:
  "length s \<le> 255 \<Longrightarrow> fromLCM_calculateHash s h = toLCM_calculateHash s h"
  by (simp add: fromLCM_calculateHash_def toLCM_calculateHash_def)

lemma length_lcm_type: "length (str (lcm_type a)) \<le> 255"
  by (cases a) simp_all

lemma msg_hash_short:
    "short_names m \<Longrightarrow> msg_hash fromLCM_calculateHash m = msg_hash toLCM_calculateHash m"
  and "\<And>st. short_names_fields fs \<Longrightarrow>
      fields_hash fromLCM_calculateHash fs st = fields_hash toLCM_calculateHash fs st"
  and "\<And>n st. length (n :: cstring) \<le> 255 \<Longrightarrow> short_names_value a \<Longrightarrow>
      value_hash fromLCM_calculateHash n a st = value_hash toLCM_calculateHash n a st"
proof (induction m and fs and a rule: message_induct)
  case (Val a)
  then show ?case
    using calculateHash_short [OF length_lcm_type]
    by (cases a) (simp_all add: value_hash.simps calculateHash_short split_beta)
qed simp_all

lemma lcm_decode_encode:
  assumes "lcm_ok m" and "same_shape m' m"
  shows "\<exists>v. lcm_decode (lcm_encode m) m' = (m, v) \<and> \<not> fl_undef v \<and>
    (fl_cerr v \<longleftrightarrow> msg_hash toLCM_calculateHash m \<noteq> 0 \<and>
       msg_hash toLCM_calculateHash m \<noteq> msg_hash fromLCM_calculateHash m)"
proof -
  obtain i sn ln fs where m: "m = Visitable i sn ln fs" by (cases m)
  let ?e = "msg_hash toLCM_calculateHash m"
  define v where "v = fromLCM_decodeFrom (fromLCM_new (istream_of [])) (istream_of (lcm_encode m))"
  have "in_read 8 (istream_of (lcm_encode m)) = (be_bytes 8 ?e, consumed (be_bytes 8 ?e) (istream_of (lcm_encode m)))"
    by (rule in_read_at [of _ _ "lcm_bytes m"]) (simp_all add: lcm_encode_bytes)
  then have v: "v = (fromLCM_new (if lcm_bytes m = [] then (istream_of [])\<lparr>failbit := True\<rparr>
      else istream_of (lcm_bytes m)))\<lparr>fl_expectedHash := ?e\<rparr>"
    by (simp add: v_def fromLCM_decodeFrom_def fromLCM_new_def lcm_encode_bytes overwrite_def)
  have p: "lcm_ready (fromLCM_preVisit i sn ln v) fs
      ([], fields_hash fromLCM_calculateHash fs (lcm_initial_hash, []), ?e)"
    using assms(1)
    by (auto simp: v lcm_ready_def fromLCM_preVisit_def fromLCM_new_def lcm_at_def m in_seekg_def in_clear_def
        good_def istream_of_def Let_def)
  obtain u where "accept fromLCM m' v = (m, fromLCM_postVisit u)"
    and r: "lcm_ready u [] ([], fields_hash fromLCM_calculateHash fs (lcm_initial_hash, []), ?e)"
    using from_lcm.accept_ready [OF assms(2), of v
        "([], fields_hash fromLCM_calculateHash fs (lcm_initial_hash, []), ?e)"] p
    unfolding m by (simp only: fromLCM_sel visitable.sel) blast
  moreover from r have "fields_hash fromLCM_calculateHash fs (lcm_initial_hash, [])
      = (fl_calculatedHash u, fl_hashes u)"
    by (simp add: lcm_ready_def)
  then have h: "msg_hash fromLCM_calculateHash m = lcm_hash (fl_calculatedHash u) (fl_hashes u)"
    by (simp add: m)
  ultimately show ?thesis
    using r
    by (auto simp: lcm_decode_def v_def [symmetric] fromLCM_postVisit_def fromLCM_hash_def split_beta
        lcm_ready_def h)
qed


text \<open>
  C10: Encoding a message with \<open>ToLCMVisitor\<close> and decoding it with \<open>FromLCMVisitor\<close> restores
  every field, nested messages included, and the hashes agree, when no field name is longer
  than 255 characters.
\<close>

theorem lcm_roundtrip:
  assumes "lcm_ok m" and "same_shape m' m" and "short_names m"
  shows "\<exists>v. lcm_decode (lcm_encode m) m' = (m, v) \<and> \<not> fl_undef v \<and> \<not> fl_cerr v"
  using lcm_decode_encode [OF assms(1,2)] msg_hash_short [OF assms(3)] by auto

theorem lcm_roundtrip_witness:
  "\<exists>v. lcm_decode (lcm_encode (sample (- 3) (str ''hi'') 300)) (sample 0 [] 0)
     = (sample (- 3) (str ''hi'') 300, v) \<and> \<not> fl_undef v \<and> \<not> fl_cerr v"
  by (rule lcm_roundtrip [OF _ sample_shape])
    (simp_all add: sample_def sample_inner_def lcm_ok_value.simps)

text \<open>
  \<open>ToLCMVisitor\<close> writes the hash of names, types and nesting, then the fields in big-endian
  order, nested messages inline.
\<close>

theorem lcm_encode_reference:
  "lcm_encode m = be_bytes 8 (msg_hash toLCM_calculateHash m) @ lcm_bytes m"
  by (rule lcm_encode_bytes)

definition long_name :: cstring where "long_name = replicate 256 0x61"

definition long_name_msg :: visitable where
  "long_name_msg = Visitable 1 [] [] [(1, [], long_name, A_uint8 7)]"

lemma long_name_hash:
  "fromLCM_calculateHash long_name lcm_initial_hash = 17295362065529962705"
  "toLCM_calculateHash long_name lcm_initial_hash = calculateHash_char 0x61 17295362065529962705"
proof -
  have "fold calculateHash_char (replicate 255 0x61) 78187493375 = 17295362065529962705"
    by code_simp
  moreover have "calculateHash_char 255 lcm_initial_hash = 78187493375"
    by code_simp
  moreover have "replicate 256 0x61 = replicate 255 0x61 @ [0x61 :: byte]"
    using replicate_add [of 255 1 "0x61 :: byte"] by simp
  ultimately show "fromLCM_calculateHash long_name lcm_initial_hash = 17295362065529962705"
    "toLCM_calculateHash long_name lcm_initial_hash = calculateHash_char 0x61 17295362065529962705"
    by (simp_all add: fromLCM_calculateHash_def toLCM_calculateHash_def long_name_def)
qed

text \<open>
  For a field name of 256 characters encoder and decoder compute different hashes, and the
  decoder reports a mismatch although it restores the message.
\<close>

theorem lcm_long_name_mismatch:
  "\<exists>v. lcm_decode (lcm_encode long_name_msg) long_name_msg = (long_name_msg, v) \<and> fl_cerr v"
proof -
  have e: "msg_hash toLCM_calculateHash long_name_msg
      = lcm_hash (calculateHash_char 0 (toLCM_calculateHash (str ''int8_t'')
          (calculateHash_char 0x61 17295362065529962705))) []"
    by (simp add: long_name_msg_def value_hash.simps long_name_hash del: str_simps)
  have d: "msg_hash fromLCM_calculateHash long_name_msg
      = lcm_hash (calculateHash_char 0 (fromLCM_calculateHash (str ''int8_t'') 17295362065529962705)) []"
    by (simp add: long_name_msg_def value_hash.simps long_name_hash del: str_simps)
  have "msg_hash toLCM_calculateHash long_name_msg \<noteq> 0" unfolding e by code_simp
  moreover have "msg_hash toLCM_calculateHash long_name_msg \<noteq> msg_hash fromLCM_calculateHash long_name_msg"
    unfolding e d by code_simp
  moreover have "lcm_ok long_name_msg"
    by (simp add: long_name_msg_def lcm_ok_value.simps)
  ultimately show ?thesis
    using lcm_decode_encode [of long_name_msg long_name_msg] by auto
qed

end
