(* ===== verification/MsgPack.thy ===== *)
theory MsgPack
  imports Visitors
begin

text \<open>
  \<open>ToMsgPackVisitor\<close> and \<open>FromMsgPackVisitor\<close>: the codec for MessagePack. A message is a map
  from field names to values; a nested message is a map as a value.
\<close>

section \<open>Constants\<close>

text \<open>The bytes of \<open>MsgPackConstants\<close>, and its format families.\<close>

definition MP_IS_FALSE :: uint8 where "MP_IS_FALSE = 0xC2"
definition MP_IS_TRUE :: uint8 where "MP_IS_TRUE = 0xC3"
definition MP_FLOAT :: uint8 where "MP_FLOAT = 0xCA"
definition MP_DOUBLE :: uint8 where "MP_DOUBLE = 0xCB"
definition MP_UINT8 :: uint8 where "MP_UINT8 = 0xCC"
definition MP_UINT16 :: uint8 where "MP_UINT16 = 0xCD"
definition MP_UINT32 :: uint8 where "MP_UINT32 = 0xCE"
definition MP_UINT64 :: uint8 where "MP_UINT64 = 0xCF"
definition MP_INT8 :: uint8 where "MP_INT8 = 0xD0"
definition MP_INT16 :: uint8 where "MP_INT16 = 0xD1"
definition MP_INT32 :: uint8 where "MP_INT32 = 0xD2"
definition MP_INT64 :: uint8 where "MP_INT64 = 0xD3"
definition MP_FIXSTR :: uint8 where "MP_FIXSTR = 0xA0"
definition MP_FIXSTR_END :: uint8 where "MP_FIXSTR_END = 0xBF"
definition MP_STR8 :: uint8 where "MP_STR8 = 0xD9"
definition MP_STR16 :: uint8 where "MP_STR16 = 0xDA"
definition MP_STR32 :: uint8 where "MP_STR32 = 0xDB"
definition MP_FIXMAP :: uint8 where "MP_FIXMAP = 0x80"
definition MP_FIXMAP_END :: uint8 where "MP_FIXMAP_END = 0x8F"
definition MP_MAP16 :: uint8 where "MP_MAP16 = 0xDE"
definition MP_MAP32 :: uint8 where "MP_MAP32 = 0xDF"

lemmas msgpack_constants =
  MP_IS_FALSE_def MP_IS_TRUE_def MP_FLOAT_def MP_DOUBLE_def MP_UINT8_def MP_UINT16_def
  MP_UINT32_def MP_UINT64_def MP_INT8_def MP_INT16_def MP_INT32_def MP_INT64_def MP_FIXSTR_def
  MP_FIXSTR_END_def MP_STR8_def MP_STR16_def MP_STR32_def MP_FIXMAP_def MP_FIXMAP_END_def
  MP_MAP16_def MP_MAP32_def

datatype format_family =
    UNKNOWN_FORMAT | BOOL_FORMAT | UINT_FORMAT | INT_FORMAT | FLOAT_FORMAT | STR_FORMAT | MAP_FORMAT

section \<open>ToMsgPackVisitor\<close>

record to_msgpack =
  tm_numberOfFields :: uint32
  tm_buffer :: ostream

definition toMsgPack_new :: to_msgpack where
  "toMsgPack_new = \<lparr>tm_numberOfFields = 0, tm_buffer = []\<rparr>"

definition toMsgPack_encodedData :: "to_msgpack \<Rightarrow> byte list" where
  "toMsgPack_encodedData v =
     (let n = tm_numberOfFields v;
          prefix = (if n \<le> 0xF then [MP_FIXMAP OR ucast n]
                    else if 0xF < n \<and> n \<le> 0xFFFF then MP_MAP16 # be_bytes 2 (ucast n :: uint16)
                    else if 0xFFFF < n then MP_MAP32 # be_bytes 4 n
                    else [])
      in prefix @ tm_buffer v)"

text \<open>\<open>encode\<close>, \<open>encodeUint\<close> and \<open>encodeInt\<close>.\<close>

definition mp_encode :: "cstring \<Rightarrow> ostream \<Rightarrow> ostream" where
  "mp_encode s out =
     (let len = (of_nat (length s) :: uint32);
          out = (if len < 32 then out_write [MP_FIXSTR OR ucast len] out
                 else if len \<le> 0xFF then out_write [MP_STR8, ucast len] out
                 else if len \<le> 0xFFFF then out_write (MP_STR16 # be_bytes 2 (ucast len :: uint16)) out
                 else out_write (MP_STR32 # be_bytes 4 len) out)
      in out_write (take (unat len) s) out)"

definition mp_encodeUint :: "uint64 \<Rightarrow> ostream \<Rightarrow> ostream" where
  "mp_encodeUint v out =
     (if v \<le> 0x7F then out_write [ucast v] out
      else if v \<le> 0xFF then out_write [MP_UINT8, ucast v] out
      else if v \<le> 0xFFFF then out_write (MP_UINT16 # be_bytes 2 (ucast v :: uint16)) out
      else if v \<le> 0xFFFFFFFF then out_write (MP_UINT32 # be_bytes 4 (ucast v :: uint32)) out
      else out_write (MP_UINT64 # be_bytes 8 v) out)"

definition mp_encodeInt :: "int64 \<Rightarrow> ostream \<Rightarrow> ostream" where
  "mp_encodeInt v out =
     (if - 31 \<le> sint v then out_write [ucast v] out
      else if - (2 ^ 7) \<le> sint v then out_write [MP_INT8, ucast v] out
      else if - (2 ^ 15) \<le> sint v then out_write (MP_INT16 # be_bytes 2 (ucast v :: int16)) out
      else if - (2 ^ 31) \<le> sint v then out_write (MP_INT32 # be_bytes 4 (ucast v :: int32)) out
      else out_write (MP_INT64 # be_bytes 8 v) out)"

text \<open>Every overload writes the name, then the value, and counts the field.\<close>

definition mp_field :: "cstring \<Rightarrow> (ostream \<Rightarrow> ostream) \<Rightarrow> to_msgpack \<Rightarrow> to_msgpack" where
  "mp_field n enc v =
     v\<lparr>tm_buffer := enc (mp_encode n (tm_buffer v)), tm_numberOfFields := tm_numberOfFields v + 1\<rparr>"

fun toMsgPack_visit :: "uint32 \<Rightarrow> cstring \<Rightarrow> cstring \<Rightarrow> 'm any \<Rightarrow> to_msgpack \<Rightarrow> 'm any \<times> to_msgpack" where
  "toMsgPack_visit i tn n (A_bool b) v =
     (A_bool b, mp_field n (out_write [if b then MP_IS_TRUE else MP_IS_FALSE]) v)"
| "toMsgPack_visit i tn n (A_char c) v = (A_char c, mp_field n (mp_encode [c]) v)"
| "toMsgPack_visit i tn n (A_int8 w) v =
     (A_int8 w, mp_field n (if sint w < 0 then mp_encodeInt (scast w) else mp_encodeUint (ucast w)) v)"
| "toMsgPack_visit i tn n (A_uint8 w) v = (A_uint8 w, mp_field n (mp_encodeUint (ucast w)) v)"
| "toMsgPack_visit i tn n (A_int16 w) v =
     (A_int16 w, mp_field n (if sint w < 0 then mp_encodeInt (scast w) else mp_encodeUint (ucast w)) v)"
| "toMsgPack_visit i tn n (A_uint16 w) v = (A_uint16 w, mp_field n (mp_encodeUint (ucast w)) v)"
| "toMsgPack_visit i tn n (A_int32 w) v =
     (A_int32 w, mp_field n (if sint w < 0 then mp_encodeInt (scast w) else mp_encodeUint (ucast w)) v)"
| "toMsgPack_visit i tn n (A_uint32 w) v = (A_uint32 w, mp_field n (mp_encodeUint (ucast w)) v)"
| "toMsgPack_visit i tn n (A_int64 w) v =
     (A_int64 w, mp_field n (if sint w < 0 then mp_encodeInt w else mp_encodeUint w) v)"
| "toMsgPack_visit i tn n (A_uint64 w) v = (A_uint64 w, mp_field n (mp_encodeUint w) v)"
| "toMsgPack_visit i tn n (A_float f) v =
     (A_float f, mp_field n (\<lambda>out. out_write (be_bytes 4 f) (out_write [MP_FLOAT] out)) v)"
| "toMsgPack_visit i tn n (A_double d) v =
     (A_double d, mp_field n (\<lambda>out. out_write (be_bytes 8 d) (out_write [MP_DOUBLE] out)) v)"
| "toMsgPack_visit i tn n (A_string s) v = (A_string s, mp_field n (mp_encode s) v)"
| "toMsgPack_visit i tn n a v = (a, v)"

definition toMsgPack :: "(to_msgpack, visitable) visitor" where
  "toMsgPack =
     \<lparr>v_pre = (\<lambda>_ _ _ v. v\<lparr>tm_numberOfFields := 0, tm_buffer := []\<rparr>),
      v_visit = toMsgPack_visit,
      v_enter = (\<lambda>_ _ _ _. Some toMsgPack_new),
      v_leave = (\<lambda>i tn n v nested.
        mp_field n (\<lambda>out.
          let tmp = toMsgPack_encodedData nested; len = (of_nat (length tmp) :: uint32)
          in out_write (take (unat len) tmp) out) v),
      v_post = (\<lambda>v. v)\<rparr>"

definition msgpack_encode :: "visitable \<Rightarrow> byte list" where
  "msgpack_encode m = toMsgPack_encodedData (snd (accept toMsgPack m toMsgPack_new))"

section \<open>FromMsgPackVisitor\<close>

text \<open>
  An entry of the map read from the stream. The value of a nested map is the inner map; a token
  of an unknown format leaves the value empty.
\<close>

datatype MsgPackKeyValue =
  MsgPackKeyValue (m_key: cstring) (m_formatFamily: format_family)
    (m_value: "(cstring \<times> MsgPackKeyValue) list any")

type_synonym key_values = "(cstring \<times> MsgPackKeyValue) list"

text \<open>
  \<open>getFormatFamily\<close>. The comparisons with \<open>FIXSTR_END\<close> and \<open>FIXMAP_END\<close> are strict, so that the
  last byte of either range belongs to no family.
\<close>

definition getFormatFamily :: "uint8 \<Rightarrow> format_family" where
  "getFormatFamily T =
     (if MP_IS_FALSE = T then BOOL_FORMAT
      else if MP_IS_TRUE = T then BOOL_FORMAT
      else if T \<le> 0x7F then UINT_FORMAT
      else if MP_UINT8 = T then UINT_FORMAT
      else if MP_UINT16 = T then UINT_FORMAT
      else if MP_UINT32 = T then UINT_FORMAT
      else if MP_UINT64 = T then UINT_FORMAT
      else if 0xE0 \<le> T then INT_FORMAT
      else if MP_INT8 = T then INT_FORMAT
      else if MP_INT16 = T then INT_FORMAT
      else if MP_INT32 = T then INT_FORMAT
      else if MP_INT64 = T then INT_FORMAT
      else if MP_FLOAT = T then FLOAT_FORMAT
      else if MP_DOUBLE = T then FLOAT_FORMAT
      else if MP_FIXSTR \<le> T \<and> T < MP_FIXSTR_END then STR_FORMAT
      else if MP_STR8 = T then STR_FORMAT
      else if MP_STR16 = T then STR_FORMAT
      else if MP_STR32 = T then STR_FORMAT
      else if MP_FIXMAP \<le> T \<and> T < MP_FIXMAP_END then MAP_FORMAT
      else if MP_MAP16 = T then MAP_FORMAT
      else if MP_MAP32 = T then MAP_FORMAT
      else UNKNOWN_FORMAT)"

text \<open>Reading a big-endian integer into a zero-initialised variable; missing bytes stay zero.\<close>

definition read_be :: "nat \<Rightarrow> istream \<Rightarrow> 'a::len word \<times> istream" where
  "read_be k s = (let (bs, s) = in_read k s in (of_be_bytes (bs @ drop (length bs) (replicate k 0)), s))"

definition mp_readUint :: "istream \<Rightarrow> uint64 \<times> istream" where
  "mp_readUint s =
     (if good s
      then
        (let (x, s) = in_get s; c = to_uint8 x in
         if getFormatFamily c = UINT_FORMAT
         then
           (if c \<le> 0x7F then (ucast c, s)
            else if c = MP_UINT8 then (let (v, s) = read_be 1 s in (ucast (v :: uint8), s))
            else if c = MP_UINT16 then (let (v, s) = read_be 2 s in (ucast (v :: uint16), s))
            else if c = MP_UINT32 then (let (v, s) = read_be 4 s in (ucast (v :: uint32), s))
            else if c = MP_UINT64 then read_be 8 s
            else (0, s))
         else (0, s))
      else (0, s))"

definition mp_readInt :: "istream \<Rightarrow> int64 \<times> istream" where
  "mp_readInt s =
     (if good s
      then
        (let (x, s) = in_get s; c = to_uint8 x in
         if getFormatFamily c = INT_FORMAT
         then
           (if 0xE0 \<le> c then (scast c, s)
            else if c = MP_INT8 then (let (v, s) = read_be 1 s in (scast (v :: int8), s))
            else if c = MP_INT16 then (let (v, s) = read_be 2 s in (scast (v :: int16), s))
            else if c = MP_INT32 then (let (v, s) = read_be 4 s in (scast (v :: int32), s))
            else if c = MP_INT64 then read_be 8 s
            else (0, s))
         else (0, s))
      else (0, s))"

text \<open>
  \<open>readString\<close>: the string, whether it uses bytes of the buffer that the read has not filled
  (then its contents are not determined), and the stream.
\<close>

definition mp_readString :: "istream \<Rightarrow> cstring \<times> bool \<times> istream" where
  "mp_readString s =
     (if good s
      then
        (let (x, s) = in_get s; T = to_uint8 x in
         if getFormatFamily T = STR_FORMAT
         then
           (let (len, s) =
                  (if MP_FIXSTR \<le> T \<and> T < MP_FIXSTR_END then (ucast (T - MP_FIXSTR) :: uint32, s)
                   else if T = MP_STR8 then (let (v, s) = read_be 1 s in (ucast (v :: uint8), s))
                   else if T = MP_STR16 then (let (v, s) = read_be 2 s in (ucast (v :: uint16), s))
                   else if T = MP_STR32 then read_be 4 s
                   else (0, s))
            in if 0 < len
               then (let (bs, s) = in_read (unat len) s in (bs, length bs < unat len, s))
               else ([], False, s))
         else ([], False, s))
      else ([], False, s))"

text \<open>
  The \<open>while (in.good())\<close> loop of \<open>readKeyValues\<close> skips bytes up to a map token.
\<close>

function mp_findMap :: "istream \<Rightarrow> (uint8 \<times> istream) option" where
  "mp_findMap s =
     (if good s
      then (case in_get s of (x, s') \<Rightarrow>
              if getFormatFamily (to_uint8 x) = MAP_FORMAT then Some (to_uint8 x, s')
              else mp_findMap s')
      else None)"
  by pat_completeness auto
termination
  by (relation "measure stream_measure")
    (auto intro: stream_measure_in_get simp: eq_commute [of _ "in_get _"])

declare mp_findMap.simps [simp del]

text \<open>The stream after the loop has run to its end without a map token.\<close>

function mp_skipAll :: "istream \<Rightarrow> istream" where
  "mp_skipAll s = (if good s then (case in_get s of (x, s') \<Rightarrow> mp_skipAll s') else s)"
  by pat_completeness auto
termination
  by (relation "measure stream_measure")
    (auto intro: stream_measure_in_get simp: eq_commute [of _ "in_get _"])

declare mp_skipAll.simps [simp del]

definition mp_tokensToRead :: "uint8 \<Rightarrow> istream \<Rightarrow> uint32 \<times> istream" where
  "mp_tokensToRead T s =
     (if MP_FIXMAP \<le> T \<and> T < MP_FIXMAP_END then (ucast (T - MP_FIXMAP), s)
      else if T = MP_MAP16 then (let (v, s) = read_be 2 s in (ucast (v :: uint16), s))
      else if T = MP_MAP32 then read_be 4 s
      else (0, s))"

text \<open>
  One pair: key, type byte, value. The reader for nested maps is an argument; the second result
  of every reader is its undefinedness flag.
\<close>

type_synonym map_reader = "istream \<Rightarrow> key_values \<times> bool \<times> istream"

definition mp_readPair :: "map_reader \<Rightarrow> istream \<Rightarrow> MsgPackKeyValue \<times> bool \<times> istream" where
  "mp_readPair rd s =
     (let (key, ub1, s) = mp_readString s;
          (x, s) = in_get s; c = to_uint8 x; fam = getFormatFamily c
      in if fam = BOOL_FORMAT then (MsgPackKeyValue key fam (A_bool (c = MP_IS_TRUE)), ub1, s)
         else if fam = UINT_FORMAT then
           (let (v, s) = mp_readUint (in_unget s) in (MsgPackKeyValue key fam (A_uint64 v), ub1, s))
         else if fam = INT_FORMAT then
           (let (v, s) = mp_readInt (in_unget s) in (MsgPackKeyValue key fam (A_int64 v), ub1, s))
         else if fam = FLOAT_FORMAT then
           (if c = MP_FLOAT then
              (let (v, s) = read_be 4 s in (MsgPackKeyValue key fam (A_float v), ub1, s))
            else (let (v, s) = read_be 8 s in (MsgPackKeyValue key fam (A_double v), ub1, s)))
         else if fam = STR_FORMAT then
           (let (v, ub2, s) = mp_readString (in_unget s)
            in (MsgPackKeyValue key fam (A_string v), ub1 \<or> ub2, s))
         else if fam = MAP_FORMAT then
           (let (v, ub2, s) = rd (in_unget s) in (MsgPackKeyValue key fam (A_obj v), ub1 \<or> ub2, s))
         else (MsgPackKeyValue key fam A_empty, ub1, s))"

text \<open>
  The loop over the pairs runs \<open>tokensToRead\<close> times, also when the stream has ended: every
  further pair is then an entry for the empty key.
\<close>

primrec mp_readPairs :: "map_reader \<Rightarrow> nat \<Rightarrow> istream \<Rightarrow> key_values \<Rightarrow> key_values \<times> bool \<times> istream" where
  "mp_readPairs rd 0 s kvs = (kvs, False, s)"
| "mp_readPairs rd (Suc k) s kvs =
     (let (entry, ub1, s) = mp_readPair rd s;
          (kvs, ub2, s) = mp_readPairs rd k s (assign (m_key entry) entry kvs)
      in (kvs, ub1 \<or> ub2, s))"

text \<open>
  \<open>readKeyValues\<close>, over a bound on the nesting of maps. Every nested map starts after at least
  one byte of its parent, so that the number of bytes left is a bound that is never reached.
\<close>

primrec readKeyValues_fuel :: "nat \<Rightarrow> map_reader" where
  "readKeyValues_fuel 0 s = ([], False, s)"
| "readKeyValues_fuel (Suc f) s =
     (case mp_findMap s of
        None \<Rightarrow> ([], False, mp_skipAll s)
      | Some (T, s) \<Rightarrow>
          (let (tokensToRead, s) = mp_tokensToRead T s
           in mp_readPairs (readKeyValues_fuel f) (unat tokensToRead) s []))"

definition readKeyValues :: map_reader where
  "readKeyValues s = readKeyValues_fuel (Suc (length (rest s))) s"

text \<open>
  The visitor. \<open>fm_terminate\<close> records that an exception has left a \<open>noexcept\<close> member, which
  ends the program.
\<close>

record from_msgpack =
  fm_keyValues :: key_values
  fm_undef :: bool
  fm_terminate :: bool

definition fromMsgPack_decodeFrom :: "istream \<Rightarrow> from_msgpack \<Rightarrow> from_msgpack" where
  "fromMsgPack_decodeFrom s v =
     (let (kvs, ub, s) = readKeyValues s in v\<lparr>fm_keyValues := kvs, fm_undef := fm_undef v \<or> ub\<rparr>)"

text \<open>The signed overloads try \<open>int64_t\<close>, then \<open>uint64_t\<close>.\<close>

definition cast_signed :: "'m any \<Rightarrow> uint64 option" where
  "cast_signed r = (case any_cast_int64 r of Some v \<Rightarrow> Some v | None \<Rightarrow> any_cast_uint64 r)"

fun mp_assign :: "key_values any \<Rightarrow> 'm any \<Rightarrow> 'm any" where
  "mp_assign r (A_bool b) = (case any_cast_bool r of Some v \<Rightarrow> A_bool v | None \<Rightarrow> A_bool b)"
| "mp_assign r (A_char c) =
     (case any_cast_string r of Some (v # _) \<Rightarrow> A_char v | _ \<Rightarrow> A_char c)"
| "mp_assign r (A_int8 w) = (case cast_signed r of Some v \<Rightarrow> A_int8 (ucast v) | None \<Rightarrow> A_int8 w)"
| "mp_assign r (A_uint8 w) = (case any_cast_uint64 r of Some v \<Rightarrow> A_uint8 (ucast v) | None \<Rightarrow> A_uint8 w)"
| "mp_assign r (A_int16 w) = (case cast_signed r of Some v \<Rightarrow> A_int16 (ucast v) | None \<Rightarrow> A_int16 w)"
| "mp_assign r (A_uint16 w) = (case any_cast_uint64 r of Some v \<Rightarrow> A_uint16 (ucast v) | None \<Rightarrow> A_uint16 w)"
| "mp_assign r (A_int32 w) = (case cast_signed r of Some v \<Rightarrow> A_int32 (ucast v) | None \<Rightarrow> A_int32 w)"
| "mp_assign r (A_uint32 w) = (case any_cast_uint64 r of Some v \<Rightarrow> A_uint32 (ucast v) | None \<Rightarrow> A_uint32 w)"
| "mp_assign r (A_int64 w) = (case cast_signed r of Some v \<Rightarrow> A_int64 v | None \<Rightarrow> A_int64 w)"
| "mp_assign r (A_uint64 w) = (case any_cast_uint64 r of Some v \<Rightarrow> A_uint64 v | None \<Rightarrow> A_uint64 w)"
| "mp_assign r (A_float f) = (case any_cast_float r of Some v \<Rightarrow> A_float v | None \<Rightarrow> A_float f)"
| "mp_assign r (A_double d) = (case any_cast_double r of Some v \<Rightarrow> A_double v | None \<Rightarrow> A_double d)"
| "mp_assign r (A_string s) = (case any_cast_string r of Some v \<Rightarrow> A_string v | None \<Rightarrow> A_string s)"
| "mp_assign r a = a"

text \<open>\<open>at(0)\<close> of an empty string throws \<open>std::out_of_range\<close>, which nothing catches.\<close>

definition mp_throws :: "key_values any \<Rightarrow> 'm any \<Rightarrow> bool" where
  "mp_throws r a = (case a of A_char _ \<Rightarrow> any_cast_string r = Some [] | _ \<Rightarrow> False)"

definition fromMsgPack_visit ::
  "uint32 \<Rightarrow> cstring \<Rightarrow> cstring \<Rightarrow> 'm any \<Rightarrow> from_msgpack \<Rightarrow> 'm any \<times> from_msgpack" where
  "fromMsgPack_visit i tn n a v =
     (case map_of (fm_keyValues v) n of
        None \<Rightarrow> (a, v)
      | Some e \<Rightarrow> (mp_assign (m_value e) a,
                   v\<lparr>fm_terminate := fm_terminate v \<or> mp_throws (m_value e) a\<rparr>))"

definition fromMsgPack :: "(from_msgpack, visitable) visitor" where
  "fromMsgPack =
     \<lparr>v_pre = (\<lambda>_ _ _ v. v),
      v_visit = fromMsgPack_visit,
      v_enter = (\<lambda>i tn n v.
        case map_of (fm_keyValues v) n of
          None \<Rightarrow> None
        | Some e \<Rightarrow>
            (case any_cast_obj (m_value e) of
               None \<Rightarrow> None
             | Some kvs \<Rightarrow> Some \<lparr>fm_keyValues = kvs, fm_undef = False, fm_terminate = False\<rparr>)),
      v_leave = (\<lambda>i tn n v nested.
        v\<lparr>fm_undef := fm_undef v \<or> fm_undef nested, fm_terminate := fm_terminate v \<or> fm_terminate nested\<rparr>),
      v_post = (\<lambda>v. v)\<rparr>"

definition msgpack_decode :: "byte list \<Rightarrow> visitable \<Rightarrow> visitable \<times> from_msgpack" where
  "msgpack_decode bs m =
     accept fromMsgPack m
       (fromMsgPack_decodeFrom (istream_of bs) \<lparr>fm_keyValues = [], fm_undef = False, fm_terminate = False\<rparr>)"

end
