(* ===== verification/MsgPackCorrect.thy ===== *)
theory MsgPackCorrect
  imports MsgPack
begin

text \<open>
  Correctness of the MessagePack codec: the encoder writes the reference encoding, the decoder
  reads it back into the map it stands for, and messages survive the round trip.
\<close>

section \<open>Format families as ranges of bytes\<close>

lemmas word_to_nat = word_unat_eq_iff word_le_nat_alt word_less_nat_alt

definition family_nat :: "nat \<Rightarrow> format_family" where
  "family_nat n =
     (if n \<le> 0x7F \<or> 0xCC \<le> n \<and> n \<le> 0xCF then UINT_FORMAT
      else if n < 0x8F \<or> n = 0xDE \<or> n = 0xDF then MAP_FORMAT
      else if 0xA0 \<le> n \<and> n < 0xBF \<or> 0xD9 \<le> n \<and> n \<le> 0xDB then STR_FORMAT
      else if n = 0xC2 \<or> n = 0xC3 then BOOL_FORMAT
      else if n = 0xCA \<or> n = 0xCB then FLOAT_FORMAT
      else if 0xD0 \<le> n \<and> n \<le> 0xD3 \<or> 0xE0 \<le> n then INT_FORMAT
      else UNKNOWN_FORMAT)"

lemma getFormatFamily_nat: "getFormatFamily T = family_nat (unat T)"
proof -
  have "unat T < 256" using unsigned_less [of T, where 'a = nat] by simp
  then show ?thesis
    unfolding getFormatFamily_def family_nat_def msgpack_constants word_to_nat
    by (simp, presburger)
qed


section \<open>Reference encoding\<close>

definition mp_str_header :: "nat \<Rightarrow> byte list" where
  "mp_str_header n =
     (if n < 32 then [of_nat (0xA0 + n)]
      else if n \<le> 0xFF then [0xD9, of_nat n]
      else if n \<le> 0xFFFF then 0xDA # be_bytes 2 (of_nat n :: uint16)
      else 0xDB # be_bytes 4 (of_nat n :: uint32))"

text \<open>Lengths and numbers of fields are counted in 32 bits, hence the \<open>mod\<close>.\<close>

definition mp_str :: "cstring \<Rightarrow> byte list" where
  "mp_str s = mp_str_header (length s mod 2 ^ 32) @ take (length s mod 2 ^ 32) s"

definition mp_map_header :: "nat \<Rightarrow> byte list" where
  "mp_map_header n =
     (if n \<le> 15 then [of_nat (0x80 + n)]
      else if n \<le> 0xFFFF then 0xDE # be_bytes 2 (of_nat n :: uint16)
      else 0xDF # be_bytes 4 (of_nat n :: uint32))"

definition mp_uint :: "nat \<Rightarrow> byte list" where
  "mp_uint n =
     (if n \<le> 0x7F then [of_nat n]
      else if n \<le> 0xFF then [0xCC, of_nat n]
      else if n \<le> 0xFFFF then 0xCD # be_bytes 2 (of_nat n :: uint16)
      else if n \<le> 0xFFFFFFFF then 0xCE # be_bytes 4 (of_nat n :: uint32)
      else 0xCF # be_bytes 8 (of_nat n :: uint64))"

definition mp_int :: "int \<Rightarrow> byte list" where
  "mp_int i =
     (if - 31 \<le> i then [of_int i]
      else if - (2 ^ 7) \<le> i then [0xD0, of_int i]
      else if - (2 ^ 15) \<le> i then 0xD1 # be_bytes 2 (of_int i :: int16)
      else if - (2 ^ 31) \<le> i then 0xD2 # be_bytes 4 (of_int i :: int32)
      else 0xD3 # be_bytes 8 (of_int i :: int64))"

definition mp_number :: "int \<Rightarrow> byte list" where
  "mp_number i = (if i < 0 then mp_int i else mp_uint (nat i))"

fun mp_scalar :: "'m any \<Rightarrow> byte list" where
  "mp_scalar (A_bool b) = [if b then 0xC3 else 0xC2]"
| "mp_scalar (A_char c) = mp_str [c]"
| "mp_scalar (A_int8 w) = mp_number (sint w)"
| "mp_scalar (A_uint8 w) = mp_number (uint w)"
| "mp_scalar (A_int16 w) = mp_number (sint w)"
| "mp_scalar (A_uint16 w) = mp_number (uint w)"
| "mp_scalar (A_int32 w) = mp_number (sint w)"
| "mp_scalar (A_uint32 w) = mp_number (uint w)"
| "mp_scalar (A_int64 w) = mp_number (sint w)"
| "mp_scalar (A_uint64 w) = mp_number (uint w)"
| "mp_scalar (A_float f) = 0xCA # be_bytes 4 f"
| "mp_scalar (A_double d) = 0xCB # be_bytes 8 d"
| "mp_scalar (A_string s) = mp_str s"
| "mp_scalar _ = []"

function mp_bytes :: "visitable \<Rightarrow> byte list"
  and mp_fields :: "field list \<Rightarrow> byte list"
  and mp_value :: "visitable any \<Rightarrow> byte list" where
  "mp_bytes (Visitable i sn ln fs) = mp_map_header (length fs mod 2 ^ 32) @ mp_fields fs"
| "mp_fields [] = []"
| "mp_fields ((i, tn, n, a) # fs) = mp_str n @ mp_value a @ mp_fields fs"
| "mp_value a =
     (case a of
        A_obj m \<Rightarrow> take (length (mp_bytes m) mod 2 ^ 32) (mp_bytes m)
      | _ \<Rightarrow> mp_scalar a)"
  by pat_completeness auto
termination
  by (relation "measure (\<lambda>x. case x of
        Inl m \<Rightarrow> size m | Inr (Inl fs) \<Rightarrow> fields_size fs | Inr (Inr a) \<Rightarrow> value_size a)") auto

declare mp_value.simps [simp del]

section \<open>The encoder writes the reference encoding\<close>

lemma fixstr: "n < 32 \<Longrightarrow> 0xA0 OR (of_nat n :: 8 word) = of_nat (0xA0 + n)"
  using or_disjoint [of n 5 "5 :: 8 word"] by (simp add: push_bit_eq_mult)
lemma fixmap: "n \<le> 15 \<Longrightarrow> 0x80 OR (of_nat n :: 8 word) = of_nat (0x80 + n)"
  using or_disjoint [of n 4 "8 :: 8 word"] by (simp add: push_bit_eq_mult)

lemma mp_encode_str [codec_simps]: "mp_encode s out = out @ mp_str s"
proof -
  define n where "n = length s mod 2 ^ 32"
  have n: "unat (of_nat (length s) :: uint32) = n" by (simp add: n_def unat_of_nat)
  then have l: "(of_nat (length s) :: uint32) = of_nat n" by (metis of_nat_unat ucast_id)
  show ?thesis
    unfolding mp_encode_def mp_str_def mp_str_header_def word_to_nat msgpack_constants n_def [symmetric]
    using n unfolding l
    by (simp add: ucast_of_nat fixstr Let_def del: of_nat_add)
qed

lemma mp_encodeUint_number [codec_simps]: "mp_encodeUint v out = out @ mp_uint (unat v)"
proof -
  have [simp]: "(of_nat (unat v) :: 'a::len word) = ucast v" by (simp add: of_nat_unat)
  show ?thesis
    unfolding mp_encodeUint_def mp_uint_def word_to_nat msgpack_constants by simp
qed

lemma mp_encodeInt_number [codec_simps]: "mp_encodeInt v out = out @ mp_int (sint v)"
proof -
  have [simp]: "(scast v :: 8 word) = ucast v" "(scast v :: 16 word) = ucast v"
    "(scast v :: 32 word) = ucast v"
    by (auto intro!: bit_word_eqI simp: bit_simps)
  show ?thesis
    unfolding mp_encodeInt_def mp_int_def msgpack_constants by simp
qed


text \<open>The numeric overloads.\<close>

lemma mp_number_signed [codec_simps]:
  fixes w :: "'a::len word"
  assumes "LENGTH('a) \<le> 64"
  shows "(if sint w < 0 then mp_encodeInt (scast w) else mp_encodeUint (ucast w)) out
    = out @ mp_number (sint w)"
proof (cases "sint w < 0")
  case True
  have "sint (scast w :: int64) = sint w" using assms by (intro sint_up_scast) (simp add: is_up)
  then show ?thesis using True by (simp add: mp_encodeInt_number mp_number_def)
next
  case False
  have "unat (ucast w :: uint64) = unat w"
    using assms by (intro unat_ucast_up) simp
  moreover have "sint w = int (unat w)" using False by (intro sint_nonneg) simp
  ultimately show ?thesis using False by (simp add: mp_encodeUint_number mp_number_def)
qed


lemma mp_encodeInt_neg [codec_simps]: "sint w < 0 \<Longrightarrow> mp_encodeInt w out = out @ mp_number (sint w)"
  by (simp add: mp_encodeInt_number mp_number_def)
lemma mp_encodeUint_pos [codec_simps]: "\<not> sint w < 0 \<Longrightarrow> mp_encodeUint w out = out @ mp_number (sint w)"
  using sint_nonneg [of w] by (simp add: mp_encodeUint_number mp_number_def)
lemma mp_number_unsigned [codec_simps]:
  "LENGTH('a) \<le> 64 \<Longrightarrow> mp_encodeUint (ucast w) out = out @ mp_number (uint (w :: 'a::len word))"
  by (simp add: mp_encodeUint_number mp_number_def unat_ucast_up) 

lemma toMsgPack_sel [simp]:
  "v_pre toMsgPack = (\<lambda>_ _ _ v. v\<lparr>tm_numberOfFields := 0, tm_buffer := []\<rparr>)" "v_post toMsgPack = (\<lambda>v. v)"
  "v_visit toMsgPack = toMsgPack_visit" "v_enter toMsgPack = (\<lambda>_ _ _ _. Some toMsgPack_new)"
  by (simp_all add: toMsgPack_def)

definition toMsgPack_after :: "nat \<Rightarrow> byte list \<Rightarrow> to_msgpack \<Rightarrow> to_msgpack" where
  "toMsgPack_after k bs v =
     \<lparr>tm_numberOfFields = tm_numberOfFields v + of_nat k, tm_buffer = tm_buffer v @ bs\<rparr>"

lemma mp_field_after:
  "(\<And>out. enc out = out @ bs) \<Longrightarrow> mp_field n enc v = toMsgPack_after (Suc 0) (mp_str n @ bs) v"
  by (simp add: mp_field_def toMsgPack_after_def codec_simps)

lemma toMsgPack_visit_scalar:
  "is_scalar a \<Longrightarrow> toMsgPack_visit i tn n a v = (a, toMsgPack_after (Suc 0) (mp_str n @ mp_value a) v)"
proof (cases a)
  case (A_int8 w)
  then show ?thesis using mp_number_signed [of w] by (simp add: mp_value.simps mp_field_after split: if_splits)
next
  case (A_int16 w)
  then show ?thesis using mp_number_signed [of w] by (simp add: mp_value.simps mp_field_after split: if_splits)
next
  case (A_int32 w)
  then show ?thesis using mp_number_signed [of w] by (simp add: mp_value.simps mp_field_after split: if_splits)
qed (auto simp: is_scalar_def mp_value.simps msgpack_constants mp_number_unsigned mp_number_def
       mp_encode_str mp_encodeInt_neg mp_encodeUint_number unat_ucast_up not_less
       sint_nonneg intro!: mp_field_after)

text \<open>The header is that of the number of fields, as counted.\<close>

lemma encodedData_header:
  "toMsgPack_encodedData \<lparr>tm_numberOfFields = of_nat k, tm_buffer = bs\<rparr> = mp_map_header (k mod 2 ^ 32) @ bs"
proof -
  define n where "n = k mod 2 ^ 32"
  have n: "unat (of_nat k :: uint32) = n" by (simp add: n_def unat_of_nat)
  then have l: "(of_nat k :: uint32) = of_nat n" by (metis of_nat_unat ucast_id)
  show ?thesis
    unfolding toMsgPack_encodedData_def mp_map_header_def word_to_nat msgpack_constants n_def [symmetric]
    using n unfolding l
    by (simp add: ucast_of_nat fixmap Let_def del: of_nat_add)
qed

lemma accept_toMsgPack:
    "\<And>v. typed m \<Longrightarrow> snd (accept toMsgPack m v) = \<lparr>tm_numberOfFields = of_nat (length (msg_fields m)),
        tm_buffer = mp_fields (msg_fields m)\<rparr>"
  and accept_fields_toMsgPack:
    "\<And>v. typed_fields fs \<Longrightarrow> snd (accept_fields toMsgPack fs v) = toMsgPack_after (length fs) (mp_fields fs) v"
  and do_visit_toMsgPack:
    "\<And>i tn n v. typed_value a \<Longrightarrow>
       snd (do_visit toMsgPack i tn n a v) = toMsgPack_after (Suc 0) (mp_str n @ mp_value a) v"
proof (induction m and fs and a rule: message_induct)
  case (Val a)
  from Val.prems show ?case
  proof (cases rule: typed_value_cases)
    case scalar
    then show ?thesis by (simp add: do_visit_scalar toMsgPack_visit_scalar)
  next
    case (nested m)
    obtain j sn ln gs where m: "m = Visitable j sn ln gs" by (cases m)
    have "v_leave toMsgPack i tn n v \<lparr>tm_numberOfFields = of_nat (length gs), tm_buffer = mp_fields gs\<rparr>
        = toMsgPack_after (Suc 0) (mp_str n @ mp_value a) v"
      by (simp add: toMsgPack_def encodedData_header mp_field_after nested m mp_value.simps Let_def unat_of_nat)
    then show ?thesis
      using Val.IH [OF nested, of toMsgPack_new] by (simp add: nested(1) split_beta m del: accept.simps)
  qed
qed (simp_all add: toMsgPack_after_def split_beta)

interpretation to_msgpack: reader_visitor toMsgPack
  by unfold_locales (simp add: toMsgPack_def, rename_tac a v, case_tac a; simp)

lemma msgpack_encode_bytes: "typed m \<Longrightarrow> msgpack_encode m = mp_bytes m"
  by (cases m) (simp add: msgpack_encode_def accept_toMsgPack encodedData_header del: accept.simps)

section \<open>Reading back\<close>

lemma family_of_nat: "n < 256 \<Longrightarrow> getFormatFamily (of_nat n) = family_nat n"
  by (simp add: getFormatFamily_nat unat_of_nat)

lemma read_be_at [stream_simps]:
  "at s (be_bytes k w @ r) \<Longrightarrow> LENGTH('a) = 8 * k \<Longrightarrow>
     read_be k s = (w :: 'a::len word, consumed (be_bytes k w) s)"
  by (simp add: read_be_def in_read_at)

lemma read_be_1 [stream_simps]: "at s (b # r) \<Longrightarrow> read_be 1 s = (b :: uint8, consumed [b] s)"
  using in_read_at [of s "[b]" r 1]
  by (simp add: read_be_def of_be_bytes_def)

lemma unat_of_nat_small: "n < 2 ^ LENGTH('a) \<Longrightarrow> unat (of_nat n :: 'a::len word) = n"
  by (simp add: unat_of_nat)

lemma ucast_of_nat_small: "n < 2 ^ LENGTH('a) \<Longrightarrow> (ucast (of_nat n :: 'a::len word) :: 'b::len word) = of_nat n"
  by (metis of_nat_unat unat_of_nat_small)

lemma mp_readUint_at:
  assumes at: "at s (mp_uint n @ r)" and n: "n < 2 ^ 64"
  shows "mp_readUint s = (of_nat n, consumed (mp_uint n) s)"
proof -
  have g: "good s" using at by auto
  consider "n \<le> 0x7F" | "0x7F < n" "n \<le> 0xFF" | "0xFF < n" "n \<le> 0xFFFF"
    | "0xFFFF < n" "n \<le> 0xFFFFFFFF" | "0xFFFFFFFF < n" by linarith
  then show ?thesis
  proof cases
    case 1
    then have "at s (of_nat n # r)" using at by (simp add: mp_uint_def)
    from in_get_at [OF this] g 1 show ?thesis
      by (simp add: mp_readUint_def mp_uint_def family_of_nat family_nat_def word_to_nat
          unat_of_nat_small ucast_of_nat_small)
  next
    case 2
    then have at1: "at s (0xCC # of_nat n # r)" using at by (simp add: mp_uint_def)
    have "at (consumed [0xCC] s) (of_nat n # r)" using at1 by (intro at_consumed) simp
    from in_get_at [OF at1] read_be_1 [OF this] g 2 show ?thesis
      by (simp add: mp_readUint_def mp_uint_def getFormatFamily_nat family_nat_def word_to_nat
          msgpack_constants ucast_of_nat_small)
  next
    case 3
    then have at1: "at s (0xCD # be_bytes 2 (of_nat n :: uint16) @ r)" using at by (simp add: mp_uint_def)
    have "at (consumed [0xCD] s) (be_bytes 2 (of_nat n :: uint16) @ r)"
      using at1 by (intro at_consumed) simp
    from in_get_at [OF at1] read_be_at [OF this] g 3 show ?thesis
      by (simp add: mp_readUint_def mp_uint_def getFormatFamily_nat family_nat_def word_to_nat
          msgpack_constants ucast_of_nat_small)
  next
    case 4
    then have at1: "at s (0xCE # be_bytes 4 (of_nat n :: uint32) @ r)" using at by (simp add: mp_uint_def)
    have "at (consumed [0xCE] s) (be_bytes 4 (of_nat n :: uint32) @ r)"
      using at1 by (intro at_consumed) simp
    from in_get_at [OF at1] read_be_at [OF this] g 4 show ?thesis
      by (simp add: mp_readUint_def mp_uint_def getFormatFamily_nat family_nat_def word_to_nat
          msgpack_constants ucast_of_nat_small)
  next
    case 5
    then have at1: "at s (0xCF # be_bytes 8 (of_nat n :: uint64) @ r)" using at by (simp add: mp_uint_def)
    have "at (consumed [0xCF] s) (be_bytes 8 (of_nat n :: uint64) @ r)"
      using at1 by (intro at_consumed) simp
    from in_get_at [OF at1] read_be_at [OF this] g 5 show ?thesis
      by (simp add: mp_readUint_def mp_uint_def getFormatFamily_nat family_nat_def word_to_nat
          msgpack_constants)
  qed
qed


lemma mp_readInt_at:
  assumes at: "at s (mp_int i @ r)" and i: "- (2 ^ 63) \<le> i" "i < 0"
  shows "mp_readInt s = (of_int i, consumed (mp_int i) s)"
proof -
  have g: "good s" using at by auto
  have "sint (of_int i :: 8 word) = i" if "- (2 ^ 7) \<le> i" using that i by (intro sint_of_int) auto
  then have sc: "- (2 ^ 7) \<le> i \<Longrightarrow> (scast (of_int i :: 8 word) :: int64) = of_int i"
    by (simp only: scast_eq)
  have "sint (of_int i :: 16 word) = i" if "- (2 ^ 15) \<le> i" using that i by (intro sint_of_int) auto
  then have sc2: "- (2 ^ 15) \<le> i \<Longrightarrow> (scast (of_int i :: 16 word) :: int64) = of_int i"
    by (simp only: scast_eq)
  have "sint (of_int i :: 32 word) = i" if "- (2 ^ 31) \<le> i" using that i by (intro sint_of_int) auto
  then have sc4: "- (2 ^ 31) \<le> i \<Longrightarrow> (scast (of_int i :: 32 word) :: int64) = of_int i"
    by (simp only: scast_eq)
  consider "- 31 \<le> i" | "i < - 31" "- (2 ^ 7) \<le> i" | "i < - (2 ^ 7)" "- (2 ^ 15) \<le> i"
    | "i < - (2 ^ 15)" "- (2 ^ 31) \<le> i" | "i < - (2 ^ 31)" by linarith
  then show ?thesis
  proof cases
    case 1
    have "uint (of_int i :: 8 word) = 256 + i"
      using 1 i by (simp add: unsigned_of_int take_bit_int_eq_self_iff)
        (simp add: take_bit_eq_mod mod_pos_neg_trivial mod_add_self2 [symmetric, of i 256] del: mod_add_self2)
    then have u: "224 < unat (of_int i :: 8 word)" using 1 by (simp add: unat_eq_nat_uint) 
    from 1 have "at s (of_int i # r)" using at by (simp add: mp_int_def)
    from in_get_at [OF this] g 1 u sc show ?thesis
      by (simp add: mp_readInt_def mp_int_def getFormatFamily_nat family_nat_def word_to_nat)
  next
    case 2
    then have at1: "at s (0xD0 # of_int i # r)" using at by (simp add: mp_int_def)
    have "at (consumed [0xD0] s) (of_int i # r)" using at1 by (intro at_consumed) simp
    from in_get_at [OF at1] read_be_1 [OF this] g 2 sc show ?thesis
      by (simp add: mp_readInt_def mp_int_def getFormatFamily_nat family_nat_def word_to_nat
          msgpack_constants)
  next
    case 3
    then have at1: "at s (0xD1 # be_bytes 2 (of_int i :: int16) @ r)" using at by (simp add: mp_int_def)
    have "at (consumed [0xD1] s) (be_bytes 2 (of_int i :: int16) @ r)"
      using at1 by (intro at_consumed) simp
    from in_get_at [OF at1] read_be_at [OF this] g 3 sc2 show ?thesis
      by (simp add: mp_readInt_def mp_int_def getFormatFamily_nat family_nat_def word_to_nat
          msgpack_constants)
  next
    case 4
    then have at1: "at s (0xD2 # be_bytes 4 (of_int i :: int32) @ r)" using at by (simp add: mp_int_def)
    have "at (consumed [0xD2] s) (be_bytes 4 (of_int i :: int32) @ r)"
      using at1 by (intro at_consumed) simp
    from in_get_at [OF at1] read_be_at [OF this] g 4 sc4 show ?thesis
      by (simp add: mp_readInt_def mp_int_def getFormatFamily_nat family_nat_def word_to_nat
          msgpack_constants)
  next
    case 5
    then have at1: "at s (0xD3 # be_bytes 8 (of_int i :: int64) @ r)" using at by (simp add: mp_int_def)
    have "at (consumed [0xD3] s) (be_bytes 8 (of_int i :: int64) @ r)"
      using at1 by (intro at_consumed) simp
    from in_get_at [OF at1] read_be_at [OF this] g 5 show ?thesis
      by (simp add: mp_readInt_def mp_int_def getFormatFamily_nat family_nat_def word_to_nat
          msgpack_constants)
  qed
qed

lemma mp_str_eq: "length t < 2 ^ 32 \<Longrightarrow> mp_str t = mp_str_header (length t) @ t"
  by (simp add: mp_str_def)

lemma mp_readString_at:
  assumes at: "at s (mp_str t @ r)" and t: "length t < 2 ^ 32" "length t \<noteq> 31"
  shows "mp_readString s = (t, False, consumed (mp_str t) s)"
proof -
  let ?n = "length t"
  have g: "good s" using at by auto
  note at0 = at [unfolded mp_str_eq [OF t(1)] append_assoc]
  have z: "t = []" if "\<not> (0::uint32) < of_nat ?n"
    using that t(1) by (simp add: word_less_nat_alt unat_of_nat_small)
  have rd: "in_read ?n (consumed h s) = (t, consumed t (consumed h s))" if "mp_str_header ?n = h" for h
    using at0 that by (intro in_read_at at_consumed) auto
  consider "?n < 31" | "32 \<le> ?n" "?n \<le> 0xFF" | "0xFF < ?n" "?n \<le> 0xFFFF" | "0xFFFF < ?n"
    using t(2) by linarith
  then show ?thesis
  proof cases
    case 1
    then have h: "mp_str_header ?n = [of_nat (0xA0 + ?n)]" by (simp add: mp_str_header_def)
    with at0 have "at s (of_nat (0xA0 + ?n) # t @ r)" by simp
    note get = in_get_at [OF this]
    show ?thesis
    proof (cases "t = []")
      case True
      with get g show ?thesis
        by (simp add: mp_readString_def getFormatFamily_nat family_nat_def word_to_nat msgpack_constants
            mp_str_def mp_str_header_def)
    next
      case False
      define w where "w = (of_nat (0xA0 + ?n) :: 8 word)"
      have "unat w = 0xA0 + ?n" unfolding w_def using 1 by (intro unat_of_nat_small) simp
      then have w: "w - 0xA0 = of_nat ?n" "unat w = 0xA0 + ?n" by (simp_all add: w_def)
      note get [folded w_def] rd [OF h [folded w_def]]
      then show ?thesis
        using g False w 1 t
        by (simp add: mp_readString_def getFormatFamily_nat family_nat_def word_to_nat msgpack_constants
          mp_str_eq h [folded w_def] unat_of_nat_small unat_ucast_up)
    qed
  next
    case 2
    then have h: "mp_str_header ?n = [0xD9, of_nat ?n]" by (simp add: mp_str_header_def)
    with at0 have at1: "at s (0xD9 # of_nat ?n # t @ r)" by simp
    have "at (consumed [0xD9] s) (of_nat ?n # t @ r)" using at1 by (intro at_consumed) simp
    from in_get_at [OF at1] read_be_1 [OF this] g 2 rd [OF h] t show ?thesis
      by (simp add: mp_readString_def getFormatFamily_nat family_nat_def word_to_nat msgpack_constants
          mp_str_eq h ucast_of_nat_small unat_of_nat_small)
  next
    case 3
    then have h: "mp_str_header ?n = 0xDA # be_bytes 2 (of_nat ?n :: uint16)" by (simp add: mp_str_header_def)
    with at0 have at1: "at s (0xDA # be_bytes 2 (of_nat ?n :: uint16) @ t @ r)" by simp
    have "at (consumed [0xDA] s) (be_bytes 2 (of_nat ?n :: uint16) @ t @ r)"
      using at1 by (intro at_consumed) simp
    from in_get_at [OF at1] read_be_at [OF this] g 3 rd [OF h] t show ?thesis
      by (simp add: mp_readString_def getFormatFamily_nat family_nat_def word_to_nat msgpack_constants
          mp_str_eq h ucast_of_nat_small unat_of_nat_small)
  next
    case 4
    then have h: "mp_str_header ?n = 0xDB # be_bytes 4 (of_nat ?n :: uint32)" by (simp add: mp_str_header_def)
    with at0 have at1: "at s (0xDB # be_bytes 4 (of_nat ?n :: uint32) @ t @ r)" by simp
    have "at (consumed [0xDB] s) (be_bytes 4 (of_nat ?n :: uint32) @ t @ r)"
      using at1 by (intro at_consumed) simp
    from in_get_at [OF at1] read_be_at [OF this] g 4 rd [OF h] t show ?thesis
      by (simp add: mp_readString_def getFormatFamily_nat family_nat_def word_to_nat msgpack_constants
          mp_str_eq h ucast_of_nat_small unat_of_nat_small)
  qed
qed


section \<open>What the decoder holds\<close>

definition mp_held_number :: "int \<Rightarrow> key_values any" where
  "mp_held_number i = (if i < 0 then A_int64 (of_int i) else A_uint64 (of_int i))"

definition mp_family_number :: "int \<Rightarrow> format_family" where
  "mp_family_number i = (if i < 0 then INT_FORMAT else UINT_FORMAT)"

fun mp_family :: "'m any \<Rightarrow> format_family" where
  "mp_family (A_bool b) = BOOL_FORMAT"
| "mp_family (A_int8 w) = mp_family_number (sint w)"
| "mp_family (A_uint8 w) = UINT_FORMAT"
| "mp_family (A_int16 w) = mp_family_number (sint w)"
| "mp_family (A_uint16 w) = UINT_FORMAT"
| "mp_family (A_int32 w) = mp_family_number (sint w)"
| "mp_family (A_uint32 w) = UINT_FORMAT"
| "mp_family (A_int64 w) = mp_family_number (sint w)"
| "mp_family (A_uint64 w) = UINT_FORMAT"
| "mp_family (A_float f) = FLOAT_FORMAT"
| "mp_family (A_double d) = FLOAT_FORMAT"
| "mp_family (A_obj m) = MAP_FORMAT"
| "mp_family _ = STR_FORMAT"

fun mp_held_scalar :: "'m any \<Rightarrow> key_values any" where
  "mp_held_scalar (A_bool b) = A_bool b"
| "mp_held_scalar (A_char c) = A_string [c]"
| "mp_held_scalar (A_int8 w) = mp_held_number (sint w)"
| "mp_held_scalar (A_uint8 w) = mp_held_number (uint w)"
| "mp_held_scalar (A_int16 w) = mp_held_number (sint w)"
| "mp_held_scalar (A_uint16 w) = mp_held_number (uint w)"
| "mp_held_scalar (A_int32 w) = mp_held_number (sint w)"
| "mp_held_scalar (A_uint32 w) = mp_held_number (uint w)"
| "mp_held_scalar (A_int64 w) = mp_held_number (sint w)"
| "mp_held_scalar (A_uint64 w) = mp_held_number (uint w)"
| "mp_held_scalar (A_float f) = A_float f"
| "mp_held_scalar (A_double d) = A_double d"
| "mp_held_scalar (A_string s) = A_string s"
| "mp_held_scalar _ = A_empty"

function mp_entries :: "field list \<Rightarrow> key_values"
  and mp_held :: "visitable any \<Rightarrow> key_values any" where
  "mp_entries [] = []"
| "mp_entries ((i, tn, n, a) # fs) = (n, MsgPackKeyValue n (mp_family a) (mp_held a)) # mp_entries fs"
| "mp_held a = (case a of A_obj m \<Rightarrow> A_obj (mp_entries (msg_fields m)) | _ \<Rightarrow> mp_held_scalar a)"
  by pat_completeness auto
termination
proof (relation "measure (\<lambda>x. case x of Inl fs \<Rightarrow> fields_size fs | Inr a \<Rightarrow> value_size a)")
  fix m :: visitable and a
  show "a = A_obj m \<Longrightarrow> (Inl (msg_fields m), Inr a) \<in> measure (\<lambda>x. case x of Inl fs \<Rightarrow> fields_size fs | Inr a \<Rightarrow> value_size a)"
    by (cases m) simp
qed auto

declare mp_held.simps [simp del]

text \<open>
  The messages the decoder can read back: lengths below \<open>2 ^ 32\<close>, distinct names in a message,
  and, because of the strict comparisons in \<open>getFormatFamily\<close>, no string of 31 characters and no
  message of 15 fields.
\<close>

function mp_ok :: "visitable \<Rightarrow> bool"
  and mp_ok_fields :: "field list \<Rightarrow> bool"
  and mp_ok_value :: "visitable any \<Rightarrow> bool" where
  "mp_ok (Visitable i sn ln fs) \<longleftrightarrow>
     mp_ok_fields fs \<and> distinct (map (\<lambda>(i, tn, n, a). n) fs) \<and> length fs < 2 ^ 32 \<and> length fs \<noteq> 15"
| "mp_ok_fields [] \<longleftrightarrow> True"
| "mp_ok_fields ((i, tn, n, a) # fs) \<longleftrightarrow>
     length n < 2 ^ 32 \<and> length n \<noteq> 31 \<and> mp_ok_value a \<and> mp_ok_fields fs"
| "mp_ok_value a \<longleftrightarrow>
     (case a of
        A_empty \<Rightarrow> False
      | A_string s \<Rightarrow> length s < 2 ^ 32 \<and> length s \<noteq> 31
      | A_obj m \<Rightarrow> mp_ok m \<and> length (mp_bytes m) < 2 ^ 32
      | _ \<Rightarrow> True)"
  by pat_completeness auto
termination
  by (relation "measure (\<lambda>x. case x of
        Inl m \<Rightarrow> size m | Inr (Inl fs) \<Rightarrow> fields_size fs | Inr (Inr a) \<Rightarrow> value_size a)") auto

declare mp_ok_value.simps [simp del]

lemma mp_ok_typed: "mp_ok m \<Longrightarrow> typed m" and "mp_ok_fields fs \<Longrightarrow> typed_fields fs"
  and "mp_ok_value a \<Longrightarrow> typed_value a"
proof (induction m and fs and a rule: message_induct)
  case (Val a)
  then show ?case by (cases a) (auto simp: mp_ok_value.simps typed_value.simps)
qed auto

lemma in_unget_at: "at s (c # r) \<Longrightarrow> in_get s = (Some c, consumed [c] s) \<and> in_unget (consumed [c] s) = s"
  by (simp add: in_get_at in_unget_consumed)

text \<open>The first byte of a value selects its reader.\<close>

lemma family_first:
  "family_nat (unat (hd (mp_uint n))) = UINT_FORMAT" if "n < 2 ^ 64"
  using that by (auto simp: mp_uint_def family_nat_def unat_of_nat_small)

lemma unat_neg_byte: "- 128 \<le> i \<Longrightarrow> i < 0 \<Longrightarrow> unat (of_int i :: 8 word) = nat (256 + i)"
proof -
  assume i: "- 128 \<le> i" "i < 0"
  have "uint (of_int i :: 8 word) = i mod 256" by (simp add: unsigned_of_int take_bit_eq_mod)
  also have "i mod 256 = 256 + i" using i mod_pos_pos_trivial [of "256 + i" 256] by simp
  finally have "int (unat (of_int i :: 8 word)) = 256 + i" by simp
  then show ?thesis by (metis nat_int)
qed

lemma hd_mp_int: "- (2 ^ 63) \<le> i \<Longrightarrow> i < 0 \<Longrightarrow> family_nat (unat (hd (mp_int i))) = INT_FORMAT"
proof -
  assume i: "- (2 ^ 63) \<le> i" "i < 0"
  show ?thesis
  proof (cases "- 31 \<le> i")
    case True
    then have "225 \<le> unat (of_int i :: 8 word)" using i by (simp add: unat_neg_byte le_nat_iff)
    then show ?thesis using True by (simp add: mp_int_def family_nat_def)
  qed (simp add: mp_int_def family_nat_def)
qed

lemma mp_readPair_step:
  assumes at: "at s (mp_str n @ c # bs)" and n: "length n < 2 ^ 32" "length n \<noteq> 31"
  shows "mp_readPair rd s =
    (let t = consumed (mp_str n) s; fam = getFormatFamily c
     in if fam = BOOL_FORMAT then (MsgPackKeyValue n fam (A_bool (c = MP_IS_TRUE)), False, consumed [c] t)
        else if fam = UINT_FORMAT then
          (let (v, s) = mp_readUint t in (MsgPackKeyValue n fam (A_uint64 v), False, s))
        else if fam = INT_FORMAT then
          (let (v, s) = mp_readInt t in (MsgPackKeyValue n fam (A_int64 v), False, s))
        else if fam = FLOAT_FORMAT then
          (if c = MP_FLOAT then
             (let (v, s) = read_be 4 (consumed [c] t) in (MsgPackKeyValue n fam (A_float v), False, s))
           else (let (v, s) = read_be 8 (consumed [c] t) in (MsgPackKeyValue n fam (A_double v), False, s)))
        else if fam = STR_FORMAT then
          (let (v, ub, s) = mp_readString t in (MsgPackKeyValue n fam (A_string v), ub, s))
        else if fam = MAP_FORMAT then
          (let (v, ub, s) = rd t in (MsgPackKeyValue n fam (A_obj v), ub, s))
        else (MsgPackKeyValue n fam A_empty, False, consumed [c] t))"
proof -
  let ?t = "consumed (mp_str n) s"
  have t: "at ?t (c # bs)" using at by (rule at_consumed)
  have g: "in_get ?t = (Some c, consumed [c] ?t)" and u: "in_unget (consumed [c] ?t) = ?t"
    using in_get_at [OF t] in_unget_consumed [OF t] by simp_all
  show ?thesis
    unfolding mp_readPair_def mp_readString_at [OF at n] Let_def prod.case g u to_uint_simps
    by (simp only: simp_thms)
qed

lemma mp_readPair_number:
  assumes at: "at s (mp_str n @ mp_number i @ r)" and n: "length n < 2 ^ 32" "length n \<noteq> 31"
    and i: "- (2 ^ 63) \<le> i" "i < 2 ^ 64"
  shows "mp_readPair rd s
    = (MsgPackKeyValue n (mp_family_number i) (mp_held_number i), False, consumed (mp_str n @ mp_number i) s)"
proof -
  let ?t = "consumed (mp_str n) s"
  have t: "at ?t (mp_number i @ r)" using at by (rule at_consumed)
  obtain c bs where c: "mp_number i = c # bs"
    by (cases "mp_number i") (auto simp: mp_number_def mp_int_def mp_uint_def split: if_splits)
  then have hd: "c = hd (mp_number i)" by simp
  note step = mp_readPair_step [OF at [unfolded c append_Cons] n, folded append_Cons, folded c]
  show ?thesis
  proof (cases "i < 0")
    case True
    then have "mp_number i = mp_int i" by (simp add: mp_number_def)
    moreover from this have "getFormatFamily c = INT_FORMAT"
      using hd_mp_int [OF i(1) True] by (simp add: hd getFormatFamily_nat)
    ultimately show ?thesis
      using mp_readInt_at [of ?t i r] t i True
      by (simp add: step mp_held_number_def mp_family_number_def)
  next
    case False
    then have u: "mp_number i = mp_uint (nat i)" by (simp add: mp_number_def)
    moreover have "getFormatFamily c = UINT_FORMAT"
      using family_first [of "nat i"] u i(2) by (simp add: hd getFormatFamily_nat)
    moreover have "(of_nat (nat i) :: uint64) = of_int i" using False by simp
    ultimately show ?thesis
      using mp_readUint_at [of ?t "nat i" r] t i False
      by (simp add: step mp_held_number_def mp_family_number_def)
  qed
qed

lemma family_mp_str:
  assumes "length v < 2 ^ 32" "length v \<noteq> 31"
  shows "\<exists>c bs. mp_str v = c # bs \<and> getFormatFamily c = STR_FORMAT"
  using assms
  by (auto simp: mp_str_eq mp_str_header_def getFormatFamily_nat family_nat_def unat_of_nat_small
      simp del: of_nat_add)

lemma family_mp_bytes:
  assumes "mp_ok m"
  shows "\<exists>c bs. mp_bytes m = c # bs \<and> getFormatFamily c = MAP_FORMAT"
  using assms
  by (cases m) (auto simp: mp_map_header_def getFormatFamily_nat family_nat_def unat_of_nat_small
      simp del: of_nat_add)

lemma mp_readPair_string:
  assumes at: "at s (mp_str n @ mp_str v @ r)" and n: "length n < 2 ^ 32" "length n \<noteq> 31"
    and v: "length v < 2 ^ 32" "length v \<noteq> 31"
  shows "mp_readPair rd s
    = (MsgPackKeyValue n STR_FORMAT (A_string v), False, consumed (mp_str n @ mp_str v) s)"
proof -
  obtain c bs where c: "mp_str v = c # bs" "getFormatFamily c = STR_FORMAT"
    using family_mp_str [OF v] by auto
  note step = mp_readPair_step [OF at [unfolded c append_Cons] n, folded append_Cons, folded c]
  show ?thesis
    using mp_readString_at [OF at_consumed [OF at] v] by (simp add: step c(2))
qed

lemma mp_readPair_value:
  assumes at: "at s (mp_str n @ mp_value a @ r)" and n: "length n < 2 ^ 32" "length n \<noteq> 31"
    and a: "mp_ok_value a"
    and rd: "\<And>m t r. a = A_obj m \<Longrightarrow> at t (mp_bytes m @ r) \<Longrightarrow>
      rd t = (mp_entries (msg_fields m), False, consumed (mp_bytes m) t)"
  shows "mp_readPair rd s
    = (MsgPackKeyValue n (mp_family a) (mp_held a), False, consumed (mp_str n @ mp_value a) s)"
proof -
  have r8: "- (2 ^ 63) \<le> sint w \<and> sint w < 2 ^ 64 \<and> uint w < 2 ^ 64" for w :: "8 word"
    using sint_ge [of w] sint_lt [of w] uint_lt2p [of w] by simp
  have r16: "- (2 ^ 63) \<le> sint w \<and> sint w < 2 ^ 64 \<and> uint w < 2 ^ 64" for w :: "16 word"
    using sint_ge [of w] sint_lt [of w] uint_lt2p [of w] by simp
  have r32: "- (2 ^ 63) \<le> sint w \<and> sint w < 2 ^ 64 \<and> uint w < 2 ^ 64" for w :: "32 word"
    using sint_ge [of w] sint_lt [of w] uint_lt2p [of w] by simp
  have r64: "- (2 ^ 63) \<le> sint w \<and> sint w < 2 ^ 64 \<and> uint w < 2 ^ 64" for w :: "64 word"
    using sint_ge [of w] sint_lt [of w] uint_lt2p [of w] by simp
  have u0: "- (2 ^ 63) \<le> uint w" for w :: "'z::len word" by (rule order_trans [OF _ uint_ge_0]) simp
  note num = mp_readPair_number [OF _ n]
  show ?thesis
  proof (cases a)
    case A_empty
    then show ?thesis using a by (simp add: mp_ok_value.simps)
  next
    case (A_bool b)
    then obtain c where c: "mp_value a = [c]" "c = (if b then 0xC3 else 0xC2)" by (simp add: mp_value.simps)
    note step = mp_readPair_step [OF at [unfolded c(1) append_Cons] n, of rd]
    show ?thesis
      by (simp add: step c A_bool mp_held.simps mp_value.simps getFormatFamily_nat family_nat_def msgpack_constants)
  next
    case (A_char v)
    then show ?thesis
      using mp_readPair_string [OF _ n, of s "[v]" r rd] at by (simp add: mp_value.simps mp_held.simps)
  next
    case (A_int8 w)
    then show ?thesis using num [of s "sint w" r rd] r8 [of w] at by (simp add: mp_value.simps mp_held.simps)
  next
    case (A_uint8 w)
    then show ?thesis using num [of s "uint w" r rd] r8 [of w] u0 [of w] at
      by (simp add: mp_value.simps mp_held.simps mp_family_number_def not_less)
  next
    case (A_int16 w)
    then show ?thesis using num [of s "sint w" r rd] r16 [of w] at by (simp add: mp_value.simps mp_held.simps)
  next
    case (A_uint16 w)
    then show ?thesis using num [of s "uint w" r rd] r16 [of w] u0 [of w] at
      by (simp add: mp_value.simps mp_held.simps mp_family_number_def not_less)
  next
    case (A_int32 w)
    then show ?thesis using num [of s "sint w" r rd] r32 [of w] at by (simp add: mp_value.simps mp_held.simps)
  next
    case (A_uint32 w)
    then show ?thesis using num [of s "uint w" r rd] r32 [of w] u0 [of w] at
      by (simp add: mp_value.simps mp_held.simps mp_family_number_def not_less)
  next
    case (A_int64 w)
    then show ?thesis using num [of s "sint w" r rd] r64 [of w] at by (simp add: mp_value.simps mp_held.simps)
  next
    case (A_uint64 w)
    then show ?thesis using num [of s "uint w" r rd] r64 [of w] u0 [of w] at
      by (simp add: mp_value.simps mp_held.simps mp_family_number_def not_less)
  next
    case (A_float f)
    then have at1: "at s (mp_str n @ 0xCA # be_bytes 4 f @ r)" using at by (simp add: mp_value.simps)
    have "at (consumed [0xCA] (consumed (mp_str n) s)) (be_bytes 4 f @ r)"
      using at1 by (intro at_consumed) simp
    from mp_readPair_step [OF at1 n, of rd] read_be_at [OF this] show ?thesis
      by (simp add: A_float mp_value.simps mp_held.simps getFormatFamily_nat family_nat_def msgpack_constants)
  next
    case (A_double d)
    then have at1: "at s (mp_str n @ 0xCB # be_bytes 8 d @ r)" using at by (simp add: mp_value.simps)
    have "at (consumed [0xCB] (consumed (mp_str n) s)) (be_bytes 8 d @ r)"
      using at1 by (intro at_consumed) simp
    from mp_readPair_step [OF at1 n, of rd] read_be_at [OF this] show ?thesis
      by (simp add: A_double mp_value.simps mp_held.simps getFormatFamily_nat family_nat_def msgpack_constants)
  next
    case (A_string v)
    then show ?thesis
      using mp_readPair_string [OF _ n, of s v r rd] at a
      by (simp add: mp_value.simps mp_held.simps mp_ok_value.simps)
  next
    case (A_obj m)
    then have ok: "mp_ok m" and v: "mp_value a = mp_bytes m"
      using a by (simp_all add: mp_ok_value.simps mp_value.simps)
    obtain c bs where c: "mp_bytes m = c # bs" "getFormatFamily c = MAP_FORMAT"
      using family_mp_bytes [OF ok] by auto
    have "at (consumed (mp_str n) s) (mp_bytes m @ r)" using at v by (intro at_consumed) simp
    note rd [OF A_obj this]
    with mp_readPair_step [OF at [unfolded v c(1) append_Cons] n, of rd] show ?thesis
      by (simp add: c v [unfolded A_obj] A_obj mp_held.simps)
  qed
qed

text \<open>The pairs of a message, and the map around them.\<close>

lemma assign_new: "k \<notin> fst ` set m \<Longrightarrow> assign k v m = m @ [(k, v)]"
  by (induction m) auto

lemma fst_mp_entries: "map fst (mp_entries fs) = map (\<lambda>(i, tn, n, a). n) fs"
  by (induction fs) auto

lemma mp_findMap_at:
  "at s (c # bs) \<Longrightarrow> getFormatFamily c = MAP_FORMAT \<Longrightarrow> mp_findMap s = Some (c, consumed [c] s)"
  by (subst mp_findMap.simps) (auto simp: in_get_at)

lemma mp_header_at:
  assumes at: "at s (mp_map_header n @ r)" and n: "n < 2 ^ 32" "n \<noteq> 15"
  shows "\<exists>c t. mp_findMap s = Some (c, t) \<and> mp_tokensToRead c t = (of_nat n, consumed (mp_map_header n) s)"
proof -
  consider "n < 15" | "16 \<le> n" "n \<le> 0xFFFF" | "0xFFFF < n" using n(2) by linarith
  then show ?thesis
  proof cases
    case 1
    define w where "w = (of_nat (0x80 + n) :: 8 word)"
    have "unat w = 0x80 + n" unfolding w_def using 1 by (intro unat_of_nat_small) simp
    then have w: "w - 0x80 = of_nat n" "unat w = 0x80 + n" by (simp_all add: w_def)
    have h: "mp_map_header n = [w]" using 1 by (simp add: mp_map_header_def w_def)
    have at1: "at s (w # r)" using at by (simp add: h)
    have "getFormatFamily w = MAP_FORMAT" using 1 by (simp add: getFormatFamily_nat w family_nat_def)
    note mp_findMap_at [OF at1 this]
    moreover have "MP_FIXMAP \<le> w \<and> w < MP_FIXMAP_END"
      using 1 by (simp add: word_le_nat_alt word_less_nat_alt msgpack_constants w)
    moreover have "ucast (w - MP_FIXMAP) = (of_nat n :: uint32)"
      using 1 by (simp add: msgpack_constants w ucast_of_nat_small)
    ultimately show ?thesis
      by (simp add: mp_tokensToRead_def h)
  next
    case 2
    then have h: "mp_map_header n = 0xDE # be_bytes 2 (of_nat n :: uint16)" by (simp add: mp_map_header_def)
    have at1: "at s (0xDE # be_bytes 2 (of_nat n :: uint16) @ r)" using at by (simp add: h)
    have "at (consumed [0xDE] s) (be_bytes 2 (of_nat n :: uint16) @ r)"
      using at1 by (intro at_consumed) simp
    from read_be_at [OF this] have "mp_tokensToRead 0xDE (consumed [0xDE] s) = (of_nat n, consumed (mp_map_header n) s)"
      using 2 by (simp add: mp_tokensToRead_def word_to_nat msgpack_constants h ucast_of_nat_small)
    moreover have "mp_findMap s = Some (0xDE, consumed [0xDE] s)"
      by (rule mp_findMap_at [OF at1]) (simp add: getFormatFamily_nat family_nat_def)
    ultimately show ?thesis by blast
  next
    case 3
    then have h: "mp_map_header n = 0xDF # be_bytes 4 (of_nat n :: uint32)" by (simp add: mp_map_header_def)
    have at1: "at s (0xDF # be_bytes 4 (of_nat n :: uint32) @ r)" using at by (simp add: h)
    have "at (consumed [0xDF] s) (be_bytes 4 (of_nat n :: uint32) @ r)"
      using at1 by (intro at_consumed) simp
    from read_be_at [OF this] have "mp_tokensToRead 0xDF (consumed [0xDF] s) = (of_nat n, consumed (mp_map_header n) s)"
      using 3 by (simp add: mp_tokensToRead_def word_to_nat msgpack_constants h)
    moreover have "mp_findMap s = Some (0xDF, consumed [0xDF] s)"
      by (rule mp_findMap_at [OF at1]) (simp add: getFormatFamily_nat family_nat_def)
    ultimately show ?thesis by blast
  qed
qed

lemma readKeyValues_fuel_at:
    "\<And>f s r. mp_ok m \<Longrightarrow> depth m < f \<Longrightarrow> at s (mp_bytes m @ r) \<Longrightarrow>
      readKeyValues_fuel f s = (mp_entries (msg_fields m), False, consumed (mp_bytes m) s)"
  and mp_readPairs_at:
    "\<And>f s r kvs. mp_ok_fields fs \<Longrightarrow> fields_depth fs \<le> f \<Longrightarrow> at s (mp_fields fs @ r) \<Longrightarrow>
      distinct (map fst kvs @ map (\<lambda>(i, tn, n, a). n) fs) \<Longrightarrow>
      mp_readPairs (readKeyValues_fuel f) (length fs) s kvs
        = (kvs @ mp_entries fs, False, consumed (mp_fields fs) s)"
  and "\<And>f s r m. mp_ok_value a \<Longrightarrow> value_depth a \<le> f \<Longrightarrow> a = A_obj m \<Longrightarrow> at s (mp_bytes m @ r) \<Longrightarrow>
      readKeyValues_fuel f s = (mp_entries (msg_fields m), False, consumed (mp_bytes m) s)"
proof (induction m and fs and a rule: message_induct)
  case (Msg i sn ln fs)
  let ?n = "length fs"
  obtain g where f: "f = Suc g" and g: "fields_depth fs \<le> g" using Msg.prems(2) by (cases f) auto
  have n: "?n < 2 ^ 32" "?n \<noteq> 15" and d: "distinct (map (\<lambda>(i, tn, n, a). n) fs)" and ok: "mp_ok_fields fs"
    using Msg.prems(1) by simp_all
  have at: "at s (mp_map_header ?n @ mp_fields fs @ r)" using Msg.prems(3) n by simp
  obtain c t where "mp_findMap s = Some (c, t)"
    and "mp_tokensToRead c t = (of_nat ?n, consumed (mp_map_header ?n) s)"
    using mp_header_at [OF at n] by blast
  moreover have "unat (of_nat ?n :: uint32) = ?n" using n by (intro unat_of_nat_small) simp
  ultimately show ?case
    using Msg.IH [OF ok g at_consumed [OF at], of "[]"] d n by (simp add: f)
next
  case Nil
  then show ?case by simp
next
  case (Cons i tn n a fs)
  have at: "at s (mp_str n @ mp_value a @ mp_fields fs @ r)" using Cons.prems(3) by simp
  have ok: "length n < 2 ^ 32" "length n \<noteq> 31" "mp_ok_value a" "value_depth a \<le> f"
    and ok2: "mp_ok_fields fs" "fields_depth fs \<le> f"
    using Cons.prems(1,2) by simp_all
  have p: "mp_readPair (readKeyValues_fuel f) s
      = (MsgPackKeyValue n (mp_family a) (mp_held a), False, consumed (mp_str n @ mp_value a) s)"
    using Cons.IH(1) [OF ok(3,4)] by (intro mp_readPair_value [OF at ok(1-3)]) auto
  have "at (consumed (mp_str n @ mp_value a) s) (mp_fields fs @ r)"
    using at by (intro at_consumed) simp
  note Cons.IH(2) [OF ok2 this, of "kvs @ [(n, MsgPackKeyValue n (mp_family a) (mp_held a))]"]
  moreover have "n \<notin> fst ` set kvs" using Cons.prems(4) by auto
  ultimately show ?case
    using Cons.prems(4) p by (simp add: assign_new)
next
  case (Val a)
  then show ?case by (auto simp: mp_ok_value.simps)
qed


section \<open>The bound on the nesting is never reached\<close>

lemma mp_bytes_nonempty: "0 < length (mp_bytes m)"
  by (cases m) (simp add: mp_map_header_def)

lemma depth_le_bytes:
    "mp_ok m \<Longrightarrow> depth m < length (mp_bytes m)"
  and "mp_ok_fields fs \<Longrightarrow> fields_depth fs \<le> length (mp_fields fs)"
  and "mp_ok_value a \<Longrightarrow> value_depth a \<le> length (mp_value a)"
proof (induction m and fs and a rule: message_induct)
  case (Msg i sn ln fs)
  have "0 < length (mp_map_header (length fs mod 2 ^ 32))" by (simp add: mp_map_header_def)
  then show ?case using Msg by (simp del: length_greater_0_conv)
next
  case (Val a)
  then show ?case by (cases a) (auto simp: mp_ok_value.simps mp_value.simps)
qed auto

lemma readKeyValues_at:
  assumes "mp_ok m" and "at s (mp_bytes m @ r)"
  shows "readKeyValues s = (mp_entries (msg_fields m), False, consumed (mp_bytes m) s)"
proof -
  have "depth m < Suc (length (rest s))"
    using depth_le_bytes(1) [OF assms(1)] assms(2) by (simp add: at_def)
  then show ?thesis
    unfolding readKeyValues_def using assms by (intro readKeyValues_fuel_at)
qed

text \<open>
  For every stream, also a malformed one, more fuel changes nothing: readers only move forward,
  and a nested map starts behind the token of its parent.
\<close>

abbreviation left :: "istream \<Rightarrow> nat" where "left s \<equiv> length (rest s)"

lemma left_in_get_Some: "in_get s = (Some b, t) \<Longrightarrow> left s = Suc (left t)"
  by (auto simp: in_get_def split: if_splits list.splits)

lemma left_read_be: "read_be k s = (v, t) \<Longrightarrow> left t \<le> left s"
  by (auto simp: read_be_def split: prod.splits dest: length_rest_in_read)

lemmas left_le = length_rest_in_get length_rest_in_read left_read_be

lemma left_mp_readString: "mp_readString s = (v, ub, t) \<Longrightarrow> left t \<le> left s"
  unfolding mp_readString_def Let_def
  by (auto split: if_splits prod.splits dest!: left_le)

lemma left_mp_readUint: "mp_readUint s = (v, t) \<Longrightarrow> left t \<le> left s"
  unfolding mp_readUint_def Let_def
  by (auto split: if_splits prod.splits dest!: left_le)

lemma left_mp_readInt: "mp_readInt s = (w, t) \<Longrightarrow> left t \<le> left s"
  unfolding mp_readInt_def Let_def
  by (auto split: if_splits prod.splits dest!: left_le)

lemma left_mp_tokensToRead: "mp_tokensToRead T s = (n, t) \<Longrightarrow> left t \<le> left s"
  unfolding mp_tokensToRead_def by (auto split: if_splits prod.splits dest!: left_le)

lemma left_mp_findMap: "mp_findMap s = Some (T, t) \<Longrightarrow> left t < left s"
proof (induction s rule: mp_findMap.induct)
  case (1 s)
  obtain x s' where g: "in_get s = (x, s')" by fastforce
  have good: "good s" using "1.prems" by (subst (asm) mp_findMap.simps) (auto split: if_splits)
  show ?case
  proof (cases "getFormatFamily (to_uint8 x) = MAP_FORMAT")
    case True
    have "getFormatFamily (- 1) = INT_FORMAT"
      by code_simp
    then obtain b where "x = Some b" using True by (cases x) (auto simp: to_uint8_def)
    then show ?thesis
      using "1.prems" True good g left_in_get_Some [of s b s'] by (subst (asm) mp_findMap.simps) auto
  next
    case False
    then have "mp_findMap s' = Some (T, t)"
      using "1.prems" good g by (subst (asm) mp_findMap.simps) auto
    then show ?thesis
      using "1.IH" [OF good g [symmetric]] False length_rest_in_get [OF g] by simp
  qed
qed

lemma left_mp_skipAll: "left (mp_skipAll s) \<le> left s"
proof (induction s rule: mp_skipAll.induct)
  case (1 s)
  show ?case
  proof (cases "good s")
    case True
    then show ?thesis
      using "1.IH" [OF True] length_rest_in_get [of s]
      by (subst mp_skipAll.simps) (fastforce split: prod.splits intro: order_trans)
  qed (simp add: mp_skipAll.simps)
qed

text \<open>The type byte put back.\<close>

lemma left_unget:
  assumes "in_get s = (x, t)" and "x = None \<Longrightarrow> \<not> good t"
  shows "left (in_unget t) \<le> left s"
  using assms
  by (auto simp: in_get_def in_unget_def good_def Let_def split: if_splits list.splits)

lemma in_get_None: "in_get s = (None, t) \<Longrightarrow> \<not> good t"
  by (auto simp: in_get_def good_def split: if_splits list.splits)

definition forward :: "map_reader \<Rightarrow> bool" where
  "forward rd \<longleftrightarrow> (\<forall>s. left (snd (snd (rd s))) \<le> left s)"

lemma left_mp_readPair: "forward rd \<Longrightarrow> mp_readPair rd s = (e, ub, t) \<Longrightarrow> left t \<le> left s"
proof -
  assume fw: "forward rd" and p: "mp_readPair rd s = (e, ub, t)"
  obtain k u1 s1 where k: "mp_readString s = (k, u1, s1)" by (metis prod_cases3)
  obtain x s2 where x: "in_get s1 = (x, s2)" by fastforce
  have 1: "left s1 \<le> left s" using left_mp_readString [OF k] .
  have 2: "left s2 \<le> left s" using length_rest_in_get [OF x] 1 by simp
  have 3: "left (in_unget s2) \<le> left s"
    using left_unget [OF x] in_get_None [of s1 s2] x 1 by auto
  have 4: "left (snd (snd (rd (in_unget s2)))) \<le> left s"
    using fw 3 unfolding forward_def by (meson order_trans)
  show ?thesis
    using p 2 3 4 unfolding mp_readPair_def k x Let_def prod.case
    by (auto split: if_splits prod.splits
        dest!: left_le left_mp_readString left_mp_readUint left_mp_readInt)
qed

lemma left_mp_readPairs: "forward rd \<Longrightarrow> left (snd (snd (mp_readPairs rd k s kvs))) \<le> left s"
proof (induction k arbitrary: s kvs)
  case (Suc k)
  obtain e ub t where p: "mp_readPair rd s = (e, ub, t)" by (metis prod_cases3)
  then show ?case
    using Suc.IH [OF Suc.prems, of t "assign (m_key e) e kvs"] left_mp_readPair [OF Suc.prems p]
    by (simp add: split_beta)
qed simp

lemma forward_readKeyValues_fuel: "forward (readKeyValues_fuel f)"
proof (induction f)
  case (Suc f)
  have "left (snd (snd (readKeyValues_fuel (Suc f) s))) \<le> left s" for s
  proof (cases "mp_findMap s")
    case None
    then show ?thesis by (simp add: left_mp_skipAll)
  next
    case (Some p)
    obtain T t where p: "p = (T, t)" by fastforce
    obtain n u where n: "mp_tokensToRead T t = (n, u)" by fastforce
    show ?thesis
      using left_mp_readPairs [OF Suc, of "unat n" u "[]"] left_mp_findMap [of s T t]
        left_mp_tokensToRead [OF n] Some
      by (simp add: p n)
  qed
  then show ?case by (simp add: forward_def)
qed (simp add: forward_def)

definition agree_below :: "nat \<Rightarrow> map_reader \<Rightarrow> map_reader \<Rightarrow> bool" where
  "agree_below k rd rd' \<longleftrightarrow> (\<forall>s. left s < k \<longrightarrow> rd s = rd' s)"

lemma mp_readPair_agree:
  assumes "agree_below k rd rd'" and "left s < k"
  shows "mp_readPair rd s = mp_readPair rd' s"
proof -
  obtain key u1 s1 where k: "mp_readString s = (key, u1, s1)" by (metis prod_cases3)
  obtain x s2 where x: "in_get s1 = (x, s2)" by fastforce
  have "left (in_unget s2) \<le> left s"
    using left_unget [OF x] in_get_None [of s1 s2] x left_mp_readString [OF k] by auto
  then have "rd (in_unget s2) = rd' (in_unget s2)" using assms by (simp add: agree_below_def)
  then show ?thesis unfolding mp_readPair_def k x Let_def prod.case by simp
qed

lemma mp_readPairs_agree:
  "agree_below k rd rd' \<Longrightarrow> forward rd \<Longrightarrow> left s < k \<Longrightarrow> mp_readPairs rd n s kvs = mp_readPairs rd' n s kvs"
proof (induction n arbitrary: s kvs)
  case (Suc n)
  obtain e ub t where p: "mp_readPair rd s = (e, ub, t)" by (metis prod_cases3)
  have "left t < k" using left_mp_readPair [OF Suc.prems(2) p] Suc.prems(3) by simp
  from Suc.IH [OF Suc.prems(1,2) this] show ?case
    using p mp_readPair_agree [OF Suc.prems(1,3)] by simp
qed simp

lemma readKeyValues_fuel_enough:
  "left s < f \<Longrightarrow> f \<le> g \<Longrightarrow> readKeyValues_fuel g s = readKeyValues_fuel f s"
proof (induction f arbitrary: g s)
  case (Suc f)
  obtain h where g: "g = Suc h" "f \<le> h" using Suc.prems(2) by (cases g) auto
  have ag: "agree_below f (readKeyValues_fuel h) (readKeyValues_fuel f)"
    using Suc.IH [OF _ g(2)] by (simp add: agree_below_def)
  show ?case
  proof (cases "mp_findMap s")
    case None
    then show ?thesis by (simp add: g(1))
  next
    case (Some p)
    obtain T t where p: "p = (T, t)" by fastforce
    obtain n u where n: "mp_tokensToRead T t = (n, u)" by fastforce
    have "left u < f"
      using left_mp_findMap [of s T t] left_mp_tokensToRead [OF n] Some p Suc.prems(1) by simp
    from mp_readPairs_agree [OF ag forward_readKeyValues_fuel this] show ?thesis
      by (simp add: g(1) Some p n)
  qed
qed simp

section \<open>The decoder honours the contract of decoders\<close>

definition mp_ready :: "from_msgpack \<Rightarrow> field list \<Rightarrow> unit \<Rightarrow> bool" where
  "mp_ready v fs k \<longleftrightarrow>
     \<not> fm_undef v \<and> \<not> fm_terminate v \<and> mp_ok_fields fs \<and>
     (\<forall>(i, tn, n, a) \<in> set fs.
        map_of (fm_keyValues v) n = Some (MsgPackKeyValue n (mp_family a) (mp_held a)))"

lemma map_of_mp_entries:
  "distinct (map (\<lambda>(i, tn, n, a). n) fs) \<Longrightarrow> (i, tn, n, a) \<in> set fs \<Longrightarrow>
     map_of (mp_entries fs) n = Some (MsgPackKeyValue n (mp_family a) (mp_held a))"
  by (induction fs) (force split: if_splits)+

lemma cast_signed_number: "cast_signed (mp_held_number i) = Some (of_int i)"
  by (simp add: cast_signed_def mp_held_number_def)

lemma any_cast_number: "\<not> i < 0 \<Longrightarrow> any_cast_uint64 (mp_held_number i) = Some (of_int i)"
  by (simp add: mp_held_number_def)

lemma ucast_scast_ucast [simp]:
  "ucast (scast (v8 :: 8 word) :: uint64) = v8" "ucast (scast (v16 :: 16 word) :: uint64) = v16"
  "ucast (scast (v32 :: 32 word) :: uint64) = v32"
  by (auto intro!: bit_word_eqI simp: bit_simps)

lemma mp_assign_held:
  assumes "same_type a v" and "is_scalar v"
  shows "mp_assign (mp_held v) a = v \<and> \<not> mp_throws (mp_held v) a"
proof -
  have "mp_held v = mp_held_scalar v" using assms(2) by (cases v) (auto simp: mp_held.simps is_scalar_def)
  moreover have "\<not> uint w < 0" for w :: "'z::len word" by (simp add: not_less)
  ultimately show ?thesis
    using assms
    by (cases v) (auto simp: same_type_iff mp_throws_def cast_signed_number any_cast_number)
qed

interpretation from_msgpack: field_decoder fromMsgPack mp_ready
proof (unfold_locales, goal_cases)
  case (1 s i tn n v fs k a)
  then show ?case
    using mp_assign_held [of a v]
    by (auto simp: mp_ready_def fromMsgPack_def fromMsgPack_visit_def)
next
  case (2 s i tn n j sn ln gs fs k)
  have ok: "mp_ok_fields gs" "distinct (map (\<lambda>(i, tn, n, a). n) gs)"
    and l: "map_of (fm_keyValues s) n = Some (MsgPackKeyValue n MAP_FORMAT (A_obj (mp_entries gs)))"
    using 2 by (auto simp: mp_ready_def mp_ok_value.simps mp_held.simps)
  have h: "mp_held (A_obj (Visitable j sn ln gs)) = A_obj (mp_entries gs)"
    by (simp add: mp_held.simps)
  show ?case
    using ok l 2
    by (intro exI [of _ "\<lparr>fm_keyValues = mp_entries gs, fm_undef = False, fm_terminate = False\<rparr>"] exI [of _ "()"])
      (auto simp: fromMsgPack_def mp_ready_def map_of_mp_entries h)
next
  case (3 s i tn n fs k)
  then show ?case by (simp add: mp_ready_def mp_ok_value.simps)
qed

section \<open>Properties\<close>

lemma fromMsgPack_sel [simp]:
  "v_pre fromMsgPack = (\<lambda>_ _ _ v. v)" "v_post fromMsgPack = (\<lambda>v. v)"
  "v_visit fromMsgPack = fromMsgPack_visit"
  by (simp_all add: fromMsgPack_def)

lemma fromMsgPack_empty:
    "\<And>v. fm_keyValues v = [] \<Longrightarrow> accept fromMsgPack m v = (m, v)"
  and "\<And>v. fm_keyValues v = [] \<Longrightarrow> accept_fields fromMsgPack fs v = (fs, v)"
  and "\<And>i tn n v. fm_keyValues v = [] \<Longrightarrow> do_visit fromMsgPack i tn n a v = (a, v)"
proof (induction m and fs and a rule: message_induct)
  case (Val a)
  then show ?case by (cases a) (simp_all add: fromMsgPack_visit_def, simp add: fromMsgPack_def)
qed simp_all

text \<open>
  C9: Encoding a message with \<open>ToMsgPackVisitor\<close> and decoding it with \<open>FromMsgPackVisitor\<close> restores
  every field, nested messages included, for messages with distinct names and without strings of
  31 characters or messages of 15 fields.
\<close>

theorem msgpack_roundtrip:
  assumes "mp_ok m" and "same_shape m' m"
  shows "\<exists>v. msgpack_decode (msgpack_encode m) m' = (m, v) \<and> \<not> fm_undef v \<and> \<not> fm_terminate v"
proof -
  obtain j sn ln gs where m: "m = Visitable j sn ln gs" by (cases m)
  let ?v = "\<lparr>fm_keyValues = mp_entries gs, fm_undef = False, fm_terminate = False\<rparr>"
  have "at (istream_of (msgpack_encode m)) (mp_bytes m @ [])"
    using mp_ok_typed(1) [OF assms(1)] by (simp add: msgpack_encode_bytes)
  from readKeyValues_at [OF assms(1) this]
  have d: "fromMsgPack_decodeFrom (istream_of (msgpack_encode m))
      \<lparr>fm_keyValues = [], fm_undef = False, fm_terminate = False\<rparr> = ?v"
    by (simp add: fromMsgPack_decodeFrom_def m)
  have "mp_ready ?v gs ()" using assms(1) by (auto simp: mp_ready_def m map_of_mp_entries)
  then show ?thesis
    using from_msgpack.accept_ready [OF assms(2), of ?v "()"]
    by (auto simp: msgpack_decode_def d [unfolded m] m mp_ready_def)
qed

theorem msgpack_roundtrip_witness:
  "\<exists>v. msgpack_decode (msgpack_encode (sample (- 3) (str ''hi'') 300)) (sample 0 [] 0)
     = (sample (- 3) (str ''hi'') 300, v) \<and> \<not> fm_undef v \<and> \<not> fm_terminate v"
  by (rule msgpack_roundtrip [OF _ sample_shape])
    (simp add: sample_def sample_inner_def mp_ok_value.simps mp_map_header_def mp_str_def
      mp_str_header_def mp_value.simps mp_number_def mp_uint_def)

text \<open>
  \<open>ToMsgPackVisitor\<close> writes a MessagePack map of the fields, every number in its shortest
  format.
\<close>

theorem msgpack_encode_reference:
  assumes "typed m"
  shows "msgpack_encode m = mp_bytes m"
  by (rule msgpack_encode_bytes [OF assms])

theorem msgpack_encode_reference_witness:
  "msgpack_encode (sample 1 [] 2) = mp_bytes (sample 1 [] 2)"
  by (rule msgpack_encode_reference) (simp add: sample_def sample_inner_def typed_value.simps)

text \<open>
  \<open>readKeyValues\<close> ends on every stream: its nesting never exceeds the number of bytes left.
\<close>

theorem readKeyValues_terminates:
  assumes "length (rest s) < f"
  shows "readKeyValues_fuel f s = readKeyValues s"
  unfolding readKeyValues_def using assms by (intro readKeyValues_fuel_enough) simp_all

theorem readKeyValues_terminates_witness:
  "readKeyValues_fuel 7 (istream_of [0x81, 0xA1, 0x61, 0x81, 0xA1]) = readKeyValues (istream_of [0x81, 0xA1, 0x61, 0x81, 0xA1])"
  by (rule readKeyValues_terminates) simp

text \<open>
  A string of 31 characters is lost: the encoder writes the last \<open>FIXSTR\<close> token, which
  the decoder takes for an unknown format, so that the field keeps its old value.
\<close>

theorem msgpack_string_31:
  assumes "length v = 31" and "length n < 31"
  shows "msgpack_decode (msgpack_encode (Visitable j sn ln [(i, tn, n, A_string v)]))
      (Visitable j sn ln [(i, tn, n, A_string w)])
    = (Visitable j sn ln [(i, tn, n, A_string w)],
       \<lparr>fm_keyValues = [(n, MsgPackKeyValue n UNKNOWN_FORMAT A_empty)], fm_undef = False,
        fm_terminate = False\<rparr>)"
proof -
  let ?m = "Visitable j sn ln [(i, tn, n, A_string v)]"
  have b: "msgpack_encode ?m = mp_map_header 1 @ mp_str n @ 0xBF # v"
    using assms
    by (simp add: msgpack_encode_bytes typed_value.simps mp_value.simps mp_str_eq [of v] mp_str_header_def)
  let ?s = "istream_of (msgpack_encode ?m)"
  define h1 where "h1 = mp_map_header 1"
  have at: "at ?s (h1 @ mp_str n @ 0xBF # v)" by (simp add: b h1_def)
  obtain c t where h: "mp_findMap ?s = Some (c, t)" "mp_tokensToRead c t = (1, consumed h1 ?s)"
    using mp_header_at [OF at [unfolded h1_def]] unfolding h1_def by auto
  have f: "getFormatFamily 0xBF = UNKNOWN_FORMAT" by (simp add: getFormatFamily_nat family_nat_def)
  note step = mp_readPair_step [OF at_consumed [OF at]]
  have "readKeyValues ?s = ([(n, MsgPackKeyValue n UNKNOWN_FORMAT A_empty)], False,
      consumed [0xBF] (consumed (mp_str n) (consumed h1 ?s)))"
    using assms(2) by (simp add: readKeyValues_def h step f)
  then show ?thesis
    by (simp add: msgpack_decode_def fromMsgPack_decodeFrom_def fromMsgPack_visit_def mp_throws_def
        any_cast_defs)
qed

theorem msgpack_string_31_witness:
  "msgpack_decode (msgpack_encode (Visitable 1 [] [] [(1, [], [0x61], A_string (replicate 31 0x62))]))
      (Visitable 1 [] [] [(1, [], [0x61], A_string [])])
    = (Visitable 1 [] [] [(1, [], [0x61], A_string [])],
       \<lparr>fm_keyValues = [([0x61], MsgPackKeyValue [0x61] UNKNOWN_FORMAT A_empty)], fm_undef = False,
        fm_terminate = False\<rparr>)"
  by (rule msgpack_string_31) simp_all

text \<open>A stream without a map token.\<close>

lemma mp_findMap_None:
  "list_all (\<lambda>b. getFormatFamily b \<noteq> MAP_FORMAT) (rest s) \<Longrightarrow> mp_findMap s = None"
proof (induction s rule: mp_findMap.induct)
  case (1 s)
  obtain x t where g: "in_get s = (x, t)" by fastforce
  have "getFormatFamily (- 1) \<noteq> MAP_FORMAT" by code_simp
  then have x: "getFormatFamily (to_uint8 x) \<noteq> MAP_FORMAT"
    and t: "list_all (\<lambda>b. getFormatFamily b \<noteq> MAP_FORMAT) (rest t)"
    using g "1.prems" by (auto simp: in_get_def to_uint8_def split: if_splits list.splits)
  show ?case
    using "1.IH" [OF _ g [symmetric] x t] g x by (subst mp_findMap.simps) simp
qed

definition plain_bool :: "field \<Rightarrow> bool" where
  "plain_bool f = (case f of (i, tn, n, a) \<Rightarrow>
     length n < 31 \<and> list_all (\<lambda>c. c < 0x80) n \<and> (\<exists>b. a = A_bool b))"

lemma plain_bool_bytes:
  "plain_bool (i, tn, n, a) \<Longrightarrow> list_all (\<lambda>b. getFormatFamily b \<noteq> MAP_FORMAT) (mp_str n @ mp_value a)"
  by (auto simp: plain_bool_def mp_str_def mp_str_header_def mp_value.simps getFormatFamily_nat
      family_nat_def unat_of_nat_small list_all_iff word_less_nat_alt simp del: of_nat_add split: if_splits)

text \<open>
  A message of 15 fields is lost: the encoder writes the last \<open>FIXMAP\<close> token, which the
  decoder skips in search of a map, so that no field is restored.
\<close>

theorem msgpack_fifteen_fields:
  assumes "length fs = 15" and "list_all plain_bool fs"
  shows "msgpack_decode (msgpack_encode (Visitable j sn ln fs)) m'
    = (m', \<lparr>fm_keyValues = [], fm_undef = False, fm_terminate = False\<rparr>)"
proof -
  have "typed_fields gs \<and> list_all (\<lambda>b. getFormatFamily b \<noteq> MAP_FORMAT) (mp_fields gs)"
    if "list_all plain_bool gs" for gs
    using that
  proof (induction gs)
    case (Cons f gs)
    obtain i tn n a where f: "f = (i, tn, n, a)" by (cases f)
    then have "typed_value a" using Cons.prems by (auto simp: plain_bool_def typed_value.simps)
    with plain_bool_bytes [of i tn n a] Cons show ?case by (simp add: f)
  qed simp
  then have t: "typed_fields fs" and l: "list_all (\<lambda>b. getFormatFamily b \<noteq> MAP_FORMAT) (mp_fields fs)"
    using assms(2) by auto
  have "getFormatFamily 0x8F \<noteq> MAP_FORMAT" by (simp add: getFormatFamily_nat family_nat_def)
  then have "mp_findMap (istream_of (msgpack_encode (Visitable j sn ln fs))) = None"
    using l t assms(1)
    by (intro mp_findMap_None) (simp add: msgpack_encode_bytes mp_map_header_def)
  then show ?thesis
    by (simp add: msgpack_decode_def fromMsgPack_decodeFrom_def readKeyValues_def fromMsgPack_empty)
qed

theorem msgpack_fifteen_fields_witness:
  "msgpack_decode (msgpack_encode (Visitable 1 [] [] (replicate 15 (1, [], [0x61], A_bool True))))
      (Visitable 1 [] [] (replicate 15 (1, [], [0x61], A_bool False)))
    = (Visitable 1 [] [] (replicate 15 (1, [], [0x61], A_bool False)),
       \<lparr>fm_keyValues = [], fm_undef = False, fm_terminate = False\<rparr>)"
  by (rule msgpack_fifteen_fields) (auto simp: plain_bool_def list_all_iff)

text \<open>
  Decoding a \<open>char\<close> field from an empty string throws an exception out of a
  \<open>noexcept\<close> member and ends the program.
\<close>

theorem msgpack_empty_char_terminates:
  "fm_terminate (snd (fromMsgPack_visit i tn n (A_char c)
     \<lparr>fm_keyValues = [(n, MsgPackKeyValue n STR_FORMAT (A_string []))], fm_undef = False, fm_terminate = False\<rparr>))"
  by (simp add: fromMsgPack_visit_def mp_throws_def)

end
