(* ===== verification/MetaMessages.thy ===== *)
theory MetaMessages
  imports Visitors
begin

text \<open>
  \<open>MetaMessage\<close> and its \<open>MetaField\<close>s: the description of a message type, as the parser of
  message specifications and \<open>GenericMessage\<close> produce it. The getters and setters of the two
  classes are the selections and updates of the records.
\<close>

section \<open>MetaField\<close>

datatype data_type =
    BOOL_T | UINT8_T | INT8_T | UINT16_T | INT16_T | UINT32_T | INT32_T | UINT64_T | INT64_T
  | CHAR_T | FLOAT_T | DOUBLE_T | BYTES_T | STRING_T | MESSAGE_T | UNDEFINED_T

text \<open>The underlying value of an enumerator.\<close>

primrec data_type_value :: "data_type \<Rightarrow> uint16" where
  "data_type_value BOOL_T = 0"
| "data_type_value UINT8_T = 2"
| "data_type_value INT8_T = 3"
| "data_type_value UINT16_T = 4"
| "data_type_value INT16_T = 5"
| "data_type_value UINT32_T = 6"
| "data_type_value INT32_T = 7"
| "data_type_value UINT64_T = 8"
| "data_type_value INT64_T = 9"
| "data_type_value CHAR_T = 11"
| "data_type_value FLOAT_T = 13"
| "data_type_value DOUBLE_T = 14"
| "data_type_value BYTES_T = 49"
| "data_type_value STRING_T = 51"
| "data_type_value MESSAGE_T = 53"
| "data_type_value UNDEFINED_T = 0xFFFF"

record MetaField =
  mf_fieldDataType :: data_type
  mf_fieldDataTypeName :: cstring
  mf_fieldName :: cstring
  mf_fieldIdentifier :: uint32
  mf_defaultInitializationValue :: cstring

definition MetaField_new :: MetaField where
  "MetaField_new =
     \<lparr>mf_fieldDataType = UNDEFINED_T, mf_fieldDataTypeName = [], mf_fieldName = [],
      mf_fieldIdentifier = 0, mf_defaultInitializationValue = []\<rparr>"

section \<open>MetaMessage\<close>

record MetaMessage =
  mm_packageName :: cstring
  mm_messageName :: cstring
  mm_messageIdentifier :: int32
  mm_listOfMetaFields :: "MetaField list"

definition MetaMessage_new :: MetaMessage where
  "MetaMessage_new =
     \<lparr>mm_packageName = [], mm_messageName = [], mm_messageIdentifier = 0, mm_listOfMetaFields = []\<rparr>"

definition mm_add :: "MetaField \<Rightarrow> MetaMessage \<Rightarrow> MetaMessage" where
  "mm_add mf mm = mm\<lparr>mm_listOfMetaFields := mm_listOfMetaFields mm @ [mf]\<rparr>"

section \<open>Order of the data types\<close>

text \<open>The enumerators compare as their values do; \<open>data_type\<close> is a linear order.\<close>

lemma data_type_value_inject: "data_type_value a = data_type_value b \<longleftrightarrow> a = b"
  by (cases a; cases b) simp_all

instantiation data_type :: linorder
begin

definition less_eq_data_type :: "data_type \<Rightarrow> data_type \<Rightarrow> bool" where
  "less_eq_data_type a b \<longleftrightarrow> data_type_value a \<le> data_type_value b"

definition less_data_type :: "data_type \<Rightarrow> data_type \<Rightarrow> bool" where
  "less_data_type a b \<longleftrightarrow> data_type_value a < data_type_value b"

instance
  by standard
    (auto simp: less_eq_data_type_def less_data_type_def order.strict_iff_not linear
      simp flip: data_type_value_inject)

end

section \<open>Data types and values\<close>

text \<open>
  The C++ type of a field of a data type, which the members of \<open>GenericMessage\<close> cast to;
  \<open>bytes\<close> are kept as \<open>std::string\<close>, an undefined type has no branch.
\<close>

primrec type_of_data :: "data_type \<Rightarrow> type_info" where
  "type_of_data BOOL_T = T_bool"
| "type_of_data UINT8_T = T_uint8"
| "type_of_data INT8_T = T_int8"
| "type_of_data UINT16_T = T_uint16"
| "type_of_data INT16_T = T_int16"
| "type_of_data UINT32_T = T_uint32"
| "type_of_data INT32_T = T_int32"
| "type_of_data UINT64_T = T_uint64"
| "type_of_data INT64_T = T_int64"
| "type_of_data CHAR_T = T_char"
| "type_of_data FLOAT_T = T_float"
| "type_of_data DOUBLE_T = T_double"
| "type_of_data BYTES_T = T_string"
| "type_of_data STRING_T = T_string"
| "type_of_data MESSAGE_T = T_class"
| "type_of_data UNDEFINED_T = T_none"

definition has_data_type :: "data_type \<Rightarrow> 'm any \<Rightarrow> bool" where
  "has_data_type d a \<longleftrightarrow> d \<noteq> UNDEFINED_T \<and> type_of_data d = any_type a"

text \<open>The data type that the overload of \<open>GenericMessageVisitor::visit\<close> for a value records.\<close>

primrec data_type_of :: "'m any \<Rightarrow> data_type" where
  "data_type_of A_empty = UNDEFINED_T"
| "data_type_of (A_bool _) = BOOL_T"
| "data_type_of (A_char _) = CHAR_T"
| "data_type_of (A_int8 _) = INT8_T"
| "data_type_of (A_uint8 _) = UINT8_T"
| "data_type_of (A_int16 _) = INT16_T"
| "data_type_of (A_uint16 _) = UINT16_T"
| "data_type_of (A_int32 _) = INT32_T"
| "data_type_of (A_uint32 _) = UINT32_T"
| "data_type_of (A_int64 _) = INT64_T"
| "data_type_of (A_uint64 _) = UINT64_T"
| "data_type_of (A_float _) = FLOAT_T"
| "data_type_of (A_double _) = DOUBLE_T"
| "data_type_of (A_string _) = STRING_T"
| "data_type_of (A_obj _) = MESSAGE_T"

lemma has_data_type_of: "a \<noteq> A_empty \<Longrightarrow> has_data_type (data_type_of a) a"
  by (cases a) (simp_all add: has_data_type_def)

lemma has_data_type_same: "same_type a b \<Longrightarrow> has_data_type d a \<longleftrightarrow> has_data_type d b"
  by (simp add: has_data_type_def same_type_def)

lemma has_data_type_typed: "has_data_type d a \<Longrightarrow> a \<noteq> A_empty"
  by (cases d) (auto simp: has_data_type_def)

end
