(* ===== verification/GenericMessage.thy ===== *)
theory GenericMessage
  imports MetaMessages
begin

text \<open>
  \<open>GenericMessage\<close>: a message whose type is known at run time only. It is built from a message
  of a generated class or from a message specification, it is visited like a generated message,
  and it is itself a visitor that fills a generated message.
\<close>

section \<open>State\<close>

text \<open>The members in the order of the class; the last is the map from field identifiers to values.\<close>

datatype gmsg =
  GM (gm_metaMessage: MetaMessage) (gm_scope: "MetaMessage list")
    (gm_map: "(cstring \<times> MetaMessage) list") (gm_longName: cstring)
    (gm_idr: "(uint32 \<times> gmsg any) list")

type_synonym idr = "(uint32 \<times> gmsg any) list"

definition gm_new :: gmsg where
  "gm_new = GM MetaMessage_new [] [] [] []"

section \<open>Names\<close>

text \<open>The tokens \<open>std::istream_iterator<std::string>\<close> reads.\<close>

function tokens :: "cstring \<Rightarrow> cstring list" where
  "tokens s =
     (case dropWhile is_space s of
        [] \<Rightarrow> []
      | c # cs \<Rightarrow> takeWhile (Not \<circ> is_space) (c # cs) # tokens (dropWhile (Not \<circ> is_space) (c # cs)))"
  by pat_completeness auto
termination
proof (relation "measure length", simp)
  fix s c cs
  assume "dropWhile is_space s = c # cs"
  moreover from this have "\<not> is_space c" using hd_dropWhile [of is_space s] by fastforce
  moreover have "length (dropWhile is_space s) \<le> length s" by (rule length_dropWhile_le)
  moreover have "length (dropWhile (Not \<circ> is_space) cs) \<le> length cs" by (rule length_dropWhile_le)
  ultimately show "(dropWhile (Not \<circ> is_space) (c # cs), s) \<in> measure length" by simp
qed

declare tokens.simps [simp del]

definition mm_LongName :: "MetaMessage \<Rightarrow> cstring" where
  "mm_LongName mm =
     mm_packageName mm @ (if mm_packageName mm \<noteq> [] then str ''.'' else []) @ mm_messageName mm"

definition gm_ID :: "gmsg \<Rightarrow> int32" where
  "gm_ID gm = mm_messageIdentifier (gm_metaMessage gm)"

definition gm_LongName :: "gmsg \<Rightarrow> cstring" where
  "gm_LongName gm = mm_LongName (gm_metaMessage gm)"

text \<open>\<open>ShortName\<close>; \<open>back()\<close> of an empty vector is undefined behaviour (\<open>None\<close>).\<close>

definition last_token :: "cstring \<Rightarrow> cstring option" where
  "last_token s =
     (let ts = tokens (map (\<lambda>c. if c = of_char CHR ''.'' then of_char CHR '' '' else c) s)
      in if ts = [] then None else Some (last ts))"

definition gm_ShortName :: "gmsg \<Rightarrow> cstring option" where
  "gm_ShortName gm = last_token (gm_LongName gm)"

section \<open>GenericMessageVisitor\<close>

record gm_visitor =
  gmv_metaMessage :: MetaMessage
  gmv_idr :: idr

definition gmv_new :: gm_visitor where
  "gmv_new = \<lparr>gmv_metaMessage = MetaMessage_new, gmv_idr = []\<rparr>"

text \<open>\<open>std::string::rfind\<close>.\<close>

definition rfind :: "cstring \<Rightarrow> cstring \<Rightarrow> nat option" where
  "rfind s t =
     (case filter (\<lambda>p. take (length t) (drop p s) = t) (rev [0..<Suc (length s)]) of
        [] \<Rightarrow> None | p # _ \<Rightarrow> Some p)"

text \<open>
  \<open>preVisit\<close>. \<open>substr(0, pos - 1)\<close> with \<open>pos = 0\<close> has the largest \<open>size_t\<close> as its length and is
  the whole string.
\<close>

definition gmv_preVisit :: "int32 \<Rightarrow> cstring \<Rightarrow> cstring \<Rightarrow> gm_visitor \<Rightarrow> gm_visitor" where
  "gmv_preVisit i sn ln v =
     (let mm = (gmv_metaMessage v)\<lparr>mm_messageIdentifier := i, mm_messageName := sn\<rparr>;
          mm = (if ln \<noteq> []
                then (case rfind ln sn of
                        None \<Rightarrow> mm
                      | Some pos \<Rightarrow> mm\<lparr>mm_packageName := (if pos = 0 then ln else take (pos - 1) ln)\<rparr>)
                else mm)
      in v\<lparr>gmv_metaMessage := mm\<rparr>)"

text \<open>Every overload of \<open>visit\<close> describes the field and stores its value.\<close>

definition gmv_add :: "uint32 \<Rightarrow> cstring \<Rightarrow> cstring \<Rightarrow> data_type \<Rightarrow> gmsg any \<Rightarrow> gm_visitor \<Rightarrow> gm_visitor" where
  "gmv_add i tn n d a v =
     (let mf = MetaField_new\<lparr>mf_fieldIdentifier := i, mf_fieldDataType := d,
                 mf_fieldDataTypeName := tn, mf_fieldName := n\<rparr>
      in \<lparr>gmv_metaMessage = mm_add mf (gmv_metaMessage v),
          gmv_idr = assign (mf_fieldIdentifier mf) a (gmv_idr v)\<rparr>)"

definition gmv_visit :: "uint32 \<Rightarrow> cstring \<Rightarrow> cstring \<Rightarrow> 'm any \<Rightarrow> gm_visitor \<Rightarrow> 'm any \<times> gm_visitor" where
  "gmv_visit i tn n a v =
     (if is_scalar a then (a, gmv_add i tn n (data_type_of a) (scalar_as a) v) else (a, v))"

text \<open>What \<open>createFrom<T>\<close> takes over from the visitor; the other members stay.\<close>

definition gm_take :: "gmsg \<Rightarrow> gm_visitor \<Rightarrow> gmsg" where
  "gm_take gm v = GM (gmv_metaMessage v) (gm_scope gm) (gm_map gm) (gm_longName gm) (gmv_idr v)"

text \<open>The template overload creates a \<open>GenericMessage\<close> from the nested message.\<close>

definition genericMessageVisitor :: "(gm_visitor, visitable) visitor" where
  "genericMessageVisitor =
     \<lparr>v_pre = gmv_preVisit,
      v_visit = gmv_visit,
      v_enter = (\<lambda>_ _ _ _. Some gmv_new),
      v_leave = (\<lambda>i tn n v nested. gmv_add i tn n MESSAGE_T (A_obj (gm_take gm_new nested)) v),
      v_post = (\<lambda>v. v)\<rparr>"

definition gm_createFrom :: "visitable \<Rightarrow> gmsg \<Rightarrow> gmsg" where
  "gm_createFrom msg gm = gm_take gm (snd (accept genericMessageVisitor msg gmv_new))"

section \<open>createFrom a specification\<close>

text \<open>The value a field of a scalar type is created with.\<close>

fun default_value :: "data_type \<Rightarrow> 'm any" where
  "default_value BOOL_T = A_bool False"
| "default_value CHAR_T = A_char 0"
| "default_value UINT8_T = A_uint8 0"
| "default_value INT8_T = A_int8 0"
| "default_value UINT16_T = A_uint16 0"
| "default_value INT16_T = A_int16 0"
| "default_value UINT32_T = A_uint32 0"
| "default_value INT32_T = A_int32 0"
| "default_value UINT64_T = A_uint64 0"
| "default_value INT64_T = A_int64 0"
| "default_value FLOAT_T = A_float 0"
| "default_value DOUBLE_T = A_double 0"
| "default_value STRING_T = A_string []"
| "default_value BYTES_T = A_string []"
| "default_value _ = A_empty"

text \<open>
  One turn of the loop over the fields; \<open>create\<close> is the recursive call for a nested message.
  \<open>None\<close> means that the recursion has not ended within the fuel.
\<close>

definition gm_create_field ::
  "(MetaMessage \<Rightarrow> gmsg option) \<Rightarrow> (cstring \<times> MetaMessage) list \<Rightarrow> MetaField \<Rightarrow> idr \<Rightarrow> idr option" where
  "gm_create_field create scope f idr =
     (if mf_fieldDataType f = UNDEFINED_T then Some idr
      else if mf_fieldDataType f = MESSAGE_T
      then (case map_of scope (mf_fieldDataTypeName f) of
              None \<Rightarrow> Some idr
            | Some mm \<Rightarrow>
                (case create mm of
                   None \<Rightarrow> None
                 | Some gm \<Rightarrow> Some (assign (mf_fieldIdentifier f) (A_obj gm) idr)))
      else Some (assign (mf_fieldIdentifier f) (default_value (mf_fieldDataType f)) idr))"

primrec gm_create_fields ::
  "(MetaMessage \<Rightarrow> gmsg option) \<Rightarrow> (cstring \<times> MetaMessage) list \<Rightarrow> MetaField list \<Rightarrow> idr \<Rightarrow> idr option" where
  "gm_create_fields create scope [] idr = Some idr"
| "gm_create_fields create scope (f # fs) idr =
     (case gm_create_field create scope f idr of
        None \<Rightarrow> None
      | Some idr' \<Rightarrow> gm_create_fields create scope fs idr')"

definition scope_map :: "MetaMessage list \<Rightarrow> (cstring \<times> MetaMessage) list" where
  "scope_map mms = fold (\<lambda>e. assign (mm_messageName e) e) mms []"

text \<open>
  \<open>createFrom(mm, mms)\<close> with a bound on the depth of the recursion. Every member of the object it
  is called on is overwritten.
\<close>

primrec gm_createFrom_spec :: "nat \<Rightarrow> MetaMessage list \<Rightarrow> MetaMessage \<Rightarrow> gmsg option" where
  "gm_createFrom_spec 0 mms mm = None"
| "gm_createFrom_spec (Suc k) mms mm =
     (case gm_create_fields (gm_createFrom_spec k mms) (scope_map mms) (mm_listOfMetaFields mm) [] of
        None \<Rightarrow> None
      | Some idr \<Rightarrow> Some (GM mm mms (scope_map mms) (mm_messageName mm) idr))"

section \<open>GenericMessage as a visitor\<close>

text \<open>
  The overloads of \<open>visit\<close>: the field gets the stored value if that has exactly its type.
\<close>

definition gm_visit :: "uint32 \<Rightarrow> cstring \<Rightarrow> cstring \<Rightarrow> 'm any \<Rightarrow> gmsg \<Rightarrow> 'm any \<times> gmsg" where
  "gm_visit i tn n a gm =
     (case map_of (gm_idr gm) i of
        None \<Rightarrow> (a, gm)
      | Some r \<Rightarrow> (if is_scalar a \<and> same_type r a then scalar_as r else a, gm))"

text \<open>A nested message is visited by the nested \<open>GenericMessage\<close>, by reference.\<close>

definition gm_set :: "uint32 \<Rightarrow> gmsg any \<Rightarrow> gmsg \<Rightarrow> gmsg" where
  "gm_set i a gm =
     GM (gm_metaMessage gm) (gm_scope gm) (gm_map gm) (gm_longName gm) (assign i a (gm_idr gm))"

definition genericMessage :: "(gmsg, visitable) visitor" where
  "genericMessage =
     \<lparr>v_pre = (\<lambda>_ _ _ gm. gm),
      v_visit = gm_visit,
      v_enter = (\<lambda>i tn n gm.
        case map_of (gm_idr gm) i of None \<Rightarrow> None | Some r \<Rightarrow> any_cast_obj r),
      v_leave = (\<lambda>i tn n gm nested. gm_set i (A_obj nested) gm),
      v_post = (\<lambda>gm. gm)\<rparr>"

section \<open>accept\<close>

text \<open>
  A visitor's \<open>visit\<close> on a value held in the map. \<open>accept_nested\<close> is the call of \<open>accept\<close> on a
  nested \<open>GenericMessage\<close>; its \<open>None\<close> (undefined behaviour, or no fuel) is passed on.
\<close>

type_synonym 's gm_result = "(gmsg \<times> 's) option"

definition gm_do_visit ::
  "(gmsg \<Rightarrow> 's \<Rightarrow> 's gm_result) \<Rightarrow> ('s, visitable) visitor \<Rightarrow> uint32 \<Rightarrow> cstring \<Rightarrow> cstring \<Rightarrow>
   gmsg any \<Rightarrow> 's \<Rightarrow> (gmsg any \<times> 's) option" where
  "gm_do_visit accept_nested V i tn n a s =
     (case a of
        A_obj g \<Rightarrow>
          (case v_enter V i tn n s of
             None \<Rightarrow> Some (a, s)
           | Some t \<Rightarrow>
               (case accept_nested g t of
                  None \<Rightarrow> None
                | Some (g', t') \<Rightarrow> Some (A_obj g', v_leave V i tn n s t')))
      | _ \<Rightarrow> (let (a', s') = v_visit V i tn n (scalar_as a) s in Some (scalar_as a', s')))"

text \<open>
  The chain of branches for one field: its value is visited if there is one and it has the C++
  type that belongs to the field's data type.
\<close>

definition gm_visit_field ::
  "(gmsg \<Rightarrow> 's \<Rightarrow> 's gm_result) \<Rightarrow> ('s, visitable) visitor \<Rightarrow> MetaField \<Rightarrow> idr \<Rightarrow> 's \<Rightarrow> (idr \<times> 's) option" where
  "gm_visit_field accept_nested V f idr s =
     (case map_of idr (mf_fieldIdentifier f) of
        None \<Rightarrow> Some (idr, s)
      | Some a \<Rightarrow>
          (if has_data_type (mf_fieldDataType f) a
           then (case gm_do_visit accept_nested V (mf_fieldIdentifier f) (mf_fieldDataTypeName f)
                        (mf_fieldName f) a s of
                   None \<Rightarrow> None
                 | Some (a', s') \<Rightarrow> Some (assign (mf_fieldIdentifier f) a' idr, s'))
           else Some (idr, s)))"

primrec gm_visit_fields ::
  "(gmsg \<Rightarrow> 's \<Rightarrow> 's gm_result) \<Rightarrow> bool \<Rightarrow> uint32 \<Rightarrow> ('s, visitable) visitor \<Rightarrow> MetaField list \<Rightarrow>
   idr \<Rightarrow> 's \<Rightarrow> (idr \<times> 's) option" where
  "gm_visit_fields accept_nested visitAll fieldId V [] idr s = Some (idr, s)"
| "gm_visit_fields accept_nested visitAll fieldId V (f # fs) idr s =
     (if visitAll \<or> fieldId = mf_fieldIdentifier f
      then
        (case gm_visit_field accept_nested V f idr s of
           None \<Rightarrow> None
         | Some (idr', s') \<Rightarrow>
             (if \<not> visitAll \<and> fieldId = mf_fieldIdentifier f then Some (idr', s')
              else gm_visit_fields accept_nested visitAll fieldId V fs idr' s'))
      else gm_visit_fields accept_nested visitAll fieldId V fs idr s)"

text \<open>
  \<open>accept(fieldId, visitor, visitAll)\<close>, over a bound on the nesting, and over the three values
  that are passed to \<open>preVisit\<close>.
\<close>

type_synonym gm_names = "gmsg \<Rightarrow> (int32 \<times> cstring \<times> cstring) option"

primrec gm_accept_fuel ::
  "nat \<Rightarrow> gm_names \<Rightarrow> bool \<Rightarrow> uint32 \<Rightarrow> ('s, visitable) visitor \<Rightarrow> gmsg \<Rightarrow> 's \<Rightarrow> 's gm_result" where
  "gm_accept_fuel 0 names visitAll fieldId V gm s = None"
| "gm_accept_fuel (Suc k) names visitAll fieldId V gm s =
     (case names gm of
        None \<Rightarrow> None
      | Some (i, sn, ln) \<Rightarrow>
          (case gm_visit_fields (gm_accept_fuel k names True 0 V) visitAll fieldId V
                  (mm_listOfMetaFields (gm_metaMessage gm)) (gm_idr gm) (v_pre V i sn ln s) of
             None \<Rightarrow> None
           | Some (idr, s') \<Rightarrow>
               Some (GM (gm_metaMessage gm) (gm_scope gm) (gm_map gm) (gm_longName gm) idr,
                     v_post V s')))"

text \<open>The nesting depth of the values, which bounds the recursion of \<open>accept\<close>.\<close>

abbreviation gvalue_size :: "gmsg any \<Rightarrow> nat" where
  "gvalue_size \<equiv> size_any size"

abbreviation idr_size :: "idr \<Rightarrow> nat" where
  "idr_size \<equiv> size_list (size_prod (\<lambda>_. 0) gvalue_size)"

function gm_depth :: "gmsg \<Rightarrow> nat" and idr_depth :: "idr \<Rightarrow> nat" and gvalue_depth :: "gmsg any \<Rightarrow> nat" where
  "gm_depth (GM mm sc mp ln idr) = idr_depth idr"
| "idr_depth [] = 0"
| "idr_depth ((i, a) # idr) = max (gvalue_depth a) (idr_depth idr)"
| "gvalue_depth a = (case a of A_obj g \<Rightarrow> Suc (gm_depth g) | _ \<Rightarrow> 0)"
  by pat_completeness auto
termination
  by (relation "measure (\<lambda>x. case x of
        Inl m \<Rightarrow> size m | Inr (Inl fs) \<Rightarrow> idr_size fs | Inr (Inr a) \<Rightarrow> gvalue_size a)") auto

lemmas gm_induct = gm_depth_idr_depth_gvalue_depth.induct [case_names Msg Nil Cons Val]

definition visitor_names :: gm_names where
  "visitor_names gm = (case gm_ShortName gm of None \<Rightarrow> None | Some sn \<Rightarrow> Some (gm_ID gm, sn, gm_LongName gm))"

definition gm_accept :: "('s, visitable) visitor \<Rightarrow> gmsg \<Rightarrow> 's \<Rightarrow> 's gm_result" where
  "gm_accept V gm s = gm_accept_fuel (Suc (gm_depth gm)) visitor_names True 0 V gm s"

definition gm_accept_field :: "uint32 \<Rightarrow> ('s, visitable) visitor \<Rightarrow> gmsg \<Rightarrow> 's \<Rightarrow> 's gm_result" where
  "gm_accept_field fieldId V gm s = gm_accept_fuel (Suc (gm_depth gm)) visitor_names False fieldId V gm s"

text \<open>
  \<open>accept(preVisit, visit, postVisit)\<close>: the same chain of branches; \<open>preVisit\<close> is given the name
  of the message and the long name that only \<open>createFrom(mm, mms)\<close> sets.
\<close>

definition triplet_names :: gm_names where
  "triplet_names gm = Some (gm_ID gm, mm_messageName (gm_metaMessage gm), gm_longName gm)"

definition gm_accept_triplet ::
  "(int32 \<Rightarrow> cstring \<Rightarrow> cstring \<Rightarrow> 's \<Rightarrow> 's) \<Rightarrow> 's visit_fun \<Rightarrow> ('s \<Rightarrow> 's) \<Rightarrow> gmsg \<Rightarrow> 's \<Rightarrow> 's gm_result" where
  "gm_accept_triplet pre vis post gm s =
     gm_accept_fuel (Suc (gm_depth gm)) triplet_names True 0 (triplet_visitor pre vis post) gm s"

end
