(* ===== verification/GenericCorrect.thy ===== *)
theory GenericCorrect
  imports GenericMessage ProtoCorrect LCM MsgPackCorrect
begin

text \<open>
  Correctness of \<open>GenericMessage\<close>. The message it shows to visitors is a \<open>visitable\<close> (\<open>gm_view\<close>),
  and visiting the one is visiting the other, so that the facts on the codecs carry over; a
  \<open>GenericMessage\<close> created from a message or from a specification shows that message.
\<close>

section \<open>The message a GenericMessage shows\<close>

text \<open>
  What a visitor sees of a \<open>GenericMessage\<close>: its names and, in the order of the description, the
  fields that have a value of the right type.
\<close>

definition view_field :: "(uint32 \<times> visitable any) list \<Rightarrow> MetaField \<Rightarrow> field list" where
  "view_field vidr f =
     (case map_of vidr (mf_fieldIdentifier f) of
        None \<Rightarrow> []
      | Some a \<Rightarrow>
          if has_data_type (mf_fieldDataType f) a
          then [(mf_fieldIdentifier f, mf_fieldDataTypeName f, mf_fieldName f, a)] else [])"

definition view_fields :: "MetaField list \<Rightarrow> (uint32 \<times> visitable any) list \<Rightarrow> field list" where
  "view_fields mfs vidr = concat (map (view_field vidr) mfs)"

definition view_names :: "gm_names \<Rightarrow> gmsg \<Rightarrow> int32 \<times> cstring \<times> cstring" where
  "view_names names gm = (case names gm of None \<Rightarrow> (0, [], []) | Some x \<Rightarrow> x)"

function gm_view :: "gm_names \<Rightarrow> gmsg \<Rightarrow> visitable"
  and idr_view :: "gm_names \<Rightarrow> idr \<Rightarrow> (uint32 \<times> visitable any) list"
  and gvalue_view :: "gm_names \<Rightarrow> gmsg any \<Rightarrow> visitable any" where
  "gm_view nm (GM mm sc mp ln idr) =
     (let (i, sn, l) = view_names nm (GM mm sc mp ln idr)
      in Visitable i sn l (view_fields (mm_listOfMetaFields mm) (idr_view nm idr)))"
| "idr_view nm [] = []"
| "idr_view nm ((i, a) # idr) = (i, gvalue_view nm a) # idr_view nm idr"
| "gvalue_view nm a = (case a of A_obj g \<Rightarrow> A_obj (gm_view nm g) | _ \<Rightarrow> scalar_as a)"
  by pat_completeness auto
termination
  by (relation "measure (\<lambda>x. case x of
        Inl (nm, m) \<Rightarrow> size m | Inr (Inl (nm, fs)) \<Rightarrow> idr_size fs
      | Inr (Inr (nm, a)) \<Rightarrow> gvalue_size a)") auto

declare gvalue_view.simps [simp del]

lemma gvalue_view_simps [simp]:
  "gvalue_view nm (A_obj g) = A_obj (gm_view nm g)"
  "is_scalar a \<Longrightarrow> gvalue_view nm a = scalar_as a"
  by (auto simp: gvalue_view.simps is_scalar_def split: any.splits)

lemma same_type_view [simp]: "same_type (gvalue_view nm a) a"
  by (cases a) (auto simp: same_type_def gvalue_view.simps)

lemma has_data_type_view [simp]: "has_data_type d (gvalue_view nm a) \<longleftrightarrow> has_data_type d a"
  by (rule has_data_type_same) simp

lemma map_of_idr_view [simp]: "map_of (idr_view nm idr) i = map_option (gvalue_view nm) (map_of idr i)"
  by (induction idr) auto

text \<open>
  A \<open>GenericMessage\<close> is in order when the field identifiers differ and the names it shows are
  defined, in nested messages too.
\<close>

function gm_ok :: "gm_names \<Rightarrow> gmsg \<Rightarrow> bool" and idr_ok :: "gm_names \<Rightarrow> idr \<Rightarrow> bool"
  and gvalue_ok :: "gm_names \<Rightarrow> gmsg any \<Rightarrow> bool" where
  "gm_ok nm (GM mm sc mp ln idr) \<longleftrightarrow>
     nm (GM mm sc mp ln idr) \<noteq> None \<and>
     distinct (map mf_fieldIdentifier (mm_listOfMetaFields mm)) \<and> idr_ok nm idr"
| "idr_ok nm [] \<longleftrightarrow> True"
| "idr_ok nm ((i, a) # idr) \<longleftrightarrow> gvalue_ok nm a \<and> idr_ok nm idr"
| "gvalue_ok nm a \<longleftrightarrow> (case a of A_obj g \<Rightarrow> gm_ok nm g | _ \<Rightarrow> True)"
  by pat_completeness auto
termination
  by (relation "measure (\<lambda>x. case x of
        Inl (nm, m) \<Rightarrow> size m | Inr (Inl (nm, fs)) \<Rightarrow> idr_size fs
      | Inr (Inr (nm, a)) \<Rightarrow> gvalue_size a)") auto

lemma idr_nested:
  "map_of idr i = Some (A_obj g) \<Longrightarrow> gm_depth g < idr_depth idr"
  "map_of idr i = Some (A_obj g) \<Longrightarrow> idr_ok nm idr \<Longrightarrow> gm_ok nm g"
  by (induction idr) (auto split: if_splits)

lemma any_type_scalar_as: "is_scalar a \<Longrightarrow> any_type (scalar_as a) = any_type a"
  by (cases a) auto

section \<open>Visiting a GenericMessage\<close>

text \<open>The names passed to \<open>preVisit\<close> do not depend on the values.\<close>

locale value_free_names =
  fixes nm :: gm_names
  assumes names_free: "nm (GM mm sc mp ln idr) = nm (GM mm sc mp ln idr')"

interpretation visitor_names: value_free_names visitor_names
  by unfold_locales
    (auto simp: visitor_names_def gm_ShortName_def gm_LongName_def gm_ID_def split: option.split)

interpretation triplet_names: value_free_names triplet_names
  by unfold_locales (simp add: triplet_names_def gm_ID_def)

text \<open>\<open>acc\<close> visits \<open>g\<close> as \<open>accept\<close> visits the message that \<open>g\<close> shows.\<close>

definition refines ::
  "('s, visitable) visitor \<Rightarrow> gm_names \<Rightarrow> (gmsg \<Rightarrow> 's \<Rightarrow> 's gm_result) \<Rightarrow> gmsg \<Rightarrow> bool" where
  "refines V nm acc g \<longleftrightarrow>
     (\<forall>s. \<exists>g'. acc g s = Some (g', snd (accept V (gm_view nm g) s)) \<and>
           gm_view nm g' = fst (accept V (gm_view nm g) s))"

locale generic_accept = typed_visitor V + value_free_names nm
  for V :: "('s, visitable) visitor" and nm :: gm_names
begin

lemma do_visit_refines:
  assumes a: "a \<noteq> A_empty" and n: "\<And>g. a = A_obj g \<Longrightarrow> refines V nm acc g"
  shows "\<exists>a'. gm_do_visit acc V i tn n a s = Some (a', snd (do_visit V i tn n (gvalue_view nm a) s)) \<and>
           gvalue_view nm a' = fst (do_visit V i tn n (gvalue_view nm a) s) \<and> same_type a' a"
proof (cases "is_scalar a")
  case True
  let ?r = "v_visit V i tn n (scalar_as a) s"
  have s: "is_scalar (scalar_as a :: visitable any)"
    using is_scalar_same_type [OF same_type_scalar_as [OF True]] True by blast
  have t: "same_type (fst ?r) (scalar_as a :: visitable any)" by (rule visit_type) (rule s)
  then have r: "is_scalar (fst ?r)" using s is_scalar_same_type by blast
  have r': "is_scalar (scalar_as (fst ?r) :: gmsg any)"
    using is_scalar_same_type [OF same_type_scalar_as [OF r]] r by blast
  have "gm_do_visit acc V i tn n a s = Some (scalar_as (fst ?r), snd ?r)"
    using True by (cases a) (auto simp: gm_do_visit_def split_beta is_scalar_def)
  moreover have "same_type (scalar_as (fst ?r)) a"
    using t True r by (simp add: same_type_def any_type_scalar_as)
  ultimately show ?thesis using True s r r' by (auto simp: do_visit_scalar)
next
  case False
  then obtain g where g: "a = A_obj g" using a by (cases a) auto
  show ?thesis
  proof (cases "v_enter V i tn n s")
    case None
    then show ?thesis by (auto simp: g gm_do_visit_def)
  next
    case (Some t)
    then show ?thesis
      using n [OF g, unfolded refines_def, rule_format, of t]
      by (auto simp: g gm_do_visit_def split_beta same_type_def)
  qed
qed

lemma visit_field_refines:
  assumes n: "\<And>g. map_of idr (mf_fieldIdentifier f) = Some (A_obj g) \<Longrightarrow> refines V nm acc g"
  shows "\<exists>idr'. gm_visit_field acc V f idr s =
             Some (idr', snd (accept_fields V (view_field (idr_view nm idr) f) s)) \<and>
           view_field (idr_view nm idr') f =
             fst (accept_fields V (view_field (idr_view nm idr) f) s) \<and>
           (\<forall>j. j \<noteq> mf_fieldIdentifier f \<longrightarrow> map_of idr' j = map_of idr j)"
proof (cases "map_of idr (mf_fieldIdentifier f)")
  case None
  then show ?thesis by (simp add: gm_visit_field_def view_field_def)
next
  case (Some a)
  show ?thesis
  proof (cases "has_data_type (mf_fieldDataType f) a")
    case False
    with Some show ?thesis by (simp add: gm_visit_field_def view_field_def)
  next
    case True
    have n': "refines V nm acc g" if "a = A_obj g" for g
      using n Some that by simp
    from do_visit_refines [OF has_data_type_typed [OF True] n']
    obtain a' where "gm_do_visit acc V (mf_fieldIdentifier f) (mf_fieldDataTypeName f)
          (mf_fieldName f) a s =
        Some (a', snd (do_visit V (mf_fieldIdentifier f) (mf_fieldDataTypeName f)
          (mf_fieldName f) (gvalue_view nm a) s))"
      and w: "gvalue_view nm a' = fst (do_visit V (mf_fieldIdentifier f) (mf_fieldDataTypeName f)
          (mf_fieldName f) (gvalue_view nm a) s)" and t: "same_type a' a"
      by blast
    with Some True show ?thesis
      using has_data_type_same [OF t] has_data_type_view [of "mf_fieldDataType f" nm a', unfolded w]
      by (auto simp: gm_visit_field_def view_field_def split_beta)
  qed
qed

end

lemma view_fields_simps [simp]:
  "view_fields [] vidr = []"
  "view_fields (f # fs) vidr = view_field vidr f @ view_fields fs vidr"
  by (simp_all add: view_fields_def)

lemma view_fields_cong:
  "(\<And>f. f \<in> set mfs \<Longrightarrow> map_of idr (mf_fieldIdentifier f) = map_of idr' (mf_fieldIdentifier f)) \<Longrightarrow>
     view_fields mfs (idr_view nm idr) = view_fields mfs (idr_view nm idr')"
  by (induction mfs) (auto simp: view_field_def)

lemma accept_fields_append:
  "accept_fields V (fs @ gs) s =
     (let (fs', s1) = accept_fields V fs s; (gs', s2) = accept_fields V gs s1 in (fs' @ gs', s2))"
proof (induction fs arbitrary: s)
  case Nil
  show ?case by simp
next
  case (Cons x fs)
  obtain i tn n a where x: "x = (i, tn, n, a)" by (cases x)
  show ?case by (simp add: x Cons split_beta Let_def)
qed

context generic_accept
begin

lemma visit_fields_refines:
  assumes "distinct (map mf_fieldIdentifier mfs)"
    and "\<And>f g. f \<in> set mfs \<Longrightarrow> map_of idr (mf_fieldIdentifier f) = Some (A_obj g) \<Longrightarrow> refines V nm acc g"
  shows "\<exists>idr'. gm_visit_fields acc True k V mfs idr s =
             Some (idr', snd (accept_fields V (view_fields mfs (idr_view nm idr)) s)) \<and>
           view_fields mfs (idr_view nm idr') = fst (accept_fields V (view_fields mfs (idr_view nm idr)) s) \<and>
           (\<forall>j. j \<notin> mf_fieldIdentifier ` set mfs \<longrightarrow> map_of idr' j = map_of idr j)"
  using assms
proof (induction mfs arbitrary: idr s)
  case Nil
  show ?case by simp
next
  case (Cons f mfs)
  obtain idr1 where 1: "gm_visit_field acc V f idr s =
        Some (idr1, snd (accept_fields V (view_field (idr_view nm idr) f) s))"
    and v1: "view_field (idr_view nm idr1) f =
        fst (accept_fields V (view_field (idr_view nm idr) f) s)"
    and m1: "\<And>j. j \<noteq> mf_fieldIdentifier f \<Longrightarrow> map_of idr1 j = map_of idr j"
    using visit_field_refines [of idr f acc s] Cons.prems(2) by auto
  have other: "mf_fieldIdentifier f' \<noteq> mf_fieldIdentifier f" if "f' \<in> set mfs" for f'
  proof
    assume "mf_fieldIdentifier f' = mf_fieldIdentifier f"
    with that have "mf_fieldIdentifier f \<in> mf_fieldIdentifier ` set mfs" by (metis image_eqI)
    with Cons.prems(1) show False by simp
  qed
  have same: "view_fields mfs (idr_view nm idr1) = view_fields mfs (idr_view nm idr)"
    using other m1 by (intro view_fields_cong) auto
  let ?s = "snd (accept_fields V (view_field (idr_view nm idr) f) s)"
  have "\<exists>idr'. gm_visit_fields acc True k V mfs idr1 ?s =
             Some (idr', snd (accept_fields V (view_fields mfs (idr_view nm idr1)) ?s)) \<and>
           view_fields mfs (idr_view nm idr') = fst (accept_fields V (view_fields mfs (idr_view nm idr1)) ?s) \<and>
           (\<forall>j. j \<notin> mf_fieldIdentifier ` set mfs \<longrightarrow> map_of idr' j = map_of idr1 j)"
    using Cons.prems other m1 by (intro Cons.IH) auto
  then obtain idr' where 2: "gm_visit_fields acc True k V mfs idr1 ?s =
        Some (idr', snd (accept_fields V (view_fields mfs (idr_view nm idr)) ?s))"
    and v2: "view_fields mfs (idr_view nm idr') = fst (accept_fields V (view_fields mfs (idr_view nm idr)) ?s)"
    and m2: "\<And>j. j \<notin> mf_fieldIdentifier ` set mfs \<Longrightarrow> map_of idr' j = map_of idr1 j"
    unfolding same by blast
  have "map_of idr' (mf_fieldIdentifier f) = map_of idr1 (mf_fieldIdentifier f)"
    using Cons.prems(1) by (intro m2) auto
  then have "view_field (idr_view nm idr') f = view_field (idr_view nm idr1) f"
    by (simp add: view_field_def)
  then show ?case
    using 1 2 v1 v2 m1 m2 by (auto simp: accept_fields_append split_beta)
qed

lemma accept_fuel_refines: "gm_ok nm g \<Longrightarrow> gm_depth g < k \<Longrightarrow> refines V nm (gm_accept_fuel k nm True 0 V) g"
proof (induction k arbitrary: g)
  case 0
  then show ?case by simp
next
  case (Suc k)
  obtain mm sc mp ln idr where g: "g = GM mm sc mp ln idr" by (cases g)
  obtain i sn l where nm: "nm g = Some (i, sn, l)" using Suc.prems(1) by (cases "nm g") (auto simp: g)
  have r: "refines V nm (gm_accept_fuel k nm True 0 V) g'"
    if "map_of idr j = Some (A_obj g')" for j g'
    using Suc.IH [of g'] Suc.prems idr_nested [OF that] by (auto simp: g)
  show ?case
    unfolding refines_def
  proof
    fix s
    have "distinct (map mf_fieldIdentifier (mm_listOfMetaFields mm))" using Suc.prems(1) by (simp add: g)
    from visit_fields_refines [OF this, of idr "gm_accept_fuel k nm True 0 V" 0 "v_pre V i sn l s"]
    obtain idr' where v: "gm_visit_fields (gm_accept_fuel k nm True 0 V) True 0 V
          (mm_listOfMetaFields mm) idr (v_pre V i sn l s) =
        Some (idr', snd (accept_fields V (view_fields (mm_listOfMetaFields mm) (idr_view nm idr))
          (v_pre V i sn l s)))"
      and w: "view_fields (mm_listOfMetaFields mm) (idr_view nm idr') =
        fst (accept_fields V (view_fields (mm_listOfMetaFields mm) (idr_view nm idr)) (v_pre V i sn l s))"
      using r by blast
    have nm': "nm (GM mm sc mp ln idr') = Some (i, sn, l)"
      using nm names_free [of mm sc mp ln idr' idr] by (simp add: g)
    have "gm_accept_fuel (Suc k) nm True 0 V g s =
        Some (GM mm sc mp ln idr', snd (accept V (gm_view nm g) s))"
      using nm v by (simp add: g view_names_def split_beta)
    moreover have "gm_view nm (GM mm sc mp ln idr') = fst (accept V (gm_view nm g) s)"
      using nm nm' w by (simp add: g view_names_def split_beta)
    ultimately show "\<exists>g'. gm_accept_fuel (Suc k) nm True 0 V g s =
          Some (g', snd (accept V (gm_view nm g) s)) \<and>
        gm_view nm g' = fst (accept V (gm_view nm g) s)"
      by blast
  qed
qed

lemma accept_refines: "gm_ok nm g \<Longrightarrow> refines V nm (gm_accept_fuel (Suc (gm_depth g)) nm True 0 V) g"
  by (rule accept_fuel_refines) auto

end

section \<open>createFrom a message\<close>

lemma genericMessageVisitor_sel [simp]:
  "v_pre genericMessageVisitor = gmv_preVisit"
  "v_visit genericMessageVisitor = gmv_visit"
  "v_enter genericMessageVisitor = (\<lambda>_ _ _ _. Some gmv_new)"
  "v_leave genericMessageVisitor =
     (\<lambda>i tn n v nested. gmv_add i tn n MESSAGE_T (A_obj (gm_take gm_new nested)) v)"
  "v_post genericMessageVisitor = (\<lambda>v. v)"
  by (simp_all add: genericMessageVisitor_def)

interpretation create_generic: reader_visitor genericMessageVisitor
  by unfold_locales (simp add: gmv_visit_def)

text \<open>What is stored for a field, and the description of a field.\<close>

definition gm_value :: "visitable any \<Rightarrow> gmsg any" where
  "gm_value a = (case a of A_obj m \<Rightarrow> A_obj (gm_createFrom m gm_new) | _ \<Rightarrow> scalar_as a)"

definition field_meta :: "field \<Rightarrow> MetaField" where
  "field_meta = (\<lambda>(i, tn, n, a).
     MetaField_new\<lparr>mf_fieldIdentifier := i, mf_fieldDataType := data_type_of a,
       mf_fieldDataTypeName := tn, mf_fieldName := n\<rparr>)"

lemma field_meta_sel [simp]:
  "mf_fieldIdentifier (field_meta x) = fst x"
  "mf_fieldDataType (field_meta (i, tn, n, a)) = data_type_of a"
  "mf_fieldDataTypeName (field_meta (i, tn, n, a)) = tn"
  "mf_fieldName (field_meta (i, tn, n, a)) = n"
  by (auto simp: field_meta_def split: prod.split)

lemma do_visit_gmv:
  assumes "a \<noteq> A_empty"
  shows "do_visit genericMessageVisitor i tn n a v = (a, gmv_add i tn n (data_type_of a) (gm_value a) v)"
proof (cases "is_scalar a")
  case True
  then show ?thesis
    by (cases a) (simp_all add: gmv_visit_def gm_value_def)
next
  case False
  then obtain m where a: "a = A_obj m" using assms by (cases a) auto
  show ?thesis
    using create_generic.accept_keeps [of m gmv_new]
    by (simp add: a gm_value_def gm_createFrom_def split_beta)
qed

lemma accept_fields_gmv:
  assumes "\<forall>x\<in>set fs. snd (snd (snd x)) \<noteq> A_empty"
  shows "accept_fields genericMessageVisitor fs v =
    (fs, \<lparr>gmv_metaMessage = (gmv_metaMessage v)
            \<lparr>mm_listOfMetaFields := mm_listOfMetaFields (gmv_metaMessage v) @ map field_meta fs\<rparr>,
          gmv_idr = fold (\<lambda>(i, tn, n, a). assign i (gm_value a)) fs (gmv_idr v)\<rparr>)"
  using assms
proof (induction fs arbitrary: v)
  case Nil
  show ?case by simp
next
  case (Cons x fs)
  obtain i tn n a where x: "x = (i, tn, n, a)" by (cases x)
  show ?case
    using Cons.prems
    by (simp add: x do_visit_gmv Cons.IH gmv_add_def Let_def mm_add_def field_meta_def)
qed

lemma map_of_fold_assign_other:
  "j \<notin> fst ` set fs \<Longrightarrow> map_of (fold (\<lambda>(i, tn, n, a). assign i (h a)) fs m) j = map_of m j"
  by (induction fs arbitrary: m) auto

lemma map_of_fold_assign:
  assumes "distinct (map fst fs)" and "(i, tn, n, a) \<in> set fs"
  shows "map_of (fold (\<lambda>(i, tn, n, a). assign i (h a)) fs m) i = Some (h a)"
  using assms
proof (induction fs arbitrary: m)
  case Nil
  then show ?case by simp
next
  case (Cons x fs)
  obtain i' tn' n' a' where x: "x = (i', tn', n', a')" by (cases x)
  show ?case
  proof (cases "(i, tn, n, a) = x")
    case True
    then show ?thesis using Cons.prems(1) by (simp add: x map_of_fold_assign_other)
  next
    case False
    then have "(i, tn, n, a) \<in> set fs" using Cons.prems(2) by simp
    then show ?thesis using Cons by (simp add: x)
  qed
qed

section \<open>GenericMessage as the visitor of a message\<close>

text \<open>
  \<open>gm_has g m\<close>: the values of \<open>g\<close> are those of the message \<open>m\<close>, field by field.
\<close>

function gm_has :: "gmsg \<Rightarrow> visitable \<Rightarrow> bool"
  and gm_has_fields :: "idr \<Rightarrow> field list \<Rightarrow> bool"
  and gm_has_value :: "gmsg any \<Rightarrow> visitable any \<Rightarrow> bool" where
  "gm_has g (Visitable i sn ln fs) \<longleftrightarrow> gm_has_fields (gm_idr g) fs"
| "gm_has_fields idr [] \<longleftrightarrow> True"
| "gm_has_fields idr ((i, tn, n, a) # fs) \<longleftrightarrow>
     (case map_of idr i of None \<Rightarrow> False | Some r \<Rightarrow> gm_has_value r a) \<and> gm_has_fields idr fs"
| "gm_has_value r a \<longleftrightarrow>
     (case a of
        A_empty \<Rightarrow> False
      | A_obj m \<Rightarrow> (case r of A_obj g \<Rightarrow> gm_has g m | _ \<Rightarrow> False)
      | _ \<Rightarrow> r = scalar_as a)"
  by pat_completeness auto
termination
  by (relation "measure (\<lambda>x. case x of
        Inl (g, m) \<Rightarrow> size m | Inr (Inl (g, fs)) \<Rightarrow> fields_size fs
      | Inr (Inr (r, a)) \<Rightarrow> value_size a)") auto

declare gm_has_value.simps [simp del]

lemma gm_has_value_scalar: "is_scalar a \<Longrightarrow> gm_has_value r a \<longleftrightarrow> r = scalar_as a"
  by (cases a) (auto simp: gm_has_value.simps)

lemma gm_has_value_obj: "gm_has_value r (A_obj m) \<longleftrightarrow> (\<exists>g. r = A_obj g \<and> gm_has g m)"
  by (cases r) (auto simp: gm_has_value.simps)

lemma gm_has_value_empty [simp]: "\<not> gm_has_value r A_empty"
  by (simp add: gm_has_value.simps)

lemma gm_set_same: "map_of (gm_idr g) i = Some a \<Longrightarrow> gm_set i a g = g"
  by (cases g) (simp add: gm_set_def assign_same)

definition generic_ready :: "gmsg \<Rightarrow> field list \<Rightarrow> gmsg \<Rightarrow> bool" where
  "generic_ready g fs k \<longleftrightarrow> g = k \<and> gm_has_fields (gm_idr g) fs"

interpretation from_generic: field_decoder genericMessage generic_ready
proof
  fix s :: gmsg and i tn n v fs k and a :: "visitable any"
  assume r: "generic_ready s ((i, tn, n, v) # fs) k" and v: "is_scalar v" and t: "same_type a v"
  then have "map_of (gm_idr s) i = Some (scalar_as v)"
    by (auto simp: generic_ready_def gm_has_value_scalar split: option.splits)
  then show "\<exists>s'. v_visit genericMessage i tn n a s = (v, s') \<and> generic_ready s' fs k"
    using r v t is_scalar_same_type [OF t]
    by (auto simp: genericMessage_def gm_visit_def generic_ready_def same_type_def any_type_scalar_as)
next
  fix s :: gmsg and i tn n j sn ln gs fs k
  assume r: "generic_ready s ((i, tn, n, A_obj (Visitable j sn ln gs)) # fs) k"
  then obtain g where g: "map_of (gm_idr s) i = Some (A_obj g)" "gm_has_fields (gm_idr g) gs"
    by (auto simp: generic_ready_def gm_has_value_obj split: option.splits)
  then show "\<exists>t k'. v_enter genericMessage i tn n s = Some t \<and>
      generic_ready (v_pre genericMessage j sn ln t) gs k' \<and>
      (\<forall>t'. generic_ready t' [] k' \<longrightarrow>
         generic_ready (v_leave genericMessage i tn n s (v_post genericMessage t')) fs k)"
    using r by (auto simp: genericMessage_def generic_ready_def gm_set_same)
next
  fix s i tn n fs k
  show "\<not> generic_ready s ((i, tn, n, A_empty) # fs) k"
    by (auto simp: generic_ready_def split: option.splits)
qed

text \<open>Field identifiers differ within every message.\<close>

function unique_ids :: "visitable \<Rightarrow> bool" and unique_ids_fields :: "field list \<Rightarrow> bool"
  and unique_ids_value :: "visitable any \<Rightarrow> bool" where
  "unique_ids (Visitable i sn ln fs) \<longleftrightarrow> distinct (map fst fs) \<and> unique_ids_fields fs"
| "unique_ids_fields [] \<longleftrightarrow> True"
| "unique_ids_fields ((i, tn, n, a) # fs) \<longleftrightarrow> unique_ids_value a \<and> unique_ids_fields fs"
| "unique_ids_value a \<longleftrightarrow> (case a of A_obj m \<Rightarrow> unique_ids m | _ \<Rightarrow> True)"
  by pat_completeness auto
termination
  by (relation "measure (\<lambda>x. case x of
        Inl m \<Rightarrow> size m | Inr (Inl fs) \<Rightarrow> fields_size fs | Inr (Inr a) \<Rightarrow> value_size a)") auto

lemma typed_fields_empty: "typed_fields fs \<Longrightarrow> \<forall>x\<in>set fs. snd (snd (snd x)) \<noteq> A_empty"
  by (induction fs) (fastforce simp: typed_value.simps)+

lemma gm_idr_createFrom:
  assumes "typed_fields fs"
  shows "gm_idr (gm_createFrom (Visitable j sn ln fs) g) =
    fold (\<lambda>(i, tn, n, a). assign i (gm_value a)) fs []"
  using accept_fields_gmv [OF typed_fields_empty [OF assms]]
  by (simp add: gm_createFrom_def gm_take_def gmv_preVisit_def gmv_new_def Let_def)

lemma gm_has_fieldsI:
  "(\<And>i tn n a. (i, tn, n, a) \<in> set fs \<Longrightarrow> \<exists>r. map_of idr i = Some r \<and> gm_has_value r a) \<Longrightarrow>
     gm_has_fields idr fs"
  by (induction fs) fastforce+

lemma gm_createFrom_has:
    "\<And>g. typed m \<Longrightarrow> unique_ids m \<Longrightarrow> gm_has (gm_createFrom m g) m"
  and "typed_fields fs \<Longrightarrow> unique_ids_fields fs \<Longrightarrow>
         \<forall>(i, tn, n, a)\<in>set fs. gm_has_value (gm_value a) a"
  and "typed_value a \<Longrightarrow> unique_ids_value a \<Longrightarrow> gm_has_value (gm_value a) a"
proof (induction m and fs and a rule: message_induct)
  case (Msg j sn ln fs)
  have "gm_has_fields (fold (\<lambda>(i, tn, n, a). assign i (gm_value a)) fs []) fs"
    using Msg by (intro gm_has_fieldsI) (fastforce simp: map_of_fold_assign)
  then show ?case using Msg.prems by (simp add: gm_idr_createFrom)
next
  case (Val a)
  then show ?case
    by (cases a) (auto simp: gm_has_value.simps gm_value_def typed_value.simps)
qed auto

lemma generic_restores:
  assumes "typed m" and "unique_ids m" and "same_shape m' m"
  shows "accept genericMessage m' (gm_createFrom m g) = (m, gm_createFrom m g)"
proof -
  obtain j sn ln fs where m: "m = Visitable j sn ln fs" by (cases m)
  have "generic_ready (gm_createFrom m g) fs (gm_createFrom m g)"
    using gm_createFrom_has(1) [OF assms(1,2), of g] by (simp add: m generic_ready_def)
  then show ?thesis
    using from_generic.accept_ready [OF assms(3), of "gm_createFrom m g" "gm_createFrom m g"]
    by (auto simp: m genericMessage_def generic_ready_def)
qed

section \<open>Names\<close>

text \<open>
  The names a generated class has: \<open>LongName\<close> is the package, a dot and \<open>ShortName\<close>, and
  \<open>ShortName\<close> has neither dots nor white space.
\<close>

definition name_char :: "byte \<Rightarrow> bool" where
  "name_char c \<longleftrightarrow> \<not> is_space c \<and> c \<noteq> of_char CHR ''.''"

definition well_named :: "cstring \<Rightarrow> cstring \<Rightarrow> bool" where
  "well_named sn ln \<longleftrightarrow>
     sn \<noteq> [] \<and> list_all name_char sn \<and> length sn + 1 < length ln \<and>
     drop (length ln - length sn - 1) ln = str ''.'' @ sn"

lemma well_namedD:
  assumes "well_named sn ln"
  obtains pkg where "pkg \<noteq> []" and "ln = pkg @ str ''.'' @ sn" and "sn \<noteq> []"
    and "\<forall>c\<in>set sn. name_char c"
proof
  let ?pkg = "take (length ln - length sn - 1) ln"
  show "?pkg \<noteq> []" "sn \<noteq> []" "\<forall>c\<in>set sn. name_char c"
    using assms by (auto simp: well_named_def list_all_iff)
  show "ln = ?pkg @ str ''.'' @ sn"
    using assms append_take_drop_id [of "length ln - length sn - 1" ln]
    by (simp add: well_named_def)
qed

lemma rfind_suffix: "t \<noteq> [] \<Longrightarrow> rfind (s @ t) t = Some (length s)"
proof -
  assume t: "t \<noteq> []"
  let ?P = "\<lambda>p. take (length t) (drop p (s @ t)) = t"
  have s: "[0..<Suc (length (s @ t))] = [0..<length s] @ length s # [Suc (length s)..<Suc (length s + length t)]"
    using upt_add_eq_append [of 0 "length s" "Suc (length t)"]
      upt_conv_Cons [of "length s" "length s + Suc (length t)"]
    by (simp del: upt_Suc)
  have none: "\<not> ?P p" if "p \<in> set [Suc (length s)..<Suc (length s + length t)]" for p
  proof
    assume "?P p"
    then have "length (take (length t) (drop p (s @ t))) = length t" by (rule arg_cong)
    moreover have "0 < length t" using t by simp
    ultimately show False using that by (simp del: upt_Suc) linarith
  qed
  have "filter ?P (rev [Suc (length s)..<Suc (length s + length t)]) = []"
    unfolding filter_empty_conv using none by (metis set_rev)
  then show ?thesis unfolding rfind_def s rev_append rev.simps filter_append by (simp del: upt_Suc)
qed

lemma tokens_word:
  assumes "w \<noteq> []" and "\<forall>c\<in>set w. \<not> is_space c"
  shows "tokens w = [w]"
proof (cases w)
  case Nil
  with assms show ?thesis by simp
next
  case (Cons c cs)
  with assms have "dropWhile is_space w = c # cs" "takeWhile (Not \<circ> is_space) (c # cs) = w"
    "dropWhile (Not \<circ> is_space) (c # cs) = []"
    by auto
  moreover have "tokens [] = []" by (subst tokens.simps) simp
  ultimately show ?thesis by (subst tokens.simps) simp
qed

lemma tokens_Cons_space: "is_space c \<Longrightarrow> tokens (c # s) = tokens s"
  by (subst (1 2) tokens.simps) simp

lemma tokens_append_space:
  assumes "is_space b" and "tokens w \<noteq> []"
  shows "\<exists>ts. tokens (s @ b # w) = ts @ tokens w"
proof (induction s rule: tokens.induct)
  case (1 s)
  show ?case
  proof (cases "dropWhile is_space s")
    case Nil
    then have "\<forall>c\<in>set s. is_space c" by (simp add: dropWhile_eq_Nil_conv)
    then have "tokens (s @ b # w) = tokens w"
      using assms(1) by (induction s) (auto simp: tokens_Cons_space)
    then show ?thesis by simp
  next
    case (Cons c cs)
    then have c: "\<not> is_space c" using hd_dropWhile [of is_space s] by fastforce
    have d: "dropWhile is_space (s @ b # w) = c # cs @ b # w"
    proof -
      have "\<exists>x\<in>set s. \<not> is_space x"
        using Cons by (metis dropWhile_eq_Nil_conv list.distinct(1))
      then show ?thesis using Cons by (auto simp: dropWhile_append)
    qed
    obtain ts where ts: "tokens (dropWhile (Not \<circ> is_space) (c # cs) @ b # w) = ts @ tokens w"
      using "1.IH" [OF Cons] by auto
    have "dropWhile (Not \<circ> is_space) (c # cs @ b # w) = dropWhile (Not \<circ> is_space) (c # cs) @ b # w"
      using assms(1) by (induction cs) auto
    then have "tokens (s @ b # w) =
        takeWhile (Not \<circ> is_space) (c # cs @ b # w) # ts @ tokens w"
      using d ts by (subst tokens.simps) (simp add: c)
    then show ?thesis by (metis append_Cons)
  qed
qed

lemma last_token_suffix:
  assumes "sn \<noteq> []" and "\<forall>c\<in>set sn. name_char c"
  shows "last_token (pkg @ str ''.'' @ sn) = Some sn"
    and "last_token sn = Some sn"
proof -
  let ?f = "\<lambda>c :: byte. if c = of_char CHR ''.'' then of_char CHR '' '' else c"
  have f: "map ?f sn = sn" using assms(2) by (induction sn) (auto simp: name_char_def)
  have sp: "is_space (of_char CHR '' '')" by (simp add: is_space_def)
  have w: "tokens sn = [sn]" using assms by (intro tokens_word) (auto simp: name_char_def)
  then obtain ts where "tokens (map ?f pkg @ of_char CHR '' '' # sn) = ts @ [sn]"
    using tokens_append_space [OF sp, of sn "map ?f pkg"] by auto
  then show "last_token (pkg @ str ''.'' @ sn) = Some sn"
    using f by (simp add: last_token_def Let_def)
  show "last_token sn = Some sn" using f w by (simp add: last_token_def)
qed

section \<open>The view of a created message\<close>

text \<open>Names as above in every nested message.\<close>

function names_ok :: "visitable \<Rightarrow> bool" and names_ok_fields :: "field list \<Rightarrow> bool"
  and names_ok_value :: "visitable any \<Rightarrow> bool" where
  "names_ok (Visitable i sn ln fs) \<longleftrightarrow> well_named sn ln \<and> names_ok_fields fs"
| "names_ok_fields [] \<longleftrightarrow> True"
| "names_ok_fields ((i, tn, n, a) # fs) \<longleftrightarrow> names_ok_value a \<and> names_ok_fields fs"
| "names_ok_value a \<longleftrightarrow> (case a of A_obj m \<Rightarrow> names_ok m | _ \<Rightarrow> True)"
  by pat_completeness auto
termination
  by (relation "measure (\<lambda>x. case x of
        Inl m \<Rightarrow> size m | Inr (Inl fs) \<Rightarrow> fields_size fs | Inr (Inr a) \<Rightarrow> value_size a)") auto

lemma gm_createFrom_GM:
  assumes "typed_fields fs"
  shows "gm_createFrom (Visitable j sn ln fs) g =
    GM ((gmv_metaMessage (gmv_preVisit j sn ln gmv_new))\<lparr>mm_listOfMetaFields := map field_meta fs\<rparr>)
       (gm_scope g) (gm_map g) (gm_longName g) (fold (\<lambda>(i, tn, n, a). assign i (gm_value a)) fs [])"
proof -
  have "gmv_idr (gmv_preVisit j sn ln gmv_new) = []"
    and "mm_listOfMetaFields (gmv_metaMessage (gmv_preVisit j sn ln gmv_new)) = []"
    by (auto simp: gmv_preVisit_def gmv_new_def MetaMessage_new_def Let_def split: option.splits)
  then show ?thesis
    using accept_fields_gmv [OF typed_fields_empty [OF assms], of "gmv_preVisit j sn ln gmv_new"]
    by (simp add: gm_createFrom_def gm_take_def)
qed

lemma created_names:
  assumes "well_named sn ln"
  shows "visitor_names (GM ((gmv_metaMessage (gmv_preVisit j sn ln gmv_new))
      \<lparr>mm_listOfMetaFields := mfs\<rparr>) sc mp l idr) = Some (j, sn, ln)"
proof -
  obtain pkg where p: "pkg \<noteq> []" and ln: "ln = pkg @ str ''.'' @ sn" and s: "sn \<noteq> []"
    and c: "\<forall>c\<in>set sn. name_char c"
    using well_namedD [OF assms] .
  have "rfind ln sn = Some (length (pkg @ str ''.''))"
    using rfind_suffix [OF s, of "pkg @ str ''.''"] by (simp add: ln)
  then have "gmv_metaMessage (gmv_preVisit j sn ln gmv_new) =
      MetaMessage_new\<lparr>mm_messageIdentifier := j, mm_messageName := sn, mm_packageName := pkg\<rparr>"
    using p by (simp add: gmv_preVisit_def gmv_new_def Let_def ln)
  then show ?thesis
    using p last_token_suffix(1) [OF s c, of pkg]
    by (simp add: visitor_names_def gm_ShortName_def gm_LongName_def gm_ID_def mm_LongName_def ln)
qed

lemma view_field_created:
  assumes "map_of idr i = Some r" and "gvalue_view nm r = a" and "a \<noteq> A_empty"
  shows "view_field (idr_view nm idr) (field_meta (i, tn, n, a)) = [(i, tn, n, a)]"
  using assms has_data_type_of [OF assms(3)] by (auto simp: view_field_def)

lemma view_fields_created:
  assumes "\<And>i tn n a. (i, tn, n, a) \<in> set fs \<Longrightarrow>
    \<exists>r. map_of idr i = Some r \<and> gvalue_view nm r = a \<and> a \<noteq> A_empty"
  shows "view_fields (map field_meta fs) (idr_view nm idr) = fs"
  using assms
proof (induction fs)
  case Nil
  show ?case by simp
next
  case (Cons x fs)
  obtain i tn n a where x: "x = (i, tn, n, a)" by (cases x)
  obtain r where "map_of idr i = Some r" "gvalue_view nm r = a" "a \<noteq> A_empty"
    using Cons.prems [of i tn n a] by (auto simp: x)
  from view_field_created [OF this] have "view_field (idr_view nm idr) (field_meta x) = [x]"
    by (simp add: x)
  moreover have "view_fields (map field_meta fs) (idr_view nm idr) = fs"
  proof (rule Cons.IH)
    fix i tn n a assume "(i, tn, n, a) \<in> set fs"
    then show "\<exists>r. map_of idr i = Some r \<and> gvalue_view nm r = a \<and> a \<noteq> A_empty"
      using Cons.prems [of i tn n a] by simp
  qed
  ultimately show ?case by simp
qed

lemma idr_ok_assign: "idr_ok nm idr \<Longrightarrow> gvalue_ok nm a \<Longrightarrow> idr_ok nm (assign i a idr)"
  by (induction idr) auto

lemma idr_ok_fold:
  "(\<And>i tn n a. (i, tn, n, a) \<in> set fs \<Longrightarrow> gvalue_ok nm (h a)) \<Longrightarrow> idr_ok nm idr \<Longrightarrow>
     idr_ok nm (fold (\<lambda>(i, tn, n, a). assign i (h a)) fs idr)"
proof (induction fs arbitrary: idr)
  case (Cons x fs)
  obtain i tn n a where x: "x = (i, tn, n, a)" by (cases x)
  have "gvalue_ok nm (h a)" using Cons.prems(1) [of i tn n a] by (simp add: x)
  then have "idr_ok nm (assign i (h a) idr)" by (rule idr_ok_assign [OF Cons.prems(2)])
  then have "idr_ok nm (fold (\<lambda>(i, tn, n, a). assign i (h a)) fs (assign i (h a) idr))"
    using Cons.prems(1) by (intro Cons.IH) (auto simp del: gvalue_ok.simps)
  then show ?case by (simp add: x)
qed simp

lemma gm_createFrom_view:
    "\<And>g. typed m \<Longrightarrow> unique_ids m \<Longrightarrow> names_ok m \<Longrightarrow>
       gm_view visitor_names (gm_createFrom m g) = m \<and> gm_ok visitor_names (gm_createFrom m g)"
  and "typed_fields fs \<Longrightarrow> unique_ids_fields fs \<Longrightarrow> names_ok_fields fs \<Longrightarrow>
         \<forall>(i, tn, n, a)\<in>set fs. gvalue_view visitor_names (gm_value a) = a \<and> a \<noteq> A_empty \<and>
           gvalue_ok visitor_names (gm_value a)"
  and "typed_value a \<Longrightarrow> unique_ids_value a \<Longrightarrow> names_ok_value a \<Longrightarrow>
         gvalue_view visitor_names (gm_value a) = a \<and> a \<noteq> A_empty \<and>
           gvalue_ok visitor_names (gm_value a)"
proof (induction m and fs and a rule: message_induct)
  case (Msg j sn ln fs)
  let ?idr = "fold (\<lambda>(i, tn, n, a). assign i (gm_value a)) fs []"
  have t: "typed_fields fs" and w: "well_named sn ln" and d: "distinct (map fst fs)"
    using Msg.prems by simp_all
  have f: "gvalue_view visitor_names (gm_value a) = a" "a \<noteq> A_empty" "gvalue_ok visitor_names (gm_value a)"
    if "(i, tn, n, a) \<in> set fs" for i tn n a
    using Msg that by auto
  have v: "view_fields (map field_meta fs) (idr_view visitor_names ?idr) = fs"
    using map_of_fold_assign [OF d] f by (intro view_fields_created) blast
  have o: "idr_ok visitor_names ?idr"
    by (rule idr_ok_fold) (rule f, assumption, simp)
  from d v o show ?case
    by (simp add: gm_createFrom_GM [OF t] created_names [OF w] view_names_def comp_def)
next
  case (Val a)
  then show ?case
    by (cases a) (auto simp: gm_value_def typed_value.simps)
qed auto

section \<open>createFrom a specification\<close>

text \<open>
  \<open>describes mms mm m\<close>: the description \<open>mm\<close>, with those in \<open>mms\<close> for nested messages, has the
  identifier, names and fields of the message \<open>m\<close>.
\<close>

function describes :: "MetaMessage list \<Rightarrow> MetaMessage \<Rightarrow> visitable \<Rightarrow> bool"
  and describes_fields :: "MetaMessage list \<Rightarrow> MetaField list \<Rightarrow> field list \<Rightarrow> bool"
  and describes_value :: "MetaMessage list \<Rightarrow> MetaField \<Rightarrow> visitable any \<Rightarrow> bool" where
  "describes mms mm (Visitable i sn ln fs) \<longleftrightarrow>
     mm_messageIdentifier mm = i \<and> mm_LongName mm = ln \<and> last_token ln = Some sn \<and>
     describes_fields mms (mm_listOfMetaFields mm) fs"
| "describes_fields mms mfs [] \<longleftrightarrow> mfs = []"
| "describes_fields mms mfs ((i, tn, n, a) # fs) \<longleftrightarrow>
     (case mfs of
        [] \<Rightarrow> False
      | mf # mfs' \<Rightarrow>
          mf_fieldIdentifier mf = i \<and> mf_fieldDataTypeName mf = tn \<and> mf_fieldName mf = n \<and>
          describes_value mms mf a \<and> describes_fields mms mfs' fs)"
| "describes_value mms mf a \<longleftrightarrow>
     has_data_type (mf_fieldDataType mf) a \<and>
     (case a of
        A_obj m \<Rightarrow>
          (case map_of (scope_map mms) (mf_fieldDataTypeName mf) of
             None \<Rightarrow> False | Some mm \<Rightarrow> describes mms mm m)
      | _ \<Rightarrow> True)"
  by pat_completeness auto
termination
  by (relation "measure (\<lambda>x. case x of
        Inl (mms, mm, m) \<Rightarrow> size m | Inr (Inl (mms, mfs, fs)) \<Rightarrow> fields_size fs
      | Inr (Inr (mms, mf, a)) \<Rightarrow> value_size a)") auto

declare describes_value.simps [simp del]

lemma describes_fields_ids: "describes_fields mms mfs fs \<Longrightarrow> map mf_fieldIdentifier mfs = map fst fs"
proof (induction fs arbitrary: mfs)
  case (Cons x fs)
  then show ?case by (cases x) (auto split: list.splits)
qed simp

lemma default_value_type:
  "d \<noteq> UNDEFINED_T \<Longrightarrow> d \<noteq> MESSAGE_T \<Longrightarrow> is_scalar (default_value d) \<and> has_data_type d (default_value d)"
  by (cases d) (simp_all add: has_data_type_def)

lemma create_field_ok:
  assumes d: "describes_value mms mf a"
    and n: "\<And>m mm. a = A_obj m \<Longrightarrow> describes mms mm m \<Longrightarrow>
      \<exists>g. create mm = Some g \<and> same_shape (gm_view nm g) m \<and> gm_ok nm g"
  shows "\<exists>r. gm_create_field create (scope_map mms) mf idr = Some (assign (mf_fieldIdentifier mf) r idr) \<and>
    same_value (gvalue_view nm r) a \<and> has_data_type (mf_fieldDataType mf) r \<and> gvalue_ok nm r"
proof (cases "\<exists>m. a = A_obj m")
  case True
  then obtain m mm where a: "a = A_obj m" and mm: "map_of (scope_map mms) (mf_fieldDataTypeName mf) = Some mm"
    and dm: "describes mms mm m" and t: "has_data_type (mf_fieldDataType mf) a"
    using d by (auto simp: describes_value.simps split: option.splits)
  obtain g where "create mm = Some g" "same_shape (gm_view nm g) m" "gm_ok nm g"
    using n [OF a dm] by blast
  moreover have "mf_fieldDataType mf = MESSAGE_T"
    using t by (cases "mf_fieldDataType mf") (simp_all add: a has_data_type_def)
  ultimately show ?thesis
    by (auto simp: gm_create_field_def mm a same_value.simps has_data_type_def)
next
  case False
  have t: "has_data_type (mf_fieldDataType mf) a" using d by (simp add: describes_value.simps)
  then have s: "is_scalar a" using False has_data_type_typed [OF t] by (cases a) auto
  have k: "mf_fieldDataType mf \<noteq> UNDEFINED_T" "mf_fieldDataType mf \<noteq> MESSAGE_T"
    using t s by (auto simp: has_data_type_def is_scalar_def split: any.splits)
  let ?r = "default_value (mf_fieldDataType mf) :: gmsg any"
  have r: "is_scalar ?r" "has_data_type (mf_fieldDataType mf) ?r"
    using default_value_type [OF k] by auto
  then have "same_type (gvalue_view nm ?r) a"
    using t by (simp add: has_data_type_def same_type_def any_type_scalar_as)
  moreover have "is_scalar (gvalue_view nm ?r)"
    using s is_scalar_same_type calculation by blast
  ultimately have "same_value (gvalue_view nm ?r) a" by (intro same_value_of_type)
  moreover have "gvalue_ok nm ?r" using r(1) by (auto split: any.splits)
  ultimately show ?thesis using k r by (auto simp: gm_create_field_def)
qed

lemma create_fields_ok:
  assumes "describes_fields mms mfs fs" and "distinct (map fst fs)" and "idr_ok nm idr"
    and "\<And>i tn n m mm. (i, tn, n, A_obj m) \<in> set fs \<Longrightarrow> describes mms mm m \<Longrightarrow>
      \<exists>g. create mm = Some g \<and> same_shape (gm_view nm g) m \<and> gm_ok nm g"
  shows "\<exists>idr'. gm_create_fields create (scope_map mms) mfs idr = Some idr' \<and> idr_ok nm idr' \<and>
    (\<forall>j. j \<notin> fst ` set fs \<longrightarrow> map_of idr' j = map_of idr j) \<and>
    same_fields (view_fields mfs (idr_view nm idr')) fs"
  using assms
proof (induction fs arbitrary: mfs idr)
  case Nil
  then show ?case by simp
next
  case (Cons x fs)
  obtain i tn n a where x: "x = (i, tn, n, a)" by (cases x)
  obtain mf mfs' where mfs: "mfs = mf # mfs'" and id: "mf_fieldIdentifier mf = i"
    and mf: "mf_fieldDataTypeName mf = tn" "mf_fieldName mf = n" "describes_value mms mf a"
    and r: "describes_fields mms mfs' fs"
    using Cons.prems(1) by (auto simp: x split: list.splits)
  obtain v where v: "gm_create_field create (scope_map mms) mf idr = Some (assign i v idr)"
    "same_value (gvalue_view nm v) a" "has_data_type (mf_fieldDataType mf) v" "gvalue_ok nm v"
  proof -
    have "\<exists>g. create mm = Some g \<and> same_shape (gm_view nm g) m \<and> gm_ok nm g"
      if "a = A_obj m" "describes mms mm m" for m mm
      using Cons.prems(4) [of i tn n m mm] that by (simp add: x)
    then show thesis using create_field_ok [OF mf(3), of create nm idr] that id by blast
  qed
  have fresh: "i \<notin> fst ` set fs" and d: "distinct (map fst fs)"
    using Cons.prems(2) by (auto simp: x)
  have "\<exists>idr'. gm_create_fields create (scope_map mms) mfs' (assign i v idr) = Some idr' \<and>
      idr_ok nm idr' \<and> (\<forall>j. j \<notin> fst ` set fs \<longrightarrow> map_of idr' j = map_of (assign i v idr) j) \<and>
      same_fields (view_fields mfs' (idr_view nm idr')) fs"
  proof (rule Cons.IH [OF r d])
    show "idr_ok nm (assign i v idr)" by (rule idr_ok_assign [OF Cons.prems(3) v(4)])
  next
    fix i tn n m mm
    assume "(i, tn, n, A_obj m) \<in> set fs" and "describes mms mm m"
    then show "\<exists>g. create mm = Some g \<and> same_shape (gm_view nm g) m \<and> gm_ok nm g"
      by (intro Cons.prems(4)) auto
  qed
  then obtain idr' where c: "gm_create_fields create (scope_map mms) mfs' (assign i v idr) = Some idr'"
    "idr_ok nm idr'" and o: "\<And>j. j \<notin> fst ` set fs \<Longrightarrow> map_of idr' j = map_of (assign i v idr) j"
    and s: "same_fields (view_fields mfs' (idr_view nm idr')) fs"
    by blast
  have "view_field (idr_view nm idr') mf = [(i, tn, n, gvalue_view nm v)]"
    using o [OF fresh] v(3) mf id by (simp add: view_field_def)
  then have "same_fields (view_fields mfs (idr_view nm idr')) (x # fs)"
    using s v(2) by (simp add: mfs x)
  then show ?case using c o v(1) by (auto simp: mfs x)
qed

lemma createFrom_spec_ok:
  "describes mms mm m \<Longrightarrow> unique_ids m \<Longrightarrow> depth m < k \<Longrightarrow>
     \<exists>g. gm_createFrom_spec k mms mm = Some g \<and> same_shape (gm_view visitor_names g) m \<and>
         gm_ok visitor_names g"
proof (induction k arbitrary: m mm)
  case 0
  then show ?case by simp
next
  case (Suc k)
  obtain i sn ln fs where m: "m = Visitable i sn ln fs" by (cases m)
  have mm: "mm_messageIdentifier mm = i" "mm_LongName mm = ln" "last_token ln = Some sn"
    and fs: "describes_fields mms (mm_listOfMetaFields mm) fs"
    using Suc.prems(1) by (simp_all add: m)
  have d: "distinct (map fst fs)" using Suc.prems(2) by (simp add: m)
  have nested: "unique_ids m'" "depth m' < k" if "(i, tn, n, A_obj m') \<in> set fs" for i tn n m'
  proof -
    have "unique_ids_fields fs \<longrightarrow> unique_ids m'" and "Suc (depth m') \<le> fields_depth fs"
      using that by (induction fs) auto
    then show "unique_ids m'" "depth m' < k" using Suc.prems by (auto simp: m)
  qed
  have "\<exists>idr'. gm_create_fields (gm_createFrom_spec k mms) (scope_map mms) (mm_listOfMetaFields mm) [] = Some idr' \<and>
      idr_ok visitor_names idr' \<and> (\<forall>j. j \<notin> fst ` set fs \<longrightarrow> map_of idr' j = map_of [] j) \<and>
      same_fields (view_fields (mm_listOfMetaFields mm) (idr_view visitor_names idr')) fs"
    using nested by (intro create_fields_ok [OF fs d] Suc.IH) auto
  then obtain idr' where c: "gm_create_fields (gm_createFrom_spec k mms) (scope_map mms) (mm_listOfMetaFields mm) [] = Some idr'"
    and o: "idr_ok visitor_names idr'"
    and s: "same_fields (view_fields (mm_listOfMetaFields mm) (idr_view visitor_names idr')) fs"
    by blast
  let ?g = "GM mm mms (scope_map mms) (mm_messageName mm) idr'"
  have n: "visitor_names ?g = Some (i, sn, ln)"
    using mm by (simp add: visitor_names_def gm_ShortName_def gm_LongName_def gm_ID_def)
  have "map mf_fieldIdentifier (mm_listOfMetaFields mm) = map fst fs" by (rule describes_fields_ids [OF fs])
  then have "gm_ok visitor_names ?g" using n o d by simp
  moreover have "same_shape (gm_view visitor_names ?g) m"
    using n s by (simp add: view_names_def m)
  ultimately show ?case using c by simp
qed

lemma create_fields_None:
  "f \<in> set mfs \<Longrightarrow> (\<And>idr. gm_create_field create scope f idr = None) \<Longrightarrow>
     gm_create_fields create scope mfs idr = None"
  by (induction mfs arbitrary: idr) (auto split: option.splits)

section \<open>Visiting one field\<close>

lemma visit_first_absent: "k \<notin> fst ` set fs \<Longrightarrow> visit_first vis k fs s = (fs, s)"
  by (induction vis k fs s rule: visit_first.induct) auto

lemma view_field_id: "x \<in> set (view_field vidr f) \<Longrightarrow> fst x = mf_fieldIdentifier f"
  by (auto simp: view_field_def split: option.splits if_splits)

lemma view_fields_ids: "fst ` set (view_fields mfs vidr) \<subseteq> mf_fieldIdentifier ` set mfs"
  by (induction mfs) (auto dest!: view_field_id)

lemma visit_first_append_absent:
  "k \<notin> fst ` set fs \<Longrightarrow>
     visit_first vis k (fs @ gs) s = (let (gs', s') = visit_first vis k gs s in (fs @ gs', s'))"
  by (induction vis k fs s rule: visit_first.induct) (auto simp: split_beta Let_def)

context generic_accept
begin

lemma visit_one_refines:
  assumes "distinct (map mf_fieldIdentifier mfs)"
    and "\<And>f g. f \<in> set mfs \<Longrightarrow> map_of idr (mf_fieldIdentifier f) = Some (A_obj g) \<Longrightarrow> refines V nm acc g"
  shows "\<exists>idr'. gm_visit_fields acc False k V mfs idr s =
             Some (idr', snd (visit_first (do_visit V) k (view_fields mfs (idr_view nm idr)) s)) \<and>
           view_fields mfs (idr_view nm idr') =
             fst (visit_first (do_visit V) k (view_fields mfs (idr_view nm idr)) s) \<and>
           (\<forall>j. j \<noteq> k \<longrightarrow> map_of idr' j = map_of idr j)"
  using assms
proof (induction mfs)
  case Nil
  show ?case by simp
next
  case (Cons f mfs)
  show ?case
  proof (cases "mf_fieldIdentifier f = k")
    case False
    have "k \<notin> fst ` set (view_field (idr_view nm idr) f)" using False view_field_id by fastforce
    note v = visit_first_append_absent [OF this]
    obtain idr' where i: "gm_visit_fields acc False k V mfs idr s =
          Some (idr', snd (visit_first (do_visit V) k (view_fields mfs (idr_view nm idr)) s))"
      "view_fields mfs (idr_view nm idr') =
          fst (visit_first (do_visit V) k (view_fields mfs (idr_view nm idr)) s)"
      and o: "\<And>j. j \<noteq> k \<Longrightarrow> map_of idr' j = map_of idr j"
      using Cons.IH Cons.prems by fastforce
    have "view_field (idr_view nm idr') f = view_field (idr_view nm idr) f"
      using o [OF False] by (simp add: view_field_def)
    with i o False show ?thesis by (auto simp: v split_beta Let_def)
  next
    case True
    obtain idr' where 1: "gm_visit_field acc V f idr s =
          Some (idr', snd (accept_fields V (view_field (idr_view nm idr) f) s))"
      "view_field (idr_view nm idr') f = fst (accept_fields V (view_field (idr_view nm idr) f) s)"
      and o: "\<And>j. j \<noteq> mf_fieldIdentifier f \<Longrightarrow> map_of idr' j = map_of idr j"
      using visit_field_refines [of idr f acc s] Cons.prems(2) by auto
    have k: "k \<notin> mf_fieldIdentifier ` set mfs" using Cons.prems(1) True by auto
    then have absent: "k \<notin> fst ` set (view_fields mfs (idr_view nm idr))" using view_fields_ids by blast
    have "view_fields mfs (idr_view nm idr') = view_fields mfs (idr_view nm idr)"
      using k o True by (intro view_fields_cong) (metis image_eqI)
    moreover have "visit_first (do_visit V) k (view_field (idr_view nm idr) f @ view_fields mfs (idr_view nm idr)) s =
        (fst (accept_fields V (view_field (idr_view nm idr) f) s) @ view_fields mfs (idr_view nm idr),
         snd (accept_fields V (view_field (idr_view nm idr) f) s))"
      using True visit_first_absent [OF absent, of "do_visit V" s]
      by (simp add: view_field_def split_beta split: option.split)
    ultimately show ?thesis using 1 o True by simp
  qed
qed

lemma accept_field_refines:
  assumes "gm_ok nm g" and "nm g = Some (i, sn, ln)"
  shows "\<exists>g'. gm_accept_fuel (Suc (gm_depth g)) nm False k V g s =
             Some (g', v_post V (snd (accept_field (do_visit V) k (gm_view nm g) (v_pre V i sn ln s)))) \<and>
           gm_view nm g' = fst (accept_field (do_visit V) k (gm_view nm g) (v_pre V i sn ln s))"
proof -
  obtain mm sc mp l idr where g: "g = GM mm sc mp l idr" by (cases g)
  have r: "refines V nm (gm_accept_fuel (gm_depth g) nm True 0 V) g'" if "map_of idr j = Some (A_obj g')" for j g'
    using accept_fuel_refines [of g'] assms(1) idr_nested [OF that] by (auto simp: g)
  have "distinct (map mf_fieldIdentifier (mm_listOfMetaFields mm))" using assms(1) by (simp add: g)
  from visit_one_refines [OF this, of idr "gm_accept_fuel (gm_depth g) nm True 0 V" k "v_pre V i sn ln s"] r
  obtain idr' where 1: "gm_visit_fields (gm_accept_fuel (gm_depth g) nm True 0 V) False k V
        (mm_listOfMetaFields mm) idr (v_pre V i sn ln s) =
      Some (idr', snd (visit_first (do_visit V) k (view_fields (mm_listOfMetaFields mm) (idr_view nm idr))
        (v_pre V i sn ln s)))"
    and 2: "view_fields (mm_listOfMetaFields mm) (idr_view nm idr') =
      fst (visit_first (do_visit V) k (view_fields (mm_listOfMetaFields mm) (idr_view nm idr)) (v_pre V i sn ln s))"
    by blast
  have "nm (GM mm sc mp l idr') = Some (i, sn, ln)"
    using assms(2) names_free [of mm sc mp l idr' idr] by (simp add: g)
  with assms(2) 1 2 show ?thesis
    by (auto simp: g view_names_def split_beta simp del: gm_depth.simps
        intro!: exI [of _ "GM mm sc mp l idr'"])
qed

end

lemma create_field_mono:
  "gm_create_field c1 scope f idr = Some r \<Longrightarrow> (\<And>mm g. c1 mm = Some g \<Longrightarrow> c2 mm = Some g) \<Longrightarrow>
     gm_create_field c2 scope f idr = Some r"
  by (auto simp: gm_create_field_def split: if_splits option.splits)

lemma create_fields_mono:
  "gm_create_fields c1 scope fs idr = Some r \<Longrightarrow> (\<And>mm g. c1 mm = Some g \<Longrightarrow> c2 mm = Some g) \<Longrightarrow>
     gm_create_fields c2 scope fs idr = Some r"
proof (induction fs arbitrary: idr)
  case (Cons f fs)
  then obtain idr' where "gm_create_field c1 scope f idr = Some idr'"
    "gm_create_fields c1 scope fs idr' = Some r"
    by (auto split: option.splits)
  then show ?case using Cons by (simp add: create_field_mono [of c1 scope f idr idr' c2])
qed simp

lemma createFrom_spec_mono:
  "gm_createFrom_spec k mms mm = Some g \<Longrightarrow> k \<le> k' \<Longrightarrow> gm_createFrom_spec k' mms mm = Some g"
proof (induction k arbitrary: k' mm g)
  case (Suc k)
  obtain idr where c: "gm_create_fields (gm_createFrom_spec k mms) (scope_map mms)
      (mm_listOfMetaFields mm) [] = Some idr"
    and g: "g = GM mm mms (scope_map mms) (mm_messageName mm) idr"
    using Suc.prems(1) by (auto split: option.splits)
  obtain j where j: "k' = Suc j" "k \<le> j" using Suc.prems(2) by (cases k') auto
  have "gm_create_fields (gm_createFrom_spec j mms) (scope_map mms) (mm_listOfMetaFields mm) [] = Some idr"
    by (rule create_fields_mono [OF c]) (rule Suc.IH [OF _ j(2)])
  then show ?case by (simp add: j g)
qed simp

section \<open>Sample messages\<close>

definition gen_sample :: "int32 \<Rightarrow> cstring \<Rightarrow> uint16 \<Rightarrow> visitable" where
  "gen_sample x s v = Visitable 9 (str ''A'') (str ''p.A'')
     [(1, str ''int32'', str ''x'', A_int32 x), (5, str ''string'', str ''s'', A_string s),
      (6, str ''B'', str ''b'',
        A_obj (Visitable 7 (str ''B'') (str ''p.B'') [(1, str ''uint16'', str ''v'', A_uint16 v)]))]"

definition spec_B :: MetaMessage where
  "spec_B = \<lparr>mm_packageName = str ''p'', mm_messageName = str ''B'', mm_messageIdentifier = 7,
     mm_listOfMetaFields =
       [MetaField_new\<lparr>mf_fieldDataType := UINT16_T, mf_fieldDataTypeName := str ''uint16'',
          mf_fieldName := str ''v'', mf_fieldIdentifier := 1\<rparr>]\<rparr>"

definition spec_A :: MetaMessage where
  "spec_A = \<lparr>mm_packageName = str ''p'', mm_messageName = str ''A'', mm_messageIdentifier = 9,
     mm_listOfMetaFields =
       [MetaField_new\<lparr>mf_fieldDataType := INT32_T, mf_fieldDataTypeName := str ''int32'',
          mf_fieldName := str ''x'', mf_fieldIdentifier := 1\<rparr>,
        MetaField_new\<lparr>mf_fieldDataType := STRING_T, mf_fieldDataTypeName := str ''string'',
          mf_fieldName := str ''s'', mf_fieldIdentifier := 5\<rparr>,
        MetaField_new\<lparr>mf_fieldDataType := MESSAGE_T, mf_fieldDataTypeName := str ''B'',
          mf_fieldName := str ''b'', mf_fieldIdentifier := 6\<rparr>]\<rparr>"

lemma gen_sample_ok:
  "typed (gen_sample x s v)" "unique_ids (gen_sample x s v)" "names_ok (gen_sample x s v)"
  "same_shape (gen_sample x s v) (gen_sample y t w)"
  by (simp_all add: gen_sample_def typed_value.simps well_named_def name_char_def is_space_def
      same_value.simps same_type_def)

lemma gen_sample_proto_ok: "proto_ok (gen_sample (- 3) (str ''hi'') 300)"
  by (simp add: gen_sample_def proto_ok_value.simps proto_value.simps key_bytes_def leb128.simps)

lemma gen_sample_described: "describes [spec_A, spec_B] spec_A (gen_sample x s v)"
proof -
  have "name_char (65 :: byte)" "name_char (66 :: byte)" by (simp_all add: name_char_def is_space_def)
  then have "last_token (str ''p.A'') = Some (str ''A'')" "last_token (str ''p.B'') = Some (str ''B'')"
    using last_token_suffix(1) [of "str ''A''" "str ''p''"]
      last_token_suffix(1) [of "str ''B''" "str ''p''"] by simp_all
  then show ?thesis
    by (simp add: gen_sample_def spec_A_def spec_B_def describes_value.simps has_data_type_def
        scope_map_def mm_LongName_def MetaField_new_def)
qed

section \<open>Visitors of a GenericMessage\<close>

sublocale typed_visitor \<subseteq> generic: generic_accept V visitor_names
  by unfold_locales

context typed_visitor
begin

lemma accept_view:
  assumes "gm_ok visitor_names g"
  shows "\<exists>g'. gm_accept V g s = Some (g', snd (accept V (gm_view visitor_names g) s)) \<and>
           gm_view visitor_names g' = fst (accept V (gm_view visitor_names g) s)"
  using generic.accept_refines [OF assms] by (simp add: refines_def gm_accept_def)

lemma accept_created:
  assumes "typed m" and "unique_ids m" and "names_ok m"
  shows "\<exists>g'. gm_accept V (gm_createFrom m g) s = Some (g', snd (accept V m s)) \<and>
    gm_view visitor_names g' = fst (accept V m s)"
  using accept_view [of "gm_createFrom m g" s] gm_createFrom_view(1) [OF assms, of g] by simp

lemma accept_described:
  assumes "describes mms mm m" and "unique_ids m"
    and "\<And>m'. same_shape m' m \<Longrightarrow> fst (accept V m' s) = m \<and> P (snd (accept V m' s))"
  shows "\<exists>g. (\<forall>k>depth m. gm_createFrom_spec k mms mm = Some g) \<and>
    (\<exists>g' t. gm_accept V g s = Some (g', t) \<and> gm_view visitor_names g' = m \<and> P t)"
proof -
  obtain g where g: "gm_createFrom_spec (Suc (depth m)) mms mm = Some g"
    and s: "same_shape (gm_view visitor_names g) m" and o: "gm_ok visitor_names g"
    using createFrom_spec_ok [OF assms(1,2), of "Suc (depth m)"] by auto
  have "\<forall>k>depth m. gm_createFrom_spec k mms mm = Some g"
    using createFrom_spec_mono [OF g] by simp
  then show ?thesis using accept_view [OF o] assms(3) [OF s] by metis
qed

end

lemma fromProto_type: "is_scalar a \<Longrightarrow> same_type (fst (v_visit fromProto i tn n a s)) a"
  by (cases a; cases "map_of (fp_map s) i")
    (auto simp: fromProto_def fromProto_visit_def same_type_def split: option.splits)

lemma fromLCM_type: "is_scalar a \<Longrightarrow> same_type (fst (v_visit fromLCM i tn n a s)) a"
  by (cases a) (auto simp: fromLCM_def same_type_def split_beta Let_def)

lemma fromMsgPack_type: "is_scalar a \<Longrightarrow> same_type (fst (v_visit fromMsgPack i tn n a s)) a"
  by (cases a) (auto simp: fromMsgPack_def fromMsgPack_visit_def same_type_def
      split: option.splits list.splits)

interpretation typed_from_proto: typed_visitor fromProto
  by unfold_locales (rule fromProto_type)

interpretation typed_from_lcm: typed_visitor fromLCM
  by unfold_locales (rule fromLCM_type)

interpretation typed_from_msgpack: typed_visitor fromMsgPack
  by unfold_locales (rule fromMsgPack_type)

lemma proto_ok_unique:
  "proto_ok m \<Longrightarrow> unique_ids m" and "proto_ok_fields fs \<Longrightarrow> unique_ids_fields fs"
  and "proto_ok_value a \<Longrightarrow> unique_ids_value a"
proof (induction m and fs and a rule: message_induct)
  case (Val a)
  then show ?case by (cases a) (auto simp: proto_ok_value.simps)
qed auto

section \<open>Properties\<close>

text \<open>
  C3: Visiting a \<open>GenericMessage\<close> is visiting the message it shows: every visitor that assigns
  values of a variable's type ends in the same state and leaves the same values, nested messages
  included.
\<close>

theorem generic_accept_refines:
  assumes "gm_ok visitor_names g"
    and "\<And>i tn n a s. is_scalar a \<Longrightarrow> same_type (fst (v_visit V i tn n a s)) a"
  shows "\<exists>g'. gm_accept V g s = Some (g', snd (accept V (gm_view visitor_names g) s)) \<and>
           gm_view visitor_names g' = fst (accept V (gm_view visitor_names g) s)"
  by (rule typed_visitor.accept_view [OF _ assms(1)]) (simp add: typed_visitor_def assms(2))

theorem generic_accept_refines_witness:
  "\<exists>g'. gm_accept toProto (gm_createFrom (gen_sample 5 [] 6) gm_new) [] =
       Some (g', snd (accept toProto (gm_view visitor_names (gm_createFrom (gen_sample 5 [] 6) gm_new)) [])) \<and>
     gm_view visitor_names g' =
       fst (accept toProto (gm_view visitor_names (gm_createFrom (gen_sample 5 [] 6) gm_new)) [])"
  by (rule generic_accept_refines)
    (use gm_createFrom_view(1) [OF gen_sample_ok(1-3)] to_proto.visit_type in auto)

text \<open>
  C13: Encoding a \<open>GenericMessage\<close> created from a message gives the bytes of the message itself, with
  each of the three encoders.
\<close>

theorem generic_encode:
  assumes "typed m" and "unique_ids m" and "names_ok m"
  shows "\<exists>g1 g2 v2 g3 v3.
     gm_accept toProto (gm_createFrom m g) [] = Some (g1, proto_encode m) \<and>
     gm_accept toLCM (gm_createFrom m g) toLCM_new = Some (g2, v2) \<and>
       toLCM_encodedData True v2 = lcm_encode m \<and>
     gm_accept toMsgPack (gm_createFrom m g) toMsgPack_new = Some (g3, v3) \<and>
       toMsgPack_encodedData v3 = msgpack_encode m"
  using to_proto.accept_created [OF assms, of g "[]"]
    to_lcm.accept_created [OF assms, of g toLCM_new]
    to_msgpack.accept_created [OF assms, of g toMsgPack_new]
  by (auto simp: proto_encode_def lcm_encode_def msgpack_encode_def)

theorem generic_encode_witness:
  "\<exists>g1 g2 v2 g3 v3.
     gm_accept toProto (gm_createFrom (gen_sample 5 [] 6) gm_new) [] = Some (g1, proto_encode (gen_sample 5 [] 6)) \<and>
     gm_accept toLCM (gm_createFrom (gen_sample 5 [] 6) gm_new) toLCM_new = Some (g2, v2) \<and>
       toLCM_encodedData True v2 = lcm_encode (gen_sample 5 [] 6) \<and>
     gm_accept toMsgPack (gm_createFrom (gen_sample 5 [] 6) gm_new) toMsgPack_new = Some (g3, v3) \<and>
       toMsgPack_encodedData v3 = msgpack_encode (gen_sample 5 [] 6)"
  by (rule generic_encode) (rule gen_sample_ok)+

text \<open>
  C14: A \<open>GenericMessage\<close> created from a message, used as a visitor, restores the message.
\<close>

theorem generic_roundtrip:
  assumes "typed m" and "unique_ids m" and "same_shape m' m"
  shows "accept genericMessage m' (gm_createFrom m g) = (m, gm_createFrom m g)"
  by (rule generic_restores [OF assms])

theorem generic_roundtrip_witness:
  "accept genericMessage (gen_sample 0 [1] 2) (gm_createFrom (gen_sample 5 [] 6) gm_new) =
     (gen_sample 5 [] 6, gm_createFrom (gen_sample 5 [] 6) gm_new)"
  by (rule generic_roundtrip) (rule gen_sample_ok)+

text \<open>
  C12: Creating a \<open>GenericMessage\<close> from the specification of a message ends, and decoding the
  message's Proto bytes into it gives the message.
\<close>

theorem generic_decode:
  assumes "proto_ok m" and "describes mms mm m"
  shows "\<exists>g. (\<forall>k>depth m. gm_createFrom_spec k mms mm = Some g) \<and>
    (\<exists>g' fp. gm_accept fromProto g (fst (decodeFrom fromProto_new (istream_of (proto_encode m)))) =
        Some (g', fp) \<and> gm_view visitor_names g' = m \<and> \<not> fp_undef fp)"
  by (rule typed_from_proto.accept_described [OF assms(2) proto_ok_unique(1) [OF assms(1)]])
    (use proto_decode_encode [OF assms(1)] in \<open>fastforce simp: proto_decode_def\<close>)

theorem generic_decode_witness:
  "\<exists>g. (\<forall>k>depth (gen_sample (- 3) (str ''hi'') 300). gm_createFrom_spec k [spec_A, spec_B] spec_A = Some g) \<and>
    (\<exists>g' fp. gm_accept fromProto g (fst (decodeFrom fromProto_new
          (istream_of (proto_encode (gen_sample (- 3) (str ''hi'') 300))))) =
        Some (g', fp) \<and> gm_view visitor_names g' = gen_sample (- 3) (str ''hi'') 300 \<and> \<not> fp_undef fp)"
  by (rule generic_decode [OF gen_sample_proto_ok gen_sample_described])

text \<open>
  Visiting a single field of a \<open>GenericMessage\<close> visits the one field of the message it shows.
\<close>

theorem generic_accept_field:
  assumes "gm_ok visitor_names g" and "visitor_names g = Some (i, sn, ln)"
  shows "\<exists>g'. gm_accept_field k fromProto g fp =
      Some (g', snd (accept_field (do_visit fromProto) k (gm_view visitor_names g) fp)) \<and>
    gm_view visitor_names g' = fst (accept_field (do_visit fromProto) k (gm_view visitor_names g) fp)"
  using typed_from_proto.generic.accept_field_refines [OF assms, of k fp]
  by (simp add: gm_accept_field_def fromProto_def)

theorem generic_accept_field_witness:
  "\<exists>g'. gm_accept_field 5 fromProto (gm_createFrom (gen_sample 5 [] 6) gm_new) fromProto_new =
      Some (g', snd (accept_field (do_visit fromProto) 5
        (gm_view visitor_names (gm_createFrom (gen_sample 5 [] 6) gm_new)) fromProto_new)) \<and>
    gm_view visitor_names g' = fst (accept_field (do_visit fromProto) 5
        (gm_view visitor_names (gm_createFrom (gen_sample 5 [] 6) gm_new)) fromProto_new)"
proof (rule generic_accept_field)
  show "gm_ok visitor_names (gm_createFrom (gen_sample 5 [] 6) gm_new)"
    using gm_createFrom_view(1) [OF gen_sample_ok(1-3)] by simp
  show "visitor_names (gm_createFrom (gen_sample 5 [] 6) gm_new) = Some (9, str ''A'', str ''p.A'')"
    using gen_sample_ok(1,3) [of 5 "[]" 6]
    by (simp add: gen_sample_def gm_createFrom_GM created_names)
qed

text \<open>
  C35: \<open>createFrom(mm, mms)\<close> never returns when a message has a field of its own type.
\<close>

theorem createFrom_recursive_diverges:
  assumes "f \<in> set (mm_listOfMetaFields mm)" and "mf_fieldDataType f = MESSAGE_T"
    and "map_of (scope_map mms) (mf_fieldDataTypeName f) = Some mm"
  shows "gm_createFrom_spec k mms mm = None"
proof (induction k)
  case (Suc k)
  have "gm_create_field (gm_createFrom_spec k mms) (scope_map mms) f idr = None" for idr
    using assms(2,3) Suc by (simp add: gm_create_field_def)
  from create_fields_None [OF assms(1) this] show ?case by simp
qed simp

definition spec_list :: MetaMessage where
  "spec_list = \<lparr>mm_packageName = [], mm_messageName = str ''L'', mm_messageIdentifier = 1,
     mm_listOfMetaFields =
       [MetaField_new\<lparr>mf_fieldDataType := MESSAGE_T, mf_fieldDataTypeName := str ''L'',
          mf_fieldName := str ''next'', mf_fieldIdentifier := 1\<rparr>]\<rparr>"

theorem createFrom_recursive_diverges_witness: "gm_createFrom_spec 100 [spec_list] spec_list = None"
  by (rule createFrom_recursive_diverges [of "hd (mm_listOfMetaFields spec_list)"])
    (simp_all add: spec_list_def scope_map_def)

text \<open>
  The \<open>GenericMessage\<close> of a message without package has its name twice in \<open>LongName\<close>.
\<close>

theorem createFrom_doubles_name:
  assumes "sn \<noteq> []" and "typed_fields fs"
  shows "gm_LongName (gm_createFrom (Visitable i sn sn fs) g) = sn @ str ''.'' @ sn"
  using rfind_suffix [OF assms(1), of "[]"] assms(1)
  by (simp add: gm_createFrom_GM [OF assms(2)] gm_LongName_def mm_LongName_def gmv_preVisit_def
      gmv_new_def Let_def MetaMessage_new_def)

theorem createFrom_doubles_name_witness:
  "gm_LongName (gm_createFrom (Visitable 1 (str ''Foo'') (str ''Foo'') []) gm_new) = str ''Foo.Foo''"
  using createFrom_doubles_name [of "str ''Foo''" "[]" 1 gm_new] by simp

end
