(* ===== verification/Player.thy ===== *)
theory Player
  imports Envelopes
begin

text \<open>
  \<open>Player.cpp\<close>: replay of a recording, a file of serialised envelopes. The constructor indexes the
  file by sample time; a cache holds the envelopes that come next. The members that the mutexes,
  the listener and the filling thread need are left out: the thread's step on the cache is
  \<open>checkRefillingCache\<close>, and a player with a thread is the sequence of the calls and those steps.
\<close>

section \<open>State\<close>

record IndexEntry =
  ie_sampleTimeStamp :: int64
  ie_filePosition :: uint64
  ie_available :: bool

definition IndexEntry_new :: "int64 \<Rightarrow> uint64 \<Rightarrow> IndexEntry" where
  "IndexEntry_new sampleTimeStamp filePosition =
     \<lparr>ie_sampleTimeStamp = sampleTimeStamp, ie_filePosition = filePosition, ie_available = False\<rparr>"

definition ONE_SECOND_IN_MICROSECONDS :: uint32 where "ONE_SECOND_IN_MICROSECONDS = 1000000"
definition MAX_DELAY_IN_MICROSECONDS :: uint32 where "MAX_DELAY_IN_MICROSECONDS = 1 * ONE_SECOND_IN_MICROSECONDS"
definition LOOK_AHEAD_IN_S :: uint32 where "LOOK_AHEAD_IN_S = 30"
definition MIN_ENTRIES_FOR_LOOK_AHEAD :: uint32 where "MIN_ENTRIES_FOR_LOOK_AHEAD = 5000"

text \<open>
  The index is a \<open>std::multimap\<close>: a list in the order of the keys, a new entry going behind those
  with the same key. Its iterators are positions in the list, \<open>end()\<close> its length; no entry is
  added or removed once the index is built.
\<close>

type_synonym index = "(int64 \<times> IndexEntry) list"

definition multimap_emplace :: "int64 \<Rightarrow> IndexEntry \<Rightarrow> index \<Rightarrow> index" where
  "multimap_emplace k e m =
     takeWhile (\<lambda>x. sint (fst x) \<le> sint k) m @ (k, e) # dropWhile (\<lambda>x. sint (fst x) \<le> sint k) m"

text \<open>
  The members, without mutexes, threads and the listener. \<open>pl_undef\<close> records undefined behaviour:
  an iterator dereferenced at or moved past the end, or a float converted to an integer type that
  cannot hold it.
\<close>

record player =
  pl_threading :: bool
  pl_recFile :: istream
  pl_recFileValid :: bool
  pl_autoRewind :: bool
  pl_index :: index
  pl_prevprev :: nat
  pl_prev :: nat
  pl_cur :: nat
  pl_next :: nat
  pl_desiredInitialLevel :: uint32
  pl_numberOfReturnedEnvelopesInTotal :: uint64
  pl_delay :: uint32
  pl_envelopeCache :: "(uint64 \<times> Envelope) list"
  pl_undef :: bool

section \<open>Building the index\<close>

lemma stream_measure_extractEnvelope:
  assumes "good s" and "extractEnvelope s = Some (r, s')"
  shows "stream_measure s' < stream_measure s"
proof -
  obtain b t where 1: "in_read 5 s = (b, t)" by fastforce
  have t: "stream_measure t < stream_measure s"
    using 1 assms(1) by (auto simp: in_read_def stream_measure_def good_def split: if_splits)
  have "stream_measure s' \<le> stream_measure t"
    using assms 1 stream_measure_in_read_le
    by (fastforce simp: extractEnvelope_def Let_def split: if_splits prod.splits)
  with t show ?thesis by simp
qed

text \<open>
  The loop of \<open>initializeIndex\<close>, without its reports of progress; \<open>None\<close> if an envelope in the file cannot be
  extracted without undefined behaviour, see \<open>extractEnvelope\<close>.
\<close>

function index_loop :: "istream \<Rightarrow> index \<Rightarrow> (index \<times> istream) option" where
  "index_loop s idx =
     (if good s
      then
        (let POS_BEFORE = (of_nat (in_tellg s) :: uint64) in
         case extractEnvelope s of
           None \<Rightarrow> None
         | Some ((ok, env), s') \<Rightarrow>
             (if \<not> eofbit s' \<and> ok
              then
                (let microseconds = toMicroseconds (env_sampleTimeStamp env)
                 in index_loop s'
                      (multimap_emplace microseconds (IndexEntry_new microseconds POS_BEFORE) idx))
              else index_loop s' idx))
      else Some (idx, s))"
  by pat_completeness auto
termination
  by (relation "measure (\<lambda>(s, idx). stream_measure s)")
    (auto dest: stream_measure_extractEnvelope simp: eq_commute [of _ "extractEnvelope _"])

declare index_loop.simps [simp del]

definition initializeIndex :: "byte list option \<Rightarrow> player \<Rightarrow> player option" where
  "initializeIndex file p =
     (case file of
        None \<Rightarrow> Some (p\<lparr>pl_recFileValid := False\<rparr>)
      | Some bs \<Rightarrow>
          map_option (\<lambda>(idx, s). p\<lparr>pl_recFileValid := True, pl_recFile := s, pl_index := idx\<rparr>)
            (index_loop (istream_of bs) (pl_index p)))"

section \<open>The cache\<close>

definition resetCaches :: "player \<Rightarrow> player" where
  "resetCaches p = p\<lparr>pl_delay := 0, pl_numberOfReturnedEnvelopesInTotal := 0, pl_envelopeCache := []\<rparr>"

definition resetIterators :: "player \<Rightarrow> player" where
  "resetIterators p =
     p\<lparr>pl_next := 0, pl_prev := 0, pl_cur := 0, pl_prevprev := length (pl_index p)\<rparr>"

text \<open>
  The loop of \<open>fillEnvelopeCache\<close>. When \<open>extractEnvelope\<close> fails nothing advances and the loop never
  ends; \<open>None\<close> stands for this, and for undefined behaviour of \<open>extractEnvelope\<close>. The counter stays below \<open>maxNumberOfEntriesToReadFromFile\<close>.
\<close>

partial_function (option) fill_loop :: "nat \<Rightarrow> player \<Rightarrow> nat \<Rightarrow> (nat \<times> player) option" where
  "fill_loop maxEntries p entriesRead =
     (if pl_next p < length (pl_index p) \<and> entriesRead < maxEntries
      then
        (let (k, entry) = pl_index p ! pl_next p;
             fresh = (map_of (pl_envelopeCache p) (ie_filePosition entry) = None)
         in case extractEnvelope (in_seekg (unat (ie_filePosition entry)) (pl_recFile p)) of
            None \<Rightarrow> None
          | Some ((ok, env), s) \<Rightarrow>
            if ok
            then fill_loop maxEntries
              (p\<lparr>pl_recFile := s,
                 pl_index := (pl_index p)[pl_next p := (k, entry\<lparr>ie_available := fresh\<rparr>)],
                 pl_envelopeCache := emplace (ie_filePosition entry) env (pl_envelopeCache p),
                 pl_next := pl_next p + 1\<rparr>) (entriesRead + 1)
            else fill_loop maxEntries (p\<lparr>pl_recFile := s\<rparr>) entriesRead)
      else Some (entriesRead, p))"

definition fillEnvelopeCache :: "uint32 \<Rightarrow> player \<Rightarrow> (nat \<times> player) option" where
  "fillEnvelopeCache maxEntries p =
     (if pl_recFileValid p \<and> 0 < maxEntries
      then fill_loop (unat maxEntries) (p\<lparr>pl_recFile := in_clear (pl_recFile p)\<rparr>) 0
      else Some (0, p))"

text \<open>
  \<open>rate n d\<close> stands for the \<open>float\<close> expression: the number of entries per second of a recording of
  \<open>n\<close> entries over \<open>d\<close> microseconds, rounded up; \<open>None\<close> when it cannot be converted to
  \<open>uint32_t\<close>, as for \<open>d = 0\<close>, which is undefined behaviour.
\<close>

type_synonym rate = "nat \<Rightarrow> int64 \<Rightarrow> uint32 option"

definition computeInitialCacheLevelAndFillCache :: "rate \<Rightarrow> player \<Rightarrow> player option" where
  "computeInitialCacheLevelAndFillCache rate p =
     (if pl_recFileValid p \<and> pl_index p \<noteq> []
      then
        (let smallest = fold (\<lambda>x m. if sint (fst x) < sint m then fst x else m) (pl_index p) (2 ^ 63 - 1);
             largest = fold (\<lambda>x m. if sint m < sint (fst x) then fst x else m) (pl_index p) (2 ^ 63);
             r = rate (length (pl_index p)) (largest - smallest);
             entries = (case r of None \<Rightarrow> 0 | Some v \<Rightarrow> v);
             p = p\<lparr>pl_undef := pl_undef p \<or> r = None,
                   pl_desiredInitialLevel := max (entries * LOOK_AHEAD_IN_S) MIN_ENTRIES_FOR_LOOK_AHEAD\<rparr>
         in map_option snd (fillEnvelopeCache (pl_desiredInitialLevel p) (resetIterators (resetCaches p))))
      else Some p)"

definition player_empty :: "bool \<Rightarrow> bool \<Rightarrow> player" where
  "player_empty autoRewind threading =
     \<lparr>pl_threading = threading, pl_recFile = istream_of [], pl_recFileValid = False,
      pl_autoRewind = autoRewind, pl_index = [], pl_prevprev = 0, pl_prev = 0, pl_cur = 0, pl_next = 0,
      pl_desiredInitialLevel = 0, pl_numberOfReturnedEnvelopesInTotal = 0, pl_delay = 0,
      pl_envelopeCache = [], pl_undef = False\<rparr>"

text \<open>The constructor; \<open>file\<close> is the content of the file, \<open>None\<close> when it cannot be opened.\<close>

definition Player_new :: "rate \<Rightarrow> byte list option \<Rightarrow> bool \<Rightarrow> bool \<Rightarrow> player option" where
  "Player_new rate file autoRewind threading =
     Option.bind (initializeIndex file (player_empty autoRewind threading)) (computeInitialCacheLevelAndFillCache rate)"

section \<open>Replay\<close>

text \<open>\<open>rewind\<close>; stopping and restarting the thread that fills the cache changes no member here.\<close>

definition rewind :: "rate \<Rightarrow> player \<Rightarrow> player option" where
  "rewind rate p = computeInitialCacheLevelAndFillCache rate p"

text \<open>
  The part of \<open>getNextEnvelopeToBeReplayed\<close> behind the test for the end. \<open>None\<close>: the call waits in
  \<open>checkAvailabilityOfNextEnvelopeToBeReplayed\<close> while the cache is empty, forever if there is no
  thread that fills it. \<open>operator[]\<close> inserts a default-constructed envelope when there is none.
\<close>

definition replay_current :: "player \<Rightarrow> ((bool \<times> Envelope) \<times> player) option" where
  "replay_current p =
     (if pl_envelopeCache p = [] then None
      else
        (let (t, entry) = pl_index p ! pl_cur p;
             pos = ie_filePosition entry;
             envelopeToReturn = (case map_of (pl_envelopeCache p) pos of None \<Rightarrow> Envelope_new | Some e \<Rightarrow> e);
             cache = assign pos envelopeToReturn (pl_envelopeCache p);
             ub = (length (pl_index p) \<le> pl_prev p);
             (prevT, prevEntry) = pl_index p ! pl_prev p;
             cache = (if pl_prevprev p \<noteq> length (pl_index p)
                      then filter (\<lambda>x. fst x \<noteq> ie_filePosition prevEntry) cache else cache);
             p = p\<lparr>pl_delay := ucast (t - prevT), pl_envelopeCache := cache,
                   pl_prevprev := pl_prev p, pl_prev := pl_cur p, pl_cur := pl_cur p + 1,
                   pl_numberOfReturnedEnvelopesInTotal := pl_numberOfReturnedEnvelopesInTotal p + 1,
                   pl_undef := pl_undef p \<or> ub\<rparr>
         in if pl_threading p then Some ((True, envelopeToReturn), p)
            else map_option (\<lambda>(_, p). ((True, envelopeToReturn), p)) (fillEnvelopeCache 1 p)))"

definition getNextEnvelopeToBeReplayed :: "rate \<Rightarrow> player \<Rightarrow> ((bool \<times> Envelope) \<times> player) option" where
  "getNextEnvelopeToBeReplayed rate p =
     (if pl_cur p = length (pl_index p)
      then
        (if \<not> pl_autoRewind p then Some ((False, Envelope_new), p)
         else case rewind rate p of
                None \<Rightarrow> None
              | Some p \<Rightarrow>
                  (if pl_cur p \<noteq> length (pl_index p) then replay_current p
                   else Some ((False, Envelope_new), p)))
      else replay_current p)"

definition totalNumberOfEnvelopesInRecFile :: "player \<Rightarrow> uint32" where
  "totalNumberOfEnvelopesInRecFile p = of_nat (length (pl_index p))"

definition player_delay :: "player \<Rightarrow> uint32" where
  "player_delay p = min (pl_delay p) MAX_DELAY_IN_MICROSECONDS"

definition hasMoreData :: "player \<Rightarrow> bool" where
  "hasMoreData p \<longleftrightarrow> pl_recFileValid p \<and> (pl_autoRewind p \<or> pl_cur p \<noteq> length (pl_index p))"

text \<open>
  \<open>seekTo(ratio)\<close>. The \<open>float\<close> values enter as what the code computes from them: whether the ratio
  lies in the closed unit interval, whether it is positive and below one, the product with the
  number of entries converted to \<open>uint32_t\<close> (\<open>target\<close>), and the number of entries to refill.
\<close>

definition seekTo :: "rate \<Rightarrow> bool \<Rightarrow> bool \<Rightarrow> bool \<Rightarrow> uint32 \<Rightarrow> uint32 \<Rightarrow> player \<Rightarrow> player option" where
  "seekTo rate inRange positive belowOne target refill p =
     (if inRange
      then
        (let enableThreading = pl_threading p;
             p = resetIterators (resetCaches (p\<lparr>pl_threading := False\<rparr>));
             steps = (if positive then unat (target - 1) else 0);
             p = p\<lparr>pl_numberOfReturnedEnvelopesInTotal := of_nat steps,
                   pl_undef := pl_undef p \<or> length (pl_index p) < pl_cur p + steps,
                   pl_cur := min (pl_cur p + steps) (length (pl_index p))\<rparr>;
             p = p\<lparr>pl_next := pl_cur p, pl_prev := pl_cur p, pl_envelopeCache := []\<rparr>
         in case fillEnvelopeCache refill p of
              None \<Rightarrow> None
            | Some (_, p) \<Rightarrow>
                (case (if positive \<and> belowOne
                       then map_option snd (getNextEnvelopeToBeReplayed rate p) else Some p) of
                   None \<Rightarrow> None
                 | Some p \<Rightarrow> Some (p\<lparr>pl_threading := enableThreading\<rparr>)))
      else Some p)"

text \<open>
  \<open>checkRefillingCache\<close>, which the filling thread calls: \<open>isLow\<close> is the test against 35 percent of
  the initial level, \<open>refill\<close> the number of entries it asks for.
\<close>

definition checkRefillingCache :: "bool \<Rightarrow> uint32 \<Rightarrow> player \<Rightarrow> player option" where
  "checkRefillingCache isLow refill p = (if isLow then map_option snd (fillEnvelopeCache refill p) else Some p)"

end
