(* ===== verification/PlayerCorrect.thy ===== *)
theory PlayerCorrect
  imports Player "HOL-Library.Multiset"
begin

text \<open>
  Correctness of the player: the index of a recording is the list of its envelopes stably sorted by
  sample time; the cache invariant, kept by every operation; what a sequence of calls returns;
  seeking; and where the code falls short of it.
\<close>

section \<open>The file\<close>

definition file_of :: "istream \<Rightarrow> byte list" where
  "file_of s = rev (past s) @ rest s"

lemma file_of_in_read: "in_read n s = (b, t) \<Longrightarrow> file_of t = file_of s"
  by (auto simp: in_read_def file_of_def split: if_splits)

lemma file_of_consumed [simp]: "at s (bs @ r) \<Longrightarrow> file_of (consumed bs s) = file_of s"
  by (simp add: file_of_def consumed_def at_def)

lemma file_of_clear [simp]: "file_of (in_clear s) = file_of s" "good (in_clear s)"
  by (simp_all add: file_of_def in_clear_def good_def)

lemma at_seekg:
  assumes "good s" and "n \<le> length (file_of s)"
  shows "at (in_seekg n s) (drop n (file_of s))" and "file_of (in_seekg n s) = file_of s"
proof -
  let ?bs = "rev (past s) @ rest s"
  have "in_seekg n s = s\<lparr>past := rev (take n ?bs), rest := drop n ?bs\<rparr>"
    using assms by (cases s) (simp add: in_seekg_def good_def file_of_def Let_def)
  then have "past (in_seekg n s) = rev (take n ?bs)" "rest (in_seekg n s) = drop n ?bs" "good (in_seekg n s)"
    using assms(1) by (simp_all del: take_append drop_append)
  then show "at (in_seekg n s) (drop n (file_of s))" "file_of (in_seekg n s) = file_of s"
    by (simp_all add: at_def file_of_def del: take_append drop_append)
qed

definition small_envelope :: "Envelope \<Rightarrow> bool" where
  "small_envelope e \<longleftrightarrow> length (proto_encode (Envelope_msg e)) < 2 ^ 24"

definition recording :: "Envelope list \<Rightarrow> byte list" where
  "recording es = concat (map serializeEnvelope es)"

lemma recording_simps [simp]:
  "recording [] = []" "recording (e # es) = serializeEnvelope e @ recording es"
  by (simp_all add: recording_def)

lemma extractEnvelope_recorded:
  "small_envelope e \<Longrightarrow> at s (serializeEnvelope e @ r) \<Longrightarrow>
     extractEnvelope s = Some ((True, e), consumed (serializeEnvelope e) s)"
  by (rule extractEnvelope_serializeEnvelope) (simp_all add: small_envelope_def)

section \<open>The index of a recording\<close>

text \<open>The envelopes of a recording with their positions in the file.\<close>

primrec positions :: "nat \<Rightarrow> Envelope list \<Rightarrow> (Envelope \<times> nat) list" where
  "positions n [] = []"
| "positions n (e # es) = (e, n) # positions (n + length (serializeEnvelope e)) es"

definition sample_time :: "Envelope \<Rightarrow> int64" where
  "sample_time e = toMicroseconds (env_sampleTimeStamp e)"

definition entry_of :: "Envelope \<times> nat \<Rightarrow> int64 \<times> IndexEntry" where
  "entry_of x = (sample_time (fst x), IndexEntry_new (sample_time (fst x)) (of_nat (snd x)))"

abbreviation emplace_entry :: "Envelope \<times> nat \<Rightarrow> index \<Rightarrow> index" where
  "emplace_entry x \<equiv> multimap_emplace (fst (entry_of x)) (snd (entry_of x))"

lemma extractEnvelope_at_end: "at s [] \<Longrightarrow> \<exists>t. extractEnvelope s = Some ((False, Envelope_new), t) \<and> \<not> good t"
  by (auto simp: extractEnvelope_def at_def in_read_def Let_def good_def)

lemma eofbit_consumed [simp]: "eofbit (consumed bs s) = eofbit s"
  by (simp add: consumed_def)

lemma in_tellg_consumed [simp]: "in_tellg (consumed bs s) = in_tellg s + length bs"
  by (simp add: in_tellg_def consumed_def)

lemma file_of_extractEnvelope: "extractEnvelope s = Some (r, t) \<Longrightarrow> file_of t = file_of s"
  by (auto simp: extractEnvelope_def Let_def split: if_splits prod.splits dest!: file_of_in_read)

lemma index_loop_recording:
  assumes "list_all small_envelope es" and "at s (recording es)"
  shows "\<exists>t. index_loop s idx = Some (fold emplace_entry (positions (in_tellg s) es) idx, t) \<and> file_of t = file_of s"
  using assms
proof (induction es arbitrary: s idx)
  case Nil
  then obtain t where t: "extractEnvelope s = Some ((False, Envelope_new), t)" "\<not> good t"
    using extractEnvelope_at_end [of s] by auto
  have g: "good s" using Nil(2) by auto
  then show ?case
    using t file_of_extractEnvelope [OF t(1)] by (subst index_loop.simps) (simp add: index_loop.simps [of t])
next
  case (Cons e es)
  have at: "at s (serializeEnvelope e @ recording es)" using Cons.prems(2) by simp
  note x = extractEnvelope_recorded [OF _ at]
  have g: "good s" using at by auto
  then have "\<not> eofbit s" by (simp add: good_def)
  with g x Cons.prems(1) have
    l: "index_loop s idx = index_loop (consumed (serializeEnvelope e) s) (emplace_entry (e, in_tellg s) idx)"
    by (subst index_loop.simps) (simp add: entry_of_def sample_time_def Let_def)
  have "at (consumed (serializeEnvelope e) s) (recording es)" using at by (rule at_consumed)
  with Cons.IH [OF _ this, of "emplace_entry (e, in_tellg s) idx"] Cons.prems(1) at
  show ?case by (simp add: l)
qed

text \<open>Inserting one after the other sorts by time, stably.\<close>

lemma multimap_emplace_snoc:
  assumes "sorted (map (\<lambda>x. sint (sample_time (fst x))) xs)"
  shows "multimap_emplace (fst (entry_of y)) (snd (entry_of y)) (map entry_of xs) =
    map entry_of (takeWhile (\<lambda>x. sint (sample_time (fst x)) \<le> sint (sample_time (fst y))) xs @ y #
      dropWhile (\<lambda>x. sint (sample_time (fst x)) \<le> sint (sample_time (fst y))) xs)"
  by (simp add: multimap_emplace_def takeWhile_map dropWhile_map comp_def entry_of_def)

lemma insert_behind_sorted:
  fixes f :: "'a \<Rightarrow> 'b :: linorder"
  assumes "sorted (map f xs)"
  shows "sorted (map f (takeWhile (\<lambda>x. f x \<le> f y) xs @ y # dropWhile (\<lambda>x. f x \<le> f y) xs))"
    and "filter (\<lambda>x. k = f x) (takeWhile (\<lambda>x. f x \<le> f y) xs @ y # dropWhile (\<lambda>x. f x \<le> f y) xs) =
      filter (\<lambda>x. k = f x) (xs @ [y])"
    and "mset (takeWhile (\<lambda>x. f x \<le> f y) xs @ y # dropWhile (\<lambda>x. f x \<le> f y) xs) = mset (xs @ [y])"
proof -
  have t: "\<forall>x\<in>set (takeWhile (\<lambda>x. f x \<le> f y) xs). f x \<le> f y"
    by (auto dest: set_takeWhileD)
  have d: "\<forall>x\<in>set (dropWhile (\<lambda>x. f x \<le> f y) xs). f y < f x"
    using assms
  proof (induction xs)
    case (Cons x xs)
    then show ?case by (auto intro: less_le_trans)
  qed simp
  have s: "sorted (map f (takeWhile (\<lambda>x. f x \<le> f y) xs)) \<and> sorted (map f (dropWhile (\<lambda>x. f x \<le> f y) xs))"
    using assms sorted_append [of "map f (takeWhile (\<lambda>x. f x \<le> f y) xs)" "map f (dropWhile (\<lambda>x. f x \<le> f y) xs)"]
    by (simp flip: map_append)
  show "sorted (map f (takeWhile (\<lambda>x. f x \<le> f y) xs @ y # dropWhile (\<lambda>x. f x \<le> f y) xs))"
    using s t d by (fastforce simp: sorted_append intro: order_trans less_imp_le)
  have "filter (\<lambda>x. k = f x) (dropWhile (\<lambda>x. f x \<le> f y) xs) = []" if "k = f y"
    using d that by (auto simp: filter_empty_conv)
  then show "filter (\<lambda>x. k = f x) (takeWhile (\<lambda>x. f x \<le> f y) xs @ y # dropWhile (\<lambda>x. f x \<le> f y) xs) =
      filter (\<lambda>x. k = f x) (xs @ [y])"
    using filter_append [of "\<lambda>x. k = f x" "takeWhile (\<lambda>x. f x \<le> f y) xs" "dropWhile (\<lambda>x. f x \<le> f y) xs"]
    by auto
  show "mset (takeWhile (\<lambda>x. f x \<le> f y) xs @ y # dropWhile (\<lambda>x. f x \<le> f y) xs) = mset (xs @ [y])"
    by (simp flip: mset_append [of "takeWhile _ xs" "dropWhile _ xs"])
qed

definition by_time :: "(Envelope \<times> nat) list \<Rightarrow> (Envelope \<times> nat) list" where
  "by_time xs = sort_key (\<lambda>x. sint (sample_time (fst x))) xs"

lemma by_time_snoc:
  "by_time (xs @ [y]) =
     takeWhile (\<lambda>x. sint (sample_time (fst x)) \<le> sint (sample_time (fst y))) (by_time xs) @ y #
     dropWhile (\<lambda>x. sint (sample_time (fst x)) \<le> sint (sample_time (fst y))) (by_time xs)"
proof -
  let ?f = "\<lambda>x. sint (sample_time (fst x))"
  have s: "sorted (map ?f (by_time xs))" by (simp add: by_time_def)
  note i = insert_behind_sorted [OF s, where y = y]
  show ?thesis
    unfolding by_time_def [of "xs @ [y]"]
  proof (rule properties_for_sort_key)
    show "mset (takeWhile (\<lambda>x. ?f x \<le> ?f y) (by_time xs) @ y # dropWhile (\<lambda>x. ?f x \<le> ?f y) (by_time xs)) =
        mset (xs @ [y])"
      unfolding i(3) by (simp add: by_time_def)
    show "sorted (map ?f (takeWhile (\<lambda>x. ?f x \<le> ?f y) (by_time xs) @ y # dropWhile (\<lambda>x. ?f x \<le> ?f y) (by_time xs)))"
      by (rule i(1))
    show "filter (\<lambda>x. ?f k = ?f x) (takeWhile (\<lambda>x. ?f x \<le> ?f y) (by_time xs) @ y # dropWhile (\<lambda>x. ?f x \<le> ?f y) (by_time xs)) =
        filter (\<lambda>x. ?f k = ?f x) (xs @ [y])" for k
      unfolding i(2) using sort_key_stable [of ?f "?f k" xs]
      by (simp add: by_time_def eq_commute [of "?f k"])
  qed
qed

lemma fold_emplace_by_time: "fold emplace_entry xs [] = map entry_of (by_time xs)"
proof (induction xs rule: rev_induct)
  case Nil
  show ?case by (simp add: by_time_def)
next
  case (snoc y xs)
  have "sorted (map (\<lambda>x. sint (sample_time (fst x))) (by_time xs))" by (simp add: by_time_def)
  from multimap_emplace_snoc [OF this, of y] show ?case by (simp add: snoc by_time_snoc)
qed

section \<open>Invariant of the player\<close>

text \<open>
  \<open>indexed bs xs p\<close>: the index of the player describes the envelopes \<open>xs\<close> in order, with their
  positions in the file \<open>bs\<close>.
\<close>

definition in_file :: "byte list \<Rightarrow> Envelope \<times> nat \<Rightarrow> bool" where
  "in_file bs x \<longleftrightarrow> small_envelope (fst x) \<and> snd x \<le> length bs \<and> snd x < 2 ^ 64 \<and>
     (\<exists>r. drop (snd x) bs = serializeEnvelope (fst x) @ r)"

definition plain_entry :: "int64 \<times> IndexEntry \<Rightarrow> int64 \<times> IndexEntry" where
  "plain_entry x = (fst x, snd x\<lparr>ie_available := False\<rparr>)"

definition indexed :: "byte list \<Rightarrow> (Envelope \<times> nat) list \<Rightarrow> player \<Rightarrow> bool" where
  "indexed bs xs p \<longleftrightarrow>
     pl_recFileValid p \<and> file_of (pl_recFile p) = bs \<and>
     map plain_entry (pl_index p) = map entry_of xs \<and>
     (\<forall>x\<in>set xs. in_file bs x) \<and> distinct (map snd xs) \<and> length xs < 2 ^ 64"

text \<open>
  \<open>cached xs lo p\<close>: the cache holds the envelopes from position \<open>lo\<close> of the index up to the one
  that is read next, and none from there on.
\<close>

definition key_of :: "(Envelope \<times> nat) list \<Rightarrow> nat \<Rightarrow> uint64" where
  "key_of xs j = of_nat (snd (xs ! j))"

definition cached :: "(Envelope \<times> nat) list \<Rightarrow> nat \<Rightarrow> player \<Rightarrow> bool" where
  "cached xs lo p \<longleftrightarrow>
     (\<forall>j. lo \<le> j \<longrightarrow> j < pl_next p \<longrightarrow> map_of (pl_envelopeCache p) (key_of xs j) = Some (fst (xs ! j))) \<and>
     (\<forall>j. pl_next p \<le> j \<longrightarrow> j < length xs \<longrightarrow> map_of (pl_envelopeCache p) (key_of xs j) = None) \<and>
     pl_next p \<le> length xs"

lemma indexed_length: "indexed bs xs p \<Longrightarrow> length (pl_index p) = length xs"
  by (metis indexed_def length_map)

lemma indexed_nth:
  assumes "indexed bs xs p" and "j < length xs"
  shows "fst (pl_index p ! j) = sample_time (fst (xs ! j))"
    and "ie_filePosition (snd (pl_index p ! j)) = key_of xs j"
proof -
  have "plain_entry (pl_index p ! j) = entry_of (xs ! j)"
    using assms indexed_length [OF assms(1)] by (metis indexed_def nth_map)
  then show "fst (pl_index p ! j) = sample_time (fst (xs ! j))"
    "ie_filePosition (snd (pl_index p ! j)) = key_of xs j"
    by (cases "pl_index p ! j"; simp add: plain_entry_def entry_of_def key_of_def IndexEntry_new_def;
        metis IndexEntry.select_convs(2) IndexEntry.update_convs(3) IndexEntry.surjective)+
qed

lemma indexed_bounds:
  assumes "indexed bs xs p" and "j < length xs"
  shows "in_file bs (xs ! j)" and "unat (key_of xs j) = snd (xs ! j)"
proof -
  show f: "in_file bs (xs ! j)" using assms by (simp add: indexed_def)
  then show "unat (key_of xs j) = snd (xs ! j)"
    by (simp add: key_of_def in_file_def unat_of_nat)
qed

lemma key_of_inject:
  assumes "indexed bs xs p" and "i < length xs" and "j < length xs" and "key_of xs i = key_of xs j"
  shows "i = j"
proof -
  have "map snd xs ! i = map snd xs ! j"
    using assms indexed_bounds(2) [OF assms(1)] by (metis nth_map)
  moreover have "distinct (map snd xs)" using assms(1) by (simp add: indexed_def)
  ultimately show ?thesis using assms(2,3) nth_eq_iff_index_eq by fastforce
qed

lemma map_list_update_same: "map f xs = ys \<Longrightarrow> f y = f (xs ! i) \<Longrightarrow> map f (xs[i := y]) = ys"
  by (metis list_update_id map_update)

text \<open>What filling the cache leaves alone.\<close>

definition replay_state :: "player \<Rightarrow> bool \<times> bool \<times> nat \<times> nat \<times> nat \<times> uint32 \<times> uint64 \<times> uint32 \<times> bool" where
  "replay_state p = (pl_threading p, pl_autoRewind p, pl_prevprev p, pl_prev p, pl_cur p,
     pl_desiredInitialLevel p, pl_numberOfReturnedEnvelopesInTotal p, pl_delay p, pl_undef p)"

lemmas fill_loop_step = fill_loop.simps

lemma fill_loop_ok:
  assumes "indexed bs xs p" and "good (pl_recFile p)" and "cached xs lo p" and "r \<le> maxEntries"
  shows "\<exists>k p'. fill_loop maxEntries p r = Some (k, p') \<and> indexed bs xs p' \<and> good (pl_recFile p') \<and>
    cached xs lo p' \<and> replay_state p' = replay_state p \<and>
    pl_next p' = min (length xs) (pl_next p + (maxEntries - r)) \<and> k = r + (pl_next p' - pl_next p)"
  using assms
proof (induction "maxEntries - r" arbitrary: p r)
  case 0
  then have r: "r = maxEntries" by simp
  have "pl_next p \<le> length xs" using 0(4) by (simp add: cached_def)
  then show ?case using 0 by (subst fill_loop.simps) (auto simp: r)
next
  case (Suc m)
  have n: "pl_next p \<le> length xs" using Suc.prems(3) by (simp add: cached_def)
  show ?case
  proof (cases "pl_next p < length xs")
    case False
    with Suc.prems n show ?thesis
      using indexed_length [OF Suc.prems(1)] by (subst fill_loop.simps) auto
  next
    case True
    let ?j = "pl_next p"
    obtain t entry where te: "pl_index p ! ?j = (t, entry)" by (cases "pl_index p ! ?j")
    have key: "ie_filePosition entry = key_of xs ?j"
      using indexed_nth(2) [OF Suc.prems(1) True] te by simp
    have pos: "unat (key_of xs ?j) = snd (xs ! ?j)" and f: "in_file bs (xs ! ?j)"
      using indexed_bounds [OF Suc.prems(1) True] by auto
    have content: "file_of (pl_recFile p) = bs" using Suc.prems(1) by (simp add: indexed_def)
    let ?s = "in_seekg (snd (xs ! ?j)) (pl_recFile p)" and ?e = "fst (xs ! ?j)"
    obtain rs where "drop (snd (xs ! ?j)) bs = serializeEnvelope ?e @ rs" and sm: "small_envelope ?e"
      and le: "snd (xs ! ?j) \<le> length (file_of (pl_recFile p))"
      using f content by (auto simp: in_file_def)
    with at_seekg [OF Suc.prems(2) le] have at: "at ?s (serializeEnvelope ?e @ rs)" and fs: "file_of ?s = bs"
      by (simp_all add: content)
    have x: "extractEnvelope ?s = Some ((True, ?e), consumed (serializeEnvelope ?e) ?s)"
      by (rule extractEnvelope_recorded [OF sm at])
    have none: "map_of (pl_envelopeCache p) (key_of xs ?j) = None"
      using Suc.prems(3) True by (simp add: cached_def)
    let ?p = "p\<lparr>pl_recFile := consumed (serializeEnvelope ?e) ?s,
                 pl_index := (pl_index p)[?j := (t, entry\<lparr>ie_available := True\<rparr>)],
                 pl_envelopeCache := emplace (key_of xs ?j) ?e (pl_envelopeCache p),
                 pl_next := ?j + 1\<rparr>"
    have less: "r < maxEntries" using Suc.hyps(2) by simp
    have step: "fill_loop maxEntries p r = fill_loop maxEntries ?p (r + 1)"
      using True less indexed_length [OF Suc.prems(1)]
      by (subst fill_loop.simps) (simp add: te key pos x none)
    have "map plain_entry ((pl_index p)[?j := (t, entry\<lparr>ie_available := True\<rparr>)]) = map entry_of xs"
      using Suc.prems(1) by (intro map_list_update_same) (simp_all add: indexed_def te plain_entry_def)
    then have i: "indexed bs xs ?p"
      using Suc.prems(1) at fs by (simp add: indexed_def)
    have g: "good (pl_recFile ?p)" using at by auto
    have c: "cached xs lo ?p"
      unfolding cached_def
    proof (intro conjI allI impI)
      fix j assume j: "lo \<le> j" "j < pl_next ?p"
      show "map_of (pl_envelopeCache ?p) (key_of xs j) = Some (fst (xs ! j))"
      proof (cases "j = ?j")
        case False
        then have "j < ?j" using j(2) by simp
        then have "key_of xs j \<noteq> key_of xs ?j" using key_of_inject [OF Suc.prems(1), of j ?j] True by auto
        then show ?thesis using Suc.prems(3) j(1) \<open>j < ?j\<close> none by (simp add: cached_def)
      qed (simp add: none)
    next
      fix j assume j: "pl_next ?p \<le> j" "j < length xs"
      then have "key_of xs j \<noteq> key_of xs ?j" using key_of_inject [OF Suc.prems(1) j(2) True] by auto
      then show "map_of (pl_envelopeCache ?p) (key_of xs j) = None"
        using Suc.prems(3) j none by (simp add: cached_def)
    qed (use True in simp)
    have "m = maxEntries - (r + 1)" "r + 1 \<le> maxEntries" using Suc.hyps(2) by auto
    from Suc.hyps(1) [OF this(1) i g c this(2)] step True Suc.hyps(2)
    show ?thesis by (auto simp: replay_state_def)
  qed
qed

lemma fillEnvelopeCache_ok:
  assumes "indexed bs xs p" and "cached xs lo p"
  shows "\<exists>k p'. fillEnvelopeCache m p = Some (k, p') \<and> indexed bs xs p' \<and> cached xs lo p' \<and>
    replay_state p' = replay_state p \<and> pl_next p' = min (length xs) (pl_next p + unat m)"
proof (cases "0 < m")
  case False
  then have "unat m = 0" by (simp add: word_less_nat_alt)
  moreover have "pl_next p \<le> length xs" using assms(2) by (simp add: cached_def)
  ultimately show ?thesis using assms False by (simp add: fillEnvelopeCache_def)
next
  case True
  let ?p = "p\<lparr>pl_recFile := in_clear (pl_recFile p)\<rparr>"
  have "indexed bs xs ?p" "good (pl_recFile ?p)" "cached xs lo ?p"
    using assms by (simp_all add: indexed_def cached_def)
  from fill_loop_ok [OF this, of 0 "unat m"] True assms(1) show ?thesis
    by (auto simp: fillEnvelopeCache_def indexed_def replay_state_def)
qed

text \<open>
  \<open>replaying xs k j p\<close>: the player is about to return entry \<open>k\<close> of the index and returned entry
  \<open>j\<close> last (or stands there), and the cache holds what comes next.
\<close>

definition replaying :: "(Envelope \<times> nat) list \<Rightarrow> nat \<Rightarrow> nat \<Rightarrow> player \<Rightarrow> bool" where
  "replaying xs k j p \<longleftrightarrow>
     k \<le> length xs \<and> j \<le> k \<and> j < length xs \<and> pl_cur p = k \<and> pl_prev p = j \<and>
     (pl_prevprev p \<noteq> length xs \<longrightarrow> j < k) \<and> cached xs k p"

lemma map_of_filter_None: "map_of m k = None \<Longrightarrow> map_of (filter P m) k = None"
  by (induction m) (auto split: if_splits)

definition delay_between :: "(Envelope \<times> nat) list \<Rightarrow> nat \<Rightarrow> nat \<Rightarrow> uint32" where
  "delay_between xs j k = ucast (sample_time (fst (xs ! k)) - sample_time (fst (xs ! j)))"

text \<open>The player once entry \<open>k\<close> has been returned, before the cache is filled again.\<close>

definition returned :: "(Envelope \<times> nat) list \<Rightarrow> nat \<Rightarrow> nat \<Rightarrow> player \<Rightarrow> player" where
  "returned xs k j p =
     p\<lparr>pl_delay := delay_between xs j k,
       pl_envelopeCache :=
         (if pl_prevprev p \<noteq> length xs
          then filter (\<lambda>x. fst x \<noteq> key_of xs j) (pl_envelopeCache p) else pl_envelopeCache p),
       pl_prevprev := j, pl_prev := k, pl_cur := k + 1,
       pl_numberOfReturnedEnvelopesInTotal := pl_numberOfReturnedEnvelopesInTotal p + 1\<rparr>"

lemma replay_current_returned:
  assumes i: "indexed bs xs p" and r: "replaying xs k j p" and k: "k < pl_next p"
  shows "replay_current p =
      (if pl_threading p then Some ((True, fst (xs ! k)), returned xs k j p)
       else map_option (\<lambda>(_, p). ((True, fst (xs ! k)), p)) (fillEnvelopeCache 1 (returned xs k j p)))"
    and "indexed bs xs (returned xs k j p)" and "replaying xs (Suc k) k (returned xs k j p)"
    and "map_of (pl_envelopeCache (returned xs k j p)) (key_of xs k) = Some (fst (xs ! k))"
proof -
  have c: "cached xs k p" and cur: "pl_cur p = k" and prev: "pl_prev p = j" and j: "j < length xs" "j \<le> k"
    and pp: "pl_prevprev p \<noteq> length xs \<Longrightarrow> j < k"
    using r by (auto simp: replaying_def)
  have kl: "k < length xs" using c k by (simp add: cached_def)
  have len: "length (pl_index p) = length xs" by (rule indexed_length [OF i])
  have hit: "map_of (pl_envelopeCache p) (key_of xs k) = Some (fst (xs ! k))"
    using c k by (simp add: cached_def)
  then have ne: "pl_envelopeCache p \<noteq> []" by auto
  obtain t e where te: "pl_index p ! k = (t, e)" by (cases "pl_index p ! k")
  obtain t' e' where te': "pl_index p ! j = (t', e')" by (cases "pl_index p ! j")
  have tk: "t = sample_time (fst (xs ! k))" "ie_filePosition e = key_of xs k"
    "t' = sample_time (fst (xs ! j))" "ie_filePosition e' = key_of xs j"
    using indexed_nth [OF i kl] indexed_nth [OF i j(1)] te te' by auto
  show "replay_current p =
      (if pl_threading p then Some ((True, fst (xs ! k)), returned xs k j p)
       else map_option (\<lambda>(_, p). ((True, fst (xs ! k)), p)) (fillEnvelopeCache 1 (returned xs k j p)))"
    using ne hit j(1)
    by (simp add: replay_current_def cur prev te te' tk len assign_same Let_def returned_def delay_between_def)
  show "indexed bs xs (returned xs k j p)" using i by (simp add: indexed_def returned_def)
  have other: "key_of xs l \<noteq> key_of xs j" if "pl_prevprev p \<noteq> length xs" "k \<le> l" "l < length xs" for l
    using key_of_inject [OF i, of l j] pp that j(1) by auto
  show "map_of (pl_envelopeCache (returned xs k j p)) (key_of xs k) = Some (fst (xs ! k))"
    using hit other [of k] kl by (simp add: returned_def map_of_filter_key)
  have "cached xs (Suc k) (returned xs k j p)"
    unfolding cached_def
  proof (intro conjI allI impI)
    fix l assume l: "Suc k \<le> l" "l < pl_next (returned xs k j p)"
    then have "l < pl_next p" by (simp add: returned_def)
    moreover from this have "l < length xs" using c by (auto simp: cached_def)
    ultimately show "map_of (pl_envelopeCache (returned xs k j p)) (key_of xs l) = Some (fst (xs ! l))"
      using c l(1) other [of l] by (simp add: cached_def returned_def map_of_filter_key)
  next
    fix l assume "pl_next (returned xs k j p) \<le> l" "l < length xs"
    then show "map_of (pl_envelopeCache (returned xs k j p)) (key_of xs l) = None"
      using c by (simp add: cached_def returned_def map_of_filter_None)
  qed (use c in \<open>simp add: cached_def returned_def\<close>)
  then show "replaying xs (Suc k) k (returned xs k j p)"
    using kl by (simp add: replaying_def returned_def)
qed

text \<open>A player without thread fills the cache itself; it stays ahead of the replay.\<close>

definition ahead :: "(Envelope \<times> nat) list \<Rightarrow> nat \<Rightarrow> nat \<Rightarrow> player \<Rightarrow> bool" where
  "ahead xs k j p \<longleftrightarrow> replaying xs k j p \<and> \<not> pl_threading p \<and> (k < length xs \<longrightarrow> k < pl_next p)"

lemma replay_current_ahead:
  assumes i: "indexed bs xs p" and r: "ahead xs k j p" and k: "k < length xs"
  shows "\<exists>p'. replay_current p = Some ((True, fst (xs ! k)), p') \<and> indexed bs xs p' \<and>
    ahead xs (Suc k) k p' \<and> pl_autoRewind p' = pl_autoRewind p \<and> pl_undef p' = pl_undef p \<and>
    pl_delay p' = delay_between xs j k \<and> pl_next p' = min (length xs) (pl_next p + 1)"
proof -
  have k': "k < pl_next p" and th: "\<not> pl_threading p" and r': "replaying xs k j p"
    using r k by (auto simp: ahead_def)
  note R = replay_current_returned [OF i r' k']
  have "cached xs (Suc k) (returned xs k j p)" using R(3) by (simp add: replaying_def)
  from fillEnvelopeCache_ok [OF R(2) this, of 1]
  obtain q p' where f: "fillEnvelopeCache 1 (returned xs k j p) = Some (q, p')" "indexed bs xs p'"
    "cached xs (Suc k) p'" "replay_state p' = replay_state (returned xs k j p)"
    "pl_next p' = min (length xs) (pl_next p + 1)"
    by (auto simp: returned_def)
  have "ahead xs (Suc k) k p'"
    using f(3,4,5) R(3) k' th by (auto simp: ahead_def replaying_def replay_state_def returned_def)
  then show ?thesis
    using R(1) th f(1,2,4,5) by (auto simp: replay_state_def returned_def)
qed

lemma computeInitial_ok:
  assumes i: "indexed bs xs p" and ne: "xs \<noteq> []"
  shows "\<exists>p' lvl. computeInitialCacheLevelAndFillCache rate p = Some p' \<and> indexed bs xs p' \<and>
    replaying xs 0 0 p' \<and> pl_autoRewind p' = pl_autoRewind p \<and> pl_threading p' = pl_threading p \<and>
    pl_next p' = min (length xs) (unat (max (lvl * 30) 5000)) \<and>
    pl_desiredInitialLevel p' = max (lvl * 30) 5000 \<and>
    lvl = (case rate (length xs) (fold (\<lambda>x m. if sint m < sint (fst x) then fst x else m) (pl_index p) (2 ^ 63) -
      fold (\<lambda>x m. if sint (fst x) < sint m then fst x else m) (pl_index p) (2 ^ 63 - 1)) of None \<Rightarrow> 0 | Some v \<Rightarrow> v)"
proof -
  have idx: "pl_index p \<noteq> []" "pl_recFileValid p" "length (pl_index p) = length xs"
    using indexed_length [OF i] ne i by (auto simp: indexed_def)
  define r where "r = rate (length xs) (fold (\<lambda>x m. if sint m < sint (fst x) then fst x else m) (pl_index p) (2 ^ 63) -
      fold (\<lambda>x m. if sint (fst x) < sint m then fst x else m) (pl_index p) (2 ^ 63 - 1))"
  define lvl where "lvl = max ((case r of None \<Rightarrow> 0 | Some v \<Rightarrow> v) * 30) 5000"
  let ?p = "resetIterators (resetCaches (p\<lparr>pl_undef := pl_undef p \<or> r = None, pl_desiredInitialLevel := lvl\<rparr>))"
  have c: "computeInitialCacheLevelAndFillCache rate p = map_option snd (fillEnvelopeCache lvl ?p)"
    using idx
    by (simp add: computeInitialCacheLevelAndFillCache_def Let_def r_def lvl_def resetIterators_def
        resetCaches_def LOOK_AHEAD_IN_S_def MIN_ENTRIES_FOR_LOOK_AHEAD_def)
  have "indexed bs xs ?p" using i by (simp add: indexed_def resetIterators_def resetCaches_def)
  moreover have "cached xs 0 ?p" by (simp add: cached_def resetIterators_def resetCaches_def)
  ultimately obtain k p' where f: "fillEnvelopeCache lvl ?p = Some (k, p')" "indexed bs xs p'" "cached xs 0 p'"
    "replay_state p' = replay_state ?p" "pl_next p' = min (length xs) (pl_next ?p + unat lvl)"
    using fillEnvelopeCache_ok by blast
  have "replaying xs 0 0 p'"
    using f(3,4) ne idx(3) by (auto simp: replaying_def replay_state_def resetIterators_def resetCaches_def)
  then show ?thesis
    using c f(1,2,4,5) by (auto simp: replay_state_def resetIterators_def resetCaches_def r_def lvl_def)
qed

lemma level_pos: "0 < unat (max (v :: uint32) 5000)"
proof -
  have "(5000 :: uint32) \<le> max v 5000" by simp
  then show ?thesis by (simp add: word_le_nat_alt)
qed

lemma computeInitial_ahead:
  assumes "indexed bs xs p" and "xs \<noteq> []" and "\<not> pl_threading p"
  shows "\<exists>p'. computeInitialCacheLevelAndFillCache rate p = Some p' \<and> indexed bs xs p' \<and>
    ahead xs 0 0 p' \<and> pl_autoRewind p' = pl_autoRewind p"
  using computeInitial_ok [OF assms(1,2), of rate] assms(2,3) level_pos
  by (auto simp: ahead_def)

lemma getNext_ahead:
  assumes i: "indexed bs xs p" and r: "ahead xs k j p"
  shows "k < length xs \<Longrightarrow> \<exists>p'. getNextEnvelopeToBeReplayed rate p = Some ((True, fst (xs ! k)), p') \<and>
      indexed bs xs p' \<and> ahead xs (Suc k) k p' \<and> pl_autoRewind p' = pl_autoRewind p \<and>
      pl_undef p' = pl_undef p \<and> pl_delay p' = delay_between xs j k \<and> pl_next p' = min (length xs) (pl_next p + 1)"
    and "k = length xs \<Longrightarrow> \<not> pl_autoRewind p \<Longrightarrow>
      getNextEnvelopeToBeReplayed rate p = Some ((False, Envelope_new), p)"
    and "k = length xs \<Longrightarrow> pl_autoRewind p \<Longrightarrow>
      \<exists>p'. getNextEnvelopeToBeReplayed rate p = Some ((True, fst (xs ! 0)), p') \<and>
        indexed bs xs p' \<and> ahead xs 1 0 p' \<and> pl_autoRewind p' \<and> pl_delay p' = delay_between xs 0 0"
proof -
  have cur: "pl_cur p = k" "length (pl_index p) = length xs"
    using r indexed_length [OF i] by (auto simp: ahead_def replaying_def)
  show "\<exists>p'. getNextEnvelopeToBeReplayed rate p = Some ((True, fst (xs ! k)), p') \<and>
      indexed bs xs p' \<and> ahead xs (Suc k) k p' \<and> pl_autoRewind p' = pl_autoRewind p \<and>
      pl_undef p' = pl_undef p \<and> pl_delay p' = delay_between xs j k \<and> pl_next p' = min (length xs) (pl_next p + 1)"
    if k: "k < length xs"
    using replay_current_ahead [OF i r k] cur k by (auto simp: getNextEnvelopeToBeReplayed_def)
  show "getNextEnvelopeToBeReplayed rate p = Some ((False, Envelope_new), p)"
    if "k = length xs" "\<not> pl_autoRewind p"
    using that cur by (simp add: getNextEnvelopeToBeReplayed_def)
  show "\<exists>p'. getNextEnvelopeToBeReplayed rate p = Some ((True, fst (xs ! 0)), p') \<and>
        indexed bs xs p' \<and> ahead xs 1 0 p' \<and> pl_autoRewind p' \<and> pl_delay p' = delay_between xs 0 0"
    if k: "k = length xs" "pl_autoRewind p"
  proof -
    have x: "xs \<noteq> []" "\<not> pl_threading p" using r by (auto simp: ahead_def replaying_def)
    obtain q where q: "computeInitialCacheLevelAndFillCache rate p = Some q" "indexed bs xs q"
      "ahead xs 0 0 q" "pl_autoRewind q"
      using computeInitial_ahead [OF i x] k(2) by blast
    have "pl_cur q \<noteq> length (pl_index q)"
      using q x indexed_length [OF q(2)] by (auto simp: ahead_def replaying_def)
    then show ?thesis
      using replay_current_ahead [OF q(2,3)] x q(1,4) cur k
      by (auto simp: getNextEnvelopeToBeReplayed_def rewind_def)
  qed
qed

section \<open>The player of a recording\<close>

lemma serializeEnvelope_nonempty: "0 < length (serializeEnvelope e)"
  by (simp add: serializeEnvelope_bytes)

lemma map_fst_positions: "map fst (positions n es) = es"
  by (induction es arbitrary: n) auto

lemma positions_in_file:
  assumes "list_all small_envelope es" and "length (pre @ recording es) < 2 ^ 64"
  shows "\<forall>x\<in>set (positions (length pre) es). in_file (pre @ recording es) x \<and> length pre \<le> snd x"
  using assms
proof (induction es arbitrary: pre)
  case Nil
  show ?case by simp
next
  case (Cons e es)
  have "\<forall>x\<in>set (positions (length (pre @ serializeEnvelope e)) es).
      in_file ((pre @ serializeEnvelope e) @ recording es) x \<and> length (pre @ serializeEnvelope e) \<le> snd x"
    using Cons.prems by (intro Cons.IH) simp_all
  moreover have "in_file (pre @ recording (e # es)) (e, length pre)"
    using Cons.prems by (simp add: in_file_def)
  ultimately show ?case by auto
qed

lemma positions_increase: "x \<in> set (positions n es) \<Longrightarrow> n \<le> snd x"
  by (induction es arbitrary: n) (auto dest!: meta_spec intro: order_trans [OF le_add1])

lemma distinct_positions: "distinct (map snd (positions n es))"
proof (induction es arbitrary: n)
  case (Cons e es)
  have "n < snd x" if "x \<in> set (positions (n + length (serializeEnvelope e)) es)" for x
    using positions_increase [OF that] serializeEnvelope_nonempty [of e] by linarith
  then show ?case using Cons by fastforce
qed simp

lemma map_insort_key: "map g (insort_key (\<lambda>x. f (g x)) x xs) = insort_key f (g x) (map g xs)"
  by (induction xs) auto

lemma map_sort_key: "map g (sort_key (\<lambda>x. f (g x)) xs) = sort_key f (map g xs)"
  by (induction xs) (simp_all add: sort_key_def map_insort_key)

text \<open>The order of replay: by time, envelopes of the same time in the order of the file.\<close>

definition replay_order :: "Envelope list \<Rightarrow> Envelope list" where
  "replay_order es = sort_key (\<lambda>e. sint (sample_time e)) es"

definition entries :: "Envelope list \<Rightarrow> (Envelope \<times> nat) list" where
  "entries es = by_time (positions 0 es)"

lemma entries_simps [simp]:
  "map fst (entries es) = replay_order es" "length (entries es) = length es"
proof -
  show m: "map fst (entries es) = replay_order es"
    using map_sort_key [of fst "\<lambda>e. sint (sample_time e)" "positions 0 es"]
    by (simp add: entries_def by_time_def replay_order_def map_fst_positions)
  show "length (entries es) = length es"
    using arg_cong [OF m, of length] by (simp add: replay_order_def)
qed

lemma length_replay_order [simp]: "length (replay_order es) = length es"
  by (simp add: replay_order_def)

lemma entries_nth: "k < length es \<Longrightarrow> fst (entries es ! k) = replay_order es ! k"
  using nth_map [of k "entries es" fst] by simp

lemma length_le_recording: "length es \<le> length (recording es)"
proof (induction es)
  case (Cons e es)
  have "0 < length (serializeEnvelope e)" by (rule serializeEnvelope_nonempty)
  then have "Suc (length es) \<le> length (serializeEnvelope e) + length (recording es)"
    using Cons by linarith
  then show ?case by simp
qed simp

lemma initializeIndex_recording:
  assumes "list_all small_envelope es" and "length (recording es) < 2 ^ 64"
  obtains p where "initializeIndex (Some (recording es)) (player_empty a th) = Some p"
    and "indexed (recording es) (entries es) p" and "pl_autoRewind p = a" and "pl_threading p = th"
proof -
  have at: "at (istream_of (recording es)) (recording es)" by simp
  have tell: "in_tellg (istream_of (recording es)) = 0" "file_of (istream_of (recording es)) = recording es"
    by (simp_all add: in_tellg_def file_of_def)
  obtain s where l: "index_loop (istream_of (recording es)) [] = Some (map entry_of (entries es), s)" and s: "file_of s = recording es"
    using index_loop_recording [OF assms(1) at, of "[]"] tell by (auto simp: fold_emplace_by_time entries_def)
  let ?p = "(player_empty a th)\<lparr>pl_recFileValid := True, pl_recFile := s, pl_index := map entry_of (entries es)\<rparr>"
  have p: "initializeIndex (Some (recording es)) (player_empty a th) = Some ?p"
    by (simp add: initializeIndex_def l player_empty_def)
  have "\<forall>x\<in>set (entries es). in_file (recording es) x"
    using positions_in_file [of es "[]"] assms by (simp add: entries_def by_time_def)
  moreover have "distinct (map snd (entries es))"
  proof -
    have "mset (map snd (entries es)) = mset (map snd (positions 0 es))" by (simp add: entries_def by_time_def)
    then show ?thesis using distinct_positions [of 0 es] by (metis distinct_count_atmost_1 set_mset_mset)
  qed
  moreover have "length es < 2 ^ 64" using length_le_recording [of es] assms(2) by linarith
  moreover have "plain_entry (entry_of x) = entry_of x" for x
    by (simp add: plain_entry_def entry_of_def IndexEntry_new_def)
  ultimately have "indexed (recording es) (entries es) ?p"
    by (simp add: indexed_def s comp_def)
  then show thesis by (rule that [OF p]) (simp_all add: player_empty_def)
qed

text \<open>
  What \<open>m\<close> calls of \<open>getNextEnvelopeToBeReplayed\<close> return, each with the delay reported behind it,
  and the player they leave.
\<close>

primrec replay :: "nat \<Rightarrow> rate \<Rightarrow> player \<Rightarrow> ((bool \<times> Envelope \<times> uint32) list \<times> player) option" where
  "replay 0 rate p = Some ([], p)"
| "replay (Suc m) rate p =
     (case getNextEnvelopeToBeReplayed rate p of
        None \<Rightarrow> None
      | Some ((ok, e), p) \<Rightarrow> map_option (\<lambda>(rs, p'). ((ok, e, player_delay p) # rs, p')) (replay m rate p))"

text \<open>The contract: what call number \<open>i\<close> returns.\<close>

definition replayed :: "bool \<Rightarrow> Envelope list \<Rightarrow> nat \<Rightarrow> bool \<times> Envelope \<times> uint32" where
  "replayed autoRewind es i =
     (let n = length es;
          k = (if autoRewind then i mod n else min i (n - 1));
          e = replay_order es ! k;
          d = min (ucast (sample_time e - sample_time (replay_order es ! (k - 1)))) 1000000
      in if autoRewind \<or> i < n then (True, e, d) else (False, Envelope_new, d))"

text \<open>The position of the player before call number \<open>i\<close>.\<close>

definition position :: "bool \<Rightarrow> nat \<Rightarrow> nat \<Rightarrow> nat" where
  "position autoRewind n i = (if i = 0 then 0 else if autoRewind then (i - 1) mod n + 1 else min i n)"

text \<open>
  \<open>at_call es i p\<close>: what holds of a player of the recording of \<open>es\<close> before call number \<open>i\<close>.
\<close>

definition at_call :: "Envelope list \<Rightarrow> nat \<Rightarrow> player \<Rightarrow> bool" where
  "at_call es i p \<longleftrightarrow>
     (let n = length es; k = position (pl_autoRewind p) n i
      in indexed (recording es) (entries es) p \<and> ahead (entries es) k (k - 1) p \<and>
         (\<not> pl_autoRewind p \<longrightarrow> n \<le> i \<longrightarrow> pl_delay p = delay_between (entries es) (n - 2) (n - 1)))"

lemma delay_entries:
  "j < length es \<Longrightarrow> k < length es \<Longrightarrow>
     delay_between (entries es) j k = ucast (sample_time (replay_order es ! k) - sample_time (replay_order es ! j))"
  by (simp add: delay_between_def entries_nth)

lemma position_wraps:
  assumes "0 < n"
  shows "position True n i < n \<Longrightarrow> i mod n = position True n i"
    and "position True n i = n \<Longrightarrow> i mod n = 0"
    and "position True n i \<le> n"
    and "position True n (Suc i) = i mod n + 1"
proof -
  show "i mod n = position True n i" if "position True n i < n"
    using that mod_Suc [of "i - 1" n] by (cases i) (auto simp: position_def)
  show "i mod n = 0" if "position True n i = n"
    using that mod_Suc [of "i - 1" n] assms by (cases i) (auto simp: position_def)
  show "position True n i \<le> n"
    using assms mod_less_divisor [OF assms, of "i - 1"] by (auto simp: position_def Suc_le_eq)
  show "position True n (Suc i) = i mod n + 1" by (simp add: position_def)
qed

lemma at_call_step:
  assumes ne: "es \<noteq> []" and p: "at_call es i p"
  shows "\<exists>p'. getNextEnvelopeToBeReplayed rate p =
      Some ((fst (replayed (pl_autoRewind p) es i), fst (snd (replayed (pl_autoRewind p) es i))), p') \<and>
    player_delay p' = snd (snd (replayed (pl_autoRewind p) es i)) \<and>
    at_call es (Suc i) p' \<and> pl_autoRewind p' = pl_autoRewind p"
proof -
  let ?n = "length es" and ?xs = "entries es"
  have n: "0 < ?n" using ne by simp
  define k where "k = position (pl_autoRewind p) ?n i"
  have i: "indexed (recording es) ?xs p" and a: "ahead ?xs k (k - 1) p"
    and d: "\<not> pl_autoRewind p \<Longrightarrow> ?n \<le> i \<Longrightarrow> pl_delay p = delay_between ?xs (?n - 2) (?n - 1)"
    using p by (simp_all add: at_call_def Let_def k_def)
  have kn: "k \<le> ?n" using a by (simp add: ahead_def replaying_def)
  note G = getNext_ahead [OF i a, of rate, unfolded entries_simps]
  show ?thesis
  proof (cases "k < ?n")
    case True
    then obtain p' where g: "getNextEnvelopeToBeReplayed rate p = Some ((True, fst (?xs ! k)), p')"
      "indexed (recording es) ?xs p'" "ahead ?xs (Suc k) k p'" "pl_autoRewind p' = pl_autoRewind p"
      "pl_delay p' = delay_between ?xs (k - 1) k"
      using G(1) by blast
    have pos: "position (pl_autoRewind p) ?n (Suc i) = Suc k"
      using True position_wraps [OF n, of i] by (cases "pl_autoRewind p") (auto simp: k_def position_def split: if_splits)
    have "i = k" if "\<not> pl_autoRewind p" using True that by (auto simp: k_def position_def split: if_splits)
    then have r: "replayed (pl_autoRewind p) es i =
        (True, replay_order es ! k, min (delay_between ?xs (k - 1) k) 1000000)"
      using True position_wraps(1) [OF n, of i]
      by (cases "pl_autoRewind p") (auto simp: replayed_def Let_def k_def delay_entries min_def)
    have "at_call es (Suc i) p'"
      using g \<open>\<not> pl_autoRewind p \<Longrightarrow> i = k\<close> True
      by (auto simp: at_call_def Let_def pos numeral_2_eq_2 dest!: le_antisym [of _ "Suc k"])
    then show ?thesis
      using g r True by (auto simp: player_delay_def MAX_DELAY_IN_MICROSECONDS_def
          ONE_SECOND_IN_MICROSECONDS_def entries_nth)
  next
    case False
    then have k: "k = ?n" using kn by simp
    show ?thesis
    proof (cases "pl_autoRewind p")
      case True
      then obtain p' where g: "getNextEnvelopeToBeReplayed rate p = Some ((True, fst (?xs ! 0)), p')"
        "indexed (recording es) ?xs p'" "ahead ?xs 1 0 p'" "pl_autoRewind p'"
        "pl_delay p' = delay_between ?xs 0 0"
        using G(3) k by blast
      have m: "i mod ?n = 0" using position_wraps(2) [OF n, of i] True k k_def by simp
      then have "at_call es (Suc i) p'"
        using g(2-4) position_wraps(4) [OF n, of i] by (simp add: at_call_def Let_def)
      moreover have "replayed True es i = (True, replay_order es ! 0, min (delay_between ?xs 0 0) 1000000)"
        using n by (simp add: replayed_def m Let_def delay_entries)
      ultimately show ?thesis
        using g n True by (auto simp: player_delay_def MAX_DELAY_IN_MICROSECONDS_def
            ONE_SECOND_IN_MICROSECONDS_def entries_nth)
    next
      case False
      then have ni: "?n \<le> i" using k n by (auto simp: k_def position_def split: if_splits)
      have "replayed False es i = (False, Envelope_new, min (delay_between ?xs (?n - 2) (?n - 1)) 1000000)"
        using ni n by (simp add: replayed_def Let_def delay_entries numeral_2_eq_2)
      moreover have "at_call es (Suc i) p"
        using i a d False ni k by (simp add: at_call_def Let_def position_def)
      ultimately show ?thesis
        using G(2) k False d [OF False ni]
        by (auto simp: player_delay_def MAX_DELAY_IN_MICROSECONDS_def ONE_SECOND_IN_MICROSECONDS_def)
    qed
  qed
qed

lemma replay_at_call:
  "es \<noteq> [] \<Longrightarrow> at_call es i p \<Longrightarrow>
     \<exists>p'. replay m rate p = Some (map (replayed (pl_autoRewind p) es) [i..<i + m], p') \<and>
       at_call es (i + m) p' \<and> pl_autoRewind p' = pl_autoRewind p"
proof (induction m arbitrary: p i)
  case (Suc m)
  obtain ok e d where r: "replayed (pl_autoRewind p) es i = (ok, e, d)" by (cases "replayed (pl_autoRewind p) es i")
  from at_call_step [OF Suc.prems, of rate] obtain p' where
    s: "getNextEnvelopeToBeReplayed rate p = Some ((ok, e), p')" "player_delay p' = d"
    "at_call es (Suc i) p'" "pl_autoRewind p' = pl_autoRewind p"
    by (auto simp: r)
  have "[i..<i + Suc m] = i # [Suc i..<Suc i + m]" by (simp add: upt_conv_Cons)
  with Suc.IH [OF Suc.prems(1) s(3)] s r show ?case by auto
qed simp

lemma Player_new_at_call:
  assumes "list_all small_envelope es" and "es \<noteq> []" and "length (recording es) < 2 ^ 64"
  shows "\<exists>p. Player_new rate (Some (recording es)) a False = Some p \<and> at_call es 0 p \<and> pl_autoRewind p = a"
proof -
  obtain q where I: "initializeIndex (Some (recording es)) (player_empty a False) = Some q"
    "indexed (recording es) (entries es) q" "pl_autoRewind q = a" "pl_threading q = False"
    by (rule initializeIndex_recording [OF assms(1,3), of a False])
  have "entries es \<noteq> []" using assms(2) by (metis entries_simps(2) length_0_conv)
  with computeInitial_ahead [OF I(2) this, of rate] I(3,4) obtain p where
    "computeInitialCacheLevelAndFillCache rate q = Some p" "indexed (recording es) (entries es) p"
    "ahead (entries es) 0 0 p" "pl_autoRewind p = a"
    by auto
  then show ?thesis
    using assms(2) I(1) by (auto simp: Player_new_def at_call_def Let_def position_def)
qed

lemma at_call_hasMoreData:
  assumes "es \<noteq> []" and "at_call es i p"
  shows "hasMoreData p \<longleftrightarrow> pl_autoRewind p \<or> i < length es"
proof -
  have i: "indexed (recording es) (entries es) p" and
    a: "ahead (entries es) (position (pl_autoRewind p) (length es) i) (position (pl_autoRewind p) (length es) i - 1) p"
    using assms(2) by (auto simp: at_call_def Let_def)
  then have "pl_recFileValid p" "pl_cur p = position (pl_autoRewind p) (length es) i" "length (pl_index p) = length es"
    using indexed_length [OF i] by (simp_all add: indexed_def ahead_def replaying_def)
  then show ?thesis using assms(1) by (auto simp: hasMoreData_def position_def)
qed

text \<open>
  \<open>seekTo\<close> needs the index only, and leaves a player that is about to return the selected entry.
\<close>

lemma seekTo_indexed:
  assumes ix: "indexed bs xs p" and t: "0 < unat target" "unat target < length xs" and refill: "0 < refill"
  shows "\<exists>p'. seekTo rate True True True target refill p = Some p' \<and> indexed bs xs p' \<and>
    replaying xs (unat target) (unat target - 1) p' \<and> pl_next p' = min (length xs) (unat target + unat refill) \<and>
    pl_threading p' = pl_threading p \<and> pl_autoRewind p' = pl_autoRewind p \<and> pl_undef p' = pl_undef p"
proof -
  let ?n = "length xs" and ?k = "unat target - 1"
  have len: "length (pl_index p) = ?n" using indexed_length [OF ix] by simp
  have steps: "unat (target - 1) = ?k"
    using t(1) by (metis One_nat_def Suc_leI unat_1 unat_sub word_le_nat_alt)
  let ?q = "(resetIterators (resetCaches (p\<lparr>pl_threading := False\<rparr>)))
    \<lparr>pl_numberOfReturnedEnvelopesInTotal := of_nat ?k, pl_cur := ?k, pl_next := ?k, pl_prev := ?k\<rparr>"
  have q: "indexed bs xs ?q" "cached xs ?k ?q"
    using ix t by (simp_all add: indexed_def cached_def resetIterators_def resetCaches_def)
  from fillEnvelopeCache_ok [OF this, of refill] obtain c r where
    f: "fillEnvelopeCache refill ?q = Some (c, r)" "indexed bs xs r" "cached xs ?k r"
    "replay_state r = replay_state ?q" "pl_next r = min ?n (?k + unat refill)"
    by auto
  have "?k < ?n" "0 < unat refill" using t refill by (simp_all add: word_less_nat_alt)
  then have "ahead xs ?k ?k r"
    using f(3-5) len by (auto simp: ahead_def replaying_def replay_state_def resetIterators_def resetCaches_def)
  from getNext_ahead(1) [OF f(2) this] \<open>?k < ?n\<close> obtain p' where
    g: "getNextEnvelopeToBeReplayed rate r = Some ((True, fst (xs ! ?k)), p')"
    "indexed bs xs p'" "ahead xs (Suc ?k) ?k p'" "pl_autoRewind p' = pl_autoRewind r"
    "pl_undef p' = pl_undef r" "pl_next p' = min ?n (pl_next r + 1)"
    by auto
  have r: "pl_autoRewind r = pl_autoRewind p" "pl_undef r = pl_undef p"
    using f(4) by (simp_all add: replay_state_def resetIterators_def resetCaches_def)
  have q': "?q = (resetIterators (resetCaches (p\<lparr>pl_threading := False\<rparr>)))
    \<lparr>pl_numberOfReturnedEnvelopesInTotal := of_nat ?k, pl_undef := pl_undef p \<or> length (pl_index p) < ?k,
     pl_cur := min ?k (length (pl_index p)), pl_next := min ?k (length (pl_index p)),
     pl_prev := min ?k (length (pl_index p)), pl_envelopeCache := []\<rparr>"
    using t len by (cases p) (auto simp: resetIterators_def resetCaches_def)
  let ?p = "p'\<lparr>pl_threading := pl_threading p\<rparr>"
  have "seekTo rate True True True target refill p = Some ?p"
    using f(1) g(1) t(1) unfolding q'
    by (simp add: seekTo_def Let_def steps resetIterators_def resetCaches_def)
  moreover have "indexed bs xs ?p" using g(2) by (simp add: indexed_def)
  moreover have "replaying xs (unat target) ?k ?p" using g(3) t by (simp add: ahead_def replaying_def cached_def)
  moreover have "pl_next ?p = min ?n (unat target + unat refill)" using g(6) f(5) t(1) by simp
  ultimately show ?thesis using g(4,5) r by simp
qed

lemma at_call_index:
  "at_call es i p \<Longrightarrow> indexed (recording es) (entries es) p \<and> length (pl_index p) = length es"
  using indexed_length [of "recording es" "entries es" p] by (auto simp: at_call_def Let_def)

lemma fillEnvelopeCache_at_end:
  "pl_next p = length (pl_index p) \<Longrightarrow>
     fillEnvelopeCache m p = Some (0, p\<lparr>pl_recFile := (if pl_recFileValid p \<and> 0 < m then in_clear (pl_recFile p) else pl_recFile p)\<rparr>)"
  by (simp add: fillEnvelopeCache_def fill_loop.simps)

section \<open>A player with a thread\<close>

text \<open>
  The thread fills the cache ten times a second; here it does not get to run between the calls.
\<close>

lemma replay_current_behind:
  assumes i: "indexed bs xs p" and r: "replaying xs k j p" and k: "k = pl_next p" "k < length xs"
    and th: "pl_threading p" and e: "pl_envelopeCache p \<noteq> []"
  shows "\<exists>p'. replay_current p = Some ((True, Envelope_new), p')"
proof -
  have c: "map_of (pl_envelopeCache p) (key_of xs k) = None" and cur: "pl_cur p = k"
    using r k by (auto simp: replaying_def cached_def)
  obtain t e where te: "pl_index p ! k = (t, e)" by (cases "pl_index p ! k")
  have "ie_filePosition e = key_of xs k" using indexed_nth(2) [OF i k(2)] te by simp
  then show ?thesis
    using e th c by (simp add: replay_current_def cur te Let_def split: prod.split)
qed

lemma replay_threaded:
  assumes "indexed bs xs p" and "replaying xs k j p" and "k + m \<le> pl_next p" and "pl_threading p" and "0 < m"
  shows "\<exists>rs p' l. replay m rate p = Some (rs, p') \<and>
    map (\<lambda>r. fst (snd r)) rs = map (\<lambda>l. fst (xs ! l)) [k..<k + m] \<and> list_all fst rs \<and>
    indexed bs xs p' \<and> replaying xs (k + m) l p' \<and> pl_next p' = pl_next p \<and> pl_threading p' \<and>
    pl_envelopeCache p' \<noteq> []"
  using assms
proof (induction m arbitrary: p k j)
  case (Suc m)
  have k: "k < pl_next p" using Suc.prems by simp
  note R = replay_current_returned [OF Suc.prems(1,2) k]
  let ?p = "returned xs k j p"
  have kl: "k < length xs" using R(3) by (simp add: replaying_def)
  have "pl_cur p = k" "length (pl_index p) = length xs"
    using Suc.prems(2) indexed_length [OF Suc.prems(1)] by (simp_all add: replaying_def)
  then have g: "getNextEnvelopeToBeReplayed rate p = Some ((True, fst (xs ! k)), ?p)"
    using R(1) Suc.prems(4) kl by (simp add: getNextEnvelopeToBeReplayed_def)
  have th: "pl_threading ?p" "pl_next ?p = pl_next p" using Suc.prems(4) by (simp_all add: returned_def)
  have ne: "pl_envelopeCache ?p \<noteq> []" using R(4) by auto
  show ?case
  proof (cases "m = 0")
    case True
    then show ?thesis using g R(2,3) th ne by auto
  next
    case False
    with Suc.IH [OF R(2,3)] Suc.prems(3) th obtain rs p' l where
      "replay m rate ?p = Some (rs, p')"
      "map (\<lambda>r. fst (snd r)) rs = map (\<lambda>l. fst (xs ! l)) [Suc k..<Suc k + m]" "list_all fst rs"
      "indexed bs xs p'" "replaying xs (Suc k + m) l p'" "pl_next p' = pl_next p" "pl_threading p'"
      "pl_envelopeCache p' \<noteq> []"
      by auto
    moreover have "[k..<k + Suc m] = k # [Suc k..<Suc k + m]" by (simp add: upt_conv_Cons)
    ultimately show ?thesis using g by auto
  qed
qed simp

text \<open>The same with the delays, when the entry returned last is the one in front.\<close>

lemma replay_threaded_delays:
  assumes "indexed bs xs p" and "replaying xs k (k - 1) p" and "0 < k" and "k + m \<le> pl_next p" and "pl_threading p"
  shows "\<exists>p'. replay m rate p =
    Some (map (\<lambda>l. (True, fst (xs ! l), min (delay_between xs (l - 1) l) MAX_DELAY_IN_MICROSECONDS)) [k..<k + m], p')"
  using assms
proof (induction m arbitrary: p k)
  case (Suc m)
  have k: "k < pl_next p" using Suc.prems by simp
  note R = replay_current_returned [OF Suc.prems(1,2) k]
  let ?p = "returned xs k (k - 1) p"
  have kl: "k < length xs" using R(3) by (simp add: replaying_def)
  have "pl_cur p = k" "length (pl_index p) = length xs"
    using Suc.prems(2) indexed_length [OF Suc.prems(1)] by (simp_all add: replaying_def)
  then have g: "getNextEnvelopeToBeReplayed rate p = Some ((True, fst (xs ! k)), ?p)"
    using R(1) Suc.prems(5) kl by (simp add: getNextEnvelopeToBeReplayed_def)
  have d: "player_delay ?p = min (delay_between xs (k - 1) k) MAX_DELAY_IN_MICROSECONDS"
    by (simp add: player_delay_def returned_def)
  have "replaying xs (Suc k) (Suc k - 1) ?p" "pl_threading ?p" "Suc k + m \<le> pl_next ?p"
    using R(3) Suc.prems(4,5) by (simp_all add: returned_def)
  from Suc.IH [OF R(2) this(1) _ this(3,2)] obtain p' where
    "replay m rate ?p = Some (map (\<lambda>l. (True, fst (xs ! l), min (delay_between xs (l - 1) l) MAX_DELAY_IN_MICROSECONDS)) [Suc k..<Suc k + m], p')"
    by auto
  moreover have "[k..<k + Suc m] = k # [Suc k..<Suc k + m]" by (simp add: upt_conv_Cons)
  ultimately show ?case using g d by auto
qed simp

section \<open>Whatever is done with a player\<close>

text \<open>
  The calls of the client and the turns of the filling thread: \<open>None\<close> if one of them does not return.
\<close>

datatype player_event = Next | Refill bool uint32 | Seek bool bool bool uint32 uint32

fun player_step :: "rate \<Rightarrow> player_event \<Rightarrow> player \<Rightarrow> player option" where
  "player_step rate Next p = map_option snd (getNextEnvelopeToBeReplayed rate p)"
| "player_step rate (Refill isLow refill) p = checkRefillingCache isLow refill p"
| "player_step rate (Seek inRange positive belowOne target refill) p =
     seekTo rate inRange positive belowOne target refill p"

primrec player_steps :: "rate \<Rightarrow> player_event list \<Rightarrow> player \<Rightarrow> player option" where
  "player_steps rate [] p = Some p"
| "player_steps rate (x # xs) p = Option.bind (player_step rate x p) (player_steps rate xs)"

text \<open>None of them changes the file, the entries of the index, and how the player was configured.\<close>

definition settled :: "byte list \<Rightarrow> (Envelope \<times> nat) list \<Rightarrow> bool \<Rightarrow> bool \<Rightarrow> player \<Rightarrow> bool" where
  "settled bs xs a th p \<longleftrightarrow> indexed bs xs p \<and> pl_autoRewind p = a \<and> pl_threading p = th"

lemma file_of_seekg [simp]: "file_of (in_seekg n s) = file_of s"
  by (simp add: in_seekg_def file_of_def Let_def) (metis append_assoc append_take_drop_id take_append drop_append length_rev)

lemma settled_fill_loop:
  assumes "fill_loop mx p r = Some y" and "settled bs xs a th p"
  shows "settled bs xs a th (snd y)"
proof -
  have "settled bs xs a th p \<longrightarrow> settled bs xs a th (snd y)"
  proof (rule fill_loop.raw_induct [where P = "\<lambda>mx p r y. settled bs xs a th p \<longrightarrow> settled bs xs a th (snd y)", OF _ assms(1)], intro impI)
    fix loop mx p r y
    assume IH: "\<And>mx p r y. loop mx p r = Some y \<Longrightarrow> settled bs xs a th p \<longrightarrow> settled bs xs a th (snd y)"
      and step: "(if pl_next p < length (pl_index p) \<and> r < mx
        then (let (k, entry) = pl_index p ! pl_next p;
             fresh = (map_of (pl_envelopeCache p) (ie_filePosition entry) = None)
         in case extractEnvelope (in_seekg (unat (ie_filePosition entry)) (pl_recFile p)) of
            None \<Rightarrow> None
          | Some ((ok, env), s) \<Rightarrow>
            if ok
            then loop mx
              (p\<lparr>pl_recFile := s,
                 pl_index := (pl_index p)[pl_next p := (k, entry\<lparr>ie_available := fresh\<rparr>)],
                 pl_envelopeCache := emplace (ie_filePosition entry) env (pl_envelopeCache p),
                 pl_next := pl_next p + 1\<rparr>) (r + 1)
            else loop mx (p\<lparr>pl_recFile := s\<rparr>) r)
        else Some (r, p)) = Some y"
      and p: "settled bs xs a th p"
    show "settled bs xs a th (snd y)"
    proof (cases "pl_next p < length (pl_index p) \<and> r < mx")
      case True
      obtain k e where e: "pl_index p ! pl_next p = (k, e)" by fastforce
      then obtain ok env s where x: "extractEnvelope (in_seekg (unat (ie_filePosition e)) (pl_recFile p)) = Some ((ok, env), s)"
        using step True by (auto split: option.splits)
      have f: "file_of s = file_of (pl_recFile p)" using file_of_extractEnvelope [OF x] by simp
      have u: "map plain_entry ((pl_index p)[pl_next p := (k, e\<lparr>ie_available := b\<rparr>)]) = map plain_entry (pl_index p)" for b
        by (rule map_list_update_same) (simp_all add: e plain_entry_def)
      have "settled bs xs a th (p\<lparr>pl_recFile := s,
                 pl_index := (pl_index p)[pl_next p := (k, e\<lparr>ie_available := b\<rparr>)],
                 pl_envelopeCache := c, pl_next := n\<rparr>)" "settled bs xs a th (p\<lparr>pl_recFile := s\<rparr>)" for b c n
        using p f u by (simp_all add: settled_def indexed_def)
      then show ?thesis using step True by (auto simp: e x split: if_splits dest!: IH)
    qed (use step p in auto)
  qed
  then show ?thesis using assms(2) ..
qed

lemma settled_fill: "fillEnvelopeCache m p = Some (k, p') \<Longrightarrow> settled bs xs a th p \<Longrightarrow> settled bs xs a th p'"
  using settled_fill_loop [of "unat m" "p\<lparr>pl_recFile := in_clear (pl_recFile p)\<rparr>" 0 "(k, p')"]
  by (auto simp: fillEnvelopeCache_def settled_def indexed_def split: if_splits)

text \<open>It is enough that the file, the index and the configuration are as before.\<close>

lemma settled_same:
  "settled bs xs a th p \<Longrightarrow> pl_recFileValid q = pl_recFileValid p \<Longrightarrow> pl_recFile q = pl_recFile p \<Longrightarrow>
   pl_index q = pl_index p \<Longrightarrow> pl_autoRewind q = pl_autoRewind p \<Longrightarrow> pl_threading q = (th' \<and> pl_threading p) \<Longrightarrow>
   settled bs xs a (th' \<and> th) q"
  by (simp add: settled_def indexed_def)

lemma settled_fill_same:
  assumes "fillEnvelopeCache m q = Some (k, r)" and "settled bs xs a th p" and "pl_recFileValid q = pl_recFileValid p"
    and "pl_recFile q = pl_recFile p" and "pl_index q = pl_index p" and "pl_autoRewind q = pl_autoRewind p"
  shows "pl_threading q = pl_threading p \<Longrightarrow> settled bs xs a th r" and "\<not> pl_threading q \<Longrightarrow> settled bs xs a False r"
  using settled_fill [OF assms(1) settled_same [OF assms(2-6), of True]]
    settled_fill [OF assms(1) settled_same [OF assms(2-6), of False]] by simp_all

lemma settled_compute:
  "computeInitialCacheLevelAndFillCache rate p = Some p' \<Longrightarrow> settled bs xs a th p \<Longrightarrow> settled bs xs a th p'"
  by (auto simp: computeInitialCacheLevelAndFillCache_def Let_def resetIterators_def resetCaches_def
      split: if_splits elim!: settled_fill_same(1))

lemma settled_replay_current: "replay_current p = Some (r, p') \<Longrightarrow> settled bs xs a th p \<Longrightarrow> settled bs xs a th p'"
  by (auto simp: replay_current_def Let_def split: if_splits prod.splits elim!: settled_fill_same(1))
    (auto simp: settled_def indexed_def)

lemma settled_getNext: "getNextEnvelopeToBeReplayed rate p = Some (r, p') \<Longrightarrow> settled bs xs a th p \<Longrightarrow> settled bs xs a th p'"
  by (auto simp: getNextEnvelopeToBeReplayed_def rewind_def split: if_splits option.splits
      dest: settled_compute settled_replay_current)

lemma settled_seekTo:
  assumes "seekTo rate i u b t n p = Some p'" and "settled bs xs a th p" shows "settled bs xs a th p'"
proof (cases i)
  case True
  then obtain c q r where q: "fillEnvelopeCache n q = Some (c, r)" "pl_recFileValid q = pl_recFileValid p" "pl_recFile q = pl_recFile p"
      "pl_index q = pl_index p" "pl_autoRewind q = pl_autoRewind p" "\<not> pl_threading q"
    and r: "p' = (if u \<and> b then snd (the (getNextEnvelopeToBeReplayed rate r)) else r)\<lparr>pl_threading := pl_threading p\<rparr>"
      "u \<and> b \<longrightarrow> getNextEnvelopeToBeReplayed rate r \<noteq> None"
    using assms(1) by (auto simp: seekTo_def Let_def resetIterators_def resetCaches_def split: option.splits if_splits)
  have "settled bs xs a False r" by (rule settled_fill_same(2) [OF q(1) assms(2) q(2-6)])
  then have "settled bs xs a False (if u \<and> b then snd (the (getNextEnvelopeToBeReplayed rate r)) else r)"
    using r(2) by (auto dest: settled_getNext)
  then show ?thesis using assms(2) by (simp add: r(1) settled_def indexed_def)
qed (use assms in \<open>simp add: seekTo_def\<close>)

lemma settled_steps: "player_steps rate es p = Some p' \<Longrightarrow> settled bs xs a th p \<Longrightarrow> settled bs xs a th p'"
proof (induction es arbitrary: p)
  case (Cons e es)
  then obtain q where q: "player_step rate e p = Some q" "player_steps rate es q = Some p'"
    by (auto simp: bind_eq_Some_conv)
  have "settled bs xs a th q"
    using q(1) Cons.prems(2)
    by (cases e) (auto simp: checkRefillingCache_def split: if_splits dest: settled_getNext settled_seekTo settled_fill)
  with Cons.IH q(2) show ?case by blast
qed simp

lemma replay_snoc:
  "replay m rate p = Some (rs, p') \<Longrightarrow> getNextEnvelopeToBeReplayed rate p' = Some ((ok, e), p'') \<Longrightarrow>
     replay (Suc m) rate p = Some (rs @ [(ok, e, player_delay p'')], p'')"
proof (induction m arbitrary: p rs)
  case (Suc m)
  from Suc.prems(1) obtain b f q ss where
    "getNextEnvelopeToBeReplayed rate p = Some ((b, f), q)" "replay m rate q = Some (ss, p')"
    "rs = (b, f, player_delay q) # ss"
    by (auto split: option.splits)
  with Suc.IH [OF _ Suc.prems(2)] show ?case by simp
qed simp

section \<open>Properties\<close>

text \<open>
  C4: A player without a thread replays a recording. Whatever envelopes (of less than \<open>2 ^ 24\<close> bytes)
  were recorded and in whatever order, the constructor indexes the file, and the calls of
  \<open>getNextEnvelopeToBeReplayed\<close> return the envelopes sorted by sample time, those of equal time in
  the order of the file, each with the difference to its predecessor as delay, of at most a
  second; behind the last one come the failures or, with \<open>autoRewind\<close>, the recording again, and
  \<open>hasMoreData\<close> tells which. No call waits for ever or reads a wrong place of the file.
\<close>

theorem player_replays:
  assumes "list_all small_envelope es" and "es \<noteq> []" and "length (recording es) < 2 ^ 64"
  shows "\<exists>p p'. Player_new rate (Some (recording es)) autoRewind False = Some p \<and>
    replay m rate p = Some (map (replayed autoRewind es) [0..<m], p') \<and>
    (hasMoreData p' \<longleftrightarrow> autoRewind \<or> m < length es)"
proof -
  obtain p where p: "Player_new rate (Some (recording es)) autoRewind False = Some p" "at_call es 0 p"
    "pl_autoRewind p = autoRewind"
    using Player_new_at_call [OF assms, of rate autoRewind] by auto
  obtain p' where "replay m rate p = Some (map (replayed autoRewind es) [0..<m], p')" "at_call es m p'"
    "pl_autoRewind p' = autoRewind"
    using replay_at_call [OF assms(2) p(2), of m rate] p(3) by auto
  with p(1) at_call_hasMoreData [OF assms(2)] show ?thesis by auto
qed

definition stamped :: "int32 \<Rightarrow> int32 \<Rightarrow> Envelope" where
  "stamped s us = Envelope_new\<lparr>env_sampleTimeStamp := \<lparr>ts_seconds = s, ts_microseconds = us\<rparr>\<rparr>"

lemma small_stamped:
  "small_envelope (stamped 0 0)" "small_envelope (stamped 1 0)" "small_envelope (stamped 2 0)"
  "small_envelope (stamped 4294 967296)"
  by (simp_all add: small_envelope_def stamped_def proto_encode_bytes Envelope_new_def Envelope_msg_def
      TimeStamp_msg_def TimeStamp_new_def proto_value.simps key_bytes_def leb128.simps zigzag_def
      length_delimited_def)

lemma length_recording_small:
  assumes "list_all small_envelope es" and "length es < 2 ^ 32"
  shows "length (recording es) < 2 ^ 64"
proof -
  have "length (recording es) \<le> length es * (5 + 2 ^ 24)"
    using assms(1)
  proof (induction es)
    case (Cons e es)
    then have "length (serializeEnvelope e) \<le> 5 + 2 ^ 24"
      by (simp add: serializeEnvelope_bytes small_envelope_def)
    with Cons show ?case by simp
  qed simp
  also have "\<dots> < 2 ^ 32 * (5 + 2 ^ 24)" using assms(2) by simp
  finally show ?thesis by simp
qed

definition sample_recording :: "Envelope list" where
  "sample_recording = [stamped 2 0, stamped 0 0, stamped 1 0]"

definition some_rate :: rate where
  "some_rate n d = (if d = 0 then None else Some (of_nat n))"

lemma sample_recording_ok:
  "list_all small_envelope sample_recording" "sample_recording \<noteq> []" "length (recording sample_recording) < 2 ^ 64"
proof -
  show s: "list_all small_envelope sample_recording" by (simp add: sample_recording_def small_stamped)
  show "length (recording sample_recording) < 2 ^ 64"
    by (rule length_recording_small [OF s]) (simp add: sample_recording_def)
qed (simp add: sample_recording_def)

theorem player_replays_witness:
  "\<exists>p p'. Player_new some_rate (Some (recording sample_recording)) False False = Some p \<and>
    replay 4 some_rate p = Some (map (replayed False sample_recording) [0..<4], p') \<and>
    (hasMoreData p' \<longleftrightarrow> False \<or> 4 < length sample_recording)"
  by (rule player_replays [OF sample_recording_ok])

text \<open>
  C26: Seeking, for a player with or without a thread, and whatever has been done with it before, by
  calls and by turns of the thread: \<open>seekTo\<close> with a ratio that selects entry \<open>target\<close>, which is
  neither the first nor behind the last, continues the replay with this entry, as if everything in front of
  it had been returned, and touches no iterator out of range; a player with a thread has it again
  afterwards, and returns what has been refilled even if the thread does not get to run.
\<close>

theorem player_seek:
  assumes "list_all small_envelope es" and "length (recording es) < 2 ^ 64"
    and "0 < unat target" and "unat target < length es" and "0 < refill"
    and "Player_new rate (Some (recording es)) autoRewind threading = Some p" and "player_steps rate before p = Some q"
  shows "\<exists>q'. seekTo rate True True True target refill q = Some q' \<and> pl_undef q' = pl_undef q \<and> pl_threading q' = threading \<and>
    (\<forall>m. \<not> threading \<or> m \<le> unat refill \<and> unat target + m \<le> length es \<longrightarrow>
      (\<exists>q''. replay m rate q' = Some (map (replayed autoRewind es) [unat target..<unat target + m], q'')))"
proof -
  let ?n = "length es" and ?xs = "entries es" and ?t = "unat target"
  have ne: "es \<noteq> []" using assms(4) by auto
  obtain p0 where p0: "initializeIndex (Some (recording es)) (player_empty autoRewind threading) = Some p0"
    "indexed (recording es) ?xs p0" "pl_autoRewind p0 = autoRewind" "pl_threading p0 = threading"
    by (rule initializeIndex_recording [OF assms(1,2)])
  have "computeInitialCacheLevelAndFillCache rate p0 = Some p" using assms(6) p0(1) by (simp add: Player_new_def)
  then have "settled (recording es) ?xs autoRewind threading p"
    by (rule settled_compute) (simp add: settled_def p0)
  then have "settled (recording es) ?xs autoRewind threading q" by (rule settled_steps [OF assms(7)])
  then have q: "indexed (recording es) ?xs q" "pl_autoRewind q = autoRewind" "pl_threading q = threading"
    by (simp_all add: settled_def)
  have "?t < length ?xs" using assms(4) by simp
  from seekTo_indexed [OF q(1) assms(3) this assms(5), of rate] obtain q' where
    s: "seekTo rate True True True target refill q = Some q'" "indexed (recording es) ?xs q'" "replaying ?xs ?t (?t - 1) q'"
    "pl_next q' = min ?n (?t + unat refill)" "pl_threading q' = threading" "pl_autoRewind q' = autoRewind" "pl_undef q' = pl_undef q"
    using q(2,3) by auto
  have "\<exists>q''. replay m rate q' = Some (map (replayed autoRewind es) [?t..<?t + m], q'')"
    if m: "\<not> threading \<or> m \<le> unat refill \<and> ?t + m \<le> ?n" for m
  proof (cases threading)
    case True
    then have "?t + m \<le> pl_next q'" using m s(4) by simp
    from replay_threaded_delays [OF s(2,3) assms(3) this] s(5) True obtain q'' where
      "replay m rate q' = Some (map (\<lambda>l. (True, fst (?xs ! l), min (delay_between ?xs (l - 1) l) MAX_DELAY_IN_MICROSECONDS)) [?t..<?t + m], q'')"
      by blast
    moreover have "(True, fst (?xs ! l), min (delay_between ?xs (l - 1) l) MAX_DELAY_IN_MICROSECONDS) = replayed autoRewind es l"
      if "l \<in> set [?t..<?t + m]" for l
    proof -
      have l: "l < ?n" "l - 1 < ?n" "min l (?n - 1) = l" using that m True by auto
      show ?thesis
        by (simp only: replayed_def Let_def l entries_nth delay_entries mod_less MAX_DELAY_IN_MICROSECONDS_def
            ONE_SECOND_IN_MICROSECONDS_def if_cancel if_True simp_thms mult_1)
    qed
    ultimately show ?thesis by (simp cong: map_cong)
  next
    case False
    have "0 < unat refill" using assms(5) by (simp add: word_less_nat_alt)
    then have "ahead ?xs ?t (?t - 1) q'" using s(3-5) False assms(4) by (simp add: ahead_def)
    moreover have "position autoRewind ?n ?t = ?t"
      using assms(3,4) mod_less [of "?t - 1" ?n] by (simp add: position_def)
    ultimately have "at_call es ?t q'" using s(2,6) assms(4) by (simp add: at_call_def Let_def)
    from replay_at_call [OF ne this, of m rate] s(6) show ?thesis by auto
  qed
  with s(1,5,7) show ?thesis by blast
qed

theorem player_seek_witness:
  "\<exists>p q q' q''. Player_new some_rate (Some (recording sample_recording)) False True = Some p \<and>
    player_steps some_rate [Next, Refill True 2] p = Some q \<and>
    seekTo some_rate True True True 1 1500 q = Some q' \<and> pl_undef q' = pl_undef q \<and> pl_threading q' \<and>
    replay 2 some_rate q' = Some (map (replayed False sample_recording) [unat (1 :: uint32)..<unat (1 :: uint32) + 2], q'')"
proof -
  note S = sample_recording_ok
  obtain p0 where p0: "initializeIndex (Some (recording sample_recording)) (player_empty False True) = Some p0"
    "indexed (recording sample_recording) (entries sample_recording) p0" "pl_threading p0"
    by (rule initializeIndex_recording [OF S(1,3), of False True]) simp
  have ne: "entries sample_recording \<noteq> []" using S(2) by (metis entries_simps(2) length_0_conv)
  obtain p and l :: uint32 where p: "computeInitialCacheLevelAndFillCache some_rate p0 = Some p"
    "indexed (recording sample_recording) (entries sample_recording) p" "replaying (entries sample_recording) 0 0 p"
    "pl_next p = min (length (entries sample_recording)) (unat (max (l * 30) 5000))" "pl_threading p = pl_threading p0"
    using computeInitial_ok [OF p0(2) ne, of some_rate] by blast
  have k: "0 < pl_next p" using p(4) level_pos [of "l * 30"] S(2) by simp
  note R = replay_current_returned [OF p(2,3) k]
  have "pl_cur p \<noteq> length (pl_index p)"
    using p(3) indexed_length [OF p(2)] S(2) by (auto simp: replaying_def)
  then have n: "player_step some_rate Next p = Some (returned (entries sample_recording) 0 0 p)"
    using R(1) p(5) p0(3) by (simp add: getNextEnvelopeToBeReplayed_def)
  have "cached (entries sample_recording) (Suc 0) (returned (entries sample_recording) 0 0 p)" using R(3) by (simp add: replaying_def)
  from fillEnvelopeCache_ok [OF R(2) this, of 2] obtain q where
    q: "player_steps some_rate [Next, Refill True 2] p = Some q" using n by (auto simp: checkRefillingCache_def)
  have P: "Player_new some_rate (Some (recording sample_recording)) False True = Some p" using p0(1) p(1) by (simp add: Player_new_def)
  have "0 < unat (1 :: uint32)" "unat (1 :: uint32) < length sample_recording" "(0 :: uint32) < 1500"
    by (simp_all add: sample_recording_def)
  from player_seek [OF S(1,3) this P q] obtain q' where q': "seekTo some_rate True True True 1 1500 q = Some q'"
    "pl_undef q' = pl_undef q" "pl_threading q'"
    "\<And>m. m \<le> 1500 \<and> 1 + m \<le> length sample_recording \<Longrightarrow>
      \<exists>q''. replay m some_rate q' = Some (map (replayed False sample_recording) [unat (1 :: uint32)..<unat (1 :: uint32) + m], q'')"
    by auto
  have "(2 :: nat) \<le> 1500 \<and> 1 + 2 \<le> length sample_recording" by (simp add: sample_recording_def)
  from q'(4) [OF this] obtain q'' where
    "replay 2 some_rate q' = Some (map (replayed False sample_recording) [unat (1 :: uint32)..<unat (1 :: uint32) + 2], q'')" ..
  with P q q'(1-3) show ?thesis by (intro exI conjI)
qed

text \<open>
  A positive ratio below the share of one entry makes \<open>seekTo\<close> step \<open>2 ^ 32 - 1\<close> times, as the
  bound of its loop wraps around: the iterator is moved past the end of the index.
\<close>

theorem player_seek_overflow:
  assumes "list_all small_envelope es" and "es \<noteq> []" and "length es < 2 ^ 32 - 1"
    and "Player_new rate (Some (recording es)) False False = Some p"
  shows "\<exists>p'. seekTo rate True True True 0 refill p = Some p' \<and> pl_undef p'"
proof -
  have l: "length (recording es) < 2 ^ 64" using assms(3) by (intro length_recording_small [OF assms(1)]) simp
  from Player_new_at_call [OF assms(1,2) l, of rate False] assms(4)
  have p: "at_call es 0 p" "\<not> pl_autoRewind p" by auto
  have len: "length (pl_index p) = length es" using at_call_index [OF p(1)] by simp
  have steps: "unat (0 - 1 :: uint32) = 2 ^ 32 - 1" by (simp add: unsigned_minus_1_eq_mask mask_eq_exp_minus_1)
  show ?thesis
    using assms(3) p(2) len
    by (simp add: seekTo_def Let_def resetIterators_def resetCaches_def fillEnvelopeCache_at_end
        getNextEnvelopeToBeReplayed_def steps del: diff_0)
qed

theorem player_seek_overflow_witness:
  "\<exists>p p'. Player_new some_rate (Some (recording sample_recording)) False False = Some p \<and>
    seekTo some_rate True True True 0 1500 p = Some p' \<and> pl_undef p'"
proof -
  note S = sample_recording_ok
  obtain p where p: "Player_new some_rate (Some (recording sample_recording)) False False = Some p"
    using Player_new_at_call [OF S] by blast
  have "length sample_recording < 2 ^ 32 - 1" by (simp add: sample_recording_def)
  from player_seek_overflow [OF S(1,2) this p] p show ?thesis by blast
qed

text \<open>
  A player with a thread, when the thread does not get to run: once the entries of the initial
  level have been returned, the call does not wait, as the cache still holds the last one, but
  returns success with a default-constructed envelope that the recording does not contain.
\<close>

theorem player_starves:
  assumes "list_all small_envelope es" and "length (recording es) < 2 ^ 64"
    and "Player_new rate (Some (recording es)) autoRewind True = Some p"
    and "level = unat (pl_desiredInitialLevel p)" and "level < length es"
  shows "\<exists>rs d p'. replay (Suc level) rate p = Some (rs @ [(True, Envelope_new, d)], p') \<and>
    map (\<lambda>r. fst (snd r)) rs = take level (replay_order es)"
proof -
  obtain q where I: "initializeIndex (Some (recording es)) (player_empty autoRewind True) = Some q"
    "indexed (recording es) (entries es) q" "pl_autoRewind q = autoRewind" "pl_threading q = True"
    by (rule initializeIndex_recording [OF assms(1,2), of autoRewind True])
  have "entries es \<noteq> []" using assms(5) by (metis entries_simps(2) less_zeroE list.size(3))
  from computeInitial_ok [OF I(2) this, of rate] assms(3) I(1,4)
  obtain lvl where c: "indexed (recording es) (entries es) p" "replaying (entries es) 0 0 p" "pl_threading p"
    "pl_next p = min (length es) (unat (max (lvl * 30) 5000))" "pl_desiredInitialLevel p = max (lvl * 30) 5000"
    by (auto simp: Player_new_def)
  have next': "pl_next p = level" using c(4,5) assms(4,5) by simp
  have "0 < level" using level_pos assms(4) c(5) by simp
  from replay_threaded [OF c(1,2) _ c(3) this, of rate] next' obtain rs p' l where
    r: "replay level rate p = Some (rs, p')"
    "map (\<lambda>r. fst (snd r)) rs = map (\<lambda>l. fst (entries es ! l)) [0..<level]"
    "indexed (recording es) (entries es) p'" "replaying (entries es) level l p'" "pl_next p' = level"
    "pl_threading p'" "pl_envelopeCache p' \<noteq> []"
    by auto
  have "level < length (entries es)" using assms(5) by simp
  from replay_current_behind [OF r(3,4) _ this r(6,7)] r(5) obtain p'' where
    "replay_current p' = Some ((True, Envelope_new), p'')" by auto
  moreover have "pl_cur p' = level" "length (pl_index p') = length es"
    using r(4) indexed_length [OF r(3)] by (simp_all add: replaying_def)
  ultimately have "getNextEnvelopeToBeReplayed rate p' = Some ((True, Envelope_new), p'')"
    using assms(5) by (simp add: getNextEnvelopeToBeReplayed_def)
  moreover have "map (\<lambda>l. fst (entries es ! l)) [0..<level] = take level (replay_order es)"
    using assms(5) by (intro nth_equalityI) (simp_all add: entries_nth)
  ultimately show ?thesis using replay_snoc [OF r(1)] r(2) by auto
qed

theorem player_starves_witness:
  "\<exists>p rs d p'. Player_new (\<lambda>_ _. Some 1) (Some (recording (replicate 5001 (stamped 1 0)))) False True = Some p \<and>
    replay 5001 (\<lambda>_ _. Some 1) p = Some (rs @ [(True, Envelope_new, d)], p')"
proof -
  let ?es = "replicate 5001 (stamped 1 0)"
  have s: "list_all small_envelope ?es" by (simp add: list_all_iff small_stamped)
  then have l: "length (recording ?es) < 2 ^ 64" by (rule length_recording_small) simp
  obtain q where I: "initializeIndex (Some (recording ?es)) (player_empty False True) = Some q"
    "indexed (recording ?es) (entries ?es) q" by (rule initializeIndex_recording [OF s l, of False True])
  have "length (entries ?es) \<noteq> 0" unfolding entries_simps by simp
  then have "entries ?es \<noteq> []" by blast
  from computeInitial_ok [OF I(2) this, of "\<lambda>_ _. Some 1"] I(1) obtain p where
    p: "Player_new (\<lambda>_ _. Some 1) (Some (recording ?es)) False True = Some p" "pl_desiredInitialLevel p = 5000"
    by (auto simp: Player_new_def max_def simp del: entries_simps)
  have "5000 = unat (pl_desiredInitialLevel p)" "5000 < length ?es" using p(2) by simp_all
  from player_starves [OF s l p(1) this] p(1) show ?thesis by auto
qed

text \<open>
  The delay is cut to 32 bits before it is limited to a second: of two envelopes that lie
  \<open>2 ^ 32\<close> microseconds apart, a little over 71 minutes, or a multiple of it, the second is
  returned with a delay of zero.
\<close>

theorem player_long_gap:
  assumes "small_envelope e" and "small_envelope f" and "sint (sample_time e) \<le> sint (sample_time f)"
    and "sample_time f - sample_time e = push_bit 32 gap"
  shows "\<exists>p p'. Player_new rate (Some (recording [e, f])) False False = Some p \<and>
    replay 2 rate p = Some ([(True, e, 0), (True, f, 0)], p')"
proof -
  have s: "list_all small_envelope [e, f]" using assms by simp
  then have l: "length (recording [e, f]) < 2 ^ 64" by (rule length_recording_small) simp
  obtain p where p: "Player_new rate (Some (recording [e, f])) False False = Some p" "at_call [e, f] 0 p"
    "\<not> pl_autoRewind p"
    using Player_new_at_call [OF s _ l, of rate False] by auto
  have o: "replay_order [e, f] = [e, f]" using assms(3) by (simp add: replay_order_def sort_key_def)
  have "ucast (push_bit 32 gap :: uint64) = (0 :: uint32)"
    by (rule bit_word_eqI) (simp add: bit_simps)
  then have "replayed False [e, f] 0 = (True, e, 0)" "replayed False [e, f] 1 = (True, f, 0)"
    by (simp_all add: replayed_def o assms(4))
  moreover have "[0..<2] = [0, 1 :: nat]" by (simp add: upt_rec)
  ultimately have m: "map (replayed False [e, f]) [0..<2] = [(True, e, 0), (True, f, 0)]"
    by (simp only: list.map)
  have "[e, f] \<noteq> []" by simp
  from replay_at_call [OF this p(2), of 2 rate] p(3) obtain p' where
    "replay 2 rate p = Some (map (replayed False [e, f]) [0..<2], p')"
    by (metis (full_types) add_0)
  then show ?thesis using p(1) unfolding m by blast
qed

theorem player_long_gap_witness:
  "\<exists>p p'. Player_new some_rate (Some (recording [stamped 0 0, stamped 4294 967296])) False False = Some p \<and>
    replay 2 some_rate p = Some ([(True, stamped 0 0, 0), (True, stamped 4294 967296, 0)], p')"
proof (rule player_long_gap [OF small_stamped(1,4)])
  show "sint (sample_time (stamped 0 0)) \<le> sint (sample_time (stamped 4294 967296))"
    by (simp add: sample_time_def stamped_def toMicroseconds_def)
  show "sample_time (stamped 4294 967296) - sample_time (stamped 0 0) = push_bit 32 1"
    by (simp add: sample_time_def stamped_def toMicroseconds_def)
qed

end
