(* ===== verification/Pipeline.thy ===== *)
theory Pipeline
  imports Prelude
begin

text \<open>
  \<open>NotifyingPipeline\<close>: a queue between the threads that call \<open>add\<close> and \<open>notifyAll\<close> and one
  thread that calls a delegate for every entry. The worker is a function of the shared state, one
  atomic step at a time; the threads together are a step relation.
\<close>

section \<open>State\<close>

text \<open>
  The program counter of \<open>processPipeline\<close>, named after the statement that is next. \<open>W_sleep\<close> is
  the point in \<open>wait\<close> where the predicate has been found false and the mutex is still held;
  \<open>W_sleeping\<close> is the blocked thread, and \<open>W_wakeup\<close> a thread that was woken and has to lock the
  mutex again.
\<close>

datatype 'a worker_pc =
    W_start | W_while | W_lock | W_predicate | W_sleep | W_sleeping | W_wakeup | W_entries
  | W_for uint32 uint32 | W_front uint32 uint32 | W_delegate 'a uint32 uint32
  | W_pop uint32 uint32 | W_ended

text \<open>
  The other threads: the object is under construction, in use, or one thread is in its destructor
  (before \<open>notify_all\<close>, at \<open>join\<close>, behind it).
\<close>

datatype client_pc = C_constructing | C_ready | C_stopping | C_joining | C_destroyed

text \<open>
  \<open>p_mutex\<close> says whether the worker holds the mutex between two steps; the other threads hold it
  within one step only. \<open>p_undef\<close> records an access to the front of an empty deque. \<open>p_added\<close> and
  \<open>p_delivered\<close> are the calls of \<open>add\<close> and of the delegate so far.
\<close>

record 'a pipe =
  p_pipeline :: "'a list"
  p_running :: bool
  p_mutex :: bool
  p_worker :: "'a worker_pc"
  p_client :: client_pc
  p_undef :: bool
  p_added :: "'a list"
  p_delivered :: "'a list"

definition pipe_new :: "'a pipe" where
  "pipe_new =
     \<lparr>p_pipeline = [], p_running = False, p_mutex = False, p_worker = W_start,
      p_client = C_constructing, p_undef = False, p_added = [], p_delivered = []\<rparr>"

section \<open>The worker\<close>

text \<open>
  One step of \<open>processPipeline\<close>; \<open>None\<close> when the thread is blocked or has ended. \<open>hasDelegate\<close> is
  \<open>nullptr != m_delegate\<close>. A block \<open>lock; ...; unlock\<close> is one step.
\<close>

definition worker_step :: "bool \<Rightarrow> 'a pipe \<Rightarrow> 'a pipe option" where
  "worker_step hasDelegate s =
     (case p_worker s of
        W_start \<Rightarrow> Some (s\<lparr>p_running := True, p_worker := W_while\<rparr>)
      | W_while \<Rightarrow> Some (s\<lparr>p_worker := (if p_running s then W_lock else W_ended)\<rparr>)
      | W_lock \<Rightarrow> (if p_mutex s then None else Some (s\<lparr>p_mutex := True, p_worker := W_predicate\<rparr>))
      | W_predicate \<Rightarrow>
          (if \<not> p_running s \<or> p_pipeline s \<noteq> []
           then Some (s\<lparr>p_mutex := False, p_worker := W_entries\<rparr>)
           else Some (s\<lparr>p_worker := W_sleep\<rparr>))
      | W_sleep \<Rightarrow> Some (s\<lparr>p_mutex := False, p_worker := W_sleeping\<rparr>)
      | W_sleeping \<Rightarrow> None
      | W_wakeup \<Rightarrow> (if p_mutex s then None else Some (s\<lparr>p_mutex := True, p_worker := W_predicate\<rparr>))
      | W_entries \<Rightarrow>
          (if p_mutex s then None
           else Some (s\<lparr>p_worker := W_for 0 (of_nat (length (p_pipeline s)))\<rparr>))
      | W_for i n \<Rightarrow> Some (s\<lparr>p_worker := (if i < n then W_front i n else W_while)\<rparr>)
      | W_front i n \<Rightarrow>
          (if p_mutex s then None
           else case p_pipeline s of
                  [] \<Rightarrow> Some (s\<lparr>p_undef := True, p_worker := W_ended\<rparr>)
                | entry # _ \<Rightarrow> Some (s\<lparr>p_worker := W_delegate entry i n\<rparr>))
      | W_delegate entry i n \<Rightarrow>
          Some (s\<lparr>p_delivered := (if hasDelegate then p_delivered s @ [entry] else p_delivered s),
                  p_worker := W_pop i n\<rparr>)
      | W_pop i n \<Rightarrow>
          (if p_mutex s then None
           else case p_pipeline s of
                  [] \<Rightarrow> Some (s\<lparr>p_undef := True, p_worker := W_ended\<rparr>)
                | _ # q \<Rightarrow> Some (s\<lparr>p_pipeline := q, p_worker := W_for (i + 1) n\<rparr>))
      | W_ended \<Rightarrow> None)"

text \<open>The worker running alone for \<open>k\<close> steps, or until it is blocked.\<close>

primrec worker_run :: "bool \<Rightarrow> nat \<Rightarrow> 'a pipe \<Rightarrow> 'a pipe" where
  "worker_run d 0 s = s"
| "worker_run d (Suc k) s = (case worker_step d s of None \<Rightarrow> s | Some t \<Rightarrow> worker_run d k t)"

section \<open>The other threads\<close>

definition pipe_add :: "'a \<Rightarrow> 'a pipe \<Rightarrow> 'a pipe" where
  "pipe_add x s = s\<lparr>p_pipeline := p_pipeline s @ [x], p_added := p_added s @ [x]\<rparr>"

definition pipe_notifyAll :: "'a pipe \<Rightarrow> 'a pipe" where
  "pipe_notifyAll s =
     (case p_worker s of W_sleeping \<Rightarrow> s\<lparr>p_worker := W_wakeup\<rparr> | _ \<Rightarrow> s)"

definition pipe_isRunning :: "'a pipe \<Rightarrow> bool" where
  "pipe_isRunning s = p_running s"

text \<open>
  The steps of all threads. The constructor returns when the worker has set the flag; any number
  of threads may use the object then; the destructor clears the flag, notifies, and joins.
\<close>

inductive thread_step :: "bool \<Rightarrow> 'a pipe \<Rightarrow> 'a pipe \<Rightarrow> bool" for d where
  worker: "worker_step d s = Some t \<Longrightarrow> thread_step d s t"
| constructed: "p_client s = C_constructing \<Longrightarrow> p_running s \<Longrightarrow> thread_step d s (s\<lparr>p_client := C_ready\<rparr>)"
| add: "p_client s = C_ready \<Longrightarrow> \<not> p_mutex s \<Longrightarrow> thread_step d s (pipe_add x s)"
| notifyAll: "p_client s = C_ready \<Longrightarrow> thread_step d s (pipe_notifyAll s)"
| stop: "p_client s = C_ready \<Longrightarrow> thread_step d s (s\<lparr>p_running := False, p_client := C_stopping\<rparr>)"
| stopNotify: "p_client s = C_stopping \<Longrightarrow>
    thread_step d s ((pipe_notifyAll s)\<lparr>p_client := C_joining\<rparr>)"
| join: "p_client s = C_joining \<Longrightarrow> p_worker s = W_ended \<Longrightarrow>
    thread_step d s (s\<lparr>p_client := C_destroyed\<rparr>)"

inductive_cases thread_stepE: "thread_step d s t"

text \<open>A condition variable may also wake a thread without a notification.\<close>

inductive pipe_reachable :: "bool \<Rightarrow> 'a pipe \<Rightarrow> bool" for d where
  start: "pipe_reachable d pipe_new"
| step: "pipe_reachable d s \<Longrightarrow> thread_step d s t \<Longrightarrow> pipe_reachable d t"
| spurious: "pipe_reachable d s \<Longrightarrow> p_worker s = W_sleeping \<Longrightarrow>
    pipe_reachable d (s\<lparr>p_worker := W_wakeup\<rparr>)"

section \<open>Invariant\<close>

text \<open>
  What holds at each point of the worker: who holds the mutex, how many entries the loop has left
  to take, and that nothing is queued while the worker goes to sleep.
\<close>

definition worker_inv :: "'a pipe \<Rightarrow> bool" where
  "worker_inv s =
     (case p_worker s of
        W_predicate \<Rightarrow> p_mutex s
      | W_sleep \<Rightarrow> p_mutex s \<and> p_pipeline s = []
      | W_for i n \<Rightarrow> \<not> p_mutex s \<and> i \<le> n \<and> unat n - unat i \<le> length (p_pipeline s)
      | W_front i n \<Rightarrow> \<not> p_mutex s \<and> i < n \<and> unat n - unat i \<le> length (p_pipeline s)
      | W_delegate e i n \<Rightarrow>
          \<not> p_mutex s \<and> i < n \<and> unat n - unat i \<le> length (p_pipeline s) \<and> hd (p_pipeline s) = e
      | W_pop i n \<Rightarrow> \<not> p_mutex s \<and> i < n \<and> unat n - unat i \<le> length (p_pipeline s)
      | _ \<Rightarrow> \<not> p_mutex s)"

text \<open>
  The entries taken from the queue so far are those that were added first; they and, between the
  call of the delegate and \<open>pop_front\<close>, the first in the queue have been delivered.
\<close>

definition in_flight :: "'a pipe \<Rightarrow> 'a list" where
  "in_flight s = (case p_worker s of W_pop i n \<Rightarrow> [hd (p_pipeline s)] | _ \<Rightarrow> [])"

definition seen :: "bool \<Rightarrow> 'a list \<Rightarrow> 'a list" where
  "seen d xs = (if d then xs else [])"

lemma seen_simps [simp]:
  "seen d [] = []" "seen d (xs @ ys) = seen d xs @ seen d ys"
  "(if d then zs @ xs else zs) = zs @ seen d xs"
  by (simp_all add: seen_def)

definition queue_inv :: "bool \<Rightarrow> 'a pipe \<Rightarrow> bool" where
  "queue_inv d s \<longleftrightarrow>
     (\<exists>taken. p_added s = taken @ p_pipeline s \<and> p_delivered s = seen d (taken @ in_flight s))"

definition client_inv :: "'a pipe \<Rightarrow> bool" where
  "client_inv s \<longleftrightarrow>
     (p_client s = C_ready \<longrightarrow> p_running s) \<and>
     (p_client s \<in> {C_stopping, C_joining, C_destroyed} \<longrightarrow> \<not> p_running s) \<and>
     (p_worker s = W_start \<longrightarrow> p_client s = C_constructing \<and> \<not> p_running s) \<and>
     (p_worker s = W_ended \<longrightarrow> \<not> p_running s) \<and> (p_client s = C_constructing \<longrightarrow> p_running s \<or> p_worker s = W_start)"

definition pipe_inv :: "bool \<Rightarrow> 'a pipe \<Rightarrow> bool" where
  "pipe_inv d s \<longleftrightarrow> \<not> p_undef s \<and> worker_inv s \<and> queue_inv d s \<and> client_inv s"

lemmas pipe_inv_defs = pipe_inv_def worker_inv_def client_inv_def

lemma unat_add_one: "i < n \<Longrightarrow> unat (i + 1) = Suc (unat (i :: uint32))"
proof -
  assume "i < n"
  then have "unat i + 1 < 2 ^ 32"
    using unsigned_less [of n, where 'a = nat] by (simp add: word_less_nat_alt)
  then show ?thesis by (simp add: unat_word_ariths)
qed

lemma index_step:
  fixes i n :: uint32
  assumes "i < n"
  shows "i + 1 \<le> n" and "unat n - unat (i + 1) = unat n - unat i - 1" and "0 < unat n - unat i"
  using assms unat_add_one [OF assms] by (auto simp: word_le_nat_alt word_less_nat_alt)

lemma unat_of_nat_le: "unat (of_nat k :: uint32) \<le> k"
  by (simp add: unat_of_nat)

lemma queue_inv_same:
  "queue_inv d s \<Longrightarrow> p_added t = p_added s \<Longrightarrow> p_pipeline t = p_pipeline s \<Longrightarrow>
     p_delivered t = p_delivered s \<Longrightarrow> in_flight t = in_flight s \<Longrightarrow> queue_inv d t"
  unfolding queue_inv_def by simp

text \<open>While the loop runs, the queue is not empty.\<close>

lemma loop_not_empty:
  assumes "worker_inv s"
    and "p_worker s = W_front i n \<or> p_worker s = W_pop i n \<or> p_worker s = W_delegate x i n"
  obtains e q where "p_pipeline s = e # q" and "i < n" and "unat n - unat i \<le> Suc (length q)"
proof -
  have n: "i < n" "unat n - unat i \<le> length (p_pipeline s)"
    using assms by (auto simp: worker_inv_def)
  then have "p_pipeline s \<noteq> []" using index_step(3) [OF n(1)] by auto
  then show thesis using n that by (cases "p_pipeline s") auto
qed

lemma worker_step_queue:
  assumes w: "worker_inv s" and q: "queue_inv d s" and s: "worker_step d s = Some t"
  shows "queue_inv d t \<and> p_undef t = p_undef s \<and> p_client t = p_client s"
proof (cases "p_worker s")
  case (W_pop i n)
  obtain e r where r: "p_pipeline s = e # r" using loop_not_empty [OF w] W_pop by metis
  have t: "t = s\<lparr>p_pipeline := r, p_worker := W_for (i + 1) n\<rparr>"
    using w s by (simp add: worker_step_def W_pop r worker_inv_def)
  obtain taken where "p_added s = taken @ e # r" "p_delivered s = seen d (taken @ [e])"
    using q by (auto simp: queue_inv_def in_flight_def W_pop r simp del: seen_simps)
  moreover have "in_flight t = []" "p_added t = p_added s" "p_delivered t = p_delivered s"
    "p_pipeline t = r" by (simp_all add: t in_flight_def)
  ultimately have "p_added t = (taken @ [e]) @ p_pipeline t \<and>
      p_delivered t = seen d ((taken @ [e]) @ in_flight t)"
    by simp
  then have "queue_inv d t" unfolding queue_inv_def by blast
  then show ?thesis by (simp add: t)
next
  case (W_delegate e i n)
  obtain r where r: "p_pipeline s = e # r"
    using loop_not_empty [OF w] W_delegate w by (auto simp: worker_inv_def) (metis list.sel(1))
  have t: "t = s\<lparr>p_delivered := p_delivered s @ seen d [e], p_worker := W_pop i n\<rparr>"
    using s by (simp add: worker_step_def W_delegate)
  obtain taken where "p_added s = taken @ e # r" "p_delivered s = seen d taken"
    using q by (auto simp: queue_inv_def in_flight_def W_delegate r)
  then have "p_added t = taken @ p_pipeline t" "p_delivered t = seen d (taken @ in_flight t)"
    by (simp_all add: t in_flight_def r)
  then show ?thesis unfolding queue_inv_def by (auto simp: t)
next
  case (W_front i n)
  obtain e r where r: "p_pipeline s = e # r" using loop_not_empty [OF w] W_front by metis
  have t: "t = s\<lparr>p_worker := W_delegate e i n\<rparr>"
    using w s by (simp add: worker_step_def W_front r worker_inv_def)
  then show ?thesis
    using queue_inv_same [OF q, of t] by (simp add: t in_flight_def W_front)
qed (use queue_inv_same [OF q, of t] s in \<open>auto simp: worker_step_def in_flight_def split: if_splits\<close>)

lemma worker_step_worker:
  assumes w: "worker_inv s" and s: "worker_step d s = Some t"
  shows "worker_inv t"
proof (cases "p_worker s")
  case (W_pop i n)
  obtain e r where r: "p_pipeline s = e # r" "i < n" "unat n - unat i \<le> Suc (length r)"
    using loop_not_empty [OF w] W_pop by metis
  have "t = s\<lparr>p_pipeline := r, p_worker := W_for (i + 1) n\<rparr>"
    using w s by (simp add: worker_step_def W_pop r worker_inv_def)
  then show ?thesis using w index_step [OF r(2)] r(3) by (simp add: worker_inv_def W_pop)
next
  case (W_front i n)
  obtain e r where r: "p_pipeline s = e # r" using loop_not_empty [OF w] W_front by metis
  have "t = s\<lparr>p_worker := W_delegate e i n\<rparr>"
    using w s by (simp add: worker_step_def W_front r worker_inv_def)
  then show ?thesis using w by (simp add: worker_inv_def W_front r)
next
  case W_entries
  then show ?thesis using w s unat_of_nat_le by (auto simp: worker_inv_def worker_step_def)
qed (use w s in \<open>auto simp: worker_step_def worker_inv_def split: if_splits\<close>)

lemma worker_step_client:
  "worker_inv s \<Longrightarrow> client_inv s \<Longrightarrow> worker_step d s = Some t \<Longrightarrow> client_inv t"
  by (cases "p_worker s"; cases "p_client s")
    (auto simp: worker_step_def client_inv_def split: if_splits list.splits elim: loop_not_empty)

lemma worker_step_inv: "pipe_inv d s \<Longrightarrow> worker_step d s = Some t \<Longrightarrow> pipe_inv d t"
  using worker_step_queue worker_step_worker worker_step_client by (metis pipe_inv_def)

text \<open>The steps of the other threads.\<close>

lemma notifyAll_sel [simp]:
  "p_pipeline (pipe_notifyAll s) = p_pipeline s" "p_running (pipe_notifyAll s) = p_running s"
  "p_mutex (pipe_notifyAll s) = p_mutex s" "p_client (pipe_notifyAll s) = p_client s"
  "p_undef (pipe_notifyAll s) = p_undef s" "p_added (pipe_notifyAll s) = p_added s"
  "p_delivered (pipe_notifyAll s) = p_delivered s"
  "p_worker (pipe_notifyAll s) = (if p_worker s = W_sleeping then W_wakeup else p_worker s)"
  by (simp_all add: pipe_notifyAll_def split: worker_pc.split)

lemma in_flight_cong:
  "p_worker t = p_worker s \<Longrightarrow> p_pipeline t = p_pipeline s \<Longrightarrow> in_flight t = in_flight s"
  by (cases "p_worker s") (simp_all add: in_flight_def)

lemma worker_inv_cong:
  "worker_inv s \<Longrightarrow> p_worker t = p_worker s \<Longrightarrow> p_pipeline t = p_pipeline s \<Longrightarrow>
     p_mutex t = p_mutex s \<Longrightarrow> worker_inv t"
  by (cases "p_worker s") (simp_all add: worker_inv_def)

lemma wakeup_inv: "pipe_inv d s \<Longrightarrow> p_worker s = W_sleeping \<Longrightarrow> pipe_inv d (s\<lparr>p_worker := W_wakeup\<rparr>)"
  using queue_inv_same [of d s "s\<lparr>p_worker := W_wakeup\<rparr>"]
  by (auto simp: pipe_inv_def worker_inv_def client_inv_def in_flight_def)

lemma notifyAll_cases:
  "pipe_notifyAll s = (if p_worker s = W_sleeping then s\<lparr>p_worker := W_wakeup\<rparr> else s)"
  by (simp add: pipe_notifyAll_def split: worker_pc.split)

lemma notifyAll_inv: "pipe_inv d s \<Longrightarrow> pipe_inv d (pipe_notifyAll s)"
  by (simp add: notifyAll_cases wakeup_inv)

lemma client_change_inv:
  assumes "pipe_inv d s" and "client_inv t" and "p_worker t = p_worker s"
    and "p_pipeline t = p_pipeline s" and "p_mutex t = p_mutex s" and "p_undef t = p_undef s"
    and "p_added t = p_added s" and "p_delivered t = p_delivered s"
  shows "pipe_inv d t"
  unfolding pipe_inv_def
proof (intro conjI)
  show "queue_inv d t"
    by (rule queue_inv_same [of d s]) (use assms in \<open>simp_all add: pipe_inv_def in_flight_cong [of t s]\<close>)
  show "worker_inv t"
    by (rule worker_inv_cong [of s]) (use assms in \<open>simp_all add: pipe_inv_def\<close>)
  show "\<not> p_undef t" "client_inv t" using assms by (simp_all add: pipe_inv_def)
qed

lemma add_inv:
  assumes i: "pipe_inv d s" and m: "\<not> p_mutex s"
  shows "pipe_inv d (pipe_add x s)"
proof -
  obtain taken where t: "p_added s = taken @ p_pipeline s" "p_delivered s = seen d (taken @ in_flight s)"
    using i by (auto simp: pipe_inv_def queue_inv_def)
  have w: "worker_inv s" using i by (simp add: pipe_inv_def)
  have f: "in_flight (pipe_add x s) = in_flight s"
  proof (cases "p_worker s")
    case (W_pop i n)
    obtain e r where "p_pipeline s = e # r" using loop_not_empty [OF w] W_pop by metis
    then show ?thesis using W_pop by (simp add: in_flight_def pipe_add_def)
  qed (simp_all add: in_flight_def pipe_add_def)
  have "p_added (pipe_add x s) = taken @ p_pipeline (pipe_add x s) \<and>
      p_delivered (pipe_add x s) = seen d (taken @ in_flight (pipe_add x s))"
    using t f by (simp add: pipe_add_def)
  then have "queue_inv d (pipe_add x s)" unfolding queue_inv_def by blast
  moreover have "worker_inv (pipe_add x s)"
  proof (cases "p_worker s")
    case (W_delegate e i n)
    then obtain e' r where "p_pipeline s = e' # r" using loop_not_empty [OF w] by metis
    then show ?thesis using w W_delegate by (auto simp: worker_inv_def pipe_add_def)
  qed (use w m in \<open>auto simp: worker_inv_def pipe_add_def\<close>)
  ultimately show ?thesis using i by (auto simp: pipe_inv_def client_inv_def pipe_add_def)
qed

lemma thread_step_inv:
  assumes i: "pipe_inv d s" and "thread_step d s t"
  shows "pipe_inv d t"
  using assms(2)
proof (cases rule: thread_step.cases)
  case worker
  then show ?thesis using worker_step_inv [OF i] by blast
next
  case constructed
  then show ?thesis
    using i by (intro client_change_inv [OF i]) (auto simp: pipe_inv_def client_inv_def)
next
  case (add x)
  then show ?thesis using add_inv [OF i] by simp
next
  case notifyAll
  then show ?thesis using notifyAll_inv [OF i] by simp
next
  case stop
  then show ?thesis
    using i by (intro client_change_inv [OF i]) (auto simp: pipe_inv_def client_inv_def)
next
  case stopNotify
  then show ?thesis
    using i by (intro client_change_inv [OF notifyAll_inv [OF i]]) (auto simp: pipe_inv_def client_inv_def)
next
  case join
  then show ?thesis
    using i by (intro client_change_inv [OF i]) (auto simp: pipe_inv_def client_inv_def)
qed

lemma reachable_inv: "pipe_reachable d s \<Longrightarrow> pipe_inv d s"
proof (induction rule: pipe_reachable.induct)
  case start
  show ?case by (simp add: pipe_inv_defs queue_inv_def in_flight_def pipe_new_def)
next
  case (step s t)
  then show ?case by (blast intro: thread_step_inv)
next
  case (spurious s)
  then show ?case by (blast intro: wakeup_inv)
qed

section \<open>What the worker does alone\<close>

lemma worker_run_add: "worker_run d (j + k) s = worker_run d k (worker_run d j s)"
proof (induction j arbitrary: s)
  case (Suc j)
  show ?case
  proof (cases "worker_step d s")
    case None
    then have "worker_run d k s = s" by (cases k) simp_all
    with None show ?thesis by simp
  qed (simp add: Suc)
qed simp

definition runs_to :: "bool \<Rightarrow> 'a pipe \<Rightarrow> 'a pipe \<Rightarrow> bool" where
  "runs_to d s t \<longleftrightarrow> (\<exists>k. worker_run d k s = t)"

lemma runs_to_refl [intro]: "runs_to d s s"
  unfolding runs_to_def by (rule exI [of _ 0]) simp

lemma runs_to_trans [trans]: "runs_to d s t \<Longrightarrow> runs_to d t u \<Longrightarrow> runs_to d s u"
  unfolding runs_to_def by (metis worker_run_add)

lemma runs_to_step: "worker_step d s = Some t \<Longrightarrow> runs_to d t u \<Longrightarrow> runs_to d s u"
  unfolding runs_to_def by (metis worker_run.simps(2) option.simps(5))

text \<open>A turn of the loop takes the first entry from the queue and delivers it.\<close>

lemma loop_turn:
  assumes "p_worker s = W_for i n" and "i < n" and "\<not> p_mutex s" and "p_pipeline s = e # q"
  shows "runs_to d s (s\<lparr>p_pipeline := q, p_delivered := p_delivered s @ seen d [e],
    p_worker := W_for (i + 1) n\<rparr>)"
proof -
  let ?s1 = "s\<lparr>p_worker := W_front i n\<rparr>" and ?s2 = "s\<lparr>p_worker := W_delegate e i n\<rparr>"
  let ?s3 = "s\<lparr>p_delivered := p_delivered s @ seen d [e], p_worker := W_pop i n\<rparr>"
  have "worker_step d s = Some ?s1" using assms by (simp add: worker_step_def)
  moreover have "worker_step d ?s1 = Some ?s2" using assms by (simp add: worker_step_def)
  moreover have "worker_step d ?s2 = Some ?s3" using assms by (simp add: worker_step_def)
  moreover have "worker_step d ?s3 = Some (s\<lparr>p_pipeline := q,
      p_delivered := p_delivered s @ seen d [e], p_worker := W_for (i + 1) n\<rparr>)"
    using assms by (simp add: worker_step_def)
  ultimately show ?thesis by (meson runs_to_refl runs_to_step)
qed

text \<open>The loop from \<open>i\<close> on takes \<open>n - i\<close> entries, then the outer loop tests its flag.\<close>

lemma loop_runs:
  assumes "p_worker s = W_for i n" and "i \<le> n" and "\<not> p_mutex s"
    and "unat n - unat i = k" and "k \<le> length (p_pipeline s)"
  shows "runs_to d s (s\<lparr>p_pipeline := drop k (p_pipeline s),
    p_delivered := p_delivered s @ seen d (take k (p_pipeline s)), p_worker := W_while\<rparr>)"
  using assms
proof (induction k arbitrary: s i)
  case 0
  then have "\<not> i < n" by (simp add: word_less_nat_alt)
  then have "worker_step d s = Some (s\<lparr>p_worker := W_while\<rparr>)"
    using "0.prems" by (simp add: worker_step_def)
  from runs_to_step [OF this runs_to_refl] show ?case by simp
next
  case (Suc k)
  then have i: "i < n" by (auto simp: word_less_nat_alt)
  obtain e q where q: "p_pipeline s = e # q" using Suc.prems(5) by (cases "p_pipeline s") auto
  let ?t = "s\<lparr>p_pipeline := q, p_delivered := p_delivered s @ seen d [e], p_worker := W_for (i + 1) n\<rparr>"
  have "runs_to d s ?t" by (rule loop_turn [OF Suc.prems(1) i Suc.prems(3) q])
  also have "runs_to d ?t (?t\<lparr>p_pipeline := drop k (p_pipeline ?t),
      p_delivered := p_delivered ?t @ seen d (take k (p_pipeline ?t)), p_worker := W_while\<rparr>)"
    using Suc.prems index_step [OF i] by (intro Suc.IH [where i = "i + 1"]) (auto simp: q)
  also have "seen d [e] @ seen d (take k q) = seen d (take (Suc k) (e # q))"
    by (simp add: seen_def)
  then have "?t\<lparr>p_pipeline := drop k (p_pipeline ?t),
      p_delivered := p_delivered ?t @ seen d (take k (p_pipeline ?t)), p_worker := W_while\<rparr> =
    s\<lparr>p_pipeline := drop (Suc k) (p_pipeline s),
      p_delivered := p_delivered s @ seen d (take (Suc k) (p_pipeline s)), p_worker := W_while\<rparr>"
    by (simp add: q)
  finally show ?case .
qed

text \<open>From every point inside the loop the outer loop is reached.\<close>

lemma loop_leaves:
  assumes i: "pipe_inv d s" and "p_worker s \<in> range (case_prod W_for) \<union> range (case_prod W_front) \<union>
      range (case_prod W_pop) \<union> range (\<lambda>(e, i, n). W_delegate e i n)"
  shows "\<exists>t. runs_to d s t \<and> p_worker t = W_while"
proof -
  have w: "worker_inv s" using i by (simp add: pipe_inv_def)
  have for_leaves: "\<exists>t. runs_to d s t \<and> p_worker t = W_while"
    if wi: "worker_inv s" and pc: "p_worker s = W_for i n" for s :: "'a pipe" and i n
    using wi pc loop_runs [of s i n "unat n - unat i" d] by (force simp: worker_inv_def)
  have pop_leaves: "\<exists>t. runs_to d s t \<and> p_worker t = W_while"
    if wi: "worker_inv s" and pc: "p_worker s = W_pop i n" for s :: "'a pipe" and i n
  proof -
    obtain e q where q: "p_pipeline s = e # q" using loop_not_empty [OF wi] pc by metis
    let ?t = "s\<lparr>p_pipeline := q, p_worker := W_for (i + 1) n\<rparr>"
    have st: "worker_step d s = Some ?t"
      using wi pc by (simp add: worker_step_def q worker_inv_def)
    then show ?thesis
      using for_leaves [of ?t "i + 1" n] worker_step_worker [OF wi st] runs_to_step [OF st] by auto
  qed
  have del_leaves: "\<exists>t. runs_to d s t \<and> p_worker t = W_while"
    if wi: "worker_inv s" and pc: "p_worker s = W_delegate e i n" for s :: "'a pipe" and e i n
  proof -
    obtain t where st: "worker_step d s = Some t" and "p_worker t = W_pop i n"
      using wi pc by (simp add: worker_step_def)
    then show ?thesis
      using pop_leaves [of t i n] worker_step_worker [OF wi st] runs_to_step [OF st] by auto
  qed
  have front_leaves: "\<exists>t. runs_to d s t \<and> p_worker t = W_while"
    if wi: "worker_inv s" and pc: "p_worker s = W_front i n" for s :: "'a pipe" and i n
  proof -
    obtain e q where q: "p_pipeline s = e # q" using loop_not_empty [OF wi] pc by metis
    have st: "worker_step d s = Some (s\<lparr>p_worker := W_delegate e i n\<rparr>)"
      using wi pc by (simp add: worker_step_def q worker_inv_def)
    then show ?thesis
      using del_leaves [of "s\<lparr>p_worker := W_delegate e i n\<rparr>" e i n] worker_step_worker [OF wi st]
        runs_to_step [OF st] by auto
  qed
  show ?thesis using assms(2) w for_leaves pop_leaves del_leaves front_leaves by auto
qed

lemma worker_step_frame:
  "worker_step d s = Some t \<Longrightarrow>
     p_added t = p_added s \<and> length (p_pipeline t) \<le> length (p_pipeline s) \<and>
     (p_worker s \<noteq> W_start \<longrightarrow> p_running t = p_running s) \<and> p_worker t \<noteq> W_start"
  by (cases "p_worker s") (auto simp: worker_step_def split: if_splits list.splits)

lemma worker_run_keeps:
  assumes "pipe_inv d s" and "p_worker s \<noteq> W_start" and "runs_to d s t"
  shows "pipe_inv d t" and "p_added t = p_added s" and "p_running t = p_running s"
    and "length (p_pipeline t) \<le> length (p_pipeline s)" and "p_worker t \<noteq> W_start"
proof -
  obtain k where "worker_run d k s = t" using assms(3) by (auto simp: runs_to_def)
  then have "pipe_inv d t \<and> p_added t = p_added s \<and> p_running t = p_running s \<and>
      length (p_pipeline t) \<le> length (p_pipeline s) \<and> p_worker t \<noteq> W_start"
    using assms(1,2)
  proof (induction k arbitrary: s)
    case (Suc k)
    show ?case
    proof (cases "worker_step d s")
      case (Some u)
      from Suc.IH [of u] show ?thesis
        using Suc.prems Some worker_step_frame [OF Some] worker_step_inv [OF Suc.prems(2) Some] by auto
    qed (use Suc.prems in auto)
  qed simp
  then show "pipe_inv d t" "p_added t = p_added s" "p_running t = p_running s"
    "length (p_pipeline t) \<le> length (p_pipeline s)" "p_worker t \<noteq> W_start" by auto
qed

lemma entries_leave:
  assumes "pipe_inv d s" and "p_worker s = W_entries"
  shows "\<exists>t. runs_to d s t \<and> p_worker t = W_while"
proof -
  let ?t = "s\<lparr>p_worker := W_for 0 (of_nat (length (p_pipeline s)))\<rparr>"
  have st: "worker_step d s = Some ?t"
    using assms by (simp add: worker_step_def pipe_inv_def worker_inv_def)
  have "p_worker ?t \<in> range (case_prod W_for)" by (simp add: image_iff)
  then show ?thesis
    using loop_leaves [OF worker_step_inv [OF assms(1) st]] runs_to_step [OF st] by blast
qed

lemma predicate_leaves:
  assumes "pipe_inv d s" and "p_worker s = W_predicate" and "\<not> p_running s \<or> p_pipeline s \<noteq> []"
  shows "\<exists>t. runs_to d s t \<and> p_worker t = W_while"
proof -
  let ?t = "s\<lparr>p_mutex := False, p_worker := W_entries\<rparr>"
  have st: "worker_step d s = Some ?t" using assms by (auto simp: worker_step_def)
  show ?thesis
    using entries_leave [OF worker_step_inv [OF assms(1) st]] runs_to_step [OF st] by auto
qed

lemma lock_leaves:
  assumes "pipe_inv d s" and "p_worker s = W_lock \<or> p_worker s = W_wakeup"
    and "\<not> p_running s \<or> p_pipeline s \<noteq> []"
  shows "\<exists>t. runs_to d s t \<and> p_worker t = W_while"
proof -
  let ?t = "s\<lparr>p_mutex := True, p_worker := W_predicate\<rparr>"
  have st: "worker_step d s = Some ?t"
    using assms by (auto simp: worker_step_def pipe_inv_def worker_inv_def)
  show ?thesis
    using predicate_leaves [OF worker_step_inv [OF assms(1) st]] runs_to_step [OF st] assms(3) by auto
qed

text \<open>Unless the worker sleeps it comes back to the test of the outer loop.\<close>

lemma reaches_while:
  assumes i: "pipe_inv d s" and "\<not> p_running s \<or> p_pipeline s \<noteq> []"
    and "p_worker s \<notin> {W_sleep, W_sleeping, W_start, W_ended}"
  shows "\<exists>t. runs_to d s t \<and> p_worker t = W_while"
proof (cases "p_worker s")
  case (W_for j n)
  then have "p_worker s \<in> range (case_prod W_for)" by (simp add: image_iff)
  then show ?thesis using loop_leaves [OF i] by blast
next
  case (W_front j n)
  then have "p_worker s \<in> range (case_prod W_front)" by (simp add: image_iff)
  then show ?thesis using loop_leaves [OF i] by blast
next
  case (W_pop j n)
  then have "p_worker s \<in> range (case_prod W_pop)" by (simp add: image_iff)
  then show ?thesis using loop_leaves [OF i] by blast
next
  case (W_delegate e j n)
  then have "p_worker s \<in> range (\<lambda>(e, i, n). W_delegate e i n)" by (simp add: image_iff)
  then show ?thesis using loop_leaves [OF i] by blast
qed (use assms(2,3) lock_leaves [OF i] predicate_leaves [OF i] entries_leave [OF i] in auto)

text \<open>From that test on, with entries in the queue, one round empties the queue.\<close>

lemma round_empties:
  assumes "pipe_inv d s" and "p_worker s = W_while" and "p_running s"
    and "length (p_pipeline s) < 2 ^ 32" and "p_pipeline s \<noteq> []"
  shows "\<exists>t. runs_to d s t \<and> p_worker t = W_while \<and> p_pipeline t = []"
proof -
  let ?xs = "p_pipeline s"
  let ?n = "of_nat (length ?xs) :: uint32"
  have m: "\<not> p_mutex s" using assms(1,2) by (simp add: pipe_inv_def worker_inv_def)
  have n: "unat ?n = length ?xs"
    using assms(4) by (simp add: unat_of_nat)
  let ?s1 = "s\<lparr>p_worker := W_lock\<rparr>" and ?s2 = "s\<lparr>p_mutex := True, p_worker := W_predicate\<rparr>"
  let ?s3 = "s\<lparr>p_mutex := False, p_worker := W_entries\<rparr>"
  let ?s4 = "s\<lparr>p_mutex := False, p_worker := W_for 0 ?n\<rparr>"
  have "worker_step d s = Some ?s1" "worker_step d ?s1 = Some ?s2" "worker_step d ?s2 = Some ?s3"
    "worker_step d ?s3 = Some ?s4"
    using assms m by (simp_all add: worker_step_def)
  then have "runs_to d s ?s4" by (meson runs_to_refl runs_to_step)
  also have "runs_to d ?s4 (?s4\<lparr>p_pipeline := drop (length ?xs) (p_pipeline ?s4),
      p_delivered := p_delivered ?s4 @ seen d (take (length ?xs) (p_pipeline ?s4)), p_worker := W_while\<rparr>)"
    by (rule loop_runs [where i = 0 and n = ?n]) (simp_all add: n)
  finally show ?thesis by (intro exI conjI) (assumption, simp_all)
qed

lemma empty_delivered:
  assumes "pipe_inv d s" and "p_pipeline s = []"
  shows "p_delivered s = seen d (p_added s)"
proof -
  have "in_flight s = []"
    using assms loop_not_empty [of s] by (cases "p_worker s") (fastforce simp: in_flight_def pipe_inv_def)+
  then show ?thesis using assms by (simp add: pipe_inv_def queue_inv_def)
qed

lemma delivers_all:
  assumes i: "pipe_inv d s" and r: "p_running s" and n: "length (p_pipeline s) < 2 ^ 32"
    and w: "p_worker s \<noteq> W_sleeping"
  shows "\<exists>t. runs_to d s t \<and> p_delivered t = seen d (p_added s)"
proof (cases "p_pipeline s = []")
  case True
  then show ?thesis using empty_delivered [OF i] by blast
next
  case False
  have st: "p_worker s \<noteq> W_start" and "p_worker s \<notin> {W_sleep, W_sleeping, W_start, W_ended}"
    using i r w False by (auto simp: pipe_inv_def worker_inv_def client_inv_def)
  then obtain t where t: "runs_to d s t" "p_worker t = W_while"
    using reaches_while [OF i] False by blast
  note k = worker_run_keeps [OF i st t(1)]
  show ?thesis
  proof (cases "p_pipeline t = []")
    case True
    then show ?thesis using empty_delivered [OF k(1)] t(1) k(2) by metis
  next
    case ne: False
    obtain u where u: "runs_to d t u" "p_pipeline u = []"
      using round_empties [OF k(1) t(2) _ _ ne] k(3,4) r n by auto
    have "p_worker t \<noteq> W_start" using t(2) by simp
    note l = worker_run_keeps [OF k(1) this u(1)]
    have "runs_to d s u" using t(1) u(1) by (rule runs_to_trans)
    then show ?thesis using empty_delivered [OF l(1) u(2)] l(2) k(2) by metis
  qed
qed

lemma notifyAll_awake: "p_worker (pipe_notifyAll s) \<noteq> W_sleeping"
  by simp

lemma asleep_stays: "p_worker s \<in> {W_sleep, W_sleeping} \<Longrightarrow> p_worker (worker_run d k s) \<in> {W_sleep, W_sleeping}"
proof (induction k arbitrary: s)
  case (Suc k)
  show ?case
  proof (cases "worker_step d s")
    case (Some t)
    then have "p_worker t = W_sleeping" using Suc.prems by (auto simp: worker_step_def)
    then show ?thesis using Suc.IH [of t] Some by simp
  qed (use Suc.prems in auto)
qed simp

text \<open>Two states of a run: an entry was added before the worker locks; the destructor joins.\<close>

definition pipe_sample :: "nat pipe" where
  "pipe_sample = \<lparr>p_pipeline = [5], p_running = True, p_mutex = False, p_worker = W_while,
     p_client = C_ready, p_undef = False, p_added = [5], p_delivered = []\<rparr>"

lemma pipe_sample_reachable:
  "pipe_reachable d pipe_sample"
  "pipe_reachable d (pipe_sample\<lparr>p_running := False, p_client := C_joining\<rparr>)"
proof -
  have "worker_step d pipe_new = Some (pipe_new\<lparr>p_running := True, p_worker := W_while\<rparr> :: nat pipe)"
    by (simp add: worker_step_def pipe_new_def)
  from pipe_reachable.step [OF pipe_reachable.start thread_step.worker [OF this]]
  have "pipe_reachable d (pipe_new\<lparr>p_running := True, p_worker := W_while\<rparr> :: nat pipe)" .
  from pipe_reachable.step [OF this thread_step.constructed]
  have "pipe_reachable d (pipe_new\<lparr>p_running := True, p_worker := W_while, p_client := C_ready\<rparr> :: nat pipe)"
    by (simp add: pipe_new_def)
  from pipe_reachable.step [OF this thread_step.add [of _ _ 5]]
  show s: "pipe_reachable d pipe_sample" by (simp add: pipe_new_def pipe_sample_def pipe_add_def)
  from pipe_reachable.step [OF s thread_step.stop]
  have "pipe_reachable d (pipe_sample\<lparr>p_running := False, p_client := C_stopping\<rparr>)"
    by (simp add: pipe_sample_def)
  from pipe_reachable.step [OF this thread_step.stopNotify]
  show "pipe_reachable d (pipe_sample\<lparr>p_running := False, p_client := C_joining\<rparr>)"
    by (simp add: pipe_sample_def pipe_notifyAll_def)
qed

section \<open>Properties\<close>

text \<open>
  C5: In every interleaving of the threads the delegate is called for the entries in the order in
  which they were added, for each exactly once, and the worker never takes the front of an empty
  queue.
\<close>

theorem pipeline_fifo:
  assumes "pipe_reachable d s"
  shows "\<not> p_undef s \<and>
    (\<exists>taken. p_added s = taken @ p_pipeline s \<and>
       p_delivered s = (if d then taken @ (case p_worker s of W_pop i n \<Rightarrow> [hd (p_pipeline s)] | _ \<Rightarrow> []) else []))"
  using reachable_inv [OF assms]
  unfolding pipe_inv_def queue_inv_def in_flight_def seen_def by blast

text \<open>
  C25: Once \<open>notifyAll\<close> has been called, the worker alone delivers every entry added before, from
  every state the object can be in while it is in use.
\<close>

theorem pipeline_delivers:
  assumes "pipe_reachable True s" and "p_client s = C_ready" and "length (p_pipeline s) < 2 ^ 32"
  shows "\<exists>k. p_delivered (worker_run True k (pipe_notifyAll s)) = p_added s"
proof -
  have i: "pipe_inv True (pipe_notifyAll s)" by (rule notifyAll_inv [OF reachable_inv [OF assms(1)]])
  have "p_running s" using reachable_inv [OF assms(1)] assms(2) by (simp add: pipe_inv_def client_inv_def)
  with assms(3) obtain t where "runs_to True (pipe_notifyAll s) t" "p_delivered t = p_added s"
    using delivers_all [OF i _ _ notifyAll_awake] by (auto simp: seen_def)
  then show ?thesis by (auto simp: runs_to_def)
qed

text \<open>
  C30: A destructor that waits for the worker returns if and only if the worker is not about to
  sleep or asleep.
\<close>

theorem pipeline_join:
  assumes "pipe_reachable d s" and "p_client s = C_joining"
  shows "(\<exists>k. p_worker (worker_run d k s) = W_ended) \<longleftrightarrow> p_worker s \<notin> {W_sleep, W_sleeping}"
proof
  assume "\<exists>k. p_worker (worker_run d k s) = W_ended"
  then obtain k where k: "p_worker (worker_run d k s) = W_ended" ..
  show "p_worker s \<notin> {W_sleep, W_sleeping}"
  proof
    assume "p_worker s \<in> {W_sleep, W_sleeping}"
    then have "p_worker (worker_run d k s) \<in> {W_sleep, W_sleeping}" by (rule asleep_stays)
    with k show False by simp
  qed
next
  assume a: "p_worker s \<notin> {W_sleep, W_sleeping}"
  have i: "pipe_inv d s" by (rule reachable_inv [OF assms(1)])
  have r: "\<not> p_running s" and st: "p_worker s \<noteq> W_start"
    using i assms(2) by (auto simp: pipe_inv_def client_inv_def)
  show "\<exists>k. p_worker (worker_run d k s) = W_ended"
  proof (cases "p_worker s = W_ended")
    case True
    then have "p_worker (worker_run d 0 s) = W_ended" by simp
    then show ?thesis by blast
  next
    case False
    obtain t where t: "runs_to d s t" "p_worker t = W_while"
      using reaches_while [OF i] a r st False by blast
    have "worker_step d t = Some (t\<lparr>p_worker := W_ended\<rparr>)"
      using t(2) worker_run_keeps(3) [OF i st t(1)] r by (simp add: worker_step_def)
    then have "runs_to d t (t\<lparr>p_worker := W_ended\<rparr>)" by (blast intro: runs_to_step)
    with t(1) have "runs_to d s (t\<lparr>p_worker := W_ended\<rparr>)" by (rule runs_to_trans)
    then show ?thesis unfolding runs_to_def by (metis (no_types) pipe.select_convs(4) pipe.surjective pipe.update_convs(4))
  qed
qed

text \<open>
  C32: The destructor does not lock the mutex, so that its notification can fall between the
  worker's test and its sleep: a state can be reached in which the destructor waits for the worker,
  the worker sleeps, and no thread can move.
\<close>

theorem pipeline_lost_wakeup:
  "\<exists>s. pipe_reachable d s \<and> p_client s = C_joining \<and> p_worker s = W_sleeping \<and> (\<forall>t. \<not> thread_step d s t)"
proof -
  let ?s = "\<lambda>c r m w. pipe_new\<lparr>p_running := r, p_mutex := m, p_worker := w, p_client := c\<rparr> :: 'a pipe"
  have w: "pipe_reachable d s \<Longrightarrow> worker_step d s = Some t \<Longrightarrow> pipe_reachable d t" for s t :: "'a pipe"
    by (blast intro: pipe_reachable.step thread_step.worker)
  have "pipe_reachable d (?s C_constructing True False W_while)"
    by (rule w [OF pipe_reachable.start]) (simp add: worker_step_def pipe_new_def)
  from pipe_reachable.step [OF this thread_step.constructed]
  have "pipe_reachable d (?s C_ready True False W_while)" by (simp add: pipe_new_def)
  then have "pipe_reachable d (?s C_ready True False W_lock)"
    by (rule w) (simp add: worker_step_def pipe_new_def)
  then have "pipe_reachable d (?s C_ready True True W_predicate)"
    by (rule w) (simp add: worker_step_def pipe_new_def)
  then have "pipe_reachable d (?s C_ready True True W_sleep)"
    by (rule w) (simp add: worker_step_def pipe_new_def)
  from pipe_reachable.step [OF this thread_step.stop]
  have "pipe_reachable d (?s C_stopping False True W_sleep)" by (simp add: pipe_new_def)
  from pipe_reachable.step [OF this thread_step.stopNotify]
  have "pipe_reachable d (?s C_joining False True W_sleep)" by (simp add: pipe_new_def pipe_notifyAll_def)
  then have "pipe_reachable d (?s C_joining False False W_sleeping)"
    by (rule w) (simp add: worker_step_def pipe_new_def)
  moreover have "\<not> thread_step d (?s C_joining False False W_sleeping) t" for t
    by (auto elim!: thread_stepE simp: worker_step_def pipe_new_def)
  ultimately show ?thesis by (intro exI [of _ "?s C_joining False False W_sleeping"]) (simp add: pipe_new_def)
qed

theorem pipeline_fifo_witness:
  "\<not> p_undef pipe_sample \<and>
    (\<exists>taken. p_added pipe_sample = taken @ p_pipeline pipe_sample \<and>
       p_delivered pipe_sample = (if True then taken @ (case p_worker pipe_sample of
           W_pop i n \<Rightarrow> [hd (p_pipeline pipe_sample)] | _ \<Rightarrow> []) else []))"
  by (rule pipeline_fifo [OF pipe_sample_reachable(1)])

theorem pipeline_delivers_witness:
  "\<exists>k. p_delivered (worker_run True k (pipe_notifyAll pipe_sample)) = p_added pipe_sample"
  by (rule pipeline_delivers [OF pipe_sample_reachable(1)]) (simp_all add: pipe_sample_def)

theorem pipeline_join_witness:
  "(\<exists>k. p_worker (worker_run True k (pipe_sample\<lparr>p_running := False, p_client := C_joining\<rparr>)) = W_ended) \<longleftrightarrow>
   p_worker (pipe_sample\<lparr>p_running := False, p_client := C_joining\<rparr>) \<notin> {W_sleep, W_sleeping}"
  by (rule pipeline_join [OF pipe_sample_reachable(2)]) simp

end
