(* ===== verification/Strings.thy ===== *)
theory Strings
  imports Prelude
begin

text \<open>
  Text on byte strings: decimal printing of integers as \<open>operator<<\<close> and \<open>std::to_string\<close> do it,
  and the functions of \<open>stringtoolbox.hpp\<close> that the library uses.
\<close>

section \<open>Decimal numbers\<close>

fun dec_nat :: "nat \<Rightarrow> cstring" where
  "dec_nat n = (if n < 10 then [48 + of_nat n] else dec_nat (n div 10) @ [48 + of_nat (n mod 10)])"

declare dec_nat.simps [simp del]

definition dec_int :: "int \<Rightarrow> cstring" where
  "dec_int i = (if i < 0 then 45 # dec_nat (nat (- i)) else dec_nat (nat i))"

definition is_digit :: "byte \<Rightarrow> bool" where
  "is_digit c \<longleftrightarrow> 48 \<le> c \<and> c \<le> 57"

primrec digits_value :: "cstring \<Rightarrow> nat \<Rightarrow> nat" where
  "digits_value [] acc = acc"
| "digits_value (c # cs) acc = digits_value cs (10 * acc + (unat c - 48))"

lemma digit_value:
  assumes "k < 10"
  shows "unat (48 + of_nat k :: byte) = 48 + k" and "is_digit (48 + of_nat k)"
proof -
  have "(48 + of_nat k :: byte) = of_nat (48 + k)" by simp
  moreover have "unat (of_nat (48 + k) :: byte) = 48 + k"
    using assms by (intro trans [OF unat_of_nat]) simp
  ultimately show u: "unat (48 + of_nat k :: byte) = 48 + k" by simp
  show "is_digit (48 + of_nat k)"
    using assms unfolding is_digit_def word_le_nat_alt u by simp
qed

lemma dec_nat_not_empty [simp]: "dec_nat n \<noteq> []"
  by (subst dec_nat.simps) simp

lemma dec_nat_digits: "list_all is_digit (dec_nat n)"
proof (induction n rule: dec_nat.induct)
  case (1 n)
  then show ?case by (subst dec_nat.simps) (auto intro: digit_value)
qed

lemma digits_value_append: "digits_value (xs @ ys) acc = digits_value ys (digits_value xs acc)"
  by (induction xs arbitrary: acc) auto

lemma digits_value_dec_nat: "digits_value (dec_nat n) 0 = n"
proof (induction n rule: dec_nat.induct)
  case (1 n)
  show ?case
  proof (cases "n < 10")
    case True
    then show ?thesis by (subst dec_nat.simps) (simp add: digit_value)
  next
    case False
    then show ?thesis
      using 1 by (subst dec_nat.simps) (simp add: digits_value_append digit_value)
  qed
qed

lemma dec_nat_inject: "dec_nat m = dec_nat n \<longleftrightarrow> m = n"
  by (metis digits_value_dec_nat)

section \<open>\<open>stringtoolbox.hpp\<close>\<close>

text \<open>
  \<open>find_last_not_of\<close> gives the last other character, and \<open>npos + 1\<close>, which is zero, if there is none.
  \<open>ltrim\<close> erases the \<open>npos\<close> first characters, all of them, if there is none.
\<close>

definition is_blank :: "byte \<Rightarrow> bool" where
  "is_blank c \<longleftrightarrow> c = 32 \<or> c = 9"

definition rtrim :: "cstring \<Rightarrow> cstring" where
  "rtrim s = rev (dropWhile is_blank (rev s))"

definition ltrim :: "cstring \<Rightarrow> cstring" where
  "ltrim s = dropWhile is_blank s"

definition trim :: "cstring \<Rightarrow> cstring" where
  "trim s = ltrim (rtrim s)"

definition replaceAll :: "cstring \<Rightarrow> byte \<Rightarrow> byte \<Rightarrow> cstring" where
  "replaceAll s FROM TO = map (\<lambda>c. if c = FROM then TO else c) s"

lemma replaceAll_append: "replaceAll (x @ y) f t = replaceAll x f t @ replaceAll y f t"
  by (simp add: replaceAll_def)

text \<open>\<open>split_from first s d\<close> is the loop at position \<open>prev\<close>; \<open>first\<close> says that \<open>prev\<close> is zero.\<close>

lemma split_shorter: "d \<in> set s \<Longrightarrow> length (tl (dropWhile (\<lambda>c. c \<noteq> d) s)) < length s"
  by (induction s) auto

function split_from :: "bool \<Rightarrow> cstring \<Rightarrow> byte \<Rightarrow> cstring list" where
  "split_from first s d =
     (if d \<in> set s
      then takeWhile (\<lambda>c. c \<noteq> d) s # split_from False (tl (dropWhile (\<lambda>c. c \<noteq> d) s)) d
      else if s \<noteq> [] then [s] else if first then [] else [[]])"
  by pat_completeness auto
termination
  by (relation "measure (\<lambda>(_, s, _). length s)") (auto dest: split_shorter)

declare split_from.simps [simp del]

definition split :: "cstring \<Rightarrow> byte \<Rightarrow> cstring list" where
  "split s d = split_from True s d"

lemma split_none: "d \<notin> set s \<Longrightarrow> split s d = (if s = [] then [] else [s])"
  by (simp add: split_def split_from.simps)

lemma while_not_at:
  "d \<notin> set a \<Longrightarrow> takeWhile (\<lambda>c. c \<noteq> d) (a @ d # s) = a \<and> dropWhile (\<lambda>c. c \<noteq> d) (a @ d # s) = d # s"
  by (induction a) auto

lemma split_from_one:
  "d \<notin> set a \<Longrightarrow> split_from first (a @ d # s) d = a # split_from False s d"
  using while_not_at [of d a s] by (subst split_from.simps) simp

lemma split_once:
  "d \<notin> set a \<Longrightarrow> d \<notin> set b \<Longrightarrow> split (a @ d # b) d = [a, b]"
  by (simp add: split_def split_from_one split_from.simps [of False b])

lemma trim_id: "s \<noteq> [] \<Longrightarrow> \<not> is_blank (hd s) \<Longrightarrow> \<not> is_blank (last s) \<Longrightarrow> trim s = s"
proof -
  assume a: "s \<noteq> []" "\<not> is_blank (hd s)" "\<not> is_blank (last s)"
  then have "dropWhile is_blank (rev s) = rev s" by (cases s rule: rev_cases) auto
  moreover have "dropWhile is_blank s = s" using a by (cases s) auto
  ultimately show "trim s = s" by (simp add: trim_def rtrim_def ltrim_def)
qed

end
