(* ===== verification/Sockets.thy ===== *)
theory Sockets
  imports Pipeline Strings Envelopes
begin

text \<open>
  What \<open>UDPSender\<close>, \<open>UDPReceiver\<close> and \<open>TCPConnection\<close> do around the calls of the operating
  system. The results of these calls are arguments: \<open>sendto\<close> gives the number of bytes sent and
  \<open>errno\<close>, a receiving call the bytes it has read.
\<close>

section \<open>Sending\<close>

definition EBADF :: int32 where "EBADF = 9"
definition E2BIG :: int32 where "E2BIG = 7"
definition ENOTCONN :: int32 where "ENOTCONN = 107"

definition SIZE_IPv4_HEADER :: uint16 where "SIZE_IPv4_HEADER = 20"
definition SIZE_UDP_HEADER :: uint16 where "SIZE_UDP_HEADER = 8"
definition MAX_SIZE_UDP_PACKET :: uint16 where "MAX_SIZE_UDP_PACKET = 0xFFFF"

definition UDP_MAX_LENGTH :: uint16 where
  "UDP_MAX_LENGTH = MAX_SIZE_UDP_PACKET - SIZE_IPv4_HEADER - SIZE_UDP_HEADER"

type_synonym send_call = "cstring \<Rightarrow> int64 \<times> int32"

text \<open>\<open>UDPSender::send\<close>: the result and the datagrams handed to the operating system.\<close>

definition udp_send :: "send_call \<Rightarrow> int32 \<Rightarrow> cstring \<Rightarrow> (int64 \<times> int32) \<times> cstring list" where
  "udp_send sendto m_socket data =
     (if m_socket = - 1 then ((- 1, EBADF), [])
      else if data = [] then ((0, 0), [])
      else if unat UDP_MAX_LENGTH < length data then ((- 1, E2BIG), [])
      else (let (bytesSent, e) = sendto data in ((bytesSent, if sint bytesSent < 0 then e else 0), [data])))"

section \<open>\<open>UDPReceiver\<close>\<close>

record PipelineEntry =
  pe_data :: cstring
  pe_from :: cstring
  pe_sampleTime :: int64

text \<open>
  The result of a \<open>recvfrom\<close>: the bytes read (nothing read, or an error, is the empty string), the
  sender's address and port and the time stamp.
\<close>

record recv_result =
  rr_bytes :: cstring
  rr_ip :: uint32
  rr_port :: uint16
  rr_time :: int64

record udp_receiver =
  ur_localSendFromPort :: uint16
  ur_listOfLocalIPAddresses :: "uint32 set"
  ur_isBlockingSocket :: bool
  ur_has_delegate :: bool
  ur_has_pipeline :: bool

definition sentFromUs :: "udp_receiver \<Rightarrow> recv_result \<Rightarrow> bool" where
  "sentFromUs u r \<longleftrightarrow> rr_ip r \<in> ur_listOfLocalIPAddresses u \<and> ur_localSendFromPort u = rr_port r"

text \<open>
  \<open>inet_ntop\<close> is the operating system's; its result is followed by the port.
\<close>

definition udp_entry :: "(uint32 \<Rightarrow> cstring) \<Rightarrow> recv_result \<Rightarrow> PipelineEntry" where
  "udp_entry ntop r =
     \<lparr>pe_data = rr_bytes r, pe_from = ntop (rr_ip r) @ 58 # dec_nat (unat (rr_port r)), pe_sampleTime = rr_time r\<rparr>"

text \<open>
  The inner loop of \<open>readFromSocket\<close> on the results of its calls of \<open>recvfrom\<close>: the entries added to
  the pipeline and \<open>totalBytesRead\<close>.
\<close>

fun udp_drain :: "(uint32 \<Rightarrow> cstring) \<Rightarrow> udp_receiver \<Rightarrow> recv_result list \<Rightarrow> PipelineEntry list \<times> int64" where
  "udp_drain ntop u [] = ([], 0)"
| "udp_drain ntop u (r # rs) =
     (let n = length (rr_bytes r);
          entry = (if 0 < n \<and> ur_has_delegate u \<and> \<not> sentFromUs u r \<and> ur_has_pipeline u
                   then [udp_entry ntop r] else []);
          total = (if 0 < n \<and> ur_has_delegate u then of_nat n else 0);
          (entries, later) = (if \<not> ur_isBlockingSocket u \<and> 0 < n then udp_drain ntop u rs else ([], 0))
      in (entry @ entries, total + later))"

text \<open>
  One turn of the outer loop when the socket is readable: the additions, then \<open>notifyAll\<close> if
  \<open>totalBytesRead\<close> is positive as an \<open>int32_t\<close>.
\<close>

datatype 'a pipe_call = Call_add 'a | Call_notifyAll

definition udp_turn :: "(uint32 \<Rightarrow> cstring) \<Rightarrow> udp_receiver \<Rightarrow> recv_result list \<Rightarrow> PipelineEntry pipe_call list" where
  "udp_turn ntop u rs =
     (let (entries, total) = udp_drain ntop u rs
      in map Call_add entries @
         (if 0 < sint (ucast total :: int32) \<and> ur_has_pipeline u then [Call_notifyAll] else []))"

section \<open>\<open>TCPConnection\<close>\<close>

text \<open>
  \<open>tc_lost_locked\<close>: the calling thread holds \<open>m_connectionLostDelegateMutex\<close>, as it does while
  the delegate runs. \<open>tc_lost_calls\<close> counts its calls.
\<close>

record tcp =
  tc_socket :: int32
  tc_running :: bool
  tc_hasNewDataDelegate :: bool
  tc_newDataDelegate :: bool
  tc_connectionLostDelegate :: bool
  tc_has_pipeline :: bool
  tc_lost_locked :: bool
  tc_lost_calls :: nat

definition connectionLost :: "tcp \<Rightarrow> tcp option" where
  "connectionLost s =
     (if tc_lost_locked s then None
      else Some (if tc_connectionLostDelegate s then s\<lparr>tc_lost_calls := Suc (tc_lost_calls s)\<rparr> else s))"

text \<open>\<open>None\<close>: the call never returns, the thread waits for a mutex that it holds.\<close>

definition tcp_send :: "send_call \<Rightarrow> tcp \<Rightarrow> cstring \<Rightarrow> ((int64 \<times> int32) \<times> tcp \<times> cstring list) option" where
  "tcp_send send s data =
     (if tc_socket s = - 1 then Some ((- 1, EBADF), s, [])
      else if data = [] then Some ((0, 0), s, [])
      else if \<not> tc_running s
           then map_option (\<lambda>s. ((- 1, ENOTCONN), s, [])) (connectionLost s)
      else if 65535 < length data then Some ((- 1, E2BIG), s, [])
      else (let (bytesSent, e) = send data
            in Some ((bytesSent, if sint bytesSent < 0 then e else 0), s, [data])))"

text \<open>
  One turn of \<open>readFromSocket\<close>; \<open>received\<close> is what \<open>recv\<close> gives when the socket is readable
  (\<open>None\<close> when \<open>select\<close> timed out), empty for an error or a connection closed by the peer.
\<close>

definition tcp_turn :: "cstring option \<Rightarrow> int64 \<Rightarrow> tcp \<Rightarrow> (cstring \<times> int64) pipe_call list \<times> tcp" where
  "tcp_turn received timestamp s =
     (let s = (if tc_hasNewDataDelegate s then s else s\<lparr>tc_hasNewDataDelegate := tc_newDataDelegate s\<rparr>)
      in case received of
           None \<Rightarrow> ([], s)
         | Some data \<Rightarrow>
             (if \<not> tc_hasNewDataDelegate s then ([], s)
              else if data = []
                   then ([], let s = s\<lparr>tc_running := False\<rparr>
                             in if tc_connectionLostDelegate s then s\<lparr>tc_lost_calls := Suc (tc_lost_calls s)\<rparr> else s)
              else if tc_newDataDelegate s \<and> tc_has_pipeline s
                   then ([Call_add (data, timestamp), Call_notifyAll], s)
              else ([], s)))"

section \<open>Properties\<close>

lemma udp_drain_all:
  assumes "\<not> ur_isBlockingSocket u" and "ur_has_delegate u" and "ur_has_pipeline u"
  shows "udp_drain ntop u rs =
    (let read = takeWhile (\<lambda>r. rr_bytes r \<noteq> []) rs
     in (map (udp_entry ntop) (filter (\<lambda>r. \<not> sentFromUs u r) read), of_nat (\<Sum>r\<leftarrow>read. length (rr_bytes r))))"
  using assms by (induction rs) (auto simp: Let_def)

text \<open>
  A turn of the receiving thread hands every datagram that \<open>recvfrom\<close> has, up to the first
  empty one, to the pipeline in order, except those the program itself has sent, and notifies the
  pipeline behind them unless the number of bytes is not positive as a 32-bit integer.
\<close>

theorem udp_turn_complete:
  "udp_turn ntop (u\<lparr>ur_isBlockingSocket := False, ur_has_delegate := True, ur_has_pipeline := True\<rparr>) rs =
    (let read = takeWhile (\<lambda>r. rr_bytes r \<noteq> []) rs
     in map (Call_add \<circ> udp_entry ntop) (filter (\<lambda>r. \<not> sentFromUs u r) read) @
        (if 0 < sint (of_nat (\<Sum>r\<leftarrow>read. length (rr_bytes r)) :: int32) then [Call_notifyAll] else []))"
proof -
  have "(ucast (of_nat n :: int64) :: int32) = of_nat n" for n by (rule ucast_of_nat) simp
  then show ?thesis
    by (simp add: udp_turn_def udp_drain_all Let_def sentFromUs_def)
qed

text \<open>A delegate for lost connections that sends on the connection waits for the mutex it runs under.\<close>

lemma tcp_send_in_delegate_blocks:
  "tc_socket s \<noteq> - 1 \<Longrightarrow> data \<noteq> [] \<Longrightarrow> \<not> tc_running s \<Longrightarrow> tc_lost_locked s \<Longrightarrow> tcp_send send s data = None"
  by (simp add: tcp_send_def connectionLost_def)

text \<open>The delegate for new data is looked at once: after that an unset one loses the bytes read.\<close>

lemma tcp_turn_loses:
  "tc_hasNewDataDelegate s \<Longrightarrow> \<not> tc_newDataDelegate s \<Longrightarrow> data \<noteq> [] \<Longrightarrow> tcp_turn (Some data) t s = ([], s)"
  by (simp add: tcp_turn_def)

end
