(* ===== verification/OD4.thy ===== *)
theory OD4
  imports Sockets
begin

text \<open>
  \<open>OD4Session.cpp\<close>: sending messages in envelopes, and dispatching received envelopes to the
  delegates of a session.
\<close>

section \<open>The session\<close>

text \<open>
  Delegates are functions of the client. \<open>'d\<close> names them, and what one does with an envelope is an
  argument of the model as far as it concerns the session: it may call \<open>dataTrigger\<close> and may end
  with an exception.
\<close>

datatype 'd action = Set_dataTrigger int32 "'d option" | Throw_exception

text \<open>
  \<open>od_map\<close> is \<open>m_mapOfDataTriggeredDelegates\<close>, in which a delegate can be \<open>nullptr\<close>; \<open>od_locked\<close>
  says that the thread holds the mutex of the map. \<open>od_calls\<close> records the calls of delegates.
\<close>

record 'd od4 =
  od_delegate :: "'d option"
  od_map :: "(int32 \<times> 'd option) list"
  od_locked :: bool
  od_calls :: "('d \<times> Envelope) list"

definition OD4Session_new :: "'d option \<Rightarrow> 'd od4" where
  "OD4Session_new delegate = \<lparr>od_delegate = delegate, od_map = [], od_locked = False, od_calls = []\<rparr>"

text \<open>\<open>None\<close>: the call never returns, the thread waits for a mutex that it holds.\<close>

definition dataTrigger :: "int32 \<Rightarrow> 'd option \<Rightarrow> 'd od4 \<Rightarrow> (bool \<times> 'd od4) option" where
  "dataTrigger messageIdentifier delegate s =
     (if od_delegate s \<noteq> None then Some (False, s)
      else if od_locked s then None
      else if delegate = None \<and> map_of (od_map s) messageIdentifier \<noteq> None
           then Some (True, s\<lparr>od_map := filter (\<lambda>p. fst p \<noteq> messageIdentifier) (od_map s)\<rparr>)
      else Some (True, s\<lparr>od_map := assign messageIdentifier delegate (od_map s)\<rparr>))"

section \<open>Receiving\<close>

text \<open>
  How a call ends: it returns, throws, waits for ever, or ends the program; the last also stands for
  undefined behaviour.
\<close>

datatype 's ending = Returned 's | Threw 's | Blocked | Terminated

fun perform :: "'d action list \<Rightarrow> 'd od4 \<Rightarrow> 'd od4 ending" where
  "perform [] s = Returned s"
| "perform (Set_dataTrigger i d # as) s =
     (case dataTrigger i d s of None \<Rightarrow> Blocked | Some (_, s) \<Rightarrow> perform as s)"
| "perform (Throw_exception # as) s = Threw s"

definition call_delegate :: "('d \<Rightarrow> Envelope \<Rightarrow> 'd action list) \<Rightarrow> 'd \<Rightarrow> Envelope \<Rightarrow> 'd od4 \<Rightarrow> 'd od4 ending" where
  "call_delegate body d env s = perform (body d env) (s\<lparr>od_calls := od_calls s @ [(d, env)]\<rparr>)"

text \<open>
  \<open>callback\<close>. Exceptions of a data-triggered delegate, and the \<open>bad_function_call\<close> of a \<open>nullptr\<close>
  one, are caught; an exception of the other delegate leaves a \<open>noexcept\<close> function.
\<close>

definition od4_callback ::
  "int \<Rightarrow> ('d \<Rightarrow> Envelope \<Rightarrow> 'd action list) \<Rightarrow> cstring \<Rightarrow> int64 \<Rightarrow> 'd od4 \<Rightarrow> 'd od4 ending" where
  "od4_callback ticks body data timepoint s =
     (if od_locked s then Blocked
      else if od_delegate s \<noteq> None \<or> 0 < length (od_map s)
      then
        (case extractEnvelope (istream_of data) of
          None \<Rightarrow> Terminated
        | Some ((retVal, env), _) \<Rightarrow>
         if retVal
         then
           (let env = env\<lparr>env_received := convert ticks timepoint\<rparr> in
            case od_delegate s of
              Some d \<Rightarrow> (case call_delegate body d env s of Threw _ \<Rightarrow> Terminated | e \<Rightarrow> e)
            | None \<Rightarrow>
                (case map_of (od_map s) (env_dataType env) of
                   Some (Some d) \<Rightarrow>
                     (case call_delegate body d env (s\<lparr>od_locked := True\<rparr>) of
                        Returned s \<Rightarrow> Returned (s\<lparr>od_locked := False\<rparr>)
                      | Threw s \<Rightarrow> Returned (s\<lparr>od_locked := False\<rparr>)
                      | e \<Rightarrow> e)
                 | _ \<Rightarrow> Returned s))
         else Returned s)
      else Returned s)"

section \<open>Sending\<close>

text \<open>\<open>now\<close> is what \<open>cluon::time::now\<close> returns.\<close>

definition od4_envelope :: "visitable \<Rightarrow> TimeStamp \<Rightarrow> uint32 \<Rightarrow> TimeStamp \<Rightarrow> Envelope" where
  "od4_envelope message sampleTimeStamp senderStamp now =
     Envelope_new\<lparr>env_dataType := msg_ID message, env_serializedData := proto_encode message, env_sent := now,
       env_sampleTimeStamp :=
         (if ts_seconds sampleTimeStamp + ts_microseconds sampleTimeStamp = 0 then now else sampleTimeStamp),
       env_senderStamp := senderStamp\<rparr>"

definition od4_send_envelope :: "send_call \<Rightarrow> int32 \<Rightarrow> Envelope \<Rightarrow> cstring list" where
  "od4_send_envelope sendto m_socket envelope = snd (udp_send sendto m_socket (serializeEnvelope envelope))"

definition od4_send ::
  "send_call \<Rightarrow> int32 \<Rightarrow> visitable \<Rightarrow> TimeStamp \<Rightarrow> uint32 \<Rightarrow> TimeStamp \<Rightarrow> cstring list" where
  "od4_send sendto m_socket message sampleTimeStamp senderStamp now =
     od4_send_envelope sendto m_socket (od4_envelope message sampleTimeStamp senderStamp now)"

section \<open>Time-triggered delegates\<close>

text \<open>
  The slice is the conversion of a \<open>float\<close> quotient, an argument here. A turn of the loop has the
  clock before and after the delegate, the delegate's result (\<open>None\<close> for an exception), and whether
  the program has been told to terminate. The result is what each turn did at its end.
\<close>

datatype turn_end = Sleep_for int64 | Violated_time_slice

definition timeTrigger_turn :: "int64 \<Rightarrow> TimeStamp \<Rightarrow> TimeStamp \<Rightarrow> turn_end" where
  "timeTrigger_turn TIME_SLICE before after =
     (let b = toMicroseconds before; a = toMicroseconds after;
          timeSpent = (if sint b < sint a then of_int (sint (a - b) sdiv 1000) else 0) :: int64;
          timeToSleep = TIME_SLICE - timeSpent
      in if 0 < sint timeToSleep \<and> sint timeToSleep \<le> sint TIME_SLICE
         then Sleep_for timeToSleep else Violated_time_slice)"

fun timeTrigger_loop :: "int64 \<Rightarrow> (TimeStamp \<times> bool option \<times> TimeStamp \<times> bool) list \<Rightarrow> turn_end list" where
  "timeTrigger_loop TIME_SLICE [] = []"
| "timeTrigger_loop TIME_SLICE ((before, res, after, isTerminated) # turns) =
     timeTrigger_turn TIME_SLICE before after #
       (if res = Some True \<and> \<not> isTerminated then timeTrigger_loop TIME_SLICE turns else [])"

definition timeTrigger :: "uint32 \<Rightarrow> bool \<Rightarrow> (TimeStamp \<times> bool option \<times> TimeStamp \<times> bool) list \<Rightarrow> turn_end list" where
  "timeTrigger TIME_SLICE has_delegate turns = (if has_delegate then timeTrigger_loop (ucast TIME_SLICE) turns else [])"

section \<open>Sessions and their specification\<close>

datatype 'd od_event = Register int32 "'d option" | Datagram cstring int64

fun od4_run ::
  "int \<Rightarrow> ('d \<Rightarrow> Envelope \<Rightarrow> 'd action list) \<Rightarrow> 'd od_event list \<Rightarrow> 'd od4 \<Rightarrow> 'd od4 ending" where
  "od4_run ticks body [] s = Returned s"
| "od4_run ticks body (Register i d # es) s =
     (case dataTrigger i d s of None \<Rightarrow> Blocked | Some (_, s) \<Rightarrow> od4_run ticks body es s)"
| "od4_run ticks body (Datagram data t # es) s =
     (case od4_callback ticks body data t s of Returned s \<Rightarrow> od4_run ticks body es s | e \<Rightarrow> e)"

text \<open>
  What a session promises: a map from message identifiers to delegates, and one call for every
  envelope whose identifier has a delegate.
\<close>

fun od4_spec :: "int \<Rightarrow> 'd od_event list \<Rightarrow> (int32 \<Rightarrow> 'd option) \<Rightarrow> ('d \<times> Envelope) list" where
  "od4_spec ticks [] m = []"
| "od4_spec ticks (Register i d # es) m = od4_spec ticks es (m(i := d))"
| "od4_spec ticks (Datagram data t # es) m =
     (case extractEnvelope (istream_of data) of
        Some ((True, env), _) \<Rightarrow>
          (case m (env_dataType env) of
             Some d \<Rightarrow> [(d, env\<lparr>env_received := convert ticks t\<rparr>)]
           | None \<Rightarrow> [])
      | _ \<Rightarrow> []) @ od4_spec ticks es m"

definition od4_delegates :: "'d od4 \<Rightarrow> int32 \<Rightarrow> 'd option" where
  "od4_delegates s i = (case map_of (od_map s) i of Some d \<Rightarrow> d | None \<Rightarrow> None)"

text \<open>A delegate that does not call the session.\<close>

definition quiet :: "('d \<Rightarrow> Envelope \<Rightarrow> 'd action list) \<Rightarrow> bool" where
  "quiet body \<longleftrightarrow> (\<forall>d env. \<forall>a\<in>set (body d env). a = Throw_exception)"

lemma perform_quiet:
  "\<forall>a\<in>set as. a = Throw_exception \<Longrightarrow> perform as s = Returned s \<or> perform as s = Threw s"
  by (cases as) auto

lemma call_quiet:
  "quiet body \<Longrightarrow>
     (case call_delegate body d env s of Returned s \<Rightarrow> f s | Threw s \<Rightarrow> f s | e \<Rightarrow> g e) =
       f (s\<lparr>od_calls := od_calls s @ [(d, env)]\<rparr>)"
  using perform_quiet [of "body d env" "s\<lparr>od_calls := od_calls s @ [(d, env)]\<rparr>"]
  by (auto simp: quiet_def call_delegate_def)

lemma dataTrigger_refines:
  assumes "od_delegate s = None" and "\<not> od_locked s"
  obtains s' where "dataTrigger i d s = Some (True, s')" and "od4_delegates s' = (od4_delegates s)(i := d)"
    and "od_delegate s' = None" and "\<not> od_locked s'" and "od_calls s' = od_calls s"
proof (cases "d = None \<and> map_of (od_map s) i \<noteq> None")
  case True
  then show ?thesis
    using assms by (intro that [of "s\<lparr>od_map := filter (\<lambda>p. fst p \<noteq> i) (od_map s)\<rparr>"])
      (auto simp: dataTrigger_def od4_delegates_def fun_eq_iff map_of_filter_key)
next
  case False
  then show ?thesis
    using assms by (intro that [of "s\<lparr>od_map := assign i d (od_map s)\<rparr>"])
      (auto simp: dataTrigger_def od4_delegates_def fun_eq_iff)
qed

lemma callback_refines:
  assumes "od_delegate s = None" and "\<not> od_locked s" and "quiet body" and "extractEnvelope (istream_of data) \<noteq> None"
  obtains s' where "od4_callback ticks body data t s = Returned s'"
    and "od_calls s' = od_calls s @ od4_spec ticks [Datagram data t] (od4_delegates s)"
    and "od4_delegates s' = od4_delegates s" and "od_delegate s' = None" and "\<not> od_locked s'"
proof -
  obtain ok env r where x: "extractEnvelope (istream_of data) = Some ((ok, env), r)"
    using assms(4) by auto
  let ?env = "env\<lparr>env_received := convert ticks t\<rparr>"
  show ?thesis
  proof (cases "ok \<and> od4_delegates s (env_dataType env) \<noteq> None")
    case True
    then obtain d where d: "map_of (od_map s) (env_dataType env) = Some (Some d)"
      by (auto simp: od4_delegates_def split: option.splits)
    then have "od_map s \<noteq> []" by auto
    then have "od4_callback ticks body data t s = Returned (s\<lparr>od_calls := od_calls s @ [(d, ?env)]\<rparr>)"
      using call_quiet [OF assms(3), where f = "\<lambda>s. Returned (s\<lparr>od_locked := False\<rparr>)" and g = "\<lambda>e. e"
          and d = d and env = ?env and s = "s\<lparr>od_locked := True\<rparr>"]
        assms True d by (simp add: od4_callback_def x)
    then show ?thesis
      using assms True d
      by (intro that [of "s\<lparr>od_calls := od_calls s @ [(d, ?env)]\<rparr>"]) (simp_all add: x od4_delegates_def fun_eq_iff)
  next
    case False
    then have "od4_callback ticks body data t s = Returned s"
      using assms by (auto simp: od4_callback_def x od4_delegates_def split: option.splits)
    then show ?thesis
      using assms False by (intro that [of s]) (auto simp: x split: option.splits bool.splits)
  qed
qed

text \<open>
  A datagram whose payload is malformed ends the program of every session that has a delegate.
\<close>

lemma callback_undefined:
  assumes "extractEnvelope (istream_of data) = None" and "\<not> od_locked s"
  shows "od4_callback ticks body data t s =
    (if od_delegate s \<noteq> None \<or> od_map s \<noteq> [] then Terminated else Returned s)"
  using assms by (simp add: od4_callback_def)

lemma od4_malformed_terminates:
  assumes "\<not> od_locked s" and "od_delegate s \<noteq> None \<or> od_map s \<noteq> []"
  shows "od4_callback ticks body malformed t s = Terminated"
  using assms by (simp add: callback_undefined [OF extractEnvelope_malformed])

text \<open>
  C6: A session without a catch-all delegate implements a map from message identifiers to
  delegates: in any sequence of \<open>dataTrigger\<close> calls and received datagrams, every datagram that
  carries an envelope calls the delegate set last for its identifier, with the time of reception,
  and nothing else is called, whatever exceptions delegates throw. Only a datagram whose payload cannot
  be decoded without undefined behaviour can end the program instead.
\<close>

theorem od4_refines:
  assumes "quiet body"
  shows "(\<exists>s. od4_run ticks body es (OD4Session_new None) = Returned s \<and> od_calls s = od4_spec ticks es (\<lambda>_. None)) \<or>
    (od4_run ticks body es (OD4Session_new None) = Terminated \<and>
      (\<exists>data t. Datagram data t \<in> set es \<and> extractEnvelope (istream_of data) = None))"
proof -
  have "od_delegate s = None \<Longrightarrow> \<not> od_locked s \<Longrightarrow>
      (\<exists>s'. od4_run ticks body es s = Returned s' \<and> od_calls s' = od_calls s @ od4_spec ticks es (od4_delegates s)) \<or>
      (od4_run ticks body es s = Terminated \<and> (\<exists>data t. Datagram data t \<in> set es \<and> extractEnvelope (istream_of data) = None))" for s
  proof (induction es arbitrary: s)
    case (Cons e es)
    show ?case
    proof (cases e)
      case (Register i d)
      obtain s' where "dataTrigger i d s = Some (True, s')" "od4_delegates s' = (od4_delegates s)(i := d)"
        "od_delegate s' = None" "\<not> od_locked s'" "od_calls s' = od_calls s"
        using dataTrigger_refines [OF Cons.prems, of i d] by blast
      then show ?thesis using Cons.IH [of s'] by (auto simp: Register simp del: fun_upd_apply)
    next
      case (Datagram data t)
      show ?thesis
      proof (cases "extractEnvelope (istream_of data)")
        case None
        then show ?thesis
          using callback_undefined [OF None Cons.prems(2), of ticks body t] Cons.IH [OF Cons.prems] Cons.prems(1)
          by (auto simp: Datagram)
      next
        case (Some r)
        then obtain s' where "od4_callback ticks body data t s = Returned s'"
          "od_calls s' = od_calls s @ od4_spec ticks [Datagram data t] (od4_delegates s)"
          "od4_delegates s' = od4_delegates s" "od_delegate s' = None" "\<not> od_locked s'"
          using callback_refines [OF Cons.prems assms, of data ticks t] by blast
        then show ?thesis using Cons.IH [of s'] by (auto simp: Datagram)
      qed
    qed
  qed simp
  note run = this
  let ?s = "OD4Session_new None :: 'a od4"
  have "od_delegate ?s = None" "\<not> od_locked ?s" "od_calls ?s = []" "od4_delegates ?s = (\<lambda>_. None)"
    by (simp_all add: OD4Session_new_def od4_delegates_def fun_eq_iff)
  with run [of ?s] show ?thesis by simp
qed

theorem od4_refines_witness:
  "\<exists>s. od4_run 1000 (\<lambda>_ _. [Throw_exception]) [Register 9 (Some (1 :: nat)), Datagram (serializeEnvelope sample_envelope) 0]
      (OD4Session_new None) = Returned s \<and>
    od_calls s = od4_spec 1000 [Register 9 (Some 1), Datagram (serializeEnvelope sample_envelope) 0] (\<lambda>_. None)"
proof -
  have "extractEnvelope (istream_of (serializeEnvelope sample_envelope)) \<noteq> None"
    using extractEnvelope_serializeEnvelope [OF _ sample_envelope_length, of "istream_of (serializeEnvelope sample_envelope)" "[]"] by simp
  with od4_refines [of "\<lambda>_ _. [Throw_exception]" 1000 "[Register 9 (Some (1 :: nat)), Datagram (serializeEnvelope sample_envelope) 0]"]
  show ?thesis by (auto simp: quiet_def)
qed

text \<open>
  A data-triggered delegate runs while its session holds the mutex of the delegates: one that
  calls \<open>dataTrigger\<close>, for instance to unset itself, waits for this mutex for ever.
\<close>

theorem od4_dataTrigger_blocks:
  assumes "od_delegate s = None" and "\<not> od_locked s"
    and "map_of (od_map s) (env_dataType e) = Some (Some d)"
    and "length (proto_encode (Envelope_msg e)) < 2 ^ 24"
    and "\<And>env. body d env = Set_dataTrigger i x # as"
  shows "od4_callback ticks body (serializeEnvelope e) t s = Blocked"
proof -
  have "od_map s \<noteq> []" using assms(3) by auto
  moreover have "extractEnvelope (istream_of (serializeEnvelope e)) =
      Some ((True, e), consumed (serializeEnvelope e) (istream_of (serializeEnvelope e)))"
    using assms(4) by (intro extractEnvelope_serializeEnvelope [of _ _ "[]"]) simp_all
  ultimately show ?thesis
    using assms by (simp add: od4_callback_def call_delegate_def dataTrigger_def)
qed

theorem od4_dataTrigger_blocks_witness:
  "od4_callback 1000 (\<lambda>_ _. [Set_dataTrigger 9 None]) (serializeEnvelope sample_envelope) 0
     ((OD4Session_new None)\<lparr>od_map := [(9, Some (1 :: nat))]\<rparr>) = Blocked"
  by (rule od4_dataTrigger_blocks [OF _ _ _ sample_envelope_length])
    (simp_all add: OD4Session_new_def sample_envelope_def)

section \<open>The invariant of a session\<close>

text \<open>
  Between two calls the mutex is free, there are no data-triggered delegates beside the catch-all
  one, and the map has one entry for an identifier.
\<close>

definition od4_inv :: "'d od4 \<Rightarrow> bool" where
  "od4_inv s \<longleftrightarrow> (od_delegate s \<noteq> None \<longrightarrow> od_map s = []) \<and> distinct (map fst (od_map s))"

lemma dataTrigger_inv:
  assumes "dataTrigger i d s = Some (r, s')" and "od4_inv s"
  shows "od4_inv s' \<and> od_locked s' = od_locked s \<and> od_delegate s' = od_delegate s"
  using assms by (auto simp: dataTrigger_def od4_inv_def distinct_map_filter split: if_splits)

lemma perform_inv:
  assumes "perform as s = Returned s' \<or> perform as s = Threw s'" and "od4_inv s"
  shows "od4_inv s' \<and> od_locked s' = od_locked s \<and> od_delegate s' = od_delegate s"
  using assms
proof (induction as s rule: perform.induct)
  case (2 i d as s)
  then obtain r s1 where "dataTrigger i d s = Some (r, s1)" by (auto split: option.splits)
  with 2 dataTrigger_inv [OF this 2(3)] show ?case by auto
qed auto

lemma callback_inv:
  assumes "od4_callback ticks body data t s = Returned s'" and "od4_inv s"
  shows "od4_inv s' \<and> \<not> od_locked s' \<and> od_delegate s' = od_delegate s"
proof -
  have "od4_inv s2 \<and> od_locked s2 = b \<and> od_delegate s2 = od_delegate s"
    if "call_delegate body d env (s\<lparr>od_locked := b\<rparr>) = Returned s2 \<or>
      call_delegate body d env (s\<lparr>od_locked := b\<rparr>) = Threw s2" for b d env s2
    using perform_inv [OF that [unfolded call_delegate_def]] assms(2) by (simp add: od4_inv_def)
  note c = this [where b = True] this [where b = "od_locked s"]
  have l: "od4_inv (s\<lparr>od_locked := b\<rparr>) \<longleftrightarrow> od4_inv s" for b and s :: "'a od4" by (simp add: od4_inv_def)
  have e: "s\<lparr>od_locked := od_locked s\<rparr> = s" by simp
  show ?thesis
  proof (cases "extractEnvelope (istream_of data)")
    case None
    then show ?thesis using assms by (auto simp: od4_callback_def split: if_splits)
  next
    case (Some x)
    then obtain ok env r where x: "extractEnvelope (istream_of data) = Some ((ok, env), r)" by (cases x) auto
    let ?env = "env\<lparr>env_received := convert ticks t\<rparr>"
    show ?thesis
    proof (cases "od_delegate s")
      case None
      show ?thesis
      proof (cases "\<exists>d. map_of (od_map s) (env_dataType env) = Some (Some d)")
        case True
        then obtain d where d: "map_of (od_map s) (env_dataType env) = Some (Some d)" by blast
        have "od4_callback ticks body data t s =
            (if od_locked s then Blocked else if ok
             then (case call_delegate body d ?env (s\<lparr>od_locked := True\<rparr>) of
                     Returned s \<Rightarrow> Returned (s\<lparr>od_locked := False\<rparr>) | Threw s \<Rightarrow> Returned (s\<lparr>od_locked := False\<rparr>)
                   | e \<Rightarrow> e)
             else Returned s)"
          using d None by (auto simp: od4_callback_def x)
        then consider "\<not> od_locked s" "s' = s" | s2 where "s' = s2\<lparr>od_locked := False\<rparr>"
            "call_delegate body d ?env (s\<lparr>od_locked := True\<rparr>) = Returned s2 \<or>
             call_delegate body d ?env (s\<lparr>od_locked := True\<rparr>) = Threw s2"
          using assms(1) by (auto split: if_splits ending.splits)
        then show ?thesis
          by cases (use assms(2) c(1) in \<open>auto simp: l\<close>)
      next
        case False
        then show ?thesis
          using assms None by (auto simp: od4_callback_def x split: if_splits option.splits)
      qed
    next
      case (Some d)
      then have "\<not> od_locked s" "s' = s \<or> call_delegate body d ?env s = Returned s'"
        using assms(1) by (auto simp: od4_callback_def x split: if_splits ending.splits)
      then show ?thesis
        using assms(2) c(2) [of d ?env s', unfolded e] by auto
    qed
  qed
qed

text \<open>
  C23: Whatever delegates do, between two calls of a session its mutex is free, a catch-all delegate
  excludes data-triggered ones, and no identifier occurs twice in the map of delegates.
\<close>

theorem od4_invariant:
  assumes "od4_run ticks body es (OD4Session_new delegate) = Returned s"
  shows "od4_inv s \<and> \<not> od_locked s \<and> od_delegate s = delegate"
proof -
  have "od4_run ticks body es s0 = Returned s \<Longrightarrow> od4_inv s0 \<Longrightarrow> \<not> od_locked s0 \<Longrightarrow>
      od4_inv s \<and> \<not> od_locked s \<and> od_delegate s = od_delegate s0" for s0
  proof (induction ticks body es s0 rule: od4_run.induct)
    case (2 ticks body i d es s0)
    then obtain r s1 where "dataTrigger i d s0 = Some (r, s1)" by (auto split: option.splits)
    with 2 dataTrigger_inv [OF this 2(3)] show ?case by simp
  next
    case (3 ticks body data t es s0)
    then show ?case by (auto split: ending.splits dest: callback_inv)
  qed auto
  from this [OF assms] show ?thesis by (simp add: OD4Session_new_def od4_inv_def)
qed

theorem od4_invariant_witness:
  "od4_inv ((OD4Session_new None)\<lparr>od_map := [(3, Some (1 :: nat))]\<rparr>) \<and>
   \<not> od_locked ((OD4Session_new None)\<lparr>od_map := [(3, Some (1 :: nat))]\<rparr>) \<and>
   od_delegate ((OD4Session_new None)\<lparr>od_map := [(3, Some (1 :: nat))]\<rparr>) = None"
  by (rule od4_invariant [where ticks = 1000 and body = "\<lambda>_ _. []" and es = "[Register 3 (Some 1)]"])
    (simp add: dataTrigger_def OD4Session_new_def)

section \<open>From a sender to a receiver\<close>

lemma od4_send_sends:
  assumes "m_socket \<noteq> - 1"
  shows "od4_send_envelope sendto m_socket e =
    (if length (serializeEnvelope e) \<le> 65507 then [serializeEnvelope e] else [])"
  using assms
  by (simp add: od4_send_envelope_def udp_send_def UDP_MAX_LENGTH_def MAX_SIZE_UDP_PACKET_def
      SIZE_IPv4_HEADER_def SIZE_UDP_HEADER_def serializeEnvelope_bytes split_beta)

text \<open>
  C7: A message up to the size of a datagram is sent in one datagram, and a session that receives it
  and has a delegate for the message's identifier calls it with an envelope that holds the
  message, its time stamps and its sender; a larger one is dropped without a sign.
\<close>

theorem od4_delivers:
  assumes m: "proto_ok m" "same_shape m' m" and s: "m_socket \<noteq> - 1" and q: "quiet body"
    and r: "od_delegate s = None" "\<not> od_locked s" "od4_delegates s (msg_ID m) = Some d"
  shows "let e = od4_envelope m ts stamp now; sent = od4_send sendto m_socket m ts stamp now in
    (if length (serializeEnvelope e) \<le> 65507
     then \<exists>data s'. sent = [data] \<and> od4_callback ticks body data t s = Returned s' \<and>
       od_calls s' = od_calls s @ [(d, e\<lparr>env_received := convert ticks t\<rparr>)] \<and>
       extractMessage (e\<lparr>env_received := convert ticks t\<rparr>) m' = Some m
     else sent = [])"
proof -
  let ?e = "od4_envelope m ts stamp now"
  have sent: "od4_send sendto m_socket m ts stamp now =
      (if length (serializeEnvelope ?e) \<le> 65507 then [serializeEnvelope ?e] else [])"
    by (simp add: od4_send_def od4_send_sends [OF s])
  show ?thesis
  proof (cases "length (serializeEnvelope ?e) \<le> 65507")
    case True
    then have "length (proto_encode (Envelope_msg ?e)) < 2 ^ 24" by (simp add: serializeEnvelope_bytes)
    then have x: "extractEnvelope (istream_of (serializeEnvelope ?e)) =
        Some ((True, ?e), consumed (serializeEnvelope ?e) (istream_of (serializeEnvelope ?e)))"
      by (intro extractEnvelope_serializeEnvelope [of _ _ "[]"]) simp_all
    have "env_dataType ?e = msg_ID m" "env_serializedData ?e = proto_encode m"
      by (simp_all add: od4_envelope_def)
    moreover obtain s' where "od4_callback ticks body (serializeEnvelope ?e) t s = Returned s'"
      "od_calls s' = od_calls s @ od4_spec ticks [Datagram (serializeEnvelope ?e) t] (od4_delegates s)"
      using callback_refines [OF r(1,2) q, of "serializeEnvelope ?e" ticks t] x by blast
    ultimately show ?thesis
      using True r(3) by (auto simp: sent x extractMessage_encoded [OF m])
  next
    case False
    then show ?thesis by (simp add: sent)
  qed
qed

theorem od4_delivers_witness:
  "let e = od4_envelope (sample (- 3) (str ''hi'') 300) TimeStamp_new 1 TimeStamp_new;
       sent = od4_send (\<lambda>d. (of_nat (length d), 0)) 4 (sample (- 3) (str ''hi'') 300) TimeStamp_new 1 TimeStamp_new in
    (if length (serializeEnvelope e) \<le> 65507
     then \<exists>data s'. sent = [data] \<and>
       od4_callback 1000 (\<lambda>_ _. []) data 0 ((OD4Session_new None)\<lparr>od_map := [(9, Some (2 :: nat))]\<rparr>) = Returned s' \<and>
       od_calls s' = od_calls ((OD4Session_new None)\<lparr>od_map := [(9, Some (2 :: nat))]\<rparr>) @
         [(2, e\<lparr>env_received := convert 1000 0\<rparr>)] \<and>
       extractMessage (e\<lparr>env_received := convert 1000 0\<rparr>) (sample 0 [] 0) = Some (sample (- 3) (str ''hi'') 300)
     else sent = [])"
  by (rule od4_delivers [OF sample_proto_ok sample_shape])
    (simp_all add: quiet_def OD4Session_new_def od4_delegates_def sample_def)

section \<open>The period of time-triggered delegates\<close>

text \<open>
  A turn of \<open>timeTrigger\<close> sleeps for what its time slice has left in whole milliseconds, even
  when the clock is set back, and never longer than the slice; it reports a violation exactly if
  the delegate took as long as the slice.
\<close>

theorem timeTrigger_period:
  "timeTrigger_turn (ucast (TIME_SLICE :: uint32)) before after =
    (let spent = max 0 (sint (deltaInMicroseconds after before)) div 1000
     in if spent < uint TIME_SLICE then Sleep_for (of_int (uint TIME_SLICE - spent)) else Violated_time_slice)"
proof -
  let ?a = "toMicroseconds after" and ?b = "toMicroseconds before"
  let ?spent = "max 0 (sint ?a - sint ?b) div 1000"
  have d: "sint (?a - ?b) = sint ?a - sint ?b"
    unfolding deltaInMicroseconds_def [symmetric] deltaInMicroseconds_exact
    by (simp add: sint_toMicroseconds algebra_simps)
  have t: "0 \<le> uint TIME_SLICE" "uint TIME_SLICE < 2 ^ 32"
    using unsigned_less [of TIME_SLICE, where 'a = int] by simp_all
  have range: "0 \<le> i \<Longrightarrow> i < 2 ^ 32 \<Longrightarrow> 0 \<le> j \<Longrightarrow> j < 2 ^ 53 \<Longrightarrow> - (2 ^ 63) \<le> i - j \<and> i - j < 2 ^ 63" for i j :: int
    by simp
  have c: "(ucast TIME_SLICE :: int64) = of_int (uint TIME_SLICE)" by simp
  have u: "sint (ucast TIME_SLICE :: int64) = uint TIME_SLICE" 
    unfolding c using range [OF t, of 0] by (intro sint_of_int_64) simp_all
  have s: "(if sint ?b < sint ?a then of_int (sint (?a - ?b) sdiv 1000) else 0 :: int64) = of_int ?spent"
    by (simp add: d signed_divide_int_def sgn_if)
  have "x div 1000 < 2 ^ 53" if "0 \<le> x" "x < 2 ^ 53" for x :: int using that by simp
  moreover have "max 0 (sint ?a - sint ?b) < 2 ^ 53"
    using sint_range_32 [of "ts_seconds after"] sint_range_32 [of "ts_microseconds after"]
      sint_range_32 [of "ts_seconds before"] sint_range_32 [of "ts_microseconds before"]
    by (simp add: sint_toMicroseconds)
  ultimately have spent: "0 \<le> ?spent" "?spent < 2 ^ 53" by auto
  have r: "sint (ucast TIME_SLICE - of_int ?spent :: int64) = uint TIME_SLICE - ?spent"
    unfolding c of_int_diff [symmetric] using range [OF t spent] by (intro sint_of_int_64) simp_all
  show ?thesis
    using spent
    by (simp add: timeTrigger_turn_def s r u Let_def d deltaInMicroseconds_def)
qed

end
