(* ===== verification/Doubles.thy ===== *)
theory Doubles
  imports Strings
begin

text \<open>
  Text of floating-point numbers: what \<open>operator<<\<close> with a precision writes for a \<open>float\<close> or a
  \<open>double\<close>, what \<open>operator>>\<close> reads into a \<open>double\<close>, and the conversions to and from integers.
  Numbers are IEEE 754 bit patterns; their values are the exact rationals.
\<close>

section \<open>Rounding to a binary format\<close>

fun nbits :: "nat \<Rightarrow> nat" where
  "nbits n = (if n = 0 then 0 else Suc (nbits (n div 2)))"

declare nbits.simps [simp del]

text \<open>The exponent of the leading bit of the positive rational \<open>num / den\<close>.\<close>

definition log2_floor :: "nat \<Rightarrow> nat \<Rightarrow> int" where
  "log2_floor num den =
     (let k = int (nbits num) - int (nbits den)
      in if den * 2 ^ nat k \<le> num * 2 ^ nat (- k) then k else k - 1)"

definition round_even :: "nat \<Rightarrow> nat \<Rightarrow> nat" where
  "round_even num den =
     (let q = num div den; r = num mod den
      in if den < 2 * r \<or> (2 * r = den \<and> odd q) then q + 1 else q)"

text \<open>
  The bit pattern without sign of \<open>num / den\<close>, rounded to nearest, ties to even, with \<open>p\<close> bits of
  precision and \<open>emin\<close> the exponent of the smallest positive number. A mantissa that rounds up to
  \<open>2 ^ p\<close> carries into the exponent.
\<close>

definition ieee_round :: "nat \<Rightarrow> int \<Rightarrow> nat \<Rightarrow> nat \<Rightarrow> nat" where
  "ieee_round p emin num den =
     (if num = 0 then 0
      else (let e = max (log2_floor num den - int (p - 1)) emin
            in nat (e - emin) * 2 ^ (p - 1) + round_even (num * 2 ^ nat (- e)) (den * 2 ^ nat e)))"

text \<open>\<open>strtod\<close> as \<open>operator>>\<close> uses it: a value that is too large becomes the largest number.\<close>

definition double_of_rat :: "bool \<Rightarrow> nat \<Rightarrow> nat \<Rightarrow> double_bits" where
  "double_of_rat neg num den =
     (if neg then push_bit 63 1 else 0) OR of_nat (min (ieee_round 53 (- 1074) num den) 0x7FEFFFFFFFFFFFFF)"

section \<open>Values of bit patterns\<close>

text \<open>Sign, mantissa and exponent; infinities and NaNs have none.\<close>

definition double_parts :: "double_bits \<Rightarrow> (bool \<times> nat \<times> int) option" where
  "double_parts b =
     (let E = unat (drop_bit 52 b AND 0x7FF); F = unat (b AND 0xFFFFFFFFFFFFF)
      in if E = 0x7FF then None
         else Some (bit b 63, if E = 0 then (F, - 1074) else (F + 2 ^ 52, int E - 1075)))"

definition float_parts :: "float_bits \<Rightarrow> (bool \<times> nat \<times> int) option" where
  "float_parts b =
     (let E = unat (drop_bit 23 b AND 0xFF); F = unat (b AND 0x7FFFFF)
      in if E = 0xFF then None
         else Some (bit b 31, if E = 0 then (F, - 149) else (F + 2 ^ 23, int E - 150)))"

text \<open>\<open>static_cast\<close> of a \<open>double\<close> to an integer type truncates; \<open>None\<close> without a value.\<close>

definition double_trunc :: "double_bits \<Rightarrow> int option" where
  "double_trunc b =
     (case double_parts b of
        None \<Rightarrow> None
      | Some (neg, m, e) \<Rightarrow>
          (let t = int (m * 2 ^ nat e div 2 ^ nat (- e)) in Some (if neg then - t else t)))"

text \<open>
  \<open>static_cast<float>\<close> of a finite \<open>double\<close>; \<open>None\<close> when the value is out of the range of \<open>float\<close>,
  which is undefined behaviour.
\<close>

definition double_to_float :: "double_bits \<Rightarrow> float_bits option" where
  "double_to_float b =
     (case double_parts b of
        None \<Rightarrow> None
      | Some (neg, m, e) \<Rightarrow>
          (let v = ieee_round 24 (- 149) (m * 2 ^ nat e) (2 ^ nat (- e))
           in if v < 0x7F800000 then Some ((if neg then push_bit 31 1 else 0) OR of_nat v) else None))"

section \<open>Printing\<close>

text \<open>
  \<open>setprecision(P)\<close> and the default notation, which is \<open>%.Pg\<close>: the value rounded to \<open>P\<close> digits
  \<open>d\<close> with the exponent \<open>X\<close> of the first one; fixed notation for \<open>-4 <= X < P\<close>, otherwise
  scientific with at least two digits of exponent; zeros at the end of the fraction are dropped.
\<close>

definition decimal_digits :: "nat \<Rightarrow> nat \<Rightarrow> nat \<Rightarrow> nat \<times> int" where
  "decimal_digits P num den =
     (let X = (if den \<le> num then int (length (dec_nat (num div den))) - 1
               else - int (length (dec_nat ((den - 1) div num))));
          k = X - int (P - 1);
          d = round_even (num * 10 ^ nat (- k)) (den * 10 ^ nat k)
      in if d = 10 ^ P then (10 ^ (P - 1), X + 1) else (d, X))"

definition strip_zeros :: "cstring \<Rightarrow> cstring" where
  "strip_zeros s = rev (dropWhile (\<lambda>c. c = 48) (rev s))"

definition with_fraction :: "cstring \<Rightarrow> cstring \<Rightarrow> cstring" where
  "with_fraction whole frac = (if frac = [] then whole else whole @ [46] @ frac)"

definition print_exponent :: "int \<Rightarrow> cstring" where
  "print_exponent X =
     (let t = dec_nat (nat \<bar>X\<bar>)
      in 101 # (if X < 0 then 45 else 43) # (if length t < 2 then 48 # t else t))"

definition print_general :: "nat \<Rightarrow> bool \<times> nat \<times> int \<Rightarrow> cstring" where
  "print_general P v =
     (case v of (neg, m, e) \<Rightarrow>
        (if neg then [45] else []) @
        (if m = 0 then [48]
         else
           (let (d, X) = decimal_digits P (m * 2 ^ nat e) (2 ^ nat (- e)); ds = dec_nat d
            in if - 4 \<le> X \<and> X < int P
               then (if 0 \<le> X
                     then with_fraction (take (nat X + 1) ds) (strip_zeros (drop (nat X + 1) ds))
                     else with_fraction [48] (strip_zeros (replicate (nat (- X) - 1) 48 @ ds)))
               else with_fraction (take 1 ds) (strip_zeros (drop 1 ds)) @ print_exponent X)))"

text \<open>Infinities and NaNs, with their sign.\<close>

definition print_double :: "nat \<Rightarrow> double_bits \<Rightarrow> cstring" where
  "print_double P b =
     (case double_parts b of
        Some v \<Rightarrow> print_general P v
      | None \<Rightarrow> (if bit b 63 then [45] else []) @
          (if b AND 0xFFFFFFFFFFFFF = 0 then str ''inf'' else str ''nan''))"

definition print_float :: "nat \<Rightarrow> float_bits \<Rightarrow> cstring" where
  "print_float P b =
     (case float_parts b of
        Some v \<Rightarrow> print_general P v
      | None \<Rightarrow> (if bit b 31 then [45] else []) @
          (if b AND 0x7FFFFF = 0 then str ''inf'' else str ''nan''))"

section \<open>Reading\<close>

text \<open>
  \<open>operator>>\<close> takes a sign, digits with at most one point, and an exponent, as far as the text
  goes; if there is no digit, or none in the exponent, the result is zero.
\<close>

definition read_sign :: "cstring \<Rightarrow> bool \<times> cstring" where
  "read_sign s = (case s of c # cs \<Rightarrow> if c = 45 then (True, cs) else if c = 43 then (False, cs) else (False, s) | [] \<Rightarrow> (False, s))"

definition read_digits :: "cstring \<Rightarrow> cstring \<times> cstring" where
  "read_digits s = (takeWhile is_digit s, dropWhile is_digit s)"

definition read_double :: "cstring \<Rightarrow> double_bits" where
  "read_double s =
     (let (neg, s) = read_sign s;
          (a, s) = read_digits s;
          (b, s) = (case s of c # cs \<Rightarrow> if c = 46 then read_digits cs else ([], s) | [] \<Rightarrow> ([], s));
          num = digits_value (a @ b) 0;
          den = 10 ^ length b
      in if a @ b = [] then 0
         else case s of
                [] \<Rightarrow> double_of_rat neg num den
              | c # cs \<Rightarrow>
                  (if c = 101 \<or> c = 69
                   then
                     (let (eneg, cs) = read_sign cs; (ds, cs) = read_digits cs; x = digits_value ds 0
                      in if ds = [] then 0
                         else if eneg then double_of_rat neg num (den * 10 ^ x)
                         else double_of_rat neg (num * 10 ^ x) den)
                   else double_of_rat neg num den))"

end
