(* ===== verification/ToJSON.thy ===== *)
theory ToJSON
  imports Doubles Visitors
begin

text \<open>
  \<open>ToJSONVisitor.cpp\<close>: a message as JSON text, strings in base64.
\<close>

section \<open>Base64\<close>

definition ALPHABET :: cstring where
  "ALPHABET = str ''ABCDEFGHIJKLMNOPQRSTUVWXYZabcdefghijklmnopqrstuvwxyz0123456789+/''"

text \<open>The groups of six bits of a 24-bit value, from the most significant one.\<close>

definition sextet :: "uint32 \<Rightarrow> nat \<Rightarrow> byte" where
  "sextet value k = ALPHABET ! unat (drop_bit k value AND 0x3F)"

fun encodeBase64 :: "cstring \<Rightarrow> cstring" where
  "encodeBase64 (a # b # c # rem) =
     (let value = push_bit 16 (ucast a) OR push_bit 8 (ucast b) OR ucast c
      in sextet value 18 # sextet value 12 # sextet value 6 # sextet value 0 # encodeBase64 rem)"
| "encodeBase64 [a, b] =
     (let value = push_bit 16 (ucast a) OR push_bit 8 (ucast b)
      in [sextet value 18, sextet value 12, sextet value 6, 61])"
| "encodeBase64 [a] =
     (let value = push_bit 16 (ucast a) in [sextet value 18, sextet value 12, 61, 61])"
| "encodeBase64 [] = []"

section \<open>The visitor\<close>

record toJSON =
  tj_withOuterCurlyBraces :: bool
  tj_mask :: "(uint32 \<times> bool) list"
  tj_buffer :: cstring

definition toJSON_new :: "bool \<Rightarrow> (uint32 \<times> bool) list \<Rightarrow> toJSON" where
  "toJSON_new withOuterCurlyBraces masks =
     \<lparr>tj_withOuterCurlyBraces = withOuterCurlyBraces, tj_mask = masks, tj_buffer = []\<rparr>"

definition toJSON_json :: "toJSON \<Rightarrow> cstring" where
  "toJSON_json s =
     (let tmp = tj_buffer s
      in if 2 < length tmp
         then (if tj_withOuterCurlyBraces s then [123] else []) @ take (length tmp - 2) tmp @
              (if tj_withOuterCurlyBraces s then [125] else [])
         else [123, 125])"

definition masked_in :: "(uint32 \<times> bool) list \<Rightarrow> uint32 \<Rightarrow> bool" where
  "masked_in masks i \<longleftrightarrow> map_of masks i = None \<or> map_of masks i = Some True"

text \<open>What \<open>operator<<\<close> writes for the value of a field.\<close>

fun json_scalar :: "'m any \<Rightarrow> cstring" where
  "json_scalar (A_bool v) = (if v then [49] else [48])"
| "json_scalar (A_char v) = [34, v, 34]"
| "json_scalar (A_int8 v) = dec_int (sint v)"
| "json_scalar (A_uint8 v) = dec_int (uint v)"
| "json_scalar (A_int16 v) = dec_int (sint v)"
| "json_scalar (A_uint16 v) = dec_int (uint v)"
| "json_scalar (A_int32 v) = dec_int (sint v)"
| "json_scalar (A_uint32 v) = dec_int (uint v)"
| "json_scalar (A_int64 v) = dec_int (sint v)"
| "json_scalar (A_uint64 v) = dec_int (uint v)"
| "json_scalar (A_float v) = print_float 7 v"
| "json_scalar (A_double v) = print_double 11 v"
| "json_scalar (A_string v) = 34 # encodeBase64 v @ [34]"
| "json_scalar _ = []"

definition toJSON_put :: "cstring \<Rightarrow> cstring \<Rightarrow> toJSON \<Rightarrow> toJSON" where
  "toJSON_put name v s = s\<lparr>tj_buffer := tj_buffer s @ 34 # name @ 34 # 58 # v @ [44, 10]\<rparr>"

definition toJSON_visit :: "uint32 \<Rightarrow> cstring \<Rightarrow> cstring \<Rightarrow> 'm any \<Rightarrow> toJSON \<Rightarrow> 'm any \<times> toJSON" where
  "toJSON_visit i tn name v s =
     (v, if is_scalar v \<and> masked_in (tj_mask s) i then toJSON_put name (json_scalar v) s else s)"

text \<open>A nested message gets a visitor with outer braces and no masks.\<close>

definition toJSON :: "(toJSON, 'm) visitor" where
  "toJSON =
     \<lparr>v_pre = (\<lambda>_ _ _ s. s), v_visit = toJSON_visit,
      v_enter = (\<lambda>i _ _ s. if masked_in (tj_mask s) i then Some (toJSON_new True []) else None),
      v_leave = (\<lambda>_ _ name s t. toJSON_put name (toJSON_json t) s), v_post = (\<lambda>s. s)\<rparr>"

definition json_encode_with :: "bool \<Rightarrow> (uint32 \<times> bool) list \<Rightarrow> visitable \<Rightarrow> cstring" where
  "json_encode_with withOuterCurlyBraces masks m =
     toJSON_json (snd (accept toJSON m (toJSON_new withOuterCurlyBraces masks)))"

definition json_encode :: "visitable \<Rightarrow> cstring" where
  "json_encode m = json_encode_with True [] m"

end
