(* ===== verification/FromJSON.thy ===== *)
theory FromJSON
  imports ToJSON
begin

text \<open>
  \<open>FromJSONVisitor.cpp\<close>: JSON text is searched for pairs of key and value with a regular
  expression. The matcher models the depth-first executor of \<open>std::regex\<close> for the constructs the
  expression uses.
\<close>

section \<open>Regular expressions\<close>

datatype rx =
    Rx_empty
  | Rx_set "byte \<Rightarrow> bool"
  | Rx_star "byte \<Rightarrow> bool"
  | Rx_ahead byte
  | Rx_seq rx rx
  | Rx_alt rx rx

text \<open>
  The inputs that remain behind the matches at the start of the input, the preferred match first:
  stars are greedy, the left alternative comes before the right one.
\<close>

primrec star_rests :: "(byte \<Rightarrow> bool) \<Rightarrow> cstring \<Rightarrow> cstring list" where
  "star_rests P [] = [[]]"
| "star_rests P (c # cs) = (if P c then star_rests P cs @ [c # cs] else [c # cs])"

primrec rx_rests :: "rx \<Rightarrow> cstring \<Rightarrow> cstring list" where
  "rx_rests Rx_empty s = [s]"
| "rx_rests (Rx_set P) s = (case s of c # cs \<Rightarrow> if P c then [cs] else [] | [] \<Rightarrow> [])"
| "rx_rests (Rx_star P) s = star_rests P s"
| "rx_rests (Rx_ahead d) s = (case s of c # cs \<Rightarrow> if c = d then [s] else [] | [] \<Rightarrow> [])"
| "rx_rests (Rx_seq r q) s = concat (map (rx_rests q) (rx_rests r s))"
| "rx_rests (Rx_alt r q) s = rx_rests r s @ rx_rests q s"

abbreviation rx_opt :: "rx \<Rightarrow> rx" where
  "rx_opt r \<equiv> Rx_alt r Rx_empty"

abbreviation rx_plus :: "(byte \<Rightarrow> bool) \<Rightarrow> rx" where
  "rx_plus P \<equiv> Rx_seq (Rx_set P) (Rx_star P)"

abbreviation rx_char :: "byte \<Rightarrow> rx" where
  "rx_char c \<equiv> Rx_set (\<lambda>d. d = c)"

definition rx_string :: "cstring \<Rightarrow> rx" where
  "rx_string s = foldr (\<lambda>c r. Rx_seq (rx_char c) r) s Rx_empty"

text \<open>\<open>regex_search\<close>: the match and the suffix at the first position where there is a match.\<close>

fun regex_search :: "rx \<Rightarrow> cstring \<Rightarrow> (cstring \<times> cstring) option" where
  "regex_search r s =
     (case rx_rests r s of
        t # _ \<Rightarrow> Some (take (length s - length t) s, t)
      | [] \<Rightarrow> (case s of [] \<Rightarrow> None | _ # cs \<Rightarrow> regex_search r cs))"

declare regex_search.simps [simp del]

definition is_quote :: "byte \<Rightarrow> bool" where
  "is_quote c \<longleftrightarrow> c = 34 \<or> c = 39"

text \<open>The class \<open>[0-9a-zA-Z\+\-\,\.\$\ \=]\<close>.\<close>

definition is_plain :: "byte \<Rightarrow> bool" where
  "is_plain c \<longleftrightarrow> is_digit c \<or> (97 \<le> c \<and> c \<le> 122) \<or> (65 \<le> c \<and> c \<le> 90) \<or>
     c = 43 \<or> c = 45 \<or> c = 44 \<or> c = 46 \<or> c = 36 \<or> c = 32 \<or> c = 61"

definition rx_key :: rx where
  "rx_key = Rx_seq (Rx_set is_quote) (Rx_seq (Rx_star (\<lambda>c. c \<noteq> 34)) (Rx_seq (Rx_set is_quote)
     (Rx_seq (Rx_ahead 58) (Rx_seq (rx_char 58) (Rx_star is_space)))))"

definition rx_integer :: rx where
  "rx_integer = Rx_seq (rx_opt (rx_char 45)) (rx_plus is_digit)"

definition rx_value :: rx where
  "rx_value = Rx_alt (rx_string (str ''true'')) (Rx_alt (rx_string (str ''false''))
     (Rx_alt (Rx_seq rx_integer (Rx_seq (rx_char 46) (rx_plus is_digit)))
       (Rx_alt rx_integer (Rx_star is_plain))))"

definition MATCH_JSON :: rx where
  "MATCH_JSON = Rx_seq rx_key (Rx_seq (rx_opt (Rx_set is_quote)) (Rx_seq rx_value (rx_opt (Rx_set is_quote))))"

section \<open>Reading pairs of key and value\<close>

datatype JSONConstants = IS_FALSE | IS_TRUE | NUMBER | STRING | OBJECT | UNDEFINED

datatype JSONKeyValue = JSONKeyValue (m_key: cstring) (m_type: JSONConstants)
  (m_value: "(cstring \<times> JSONKeyValue) list any")

type_synonym json_map = "(cstring \<times> JSONKeyValue) list"

text \<open>
  \<open>split(s, '"')[1]\<close>; \<open>None\<close> when there is no second part, as for a key in single quotes: the access
  is out of the vector's range, undefined behaviour.
\<close>

definition json_key :: "cstring \<Rightarrow> cstring option" where
  "json_key s = (let parts = split (trim s) 34 in if 1 < length parts then Some (parts ! 1) else None)"

definition json_value :: "cstring \<Rightarrow> cstring \<Rightarrow> JSONKeyValue" where
  "json_value key v =
     (if hd v = 34 then JSONKeyValue key STRING (A_string (tl v))
      else if v = str ''false'' \<or> v = str ''true''
           then JSONKeyValue key (if v = str ''true'' then IS_TRUE else IS_FALSE) (A_bool (v = str ''true''))
           else JSONKeyValue key NUMBER (A_double (read_double v)))"

text \<open>
  The loop of \<open>readKeyValues\<close>, from the search on. The result is what has been read, the input that
  is left, and whether behaviour was undefined; \<open>None\<close> when the function does not return: a match
  with a colon in its key splits into more than two parts, and the loop repeats with the same input.
\<close>

partial_function (option) readPairs ::
  "cstring \<Rightarrow> cstring \<Rightarrow> json_map \<Rightarrow> (json_map \<times> cstring \<times> bool) option" where
  "readPairs oldInput input result =
     (case regex_search MATCH_JSON input of
        None \<Rightarrow> Some (result, input, False)
      | Some (match, suffix) \<Rightarrow>
          (if length (split match 58) = 2
           then
             (case json_key (split match 58 ! 0) of
                None \<Rightarrow> Some (result, input, True)
              | Some key \<Rightarrow>
                  (let v = trim (split match 58 ! 1); rem = trim suffix in
                   if v = []
                   then Option.bind (readPairs [] rem [])
                     (\<lambda>(nested, rem, ub).
                        let result = assign key (JSONKeyValue key OBJECT (A_obj nested)) result
                        in if \<not> ub \<and> input \<noteq> rem then readPairs input rem result
                           else Some (result, rem, ub))
                   else
                     (let result = assign key (json_value key v) result
                      in if (rem \<noteq> [] \<and> hd rem = 125) \<or> input = rem then Some (result, rem, False)
                         else readPairs input rem result)))
           else if oldInput \<noteq> input then readPairs oldInput input result
           else Some (result, input, False)))"

declare readPairs.simps [code]

definition readKeyValues_json :: "cstring \<Rightarrow> (json_map \<times> cstring \<times> bool) option" where
  "readKeyValues_json input = readPairs [] input []"

section \<open>The visitor\<close>

text \<open>\<open>fj_throws\<close>: an exception left a \<open>noexcept\<close> function, which ends the program.\<close>

record fromJSON =
  fj_keyValues :: json_map
  fj_undef :: bool
  fj_throws :: bool

definition fromJSON_new :: fromJSON where
  "fromJSON_new = \<lparr>fj_keyValues = [], fj_undef = False, fj_throws = False\<rparr>"

text \<open>
  \<open>decodeFrom\<close>: \<open>istream_iterator<char>\<close> leaves out all white space; nothing is left for the
  \<open>remove_if\<close> behind it to erase.
\<close>

definition decodeFrom_json :: "cstring \<Rightarrow> fromJSON \<Rightarrow> fromJSON option" where
  "decodeFrom_json content s =
     (case readKeyValues_json (filter (\<lambda>c. c \<noteq> 13 \<and> c \<noteq> 9 \<and> c \<noteq> 10) (filter (\<lambda>c. \<not> is_space c) content)) of
        None \<Rightarrow> None
      | Some (kvs, _, ub) \<Rightarrow> Some (s\<lparr>fj_keyValues := kvs, fj_undef := fj_undef s \<or> ub\<rparr>))"

text \<open>The position of a character in the alphabet, 64 if it is not in there.\<close>

definition base64_index :: "byte \<Rightarrow> nat" where
  "base64_index c = length (takeWhile (\<lambda>d. d \<noteq> c) ALPHABET)"

fun decodeBase64 :: "cstring \<Rightarrow> cstring" where
  "decodeBase64 (a # b # c # d # rem) =
     (let i = base64_index a; j = base64_index b; k = base64_index c; l = base64_index d
      in of_nat (i * 4 + j div 16) # (if k \<noteq> 64 then [of_nat (j * 16 + k div 4)] else []) @
         (if l \<noteq> 64 then [of_nat (k * 64 + l)] else []) @ decodeBase64 rem)"
| "decodeBase64 _ = []"

text \<open>
  \<open>static_cast\<close> of a \<open>double\<close> to an integer type with the given range; out of the range behaviour is
  undefined, the variable keeps its value here, and the flag is set.
\<close>

definition json_integer :: "int \<Rightarrow> int \<Rightarrow> JSONKeyValue \<Rightarrow> (int \<Rightarrow> 'm any) \<Rightarrow> 'm any \<Rightarrow> fromJSON \<Rightarrow> 'm any \<times> fromJSON" where
  "json_integer lo hi kv mk v s =
     (case m_value kv of
        A_double d \<Rightarrow>
          (if m_type kv = NUMBER
           then
             (case double_trunc d of
                Some n \<Rightarrow> if lo \<le> n \<and> n \<le> hi then (mk n, s) else (v, s\<lparr>fj_undef := True\<rparr>)
              | None \<Rightarrow> (v, s\<lparr>fj_undef := True\<rparr>))
           else (v, s))
      | _ \<Rightarrow> (v, s))"

fun json_assign :: "JSONKeyValue \<Rightarrow> 'm any \<Rightarrow> fromJSON \<Rightarrow> 'm any \<times> fromJSON" where
  "json_assign kv (A_bool v) s =
     (if m_type kv = IS_FALSE then (A_bool False, s)
      else if m_type kv = IS_TRUE then (A_bool True, s)
      else json_integer 0 (2 ^ 32 - 1) kv (\<lambda>n. A_bool (n = 1)) (A_bool v) s)"
| "json_assign kv (A_char v) s =
     (if m_type kv = STRING
      then (case m_value kv of
              A_string t \<Rightarrow> (if t = [] then (A_char v, s\<lparr>fj_throws := True\<rparr>) else (A_char (hd t), s))
            | _ \<Rightarrow> (A_char v, s))
      else (A_char v, s))"
| "json_assign kv (A_int8 v) s = json_integer (- (2 ^ 7)) (2 ^ 7 - 1) kv (\<lambda>n. A_int8 (of_int n)) (A_int8 v) s"
| "json_assign kv (A_uint8 v) s = json_integer 0 (2 ^ 8 - 1) kv (\<lambda>n. A_uint8 (of_int n)) (A_uint8 v) s"
| "json_assign kv (A_int16 v) s = json_integer (- (2 ^ 15)) (2 ^ 15 - 1) kv (\<lambda>n. A_int16 (of_int n)) (A_int16 v) s"
| "json_assign kv (A_uint16 v) s = json_integer 0 (2 ^ 16 - 1) kv (\<lambda>n. A_uint16 (of_int n)) (A_uint16 v) s"
| "json_assign kv (A_int32 v) s = json_integer (- (2 ^ 31)) (2 ^ 31 - 1) kv (\<lambda>n. A_int32 (of_int n)) (A_int32 v) s"
| "json_assign kv (A_uint32 v) s = json_integer 0 (2 ^ 32 - 1) kv (\<lambda>n. A_uint32 (of_int n)) (A_uint32 v) s"
| "json_assign kv (A_int64 v) s = json_integer (- (2 ^ 63)) (2 ^ 63 - 1) kv (\<lambda>n. A_int64 (of_int n)) (A_int64 v) s"
| "json_assign kv (A_uint64 v) s = json_integer 0 (2 ^ 64 - 1) kv (\<lambda>n. A_uint64 (of_int n)) (A_uint64 v) s"
| "json_assign kv (A_float v) s =
     (case m_value kv of
        A_double d \<Rightarrow>
          (if m_type kv = NUMBER
           then (case double_to_float d of Some f \<Rightarrow> (A_float f, s) | None \<Rightarrow> (A_float v, s\<lparr>fj_undef := True\<rparr>))
           else (A_float v, s))
      | _ \<Rightarrow> (A_float v, s))"
| "json_assign kv (A_double v) s =
     (case m_value kv of
        A_double d \<Rightarrow> (if m_type kv = NUMBER then (A_double d, s) else (A_double v, s))
      | _ \<Rightarrow> (A_double v, s))"
| "json_assign kv (A_string v) s =
     (case m_value kv of A_string t \<Rightarrow> (A_string (decodeBase64 t), s) | _ \<Rightarrow> (A_string v, s))"
| "json_assign kv v s = (v, s)"

definition fromJSON_visit :: "uint32 \<Rightarrow> cstring \<Rightarrow> cstring \<Rightarrow> 'm any \<Rightarrow> fromJSON \<Rightarrow> 'm any \<times> fromJSON" where
  "fromJSON_visit i tn name v s =
     (case map_of (fj_keyValues s) name of None \<Rightarrow> (v, s) | Some kv \<Rightarrow> json_assign kv v s)"

text \<open>A nested message is visited with a decoder on the map of its pairs.\<close>

definition fromJSON_enter :: "uint32 \<Rightarrow> cstring \<Rightarrow> cstring \<Rightarrow> fromJSON \<Rightarrow> fromJSON option" where
  "fromJSON_enter i tn name s =
     (case map_of (fj_keyValues s) name of
        None \<Rightarrow> None
      | Some kv \<Rightarrow> (case m_value kv of A_obj kvs \<Rightarrow> Some (s\<lparr>fj_keyValues := kvs\<rparr>) | _ \<Rightarrow> None))"

definition fromJSON :: "(fromJSON, 'm) visitor" where
  "fromJSON =
     \<lparr>v_pre = (\<lambda>_ _ _ s. s), v_visit = fromJSON_visit, v_enter = fromJSON_enter,
      v_leave = (\<lambda>_ _ _ s t. t\<lparr>fj_keyValues := fj_keyValues s\<rparr>), v_post = (\<lambda>s. s)\<rparr>"

definition json_decode :: "cstring \<Rightarrow> visitable \<Rightarrow> (visitable \<times> fromJSON) option" where
  "json_decode content m = map_option (accept fromJSON m) (decodeFrom_json content fromJSON_new)"

end
