(* ===== verification/JSONText.thy ===== *)
theory JSONText
  imports FromJSON
begin

text \<open>
  Lemmas on the parts of the JSON codec: base64, the regular expression on the texts the encoder
  writes, and integers that pass through a \<open>double\<close>.
\<close>

section \<open>Base64\<close>

lemma alphabet: "length ALPHABET = 64" "distinct ALPHABET" "61 \<notin> set ALPHABET" "34 \<notin> set ALPHABET"
  by (simp_all add: ALPHABET_def)

lemma index_of_nth: "distinct xs \<Longrightarrow> n < length xs \<Longrightarrow> length (takeWhile (\<lambda>d. d \<noteq> xs ! n) xs) = n"
proof (induction xs arbitrary: n)
  case (Cons x xs)
  then show ?case by (cases n) auto
qed simp

lemma base64_index_nth: "n < 64 \<Longrightarrow> base64_index (ALPHABET ! n) = n"
  using index_of_nth [of ALPHABET n] alphabet by (simp add: base64_index_def)

lemma base64_index_other: "c \<notin> set ALPHABET \<Longrightarrow> base64_index c = 64"
  using alphabet(1) by (simp add: base64_index_def) (metis (mono_tags, lifting) takeWhile_eq_all_conv)

lemma sextet_index: "base64_index (sextet v k) = unat v div 2 ^ k mod 64"
proof -
  have m: "(0x3F :: uint32) = mask 6" by (simp add: mask_eq_exp_minus_1)
  have "unat (drop_bit k v AND 0x3F) = take_bit 6 (drop_bit k (unat v))"
    unfolding m by (simp only: unsigned_take_bit_eq unat_drop_bit_eq flip: take_bit_eq_mask)
  then have "unat (drop_bit k v AND 0x3F) = take_bit 6 (unat v div 2 ^ k)" by (simp only: drop_bit_eq_div)
  then show ?thesis by (simp add: sextet_def base64_index_nth take_bit_eq_mod)
qed

lemma unat_byte_less: "unat (a :: byte) < 256"
  using unsigned_less [of a, where 'a = nat] by simp

lemma unat_group:
  fixes a b c :: byte
  shows "unat (push_bit 16 (ucast a) OR push_bit 8 (ucast b) OR ucast c :: uint32) =
     unat a * 65536 + unat b * 256 + unat c"
proof -
  note g = unat_byte_less [of a] unat_byte_less [of b] unat_byte_less [of c]
  have u: "(ucast x :: uint32) = of_nat (unat x)" for x :: byte by simp
  have p: "push_bit 8 (ucast b :: uint32) = of_nat (unat b * 256)" "push_bit 16 (ucast a :: uint32) = of_nat (unat a * 65536)"
    unfolding u push_bit_of_nat push_bit_eq_mult by simp_all
  have "push_bit 8 (ucast b) OR (of_nat (unat c) :: uint32) = push_bit 8 (ucast b) + of_nat (unat c)"
    by (rule or_disjoint) (use g in simp)
  also have "\<dots> = of_nat (unat b * 256 + unat c)" unfolding p by (rule of_nat_add [symmetric])
  finally have 1: "push_bit 8 (ucast b) OR (ucast c :: uint32) = of_nat (unat b * 256 + unat c)"
    by (simp only: u)
  have "push_bit 16 (ucast a) OR (of_nat (unat b * 256 + unat c) :: uint32) =
      push_bit 16 (ucast a) + of_nat (unat b * 256 + unat c)"
    by (rule or_disjoint) (use g in simp)
  also have "\<dots> = of_nat (unat a * 65536 + (unat b * 256 + unat c))" unfolding p by (rule of_nat_add [symmetric])
  finally have 2: "push_bit 16 (ucast a) OR push_bit 8 (ucast b) OR (ucast c :: uint32) =
      of_nat (unat a * 65536 + (unat b * 256 + unat c))"
    by (simp only: or.assoc 1)
  have "unat a * 65536 + (unat b * 256 + unat c) < 2 ^ 32" using g by simp
  then have "(unat a * 65536 + (unat b * 256 + unat c)) mod 2 ^ 32 = unat a * 65536 + (unat b * 256 + unat c)"
    by (rule mod_less)
  then show ?thesis unfolding 2 unat_of_nat by simp
qed

lemma mod_mult_less: "r < m \<Longrightarrow> (m * q + r) mod m = r" "r < m \<Longrightarrow> (m * q + r) div m = (q :: nat)"
  by simp_all

lemma split_number: "0 < (m :: nat) \<Longrightarrow> \<exists>q r. n = m * q + r \<and> r < m"
  by (metis mod_less_divisor mult_div_mod_eq)

lemma group_sextets:
  fixes a b c :: nat
  assumes "a < 256" and "b < 256" and "c < 256"
  defines "v \<equiv> a * 65536 + b * 256 + c"
  shows "v div 2 ^ 18 mod 64 = a div 4" and "v div 2 ^ 12 mod 64 = a mod 4 * 16 + b div 16"
    and "v div 2 ^ 6 mod 64 = b mod 16 * 4 + c div 64" and "v div 2 ^ 0 mod 64 = c mod 64"
proof -
  obtain a1 a0 where a: "a = 4 * a1 + a0" "a0 < 4" using split_number [of 4 a] by auto
  obtain b1 b0 where b: "b = 16 * b1 + b0" "b0 < 16" using split_number [of 16 b] by auto
  obtain c1 c0 where c: "c = 64 * c1 + c0" "c0 < 64" using split_number [of 64 c] by auto
  have less: "a1 < 64" "b1 < 16" "c1 < 4" using assms a b c by auto
  have d: "a div 4 = a1" "a mod 4 = a0" "b div 16 = b1" "b mod 16 = b0" "c div 64 = c1" "c mod 64 = c0"
    using a b c by simp_all
  have v: "v = 262144 * a1 + (65536 * a0 + 4096 * b1 + 256 * b0 + 64 * c1 + c0)"
    "v = 4096 * (64 * a1 + (16 * a0 + b1)) + (256 * b0 + 64 * c1 + c0)"
    "v = 64 * (64 * (64 * a1 + 16 * a0 + b1) + (4 * b0 + c1)) + c0"
    by (simp_all add: v_def a b c)
  have "v div 262144 = a1" unfolding v(1) by (rule mod_mult_less) (use a b c less in linarith)
  then show "v div 2 ^ 18 mod 64 = a div 4" using less by (simp add: d)
  have "v div 4096 = 64 * a1 + (16 * a0 + b1)" unfolding v(2) by (rule mod_mult_less) (use a b c less in linarith)
  moreover have "(64 * a1 + (16 * a0 + b1)) mod 64 = 16 * a0 + b1" by (rule mod_mult_less) (use a less in linarith)
  ultimately show "v div 2 ^ 12 mod 64 = a mod 4 * 16 + b div 16" by (simp add: d)
  have "v div 64 = 64 * (64 * a1 + 16 * a0 + b1) + (4 * b0 + c1)" unfolding v(3) by (rule mod_mult_less) (rule c)
  moreover have "(64 * (64 * a1 + 16 * a0 + b1) + (4 * b0 + c1)) mod 64 = 4 * b0 + c1"
    by (rule mod_mult_less) (use b less in linarith)
  ultimately show "v div 2 ^ 6 mod 64 = b mod 16 * 4 + c div 64" by (simp add: d)
  have "v mod 64 = c0" unfolding v(3) by (rule mod_mult_less) (rule c)
  then show "v div 2 ^ 0 mod 64 = c mod 64" by (simp add: d)
qed

lemma of_nat_byte: "n mod 256 = unat a \<Longrightarrow> of_nat n = (a :: byte)"
  by (rule word_unat_eq_iff [THEN iffD2]) (simp add: unat_of_nat)

lemma decode_group:
  fixes a b c :: byte
  shows "(of_nat (unat a div 4 * 4 + (unat a mod 4 * 16 + unat b div 16) div 16) :: byte) = a"
    and "(of_nat ((unat a mod 4 * 16 + unat b div 16) * 16 + (unat b mod 16 * 4 + unat c div 64) div 4) :: byte) = b"
    and "(of_nat ((unat b mod 16 * 4 + unat c div 64) * 64 + unat c mod 64) :: byte) = c"
proof -
  note g = unat_byte_less [of a] unat_byte_less [of b] unat_byte_less [of c]
  obtain a1 a0 where a: "unat a = 4 * a1 + a0" "a0 < 4" using split_number [of 4 "unat a"] by auto
  obtain b1 b0 where b: "unat b = 16 * b1 + b0" "b0 < 16" using split_number [of 16 "unat b"] by auto
  obtain c1 c0 where c: "unat c = 64 * c1 + c0" "c0 < 64" using split_number [of 64 "unat c"] by auto
  have less: "a1 < 64" "b1 < 16" "c1 < 4" using g a b c by auto
  have d: "unat a div 4 = a1" "unat a mod 4 = a0" "unat b div 16 = b1" "unat b mod 16 = b0"
    "unat c div 64 = c1" "unat c mod 64 = c0"
    using a b c by simp_all
  have "(a0 * 16 + b1) div 16 = a0" using less by simp
  then show "(of_nat (unat a div 4 * 4 + (unat a mod 4 * 16 + unat b div 16) div 16) :: byte) = a"
    using a g(1) by (intro of_nat_byte) (simp add: d)
  have "(b0 * 4 + c1) div 4 = b0" using less by simp
  moreover have "((a0 * 16 + b1) * 16 + b0) mod 256 = 16 * b1 + b0"
  proof -
    have "(a0 * 16 + b1) * 16 + b0 = 256 * a0 + (16 * b1 + b0)" by simp
    then show ?thesis using b g(2) by (simp only: mod_mult_less)
  qed
  ultimately show "(of_nat ((unat a mod 4 * 16 + unat b div 16) * 16 + (unat b mod 16 * 4 + unat c div 64) div 4) :: byte) = b"
    using b by (intro of_nat_byte) (simp add: d)
  have "((b0 * 4 + c1) * 64 + c0) mod 256 = 64 * c1 + c0"
  proof -
    have "(b0 * 4 + c1) * 64 + c0 = 256 * b0 + (64 * c1 + c0)" by simp
    then show ?thesis using c g(3) by (simp only: mod_mult_less)
  qed
  then show "(of_nat ((unat b mod 16 * 4 + unat c div 64) * 64 + unat c mod 64) :: byte) = c"
    using c by (intro of_nat_byte) (simp add: d)
qed

lemma not_padding: "unat c mod 64 \<noteq> 64" "unat b mod 16 * 4 + unat (c :: byte) div 64 \<noteq> 64"
proof -
  have "unat c mod 64 < 64" "unat b mod 16 < 16" "unat c div 64 < 4"
    using unat_byte_less [of c] by (simp_all add: less_mult_imp_div_less)
  then show "unat c mod 64 \<noteq> 64" "unat b mod 16 * 4 + unat c div 64 \<noteq> 64" by linarith+
qed

text \<open>Whatever is shorter than a group behind the text is left out.\<close>

lemma decodeBase64_encodeBase64_append:
  "length t < 4 \<Longrightarrow> decodeBase64 (encodeBase64 s @ t) = s"
proof (induction s rule: encodeBase64.induct)
  case (1 a b c s)
  note g = unat_byte_less [of a] unat_byte_less [of b] unat_byte_less [of c]
  have ih: "decodeBase64 (encodeBase64 s @ t) = s" using 1 by simp
  show ?case
    by (simp only: encodeBase64.simps Let_def append.simps decodeBase64.simps sextet_index unat_group
        group_sextets [OF g] not_padding decode_group ih) simp
next
  case (2 a b)
  have g: "unat a < 256" "unat b < 256" "(0 :: nat) < 256" by (simp_all add: unat_byte_less)
  have u: "unat (push_bit 16 (ucast a) OR push_bit 8 (ucast b) :: uint32) = unat a * 65536 + unat b * 256 + 0"
    using unat_group [of a b 0] by simp
  have t: "decodeBase64 t = []" using 2 by (cases t rule: decodeBase64.cases) auto
  have p: "base64_index 61 = 64" by (rule base64_index_other) (rule alphabet)
  have n: "unat b mod 16 * 4 + 0 div 64 \<noteq> 64" using not_padding(2) [of b "0 :: byte"] by simp
  have d: "(of_nat (unat a div 4 * 4 + (unat a mod 4 * 16 + unat b div 16) div 16) :: byte) = a"
    "(of_nat ((unat a mod 4 * 16 + unat b div 16) * 16 + (unat b mod 16 * 4 + 0 div 64) div 4) :: byte) = b"
    using decode_group(1) [of a b] decode_group(2) [of a b "0 :: byte"] by simp_all
  show ?case
    by (simp only: encodeBase64.simps Let_def append.simps decodeBase64.simps sextet_index u group_sextets [OF g]
        p n d t) simp
next
  case (3 a)
  have g: "unat a < 256" "(0 :: nat) < 256" "(0 :: nat) < 256" by (simp_all add: unat_byte_less)
  have u: "unat (push_bit 16 (ucast a) :: uint32) = unat a * 65536 + 0 * 256 + 0"
    using unat_group [of a 0 0] by simp
  have t: "decodeBase64 t = []" using 3 by (cases t rule: decodeBase64.cases) auto
  have p: "base64_index 61 = 64" by (rule base64_index_other) (rule alphabet)
  have d: "(of_nat (unat a div 4 * 4 + (unat a mod 4 * 16 + 0 div 16) div 16) :: byte) = a"
    using decode_group(1) [of a "0 :: byte"] by simp
  show ?case
    by (simp only: encodeBase64.simps Let_def append.simps decodeBase64.simps sextet_index u group_sextets [OF g]
        p d t) simp
next
  case 4
  then show ?case by (cases t rule: decodeBase64.cases) auto
qed

section \<open>Matching\<close>

text \<open>\<open>prefers r s t\<close>: the preferred match of \<open>r\<close> at the start of \<open>s\<close> leaves \<open>t\<close>.\<close>

definition prefers :: "rx \<Rightarrow> cstring \<Rightarrow> cstring \<Rightarrow> bool" where
  "prefers r s t \<longleftrightarrow> (\<exists>ts. rx_rests r s = t # ts)"

lemma prefers_seq: "prefers r s t \<Longrightarrow> prefers q t u \<Longrightarrow> prefers (Rx_seq r q) s u"
  by (auto simp: prefers_def)

lemma prefers_left: "prefers r s t \<Longrightarrow> prefers (Rx_alt r q) s t"
  by (auto simp: prefers_def)

lemma prefers_right: "rx_rests r s = [] \<Longrightarrow> prefers q s t \<Longrightarrow> prefers (Rx_alt r q) s t"
  by (auto simp: prefers_def)

lemma prefers_set: "P c \<Longrightarrow> prefers (Rx_set P) (c # s) s"
  by (auto simp: prefers_def)

lemma prefers_ahead: "prefers (Rx_ahead c) (c # s) (c # s)"
  by (auto simp: prefers_def)

lemma prefers_empty: "prefers Rx_empty s s"
  by (simp add: prefers_def)

definition stops :: "(byte \<Rightarrow> bool) \<Rightarrow> cstring \<Rightarrow> bool" where
  "stops P s \<longleftrightarrow> (s = [] \<or> \<not> P (hd s))"

lemma stops_simps [simp]: "stops P []" "stops P (c # s) \<longleftrightarrow> \<not> P c"
  by (simp_all add: stops_def)

lemma star_rests_stops: "stops P t \<Longrightarrow> star_rests P t = [t]"
  by (cases t) auto

lemma prefers_star: "list_all P a \<Longrightarrow> stops P t \<Longrightarrow> prefers (Rx_star P) (a @ t) t"
proof (induction a)
  case (Cons c a)
  then show ?case by (auto simp: prefers_def)
qed (simp add: prefers_def star_rests_stops)

lemma star_rests_cases: "x \<in> set (star_rests P (a @ t)) \<Longrightarrow> list_all P a \<Longrightarrow> stops P t \<Longrightarrow> x = t \<or> (x \<noteq> [] \<and> P (hd x))"
  by (induction a) (auto simp: star_rests_stops split: if_splits)

lemma prefers_opt_skip: "rx_rests r s = [] \<Longrightarrow> prefers (rx_opt r) s s"
  by (rule prefers_right [OF _ prefers_empty])

lemma rx_string_fails: "s = [] \<or> hd s \<noteq> c \<Longrightarrow> rx_rests (rx_string (c # cs)) s = []"
  by (cases s) (auto simp: rx_string_def)

lemma rx_string_rests: "rx_rests (rx_string cs) s = (if take (length cs) s = cs then [drop (length cs) s] else [])"
proof (induction cs arbitrary: s)
  case (Cons c cs)
  then show ?case by (cases s) (auto simp: rx_string_def)
qed (simp add: rx_string_def)

section \<open>The expression\<close>

lemma prefers_key:
  assumes "34 \<notin> set n" and "stops is_space t"
  shows "prefers rx_key (34 # n @ 34 # 58 # t) t"
  unfolding rx_key_def
proof (rule prefers_seq)
  show "prefers (Rx_set is_quote) (34 # n @ 34 # 58 # t) (n @ 34 # 58 # t)"
    by (rule prefers_set) (simp add: is_quote_def)
  have "list_all (\<lambda>c. c \<noteq> 34) n" using assms(1) by (auto simp: list_all_iff)
  then have 1: "prefers (Rx_star (\<lambda>c. c \<noteq> 34)) (n @ 34 # 58 # t) (34 # 58 # t)"
    by (rule prefers_star) simp
  have 2: "prefers (Rx_set is_quote) (34 # 58 # t) (58 # t)" by (rule prefers_set) (simp add: is_quote_def)
  have 3: "prefers (rx_char 58) (58 # t) t" by (rule prefers_set) simp
  have 4: "prefers (Rx_star is_space) t t" using prefers_star [of is_space "[]" t] assms(2) by simp
  show "prefers (Rx_seq (Rx_star (\<lambda>c. c \<noteq> 34)) (Rx_seq (Rx_set is_quote)
      (Rx_seq (Rx_ahead 58) (Rx_seq (rx_char 58) (Rx_star is_space))))) (n @ 34 # 58 # t) t"
    by (rule prefers_seq [OF 1 prefers_seq [OF 2 prefers_seq [OF prefers_ahead prefers_seq [OF 3 4]]]])
qed

text \<open>The first byte of a decimal number.\<close>

definition number_start :: "byte \<Rightarrow> bool" where
  "number_start c \<longleftrightarrow> is_digit c \<or> c = 45"

lemma rx_integer_fails: "stops number_start s \<Longrightarrow> rx_rests rx_integer s = []"
  by (cases s) (auto simp: rx_integer_def number_start_def)

lemma rx_fraction_fails: "rx_rests rx_integer s = [] \<Longrightarrow> rx_rests (Rx_seq rx_integer q) s = []"
  by simp

lemma rx_words_fail:
  assumes "stops (\<lambda>c. c = 116 \<or> c = 102) s"
  shows "rx_rests (rx_string (str ''true'')) s = []" and "rx_rests (rx_string (str ''false'')) s = []"
  using assms by (auto intro!: rx_string_fails simp: stops_def)

lemma digit_not: "is_digit c \<Longrightarrow> c \<noteq> 45 \<and> c \<noteq> 46 \<and> c \<noteq> 116 \<and> c \<noteq> 102 \<and> \<not> is_quote c \<and> \<not> is_space c \<and> \<not> is_blank c"
  by (auto simp: is_digit_def is_quote_def is_space_def is_blank_def word_le_nat_alt)

lemma integer_match:
  assumes "a = ds \<or> a = 45 # ds" and "ds \<noteq> []" and "list_all is_digit ds" and "stops is_digit t" and "stops (\<lambda>c. c = 46) t"
  shows "prefers rx_integer (a @ t) t" and "rx_rests (Rx_seq rx_integer (Rx_seq (rx_char 46) q)) (a @ t) = []"
proof -
  obtain d es where ds: "ds = d # es" using assms(2) by (cases ds) auto
  have d: "is_digit d" "list_all is_digit es" using assms(3) by (simp_all add: ds)
  have star: "prefers (Rx_star is_digit) (es @ t) t" by (rule prefers_star [OF d(2) assms(4)])
  have plus: "prefers (rx_plus is_digit) (ds @ t) t"
    using prefers_seq [OF prefers_set [of is_digit, OF d(1)] star] by (simp add: ds)
  have sign: "prefers (rx_opt (rx_char 45)) (a @ t) (ds @ t)"
    using assms(1)
  proof
    assume "a = ds"
    then show ?thesis using digit_not [OF d(1)] by (auto simp: ds intro!: prefers_opt_skip)
  next
    assume "a = 45 # ds"
    then show ?thesis by (auto intro!: prefers_left prefers_set)
  qed
  show "prefers rx_integer (a @ t) t"
    unfolding rx_integer_def by (rule prefers_seq [OF sign plus])
  have dot: "rx_rests (Rx_seq (rx_char 46) q) x = []" if "x = t \<or> (x \<noteq> [] \<and> is_digit (hd x))" for x
    using that assms(5) digit_not by (cases x) auto
  have "rx_rests rx_integer (a @ t) = star_rests is_digit (es @ t)"
    using assms(1) digit_not [OF d(1)] d(1) by (auto simp: rx_integer_def ds is_digit_def)
  then show "rx_rests (Rx_seq rx_integer (Rx_seq (rx_char 46) q)) (a @ t) = []"
    using star_rests_cases [of _ is_digit es t, OF _ d(2) assms(4)] dot by auto
qed

lemma value_integer:
  assumes "a = ds \<or> a = 45 # ds" and "ds \<noteq> []" and "list_all is_digit ds" and "stops is_digit t" and "stops (\<lambda>c. c = 46) t"
  shows "prefers rx_value (a @ t) t"
proof -
  have "stops (\<lambda>c. c = 116 \<or> c = 102) (a @ t)"
    using assms(1-3) digit_not by (cases ds) (auto simp: stops_def)
  note w = rx_words_fail [OF this]
  note i = integer_match [OF assms]
  show ?thesis
    unfolding rx_value_def
    by (rule prefers_right [OF w(1) prefers_right [OF w(2) prefers_right [OF i(2) prefers_left [OF i(1)]]]])
qed

lemma value_plain:
  assumes "rx_rests (rx_string (str ''true'')) (a @ t) = []" and "rx_rests (rx_string (str ''false'')) (a @ t) = []"
    and "rx_rests rx_integer (a @ t) = []" and "list_all is_plain a" and "stops is_plain t"
  shows "prefers rx_value (a @ t) t"
  unfolding rx_value_def
  by (rule prefers_right [OF assms(1) prefers_right [OF assms(2) prefers_right
      [OF rx_fraction_fails [OF assms(3)] prefers_right [OF assms(3) prefers_star [OF assms(4,5)]]]]])

lemma rx_opt_quote_skip: "stops is_quote s \<Longrightarrow> prefers (rx_opt (Rx_set is_quote)) s s"
  by (cases s) (auto intro: prefers_opt_skip)

lemma rx_opt_quote_take: "prefers (rx_opt (Rx_set is_quote)) (34 # s) s"
  by (intro prefers_left prefers_set) (simp add: is_quote_def)

section \<open>Searching\<close>

lemma search_here:
  assumes "prefers r (a @ t) t"
  shows "regex_search r (a @ t) = Some (a, t)"
  using assms by (subst regex_search.simps) (auto simp: prefers_def)

lemma search_skip:
  assumes "list_all (\<lambda>c. \<not> is_quote c) pre"
  shows "regex_search MATCH_JSON (pre @ s) = regex_search MATCH_JSON s"
  using assms
proof (induction pre)
  case (Cons c pre)
  have "rx_rests MATCH_JSON (c # pre @ s) = []"
    using Cons.prems by (simp add: MATCH_JSON_def rx_key_def)
  then show ?case using Cons by (subst append_Cons, subst regex_search.simps) simp
qed simp

lemma search_none:
  assumes "list_all (\<lambda>c. \<not> is_quote c) s"
  shows "regex_search MATCH_JSON s = None"
  using search_skip [OF assms, of "[]"]
  by (simp add: regex_search.simps [of _ "[]"] MATCH_JSON_def rx_key_def)

text \<open>A pair whose value \<open>v\<close> the expression matches completely.\<close>

definition matches_value :: "cstring \<Rightarrow> cstring \<Rightarrow> bool" where
  "matches_value v t \<longleftrightarrow>
     stops is_space (v @ t) \<and>
     prefers (Rx_seq (rx_opt (Rx_set is_quote)) (Rx_seq rx_value (rx_opt (Rx_set is_quote)))) (v @ t) t"

lemma search_pair:
  assumes "list_all (\<lambda>c. \<not> is_quote c) pre" and "34 \<notin> set n" and "matches_value v t"
  shows "regex_search MATCH_JSON (pre @ 34 # n @ 34 # 58 # v @ t) = Some (34 # n @ 34 # 58 # v, t)"
proof -
  have "prefers MATCH_JSON ((34 # n @ 34 # 58 # v) @ t) t"
    unfolding MATCH_JSON_def
    using prefers_seq [OF prefers_key [OF assms(2)]] assms(3) by (auto simp: matches_value_def)
  from search_here [OF this] show ?thesis using search_skip [OF assms(1)] by simp
qed

lemma matches_integer:
  assumes "a = ds \<or> a = 45 # ds" and "ds \<noteq> []" and "list_all is_digit ds" and "t \<noteq> []" and "hd t \<in> {44, 125}"
  shows "matches_value a t"
proof -
  have t: "stops is_digit t" "stops (\<lambda>c. c = 46) t" "stops is_quote t"
    using assms(4,5) by (auto simp: stops_def is_digit_def is_quote_def)
  have h: "hd (a @ t) = 45 \<or> is_digit (hd (a @ t))" "a @ t \<noteq> []"
    using assms(1-3) by (cases ds; auto)+
  then have q: "stops is_quote (a @ t)" "stops is_space (a @ t)"
    using digit_not by (auto simp: stops_def is_quote_def is_space_def)
  show ?thesis
    unfolding matches_value_def
    by (intro conjI q(2) prefers_seq [OF rx_opt_quote_skip [OF q(1)] prefers_seq [OF
          value_integer [OF assms(1-3) t(1,2)] rx_opt_quote_skip [OF t(3)]]])
qed

lemma matches_quoted:
  assumes "prefers rx_value (a @ 34 # t) (34 # t)"
  shows "matches_value (34 # a @ [34]) t"
  unfolding matches_value_def
  using prefers_seq [OF rx_opt_quote_take prefers_seq [OF assms rx_opt_quote_take]]
  by (simp add: is_space_def)

lemma matches_nested: "matches_value [] (123 # t)"
proof -
  have w: "rx_rests (rx_string (str ''true'')) ([] @ 123 # t) = []" "rx_rests (rx_string (str ''false'')) ([] @ 123 # t) = []"
    using rx_words_fail [of "123 # t"] by simp_all
  have "prefers rx_value ([] @ 123 # t) (123 # t)"
    by (rule value_plain [OF w rx_integer_fails]) (simp_all add: number_start_def is_digit_def is_plain_def)
  then show ?thesis
    unfolding matches_value_def
    using prefers_seq [OF rx_opt_quote_skip prefers_seq [OF _ rx_opt_quote_skip], of "123 # t"]
    by (simp add: is_space_def is_quote_def)
qed

section \<open>Integers as doubles\<close>

lemma nbits_bounds: "0 < n \<Longrightarrow> 2 ^ (nbits n - 1) \<le> n \<and> n < 2 ^ nbits n \<and> 0 < nbits n"
proof (induction n rule: nbits.induct)
  case (1 n)
  have s: "nbits n = Suc (nbits (n div 2))" using 1 by (subst nbits.simps) simp
  show ?case
  proof (cases "n div 2 = 0")
    case True
    then have "n = 1" "nbits n = 1" using 1(2) by (auto simp: s nbits.simps [of 0])
    then show ?thesis by simp
  next
    case False
    then have "2 ^ (nbits (n div 2) - 1) \<le> n div 2" "n div 2 < 2 ^ nbits (n div 2)" "0 < nbits (n div 2)"
      using 1 by auto
    moreover from this(3) have "(2 :: nat) ^ nbits (n div 2) = 2 * 2 ^ (nbits (n div 2) - 1)"
      by (metis Suc_pred' power_Suc)
    moreover have "n div 2 * 2 \<le> n" "n < n div 2 * 2 + 2" by presburger+
    ultimately have "2 ^ nbits (n div 2) \<le> n \<and> n < 2 * 2 ^ nbits (n div 2)" by linarith
    then show ?thesis by (simp add: s)
  qed
qed

lemma nbits_le: "n < 2 ^ k \<Longrightarrow> nbits n \<le> k"
proof (cases "n = 0")
  case False
  assume "n < 2 ^ k"
  then have "(2 :: nat) ^ (nbits n - 1) < 2 ^ k" using nbits_bounds [of n] False by linarith
  then have "nbits n - 1 < k" by (simp add: power_strict_increasing_iff)
  then show ?thesis by simp
qed (simp add: nbits.simps)

lemma round_even_exact [simp]: "round_even n (Suc 0) = n"
  by (simp add: round_even_def)

lemma ieee_round_integer:
  assumes "0 < n" and "n < 2 ^ 53"
  shows "ieee_round 53 (- 1074) n 1 = (nbits n + 1021) * 2 ^ 52 + n * 2 ^ (53 - nbits n)"
    and "2 ^ 52 \<le> n * 2 ^ (53 - nbits n)" and "n * 2 ^ (53 - nbits n) < 2 ^ 53"
proof -
  have b: "2 ^ (nbits n - 1) \<le> n" "n < 2 ^ nbits n" "0 < nbits n" "nbits n \<le> 53"
    using nbits_bounds [OF assms(1)] nbits_le [OF assms(2)] by auto
  have "nbits 1 = 1" by (simp add: nbits.simps)
  then have "log2_floor n 1 = int (nbits n) - 1"
    using b by (simp add: log2_floor_def nat_diff_distrib' nat_eq_iff)
  then have e: "max (log2_floor n 1 - int (53 - 1)) (- 1074) = int (nbits n) - 53"
    using b(3) by simp
  have n: "nat (- (int (nbits n) - 53)) = 53 - nbits n" "nat (int (nbits n) - 53) = 0"
    "nat (int (nbits n) - 53 - - 1074) = nbits n + 1021"
    using b(3,4) by linarith+
  show "ieee_round 53 (- 1074) n 1 = (nbits n + 1021) * 2 ^ 52 + n * 2 ^ (53 - nbits n)"
    using assms(1) unfolding ieee_round_def Let_def e n by simp
  have "(2 :: nat) ^ 52 = 2 ^ (nbits n - 1) * 2 ^ (53 - nbits n)"
    using b(3,4) by (simp flip: power_add)
  also have "\<dots> \<le> n * 2 ^ (53 - nbits n)" using b(1) by (rule mult_le_mono1)
  finally show "2 ^ 52 \<le> n * 2 ^ (53 - nbits n)" .
  have "n * 2 ^ (53 - nbits n) < 2 ^ nbits n * (2 ^ (53 - nbits n) :: nat)" using b(2) by simp
  also have "\<dots> = 2 ^ 53" using b(4) by (simp flip: power_add)
  finally show "n * 2 ^ (53 - nbits n) < 2 ^ 53" .
qed

text \<open>The parts of a pattern that is put together from a sign and a magnitude.\<close>

lemma double_parts_of:
  fixes v :: nat and s :: bool
  assumes "v div 2 ^ 52 < 2047"
  defines "w \<equiv> (if s then push_bit 63 1 else 0) OR (of_nat v :: uint64)"
  shows "double_parts w = Some (s, if v div 2 ^ 52 = 0 then (v mod 2 ^ 52, - 1074)
      else (v mod 2 ^ 52 + 2 ^ 52, int (v div 2 ^ 52) - 1075))"
proof -
  have "v div 2 ^ 52 < 2 ^ 11" using assms(1) by simp
  then have v: "v < 2 ^ 63" by (simp add: div_less_iff_less_mult)
  have bitv: "\<not> bit v k" if "63 \<le> k" for k
  proof -
    have "v < 2 ^ k" using v power_increasing [OF that, of "2 :: nat"] by linarith
    then show ?thesis by (metis bit_take_bit_iff less_irrefl take_bit_nat_eq_self_iff)
  qed
  have bit52: "bit v (52 + k) \<Longrightarrow> k < 11" for k using bitv [of "52 + k"] by (cases "k < 11") auto
  define sgn where "sgn = (if s then push_bit 63 1 else 0 :: uint64)"
  have sgn: "bit sgn k \<longleftrightarrow> s \<and> k = 63" for k
    unfolding sgn_def by (auto simp del: push_bit_numeral push_bit_of_1 simp: bit_push_bit_iff)
  have w: "w = sgn OR of_nat v" by (simp only: w_def sgn_def)
  have m: "(0x7FF :: uint64) = mask 11" "(0xFFFFFFFFFFFFF :: uint64) = mask 52"
    by (simp_all add: mask_eq_exp_minus_1)
  have "drop_bit 52 w AND 0x7FF = of_nat (drop_bit 52 v)"
    unfolding m w by (rule bit_word_eqI) (auto simp: bit_simps sgn dest: bit52)
  moreover have "drop_bit 52 v < 2 ^ 64" using assms(1) by (simp add: drop_bit_eq_div)
  ultimately have E: "unat (drop_bit 52 w AND 0x7FF) = v div 2 ^ 52"
    by (simp add: unat_of_nat drop_bit_eq_div)
  have "w AND 0xFFFFFFFFFFFFF = of_nat (take_bit 52 v)"
    unfolding m w by (rule bit_word_eqI) (auto simp: bit_simps sgn)
  moreover have "take_bit 52 v < 2 ^ 64"
    by (rule less_trans [OF take_bit_nat_less_exp]) simp
  ultimately have F: "unat (w AND 0xFFFFFFFFFFFFF) = v mod 2 ^ 52"
    by (simp add: unat_of_nat take_bit_eq_mod)
  have "bit w 63 = s" unfolding w by (auto simp: bit_simps bitv sgn)
  then show ?thesis using assms(1) unfolding double_parts_def E F Let_def by auto
qed

lemma double_trunc_integer:
  assumes "n < 2 ^ 53"
  shows "double_trunc (double_of_rat neg n 1) = Some (if neg then - int n else int n)"
proof (cases "n = 0")
  case True
  have "double_of_rat neg n 1 = (if neg then push_bit 63 1 else 0) OR of_nat 0"
    by (simp add: double_of_rat_def ieee_round_def True)
  then show ?thesis using double_parts_of [of 0 neg] by (simp add: double_trunc_def True)
next
  case False
  define m where "m = n * 2 ^ (53 - nbits n)"
  have r: "ieee_round 53 (- 1074) n 1 = (nbits n + 1021) * 2 ^ 52 + m" and m: "2 ^ 52 \<le> m" "m < 2 ^ 53"
    using ieee_round_integer [of n] assms False by (simp_all add: m_def)
  define v where "v = (nbits n + 1022) * 2 ^ 52 + (m - 2 ^ 52)"
  have v: "ieee_round 53 (- 1074) n 1 = v" unfolding r v_def using le_Suc_ex [OF m(1)] by auto
  have b: "nbits n \<le> 53" by (rule nbits_le [OF assms])
  have "m - 2 ^ 52 < 2 ^ 52" using m by simp
  then have d: "v div 2 ^ 52 = nbits n + 1022" "v mod 2 ^ 52 = m - 2 ^ 52"
    unfolding v_def by (simp_all only: div_mult_self3 mod_mult_self3 div_less mod_less)
  have "v \<le> 1075 * 2 ^ 52 + 2 ^ 52"
    using b m by (simp add: v_def)
  then have min: "min v 0x7FEFFFFFFFFFFFFF = v" by simp
  have "double_parts (double_of_rat neg n 1) = Some (neg, m, int (nbits n) - 53)"
    using double_parts_of [of v neg] b m(1) unfolding double_of_rat_def v min d by simp
  moreover have "nat (int (nbits n) - 53) = 0" "nat (- (int (nbits n) - 53)) = 53 - nbits n"
    using b by linarith+
  moreover have "m div 2 ^ (53 - nbits n) = n" by (simp add: m_def)
  ultimately show ?thesis by (simp add: double_trunc_def)
qed

lemma dec_nat_Cons: "\<exists>d ds. dec_nat n = d # ds \<and> is_digit d"
  using dec_nat_digits [of n] by (cases "dec_nat n") auto

lemma read_dec_int: "read_double (dec_int i) = double_of_rat (i < 0) (nat \<bar>i\<bar>) 1"
proof -
  have d: "read_digits (dec_nat n) = (dec_nat n, [])" for n
    using dec_nat_digits [of n] by (simp add: read_digits_def list_all_iff takeWhile_eq_all_conv dropWhile_eq_Nil_conv)
  obtain c cs where c: "dec_nat (nat i) = c # cs" "is_digit c" using dec_nat_Cons by blast
  have "read_sign (dec_nat (nat i)) = (False, dec_nat (nat i))"
    using c by (auto simp: read_sign_def is_digit_def)
  then show ?thesis
    by (cases "i < 0")
      (simp_all add: read_double_def dec_int_def d read_sign_def digits_value_dec_nat)
qed

lemma dec_int_parts:
  obtains ds where "dec_int i = ds \<or> dec_int i = 45 # ds" and "ds \<noteq> []" and "list_all is_digit ds"
  using that [of "dec_nat (nat (- i))"] that [of "dec_nat (nat i)"] dec_nat_digits
  by (cases "i < 0") (auto simp: dec_int_def)

text \<open>A number that was printed is read back.\<close>

lemma json_integer_dec:
  assumes "lo \<le> i" and "i \<le> hi" and "\<bar>i\<bar> < 2 ^ 53"
  shows "json_integer lo hi (JSONKeyValue n NUMBER (A_double (read_double (dec_int i)))) mk v s = (mk i, s)"
proof -
  have "nat \<bar>i\<bar> < 2 ^ 53" using assms(3) by (subst nat_less_iff) simp_all
  from double_trunc_integer [OF this, of "i < 0"]
  have "double_trunc (read_double (dec_int i)) = Some i" by (simp add: read_dec_int)
  then show ?thesis using assms(1,2) by (simp add: json_integer_def)
qed

end
