(* ===== verification/JSONCorrect.thy ===== *)
theory JSONCorrect
  imports JSONText
begin

text \<open>
  The JSON codec: which messages survive encoding and decoding, and what is lost otherwise: texts
  with a slash, empty characters, keys with a colon, nested messages at the end of a message.
\<close>

section \<open>Messages that JSON carries\<close>

definition json_name :: "cstring \<Rightarrow> bool" where
  "json_name n \<longleftrightarrow> (\<forall>c\<in>set n. c \<noteq> 34 \<and> c \<noteq> 58 \<and> \<not> is_space c)"

definition json_text_ok :: "cstring \<Rightarrow> bool" where
  "json_text_ok t \<longleftrightarrow> 47 \<notin> set t \<and> (t = [] \<or> \<not> is_digit (hd t)) \<and>
     take 4 t \<noteq> str ''true'' \<and> take 5 t \<noteq> str ''false''"

definition last_scalar :: "field list \<Rightarrow> bool" where
  "last_scalar fs \<longleftrightarrow> fs \<noteq> [] \<and> is_scalar (snd (snd (snd (last fs))))"

text \<open>
  Integers of 64 bits must fit the 53 bits of a \<open>double\<close>; a nested message needs a field, and its
  last field must not be a message.
\<close>

function json_ok :: "visitable \<Rightarrow> bool"
  and json_ok_fields :: "field list \<Rightarrow> bool"
  and json_ok_value :: "visitable any \<Rightarrow> bool" where
  "json_ok (Visitable i sn ln fs) \<longleftrightarrow> distinct (map (fst \<circ> snd \<circ> snd) fs) \<and> json_ok_fields fs"
| "json_ok_fields [] \<longleftrightarrow> True"
| "json_ok_fields ((i, tn, n, a) # fs) \<longleftrightarrow> json_name n \<and> json_ok_value a \<and> json_ok_fields fs"
| "json_ok_value a \<longleftrightarrow>
     (case a of
        A_empty \<Rightarrow> False
      | A_char c \<Rightarrow> is_plain c \<and> c \<noteq> 32
      | A_int64 v \<Rightarrow> \<bar>sint v\<bar> < 2 ^ 53
      | A_uint64 v \<Rightarrow> uint v < 2 ^ 53
      | A_float _ \<Rightarrow> False
      | A_double _ \<Rightarrow> False
      | A_string s \<Rightarrow> json_text_ok (encodeBase64 s)
      | A_obj m \<Rightarrow> json_ok m \<and> last_scalar (msg_fields m)
      | _ \<Rightarrow> True)"
  by pat_completeness auto
termination
  by (relation "measure (\<lambda>x. case x of
        Inl m \<Rightarrow> size m | Inr (Inl fs) \<Rightarrow> fields_size fs | Inr (Inr a) \<Rightarrow> value_size a)") auto

declare json_ok_value.simps [simp del]

text \<open>The text without white space, and the pairs it stands for.\<close>

function json_sq :: "visitable \<Rightarrow> cstring"
  and json_sq_fields :: "field list \<Rightarrow> cstring"
  and json_sq_value :: "visitable any \<Rightarrow> cstring" where
  "json_sq (Visitable i sn ln fs) = 123 # json_sq_fields fs @ [125]"
| "json_sq_fields [] = []"
| "json_sq_fields ((i, tn, n, a) # fs) =
     34 # n @ 34 # 58 # json_sq_value a @ (if fs = [] then [] else 44 # json_sq_fields fs)"
| "json_sq_value a = (case a of A_obj m \<Rightarrow> json_sq m | _ \<Rightarrow> json_scalar a)"
  by pat_completeness auto
termination
  by (relation "measure (\<lambda>x. case x of
        Inl m \<Rightarrow> size m | Inr (Inl fs) \<Rightarrow> fields_size fs | Inr (Inr a) \<Rightarrow> value_size a)") auto

function json_kvs :: "visitable \<Rightarrow> json_map"
  and json_kvs_fields :: "field list \<Rightarrow> json_map \<Rightarrow> json_map"
  and json_kv :: "cstring \<Rightarrow> visitable any \<Rightarrow> JSONKeyValue" where
  "json_kvs (Visitable i sn ln fs) = json_kvs_fields fs []"
| "json_kvs_fields [] acc = acc"
| "json_kvs_fields ((i, tn, n, a) # fs) acc = json_kvs_fields fs (assign n (json_kv n a) acc)"
| "json_kv n a =
     (case a of A_obj m \<Rightarrow> JSONKeyValue n OBJECT (A_obj (json_kvs m)) | _ \<Rightarrow> json_value n (json_scalar a))"
  by pat_completeness auto
termination
  by (relation "measure (\<lambda>x. case x of
        Inl m \<Rightarrow> size m | Inr (Inl (fs, acc)) \<Rightarrow> fields_size fs | Inr (Inr (n, a)) \<Rightarrow> value_size a)") auto

declare json_sq_value.simps [simp del] json_kv.simps [simp del]

section \<open>Texts of scalar values\<close>

lemma encodeBase64_set: "set (encodeBase64 s) \<subseteq> insert 61 (set ALPHABET)"
proof -
  have "sextet v k \<in> set ALPHABET" for v k
  proof -
    have "unat (drop_bit k v AND 0x3F) \<le> unat (0x3F :: uint32)"
      using word_and_le1 [of "drop_bit k v" "0x3F"] by (simp add: word_le_nat_alt)
    then show ?thesis using alphabet(1) by (simp add: sextet_def)
  qed
  then show ?thesis by (induction s rule: encodeBase64.induct) (auto simp: Let_def)
qed

lemma base64_char: "c \<in> set (encodeBase64 s) \<Longrightarrow> c = 47 \<or> (is_plain c \<and> c \<noteq> 45 \<and> \<not> is_space c \<and> c \<noteq> 34 \<and> c \<noteq> 58)"
proof -
  have "\<forall>c\<in>insert 61 (set ALPHABET). c = 47 \<or> (is_plain c \<and> c \<noteq> 45 \<and> \<not> is_space c \<and> c \<noteq> 34 \<and> c \<noteq> 58)"
    by (simp add: ALPHABET_def is_plain_def is_digit_def is_space_def)
  then show "c \<in> set (encodeBase64 s) \<Longrightarrow> c = 47 \<or> (is_plain c \<and> c \<noteq> 45 \<and> \<not> is_space c \<and> c \<noteq> 34 \<and> c \<noteq> 58)"
    using encodeBase64_set by blast
qed

lemma take_before: "take k (b @ q # t) = w \<Longrightarrow> length w = k \<Longrightarrow> q \<notin> set w \<Longrightarrow> take k b = w"
proof -
  assume a: "take k (b @ q # t) = w" "length w = k" "q \<notin> set w"
  show "take k b = w"
  proof (cases "k \<le> length b")
    case False
    then obtain j where "k - length b = Suc j" by (metis Suc_diff_Suc not_le)
    then have "w = take k b @ q # take j t" using a(1) by simp
    then show ?thesis using a(3) by simp
  qed (use a in simp)
qed

lemma words_fail_before:
  assumes "take 4 b \<noteq> str ''true''" and "take 5 b \<noteq> str ''false''" and "\<not> is_plain q"
  shows "rx_rests (rx_string (str ''true'')) (b @ q # t) = []"
    and "rx_rests (rx_string (str ''false'')) (b @ q # t) = []"
proof -
  have q: "q \<notin> set (str ''true'')" "q \<notin> set (str ''false'')" using assms(3) by (auto simp: is_plain_def)
  have "take 4 (b @ q # t) \<noteq> str ''true''" using take_before [of 4 b q t "str ''true''"] assms(1) q by auto
  moreover have "length (str ''true'') = 4" by simp
  ultimately show "rx_rests (rx_string (str ''true'')) (b @ q # t) = []" by (simp only: rx_string_rests if_False)
  have "take 5 (b @ q # t) \<noteq> str ''false''" using take_before [of 5 b q t "str ''false''"] assms(2) q by auto
  moreover have "length (str ''false'') = 5" by simp
  ultimately show "rx_rests (rx_string (str ''false'')) (b @ q # t) = []" by (simp only: rx_string_rests if_False)
qed

lemma quote_not_plain: "\<not> is_plain 34"
  by (simp add: is_plain_def is_digit_def)

text \<open>What a scalar text needs to be found and split off.\<close>

definition scalar_text_ok :: "cstring \<Rightarrow> bool" where
  "scalar_text_ok v \<longleftrightarrow> v \<noteq> [] \<and> 58 \<notin> set v \<and> list_all (\<lambda>c. \<not> is_space c) v \<and>
     (\<forall>t. t \<noteq> [] \<longrightarrow> hd t \<in> {44, 125} \<longrightarrow> matches_value v t)"

lemma is_blank_space: "is_blank c \<Longrightarrow> is_space c"
  by (auto simp: is_blank_def is_space_def)

lemma scalar_text_trim: "scalar_text_ok v \<Longrightarrow> trim v = v"
  by (rule trim_id) (auto simp: scalar_text_ok_def list_all_iff dest: is_blank_space)

lemma digits_text_ok:
  assumes "a = ds \<or> a = 45 # ds" and "ds \<noteq> []" and "list_all is_digit ds"
  shows "scalar_text_ok a"
proof -
  have "is_digit c \<Longrightarrow> \<not> is_space c \<and> c \<noteq> 58" for c
    using digit_not by (auto simp: is_digit_def)
  moreover have "c = 45 \<or> is_digit c" if "c \<in> set a" for c
    using that assms by (auto simp: list_all_iff)
  moreover have "\<not> is_space 45" by (simp add: is_space_def)
  ultimately have "\<not> is_space c \<and> c \<noteq> 58" if "c \<in> set a" for c
    using that by (cases "c = 45") auto
  then show ?thesis
    using assms matches_integer [OF assms] by (auto simp: scalar_text_ok_def list_all_iff)
qed

lemma dec_text_ok: "scalar_text_ok (dec_int i)"
  using dec_int_parts [of i] digits_text_ok by metis

lemma char_text_ok:
  assumes "is_plain c" and "c \<noteq> 32"
  shows "scalar_text_ok [34, c, 34]"
proof -
  have "prefers rx_value ([c] @ 34 # t) (34 # t)" for t
  proof (cases "is_digit c")
    case True
    show ?thesis by (rule value_integer [of _ "[c]"]) (use True in \<open>simp_all add: is_digit_def\<close>)
  next
    case False
    have "take 4 [c] \<noteq> str ''true''" "take 5 [c] \<noteq> str ''false''" by simp_all
    note w = words_fail_before [OF this quote_not_plain]
    have "rx_rests rx_integer ([c] @ 34 # t) = []" using False by (simp add: rx_integer_def is_digit_def)
    then show ?thesis by (rule value_plain [OF w]) (use assms in \<open>simp_all add: is_plain_def is_digit_def\<close>)
  qed
  from matches_quoted [OF this] have "matches_value [34, c, 34] t" for t by simp
  moreover have "c \<noteq> 58 \<and> \<not> is_space c"
    using assms by (auto simp: is_plain_def is_digit_def is_space_def word_le_nat_alt)
  ultimately show ?thesis by (auto simp: scalar_text_ok_def is_space_def)
qed

lemma value_text:
  assumes "json_text_ok a" and "\<forall>c\<in>set a. is_plain c \<and> c \<noteq> 45" and "\<not> is_plain q"
  shows "prefers rx_value (a @ q # t) (q # t)"
proof (rule value_plain)
  have w: "take 4 a \<noteq> str ''true''" "take 5 a \<noteq> str ''false''" using assms(1) unfolding json_text_ok_def by blast+
  show "rx_rests (rx_string (str ''true'')) (a @ q # t) = []" "rx_rests (rx_string (str ''false'')) (a @ q # t) = []"
    by (rule words_fail_before [OF w assms(3)])+
  have "stops number_start (a @ q # t)"
    using assms by (cases a) (auto simp: number_start_def json_text_ok_def is_plain_def)
  then show "rx_rests rx_integer (a @ q # t) = []" by (rule rx_integer_fails)
  show "list_all is_plain a" "stops is_plain (q # t)" using assms(2,3) by (simp_all add: list_all_iff)
qed

lemma string_text_ok:
  assumes "json_text_ok (encodeBase64 s)"
  shows "scalar_text_ok (34 # encodeBase64 s @ [34])"
proof -
  let ?b = "encodeBase64 s"
  have c: "is_plain c \<and> c \<noteq> 45 \<and> \<not> is_space c \<and> c \<noteq> 34 \<and> c \<noteq> 58" if "c \<in> set ?b" for c
    using base64_char [OF that] assms that by (auto simp: json_text_ok_def)
  have "prefers rx_value (?b @ 34 # t) (34 # t)" for t
    using c by (intro value_text [OF assms _ quote_not_plain]) auto
  from matches_quoted [OF this] have "matches_value (34 # ?b @ [34]) t" for t .
  then show ?thesis using c by (auto simp: scalar_text_ok_def is_space_def list_all_iff)
qed

text \<open>The integers a field type can hold and their text.\<close>

definition integer_value :: "'m any \<Rightarrow> int option" where
  "integer_value a =
     (case a of
        A_bool v \<Rightarrow> Some (if v then 1 else 0)
      | A_int8 v \<Rightarrow> Some (sint v) | A_uint8 v \<Rightarrow> Some (uint v)
      | A_int16 v \<Rightarrow> Some (sint v) | A_uint16 v \<Rightarrow> Some (uint v)
      | A_int32 v \<Rightarrow> Some (sint v) | A_uint32 v \<Rightarrow> Some (uint v)
      | A_int64 v \<Rightarrow> Some (sint v) | A_uint64 v \<Rightarrow> Some (uint v)
      | _ \<Rightarrow> None)"

lemma dec_int_bit: "dec_int 0 = [48]" "dec_int 1 = [49]"
  by (simp_all add: dec_int_def dec_nat.simps)

lemma json_scalar_integer: "integer_value a = Some i \<Longrightarrow> json_scalar a = dec_int i"
  by (cases a) (auto simp: integer_value_def dec_int_bit)

lemma json_ok_value_cases [consumes 1, case_names integer char string nested]:
  assumes "json_ok_value a"
  obtains i where "integer_value a = Some i" and "\<bar>i\<bar> < 2 ^ 53" and "is_scalar a"
  | c where "a = A_char c" and "is_plain c" and "c \<noteq> 32"
  | s where "a = A_string s" and "json_text_ok (encodeBase64 s)"
  | m where "a = A_obj m" and "json_ok m" and "last_scalar (msg_fields m)"
proof -
  have b: "\<bar>sint (v :: int8)\<bar> < 2 ^ 53" "\<bar>uint (v :: uint8)\<bar> < 2 ^ 53" for v
    using sint_bounds [of v] unsigned_less [of v, where 'a = int] by auto
  have c: "\<bar>sint (v :: int16)\<bar> < 2 ^ 53" "\<bar>uint (v :: uint16)\<bar> < 2 ^ 53" for v
    using sint_bounds [of v] unsigned_less [of v, where 'a = int] by auto
  have d: "\<bar>sint (v :: int32)\<bar> < 2 ^ 53" "\<bar>uint (v :: uint32)\<bar> < 2 ^ 53" for v
    using sint_bounds [of v] unsigned_less [of v, where 'a = int] by auto
  show thesis
    using assms that b c d
    by (cases a) (auto simp: json_ok_value.simps integer_value_def split: if_splits)
qed

lemma scalar_text: "json_ok_value a \<Longrightarrow> is_scalar a \<Longrightarrow> scalar_text_ok (json_scalar a)"
  by (cases rule: json_ok_value_cases [of a])
    (auto simp: json_scalar_integer dec_text_ok char_text_ok string_text_ok)

section \<open>The encoder\<close>

definition squeeze :: "cstring \<Rightarrow> cstring" where
  "squeeze = filter (\<lambda>c. \<not> is_space c)"

lemma squeeze_simps [simp]:
  "squeeze [] = []" "squeeze (xs @ ys) = squeeze xs @ squeeze ys"
  "squeeze (c # xs) = (if is_space c then squeeze xs else c # squeeze xs)"
  by (simp_all add: squeeze_def)

lemma squeeze_id: "list_all (\<lambda>c. \<not> is_space c) s \<Longrightarrow> squeeze s = s"
  by (simp add: squeeze_def list_all_iff)

lemma squeeze_name: "json_name n \<Longrightarrow> squeeze n = n"
  by (rule squeeze_id) (auto simp: json_name_def list_all_iff)

lemma toJSON_put_sel [simp]: "tj_mask (toJSON_put n v s) = tj_mask s"
  by (simp add: toJSON_put_def)

lemma accept_toJSON:
    "\<And>s. json_ok m \<Longrightarrow> tj_mask s = [] \<Longrightarrow>
      \<exists>b. snd (accept toJSON m s) = s\<lparr>tj_buffer := tj_buffer s @ b\<rparr> \<and>
        squeeze b = json_sq_fields (msg_fields m) @ (if msg_fields m = [] then [] else [44]) \<and>
        (if msg_fields m = [] then b = [] else \<exists>x. b = x @ [44, 10] \<and> x \<noteq> [])"
  and accept_fields_toJSON:
    "\<And>s. json_ok_fields fs \<Longrightarrow> tj_mask s = [] \<Longrightarrow>
      \<exists>b. snd (accept_fields toJSON fs s) = s\<lparr>tj_buffer := tj_buffer s @ b\<rparr> \<and>
        squeeze b = json_sq_fields fs @ (if fs = [] then [] else [44]) \<and>
        (if fs = [] then b = [] else \<exists>x. b = x @ [44, 10] \<and> x \<noteq> [])"
  and do_visit_toJSON:
    "\<And>i tn n s. json_ok_value a \<Longrightarrow> tj_mask s = [] \<Longrightarrow>
      \<exists>v. snd (do_visit toJSON i tn n a s) = toJSON_put n v s \<and> squeeze v = json_sq_value a"
proof (induction m and fs and a rule: message_induct)
  case (Msg i sn ln fs)
  from Msg.IH [OF _ Msg.prems(2)] Msg.prems(1) obtain b where
    "snd (accept_fields toJSON fs s) = s\<lparr>tj_buffer := tj_buffer s @ b\<rparr>"
    "squeeze b = json_sq_fields fs @ (if fs = [] then [] else [44])"
    "if fs = [] then b = [] else \<exists>x. b = x @ [44, 10] \<and> x \<noteq> []"
    by auto
  moreover have "snd (accept toJSON (Visitable i sn ln fs) s) = snd (accept_fields toJSON fs s)"
    by (simp add: toJSON_def split_beta)
  ultimately show ?case by auto
next
  case Nil
  then show ?case by simp
next
  case (Cons i tn n a fs)
  have ok: "json_name n" "json_ok_value a" "json_ok_fields fs" using Cons.prems(1) by simp_all
  from Cons.IH(1) [OF ok(2) Cons.prems(2)] obtain v where
    v: "snd (do_visit toJSON i tn n a s) = toJSON_put n v s" "squeeze v = json_sq_value a" by blast
  have m: "tj_mask (toJSON_put n v s) = []" using Cons.prems(2) by simp
  from Cons.IH(2) [OF ok(3) m] obtain b where
    b: "snd (accept_fields toJSON fs (toJSON_put n v s)) =
        (toJSON_put n v s)\<lparr>tj_buffer := tj_buffer (toJSON_put n v s) @ b\<rparr>"
      "squeeze b = json_sq_fields fs @ (if fs = [] then [] else [44])"
      "if fs = [] then b = [] else \<exists>x. b = x @ [44, 10] \<and> x \<noteq> []" by blast
  let ?p = "34 # n @ 34 # 58 # v @ [44, 10]"
  have "snd (accept_fields toJSON ((i, tn, n, a) # fs) s) = s\<lparr>tj_buffer := tj_buffer s @ ?p @ b\<rparr>"
    using v(1) b(1) by (simp add: split_beta toJSON_put_def)
  moreover have "squeeze (?p @ b) = json_sq_fields ((i, tn, n, a) # fs) @ [44]"
    using v(2) b(2) squeeze_name [OF ok(1)] by (simp add: is_space_def)
  moreover have "\<exists>x. ?p @ b = x @ [44, 10] \<and> x \<noteq> []"
  proof (cases "fs = []")
    case True
    then have "?p @ b = (34 # n @ 34 # 58 # v) @ [44, 10]" using b(3) by simp
    then show ?thesis by blast
  next
    case False
    then obtain x where "b = x @ [44, 10]" using b(3) by auto
    then have "?p @ b = (?p @ x) @ [44, 10]" by simp
    then show ?thesis by blast
  qed
  ultimately show ?case by (intro exI [of _ "?p @ b"]) simp
next
  case (Val a)
  show ?case
  proof (cases "is_scalar a")
    case True
    have "snd (do_visit toJSON i tn n a s) = toJSON_put n (json_scalar a) s"
      using Val.prems(2) True by (simp add: do_visit_scalar toJSON_def toJSON_visit_def masked_in_def)
    moreover have "json_sq_value a = json_scalar a" using True by (cases a) (simp_all add: json_sq_value.simps)
    moreover have "squeeze (json_scalar a) = json_scalar a"
      using scalar_text [OF Val.prems(1) True] by (intro squeeze_id) (simp add: scalar_text_ok_def)
    ultimately show ?thesis by auto
  next
    case False
    obtain m where a: "a = A_obj m" and m: "json_ok m" "msg_fields m \<noteq> []"
      using Val.prems(1) False by (cases rule: json_ok_value_cases) (auto simp: last_scalar_def)
    let ?t = "toJSON_new True []"
    from Val.IH [OF a m(1), of ?t] m(2) obtain x where
      x: "snd (accept toJSON m ?t) = ?t\<lparr>tj_buffer := x @ [44, 10]\<rparr>" "x \<noteq> []"
        "squeeze (x @ [44, 10]) = json_sq_fields (msg_fields m) @ [44]"
      by (auto simp: toJSON_new_def)
    have "toJSON_json (snd (accept toJSON m ?t)) = 123 # x @ [125]"
      using x(1,2) by (simp add: toJSON_json_def toJSON_new_def)
    then have "snd (do_visit toJSON i tn n a s) = toJSON_put n (123 # x @ [125]) s"
      using Val.prems(2) by (simp add: a toJSON_def masked_in_def split_beta)
    moreover have "squeeze (123 # x @ [125]) = json_sq_value a"
      using x(3) by (cases m) (simp add: a json_sq_value.simps is_space_def)
    ultimately show ?thesis by blast
  qed
qed

lemma squeeze_json_encode:
  assumes "json_ok m"
  shows "squeeze (json_encode m) = json_sq m"
proof (cases "msg_fields m = []")
  case True
  have "snd (accept toJSON m (toJSON_new True [])) = toJSON_new True []"
    using accept_toJSON [OF assms, of "toJSON_new True []"] True by (auto simp: toJSON_new_def)
  then show ?thesis
    using True by (cases m) (simp add: json_encode_def json_encode_with_def toJSON_json_def toJSON_new_def is_space_def)
next
  case False
  let ?t = "toJSON_new True []"
  from accept_toJSON [OF assms, of ?t] False obtain x where
    x: "snd (accept toJSON m ?t) = ?t\<lparr>tj_buffer := x @ [44, 10]\<rparr>" "x \<noteq> []"
      "squeeze (x @ [44, 10]) = json_sq_fields (msg_fields m) @ [44]"
    by (auto simp: toJSON_new_def)
  then show ?thesis
    by (cases m) (simp add: json_encode_def json_encode_with_def toJSON_json_def toJSON_new_def is_space_def)
qed

section \<open>The parser\<close>

lemma json_key_quoted:
  assumes "34 \<notin> set n"
  shows "json_key (34 # n @ [34]) = Some n"
proof -
  have "trim (34 # n @ [34]) = 34 # n @ [34]" by (rule trim_id) (simp_all add: is_blank_def)
  moreover have "split (34 # n @ [34]) 34 = [[], n, []]"
    using split_from_one [of 34 "[]" True "n @ [34]"] split_from_one [OF assms, of False "[]"]
    by (simp add: split_def split_from.simps [of False "[]"])
  ultimately show ?thesis by (simp add: json_key_def)
qed

lemma split_pair: "58 \<notin> set n \<Longrightarrow> 58 \<notin> set v \<Longrightarrow> split (34 # n @ 34 # 58 # v) 58 = [34 # n @ [34], v]"
  using split_once [of 58 "34 # n @ [34]" v] by simp

text \<open>A suffix that \<open>trim\<close> leaves alone.\<close>

definition tidy :: "cstring \<Rightarrow> bool" where
  "tidy t \<longleftrightarrow> t \<noteq> [] \<and> \<not> is_blank (hd t) \<and> \<not> is_blank (last t)"

lemma tidy_trim: "tidy t \<Longrightarrow> trim t = t"
  by (rule trim_id) (simp_all add: tidy_def)

lemma json_nameD: "json_name n \<Longrightarrow> 34 \<notin> set n \<and> 58 \<notin> set n"
  by (auto simp: json_name_def)

abbreviation no_quote :: "cstring \<Rightarrow> bool" where
  "no_quote \<equiv> list_all (\<lambda>c. \<not> is_quote c)"

lemma readPairs_pair:
  assumes "no_quote pre" and "json_name n" and "matches_value v t" and "v \<noteq> []" and "58 \<notin> set v"
    and "trim v = v" and "tidy t"
  shows "readPairs old (pre @ 34 # n @ 34 # 58 # v @ t) acc =
    (if hd t = 125 then Some (assign n (json_value n v) acc, t, False)
     else readPairs (pre @ 34 # n @ 34 # 58 # v @ t) t (assign n (json_value n v) acc))"
proof -
  have t: "t \<noteq> []" "trim t = t" using assms(7) tidy_trim by (auto simp: tidy_def)
  note n = json_nameD [OF assms(2)]
  have "regex_search MATCH_JSON (pre @ 34 # n @ 34 # 58 # v @ t) = Some (34 # n @ 34 # 58 # v, t)"
    using search_pair [OF assms(1) _ assms(3)] n by blast
  moreover have "pre @ 34 # n @ 34 # 58 # v @ t \<noteq> t"
  proof
    assume "pre @ 34 # n @ 34 # 58 # v @ t = t"
    from arg_cong [OF this, of length] show False by simp
  qed
  ultimately show ?thesis
    using n assms(4-6) t by (subst readPairs.simps) (simp add: split_pair json_key_quoted Let_def)
qed

lemma readPairs_scalar:
  assumes "no_quote pre" and "json_name n" and "scalar_text_ok v" and "tidy t" and "hd t \<in> {44, 125}"
  shows "readPairs old (pre @ 34 # n @ 34 # 58 # v @ t) acc =
    (if hd t = 125 then Some (assign n (json_value n v) acc, t, False)
     else readPairs (pre @ 34 # n @ 34 # 58 # v @ t) t (assign n (json_value n v) acc))"
  using assms scalar_text_trim [OF assms(3)]
  by (intro readPairs_pair) (auto simp: scalar_text_ok_def tidy_def)

lemma readPairs_nested:
  assumes "no_quote pre" and "json_name n" and "tidy (123 # w)"
    and "readPairs [] (123 # w) [] = Some (nested, r, False)" and "length r \<le> length w"
  shows "readPairs old (pre @ 34 # n @ 34 # 58 # 123 # w) acc =
    readPairs (pre @ 34 # n @ 34 # 58 # 123 # w) r (assign n (JSONKeyValue n OBJECT (A_obj nested)) acc)"
proof -
  note n = json_nameD [OF assms(2)]
  have "regex_search MATCH_JSON (pre @ 34 # n @ 34 # 58 # [] @ 123 # w) = Some (34 # n @ 34 # 58 # [], 123 # w)"
    using search_pair [OF assms(1) _ matches_nested] n by blast
  moreover have "pre @ 34 # n @ 34 # 58 # 123 # w \<noteq> r"
  proof
    assume "pre @ 34 # n @ 34 # 58 # 123 # w = r"
    from arg_cong [OF this, of length] assms(5) show False by simp
  qed
  moreover have "trim [] = []" by (simp add: trim_def rtrim_def ltrim_def)
  ultimately show ?thesis
    using n assms(4) by (subst readPairs.simps) (simp add: split_pair json_key_quoted Let_def tidy_trim [OF assms(3)])
qed

lemma readPairs_end: "no_quote s \<Longrightarrow> readPairs old s acc = Some (acc, s, False)"
  by (subst readPairs.simps) (simp add: search_none)

lemma tidy_close: "tidy (125 # t) \<longleftrightarrow> t = [] \<or> \<not> is_blank (last t)"
  by (auto simp: tidy_def is_blank_def)

lemma tidy_fields: "tidy (125 # t) \<Longrightarrow> c \<in> {44, 123} \<Longrightarrow> tidy (c # xs @ 125 # t)"
  by (auto simp: tidy_def is_blank_def)

lemma readPairs_json:
    "\<And>u. json_ok m \<Longrightarrow> last_scalar (msg_fields m) \<Longrightarrow> tidy (125 # u) \<Longrightarrow>
      readPairs [] (json_sq m @ u) [] = Some (json_kvs m, 125 # u, False)"
  and readPairs_json_fields:
    "\<And>pre old acc t. json_ok_fields fs \<Longrightarrow> fs \<noteq> [] \<Longrightarrow> last_scalar fs \<or> no_quote t \<Longrightarrow> tidy (125 # t) \<Longrightarrow>
      no_quote pre \<Longrightarrow>
      \<exists>r. readPairs old (pre @ json_sq_fields fs @ 125 # t) acc = Some (json_kvs_fields fs acc, r, False) \<and>
        (last_scalar fs \<longrightarrow> r = 125 # t)"
  and readPairs_json_value:
    "\<And>u. json_ok_value a \<Longrightarrow> \<not> is_scalar a \<Longrightarrow> tidy (125 # u) \<Longrightarrow>
      \<exists>m w. a = A_obj m \<and> json_sq_value a = 123 # w \<and>
        readPairs [] (123 # w @ u) [] = Some (json_kvs m, 125 # u, False)"
proof (induction m and fs and a rule: message_induct)
  case (Msg i sn ln fs)
  have fs: "json_ok_fields fs" "last_scalar fs" "fs \<noteq> []" using Msg.prems by (auto simp: last_scalar_def)
  have "no_quote [123]" by (simp add: is_quote_def)
  from Msg.IH [OF fs(1,3) disjI1 [OF fs(2)] Msg.prems(3) this, of "[]" "[]"] fs(2)
  show ?case by simp
next
  case (Cons i tn n a fs)
  have n: "json_name n" and a: "json_ok_value a" and fs: "json_ok_fields fs" using Cons.prems(1) by simp_all
  let ?t = "(if fs = [] then 125 # t else 44 # json_sq_fields fs @ 125 # t)"
  have shape: "json_sq_fields ((i, tn, n, a) # fs) @ 125 # t = 34 # n @ 34 # 58 # json_sq_value a @ ?t" by simp
  have tidy: "tidy ?t" using Cons.prems(4) tidy_fields [OF Cons.prems(4), of 44] by simp
  have comma: "no_quote [44]" by (simp add: is_quote_def)
  show ?case
  proof (cases "is_scalar a")
    case True
    have v: "json_sq_value a = json_scalar a" "json_kv n a = json_value n (json_scalar a)"
      using True by (cases a; simp add: json_sq_value.simps json_kv.simps)+
    have "hd ?t \<in> {44, 125}" by simp
    note step = readPairs_scalar [OF Cons.prems(5) n scalar_text [OF a True] tidy this, of old acc, folded v]
    show ?thesis
    proof (cases "fs = []")
      case fs: True
      then show ?thesis using step unfolding shape by (simp add: v)
    next
      case False
      have "last_scalar fs \<or> no_quote t" using Cons.prems(3) False by (auto simp: last_scalar_def)
      from Cons.IH(2) [OF fs False this Cons.prems(4) comma, of "pre @ 34 # n @ 34 # 58 # json_sq_value a @ ?t"
          "assign n (json_kv n a) acc"]
      show ?thesis using step False unfolding shape by (simp add: last_scalar_def)
    qed
  next
    case False
    have close: "tidy (125 # ?t)" using tidy unfolding tidy_close by (simp add: tidy_def)
    from Cons.IH(1) [OF a False close] obtain m w where
      m: "a = A_obj m" and w: "json_sq_value a = 123 # w"
      and r: "readPairs [] (123 # w @ ?t) [] = Some (json_kvs m, 125 # ?t, False)" by blast
    have kv: "json_kv n a = JSONKeyValue n OBJECT (A_obj (json_kvs m))" by (simp add: m json_kv.simps)
    have tw: "tidy (123 # w @ ?t)" using tidy by (auto simp: tidy_def is_blank_def)
    have "w \<noteq> []" using w m by (cases m) (auto simp: json_sq_value.simps)
    then have "length (125 # ?t) \<le> length (w @ ?t)" by (cases w) auto
    note step = readPairs_nested [OF Cons.prems(5) n tw r this, of old acc, folded kv]
    show ?thesis
    proof (cases "fs = []")
      case True
      then have "no_quote t" using Cons.prems(3) False by (simp add: last_scalar_def)
      then have "no_quote (125 # 125 # t)" by (simp add: is_quote_def)
      from readPairs_end [OF this] show ?thesis
        using step True False unfolding shape w by (simp add: last_scalar_def)
    next
      case fs': False
      have pre: "no_quote [125, 44]" by (simp add: is_quote_def)
      have "last_scalar fs \<or> no_quote t" using Cons.prems(3) fs' by (auto simp: last_scalar_def)
      from Cons.IH(2) [OF fs fs' this Cons.prems(4) pre, of "pre @ 34 # n @ 34 # 58 # 123 # w @ ?t"
          "assign n (json_kv n a) acc"]
      show ?thesis using step fs' unfolding shape w by (simp add: last_scalar_def)
    qed
  qed
next
  case (Val a)
  obtain m where a: "a = A_obj m" and m: "json_ok m" "last_scalar (msg_fields m)"
    using Val.prems(1,2) by (cases rule: json_ok_value_cases) auto
  obtain w where w: "json_sq m = 123 # w" by (cases m) auto
  from Val.IH [OF a m Val.prems(3)] w show ?case by (auto simp: a json_sq_value.simps)
qed simp

lemma decodeFrom_json_encode:
  assumes "json_ok m"
  shows "decodeFrom_json (json_encode m) s = Some (s\<lparr>fj_keyValues := json_kvs m\<rparr>)"
proof -
  obtain i sn ln fs where m: "m = Visitable i sn ln fs" by (cases m)
  have fs: "json_ok_fields fs" using assms by (simp add: m)
  have "filter (\<lambda>c. c \<noteq> 13 \<and> c \<noteq> 9 \<and> c \<noteq> 10) (filter (\<lambda>c. \<not> is_space c) x) = squeeze x" for x
    unfolding squeeze_def filter_filter by (rule filter_cong) (auto simp: is_space_def)
  then have shape: "filter (\<lambda>c. c \<noteq> 13 \<and> c \<noteq> 9 \<and> c \<noteq> 10) (filter (\<lambda>c. \<not> is_space c) (json_encode m)) =
      123 # json_sq_fields fs @ [125]"
    using squeeze_json_encode [OF assms] by (simp add: m)
  have "\<exists>r. readPairs [] (123 # json_sq_fields fs @ [125]) [] = Some (json_kvs_fields fs [], r, False)"
  proof (cases "fs = []")
    case True
    then show ?thesis using readPairs_end [of "[123, 125]"] by (simp add: is_quote_def)
  next
    case False
    have "no_quote []" "no_quote [123]" "tidy [125]" by (simp_all add: is_quote_def tidy_close)
    from readPairs_json_fields [OF fs False disjI2 [OF this(1)] this(3,2), of "[]" "[]"] show ?thesis by auto
  qed
  then show ?thesis unfolding decodeFrom_json_def readKeyValues_json_def shape by (auto simp: m)
qed

section \<open>The decoder\<close>

lemma json_value_number: "json_value n (dec_int i) = JSONKeyValue n NUMBER (A_double (read_double (dec_int i)))"
proof -
  obtain ds where ds: "dec_int i = ds \<or> dec_int i = 45 # ds" "ds \<noteq> []" "list_all is_digit ds"
    by (rule dec_int_parts)
  then have "hd (dec_int i) = 45 \<or> is_digit (hd (dec_int i))" "dec_int i \<noteq> []"
    by (cases ds; auto)+
  then have "hd (dec_int i) \<noteq> 34 \<and> hd (dec_int i) \<noteq> 116 \<and> hd (dec_int i) \<noteq> 102"
    by (auto simp: is_digit_def)
  then show ?thesis by (auto simp: json_value_def)
qed

lemma scalar_range:
  assumes "integer_value v = Some i" and "same_type a v" and "\<bar>i\<bar> < 2 ^ 53"
  shows "json_assign (JSONKeyValue n NUMBER (A_double (read_double (dec_int i)))) a s = (v, s)"
proof -
  have b: "- 128 \<le> sint (v :: int8)" "sint (v :: int8) \<le> 127" "0 \<le> uint (v :: uint8)" "uint (v :: uint8) \<le> 255" for v
    using sint_bounds [of v] unsigned_less [of v, where 'a = int] by auto
  have c: "- 32768 \<le> sint (v :: int16)" "sint (v :: int16) \<le> 32767" "0 \<le> uint (v :: uint16)" "uint (v :: uint16) \<le> 65535" for v
    using sint_bounds [of v] unsigned_less [of v, where 'a = int] by auto
  have d: "- 2147483648 \<le> sint (v :: int32)" "sint (v :: int32) \<le> 2147483647"
    "0 \<le> uint (v :: uint32)" "uint (v :: uint32) \<le> 4294967295" for v
    using sint_bounds [of v] unsigned_less [of v, where 'a = int] by auto
  have e: "- 9223372036854775808 \<le> sint (v :: int64)" "sint (v :: int64) \<le> 9223372036854775807"
    "0 \<le> uint (v :: uint64)" "uint (v :: uint64) \<le> 18446744073709551615" for v
    using sint_bounds [of v] unsigned_less [of v, where 'a = int] by auto
  show ?thesis
    using assms
    by (cases v; cases a) (auto simp: same_type_def integer_value_def json_integer_dec b c d e)
qed

lemma json_assign_scalar:
  assumes "json_ok_value v" and "is_scalar v" and "same_type a v"
  shows "json_assign (json_kv n v) a s = (v, s)"
proof -
  have kv: "json_kv n v = json_value n (json_scalar v)" using assms(2) by (cases v) (simp_all add: json_kv.simps)
  show ?thesis
    using assms(1)
  proof (cases rule: json_ok_value_cases)
    case (integer i)
    then show ?thesis using scalar_range [OF _ assms(3)] by (simp add: kv json_scalar_integer json_value_number)
  next
    case (char c)
    then show ?thesis using assms(3) kv by (cases a) (auto simp: json_value_def same_type_def)
  next
    case (string t)
    then show ?thesis
      using assms(3) kv decodeBase64_encodeBase64_append [of "[34]" t]
      by (cases a) (auto simp: json_value_def same_type_def)
  next
    case (nested m)
    then show ?thesis using assms(2) by simp
  qed
qed

definition json_ready :: "fromJSON \<Rightarrow> field list \<Rightarrow> fromJSON \<Rightarrow> bool" where
  "json_ready s fs k \<longleftrightarrow> s = k \<and>
     (\<forall>(i, tn, n, v)\<in>set fs. json_ok_value v \<and> map_of (fj_keyValues s) n = Some (json_kv n v))"

lemma json_kvs_fields_other:
  "n \<notin> set (map (fst \<circ> snd \<circ> snd) fs) \<Longrightarrow> map_of (json_kvs_fields fs acc) n = map_of acc n"
  by (induction fs arbitrary: acc) (auto split: prod.split)

lemma json_kvs_fields_lookup:
  "distinct (map (fst \<circ> snd \<circ> snd) fs) \<Longrightarrow> (i, tn, n, v) \<in> set fs \<Longrightarrow>
     map_of (json_kvs_fields fs acc) n = Some (json_kv n v)"
proof (induction fs arbitrary: acc)
  case (Cons f fs)
  obtain j sn k w where f: "f = (j, sn, k, w)" by (cases f)
  show ?case
  proof (cases "(i, tn, n, v) = f")
    case True
    then show ?thesis using Cons.prems(1) json_kvs_fields_other [of n fs] by (auto simp: f)
  next
    case False
    then show ?thesis using Cons by (auto simp: f)
  qed
qed simp

lemma json_ok_fieldsD: "json_ok_fields fs \<Longrightarrow> (i, tn, n, v) \<in> set fs \<Longrightarrow> json_ok_value v"
  by (induction fs) auto

lemma json_ready_fields:
  assumes "json_ok (Visitable j sn ln fs)"
  shows "json_ready (s\<lparr>fj_keyValues := json_kvs_fields fs []\<rparr>) fs (s\<lparr>fj_keyValues := json_kvs_fields fs []\<rparr>)"
  using assms json_kvs_fields_lookup [of fs] json_ok_fieldsD [of fs] by (auto simp: json_ready_def)

interpretation from_json: field_decoder fromJSON json_ready
proof
  fix s :: fromJSON and i tn n v fs k and a :: "visitable any"
  assume r: "json_ready s ((i, tn, n, v) # fs) k" and v: "is_scalar v" "same_type a v"
  then have "v_visit fromJSON i tn n a s = (v, s)"
    using json_assign_scalar [of v a n s] by (auto simp: json_ready_def fromJSON_def fromJSON_visit_def)
  then show "\<exists>s'. v_visit fromJSON i tn n a s = (v, s') \<and> json_ready s' fs k"
    using r by (auto simp: json_ready_def)
next
  fix s :: fromJSON and i tn n j sn ln gs fs k
  assume r: "json_ready s ((i, tn, n, A_obj (Visitable j sn ln gs)) # fs) k"
  let ?t = "s\<lparr>fj_keyValues := json_kvs_fields gs []\<rparr>"
  have "json_ok (Visitable j sn ln gs)" using r by (simp add: json_ready_def json_ok_value.simps)
  from json_ready_fields [OF this, of s] have "json_ready (v_pre fromJSON j sn ln ?t) gs ?t"
    by (simp add: fromJSON_def)
  moreover have "v_enter fromJSON i tn n s = Some ?t"
    using r by (auto simp: json_ready_def fromJSON_def fromJSON_enter_def json_kv.simps)
  moreover have "json_ready (v_leave fromJSON i tn n s (v_post fromJSON t')) fs k" if "json_ready t' [] ?t" for t'
    using that r by (auto simp: json_ready_def fromJSON_def)
  ultimately show "\<exists>t k'. v_enter fromJSON i tn n s = Some t \<and> json_ready (v_pre fromJSON j sn ln t) gs k' \<and>
      (\<forall>t'. json_ready t' [] k' \<longrightarrow> json_ready (v_leave fromJSON i tn n s (v_post fromJSON t')) fs k)"
    by blast
next
  fix s :: fromJSON and i tn n fs k
  show "\<not> json_ready s ((i, tn, n, A_empty) # fs) k" by (simp add: json_ready_def json_ok_value.simps)
qed

lemma v_post_fromJSON: "v_post fromJSON s = s"
  by (simp add: fromJSON_def)

lemma json_decode_encode:
  assumes "json_ok m" and "same_shape m' m"
  shows "\<exists>s. json_decode (json_encode m) m' = Some (m, s) \<and> \<not> fj_undef s \<and> \<not> fj_throws s"
proof -
  obtain j sn ln fs where m: "m = Visitable j sn ln fs" by (cases m)
  let ?s = "fromJSON_new\<lparr>fj_keyValues := json_kvs_fields fs []\<rparr>"
  have "json_ready (v_pre fromJSON (msg_ID m) (msg_ShortName m) (msg_LongName m) ?s) (msg_fields m) ?s"
    using json_ready_fields [of j sn ln fs fromJSON_new] assms(1) by (simp add: m fromJSON_def)
  from from_json.accept_ready [OF assms(2) this] have "accept fromJSON m' ?s = (m, ?s)"
    by (auto simp: json_ready_def v_post_fromJSON)
  then show ?thesis
    using decodeFrom_json_encode [OF assms(1), of fromJSON_new]
    by (simp add: json_decode_def m fromJSON_new_def)
qed

section \<open>Where JSON loses something\<close>

text \<open>A quoted text that is cut off at its first byte \<open>q\<close> which the class does not contain.\<close>

lemma search_unclosed:
  assumes "no_quote a"
  shows "regex_search MATCH_JSON (a @ [34, 125]) = None"
proof -
  have "rx_rests MATCH_JSON [34, 125] = []" "rx_rests MATCH_JSON [125] = []" "rx_rests MATCH_JSON [] = []"
    by (simp_all add: MATCH_JSON_def rx_key_def is_quote_def)
  then have "regex_search MATCH_JSON [34, 125] = None"
    by (simp add: regex_search.simps)
  then show ?thesis using search_skip [OF assms, of "[34, 125]"] by simp
qed

lemma readPairs_cut:
  assumes "json_name n" and "json_text_ok a" and "\<forall>c\<in>set a. is_plain c \<and> c \<noteq> 45 \<and> c \<noteq> 58 \<and> \<not> is_blank c"
    and "\<not> is_plain q" and "\<not> is_space q" and "no_quote (q # b)"
  shows "\<exists>r. readPairs [] (123 # 34 # n @ 34 # 58 # 34 # a @ q # b @ [34, 125]) [] =
    Some ([(n, JSONKeyValue n STRING (A_string a))], r, False)"
proof -
  let ?t = "q # b @ [34, 125]"
  have pre: "no_quote [123]" by (simp add: is_quote_def)
  have v: "prefers rx_value (a @ q # b @ [34, 125]) ?t"
    using assms(3) by (intro value_text [OF assms(2) _ assms(4)]) auto
  have "stops is_quote ?t" using assms(6) by simp
  from prefers_seq [OF rx_opt_quote_take prefers_seq [OF v rx_opt_quote_skip [OF this]]]
  have m: "matches_value (34 # a) ?t" by (simp add: matches_value_def is_space_def)
  have trim: "trim (34 # a) = 34 # a"
    using assms(3) by (intro trim_id) (auto simp: is_blank_def)
  have tidy: "tidy ?t" using assms(5) is_blank_space by (auto simp: tidy_def is_blank_def is_space_def)
  have colon: "58 \<notin> set (34 # a)" using assms(3) by auto
  have "regex_search MATCH_JSON ?t = None" using search_unclosed [OF assms(6)] by simp
  then have stop: "readPairs old ?t acc = Some (acc, ?t, False)" for old acc
    by (subst readPairs.simps) simp
  have val: "json_value n (34 # a) = JSONKeyValue n STRING (A_string a)" by (simp add: json_value_def)
  from readPairs_pair [OF pre assms(1) m _ colon trim tidy, of "[]" "[]", unfolded stop val]
  show ?thesis by (auto split: if_splits)
qed

definition one_field :: "cstring \<Rightarrow> visitable any \<Rightarrow> visitable" where
  "one_field n v = Visitable 1 (str ''A'') (str ''A'') [(1, str ''T'', n, v)]"

lemma json_encode_one:
  assumes "is_scalar v"
  shows "json_encode (one_field n v) = 123 # 34 # n @ 34 # 58 # json_scalar v @ [125]"
  using assms
  by (simp add: json_encode_def json_encode_with_def one_field_def toJSON_def toJSON_new_def toJSON_json_def
      toJSON_visit_def toJSON_put_def masked_in_def do_visit_scalar)

lemma decodeFrom_squeezed:
  "decodeFrom_json content s =
     (case readKeyValues_json (squeeze content) of
        None \<Rightarrow> None
      | Some (kvs, _, ub) \<Rightarrow> Some (s\<lparr>fj_keyValues := kvs, fj_undef := fj_undef s \<or> ub\<rparr>))"
proof -
  have "filter (\<lambda>c. c \<noteq> 13 \<and> c \<noteq> 9 \<and> c \<noteq> 10) (filter (\<lambda>c. \<not> is_space c) content) = squeeze content"
    unfolding squeeze_def filter_filter by (rule filter_cong) (auto simp: is_space_def)
  then show ?thesis by (simp only: decodeFrom_json_def)
qed

lemma json_decode_one:
  assumes "readPairs [] (squeeze content) [] = Some ([(n, kv)], r, False)" and "is_scalar v"
  shows "\<exists>s. json_decode content (one_field n v) = Some (one_field n (fst (json_assign kv v fromJSON_new)), s) \<and>
    fj_throws s = fj_throws (snd (json_assign kv v (fromJSON_new\<lparr>fj_keyValues := [(n, kv)]\<rparr>)))"
proof -
  have "fst (json_assign kv v (fromJSON_new\<lparr>fj_keyValues := [(n, kv)]\<rparr>)) = fst (json_assign kv v fromJSON_new)"
    by (cases v) (auto simp: json_integer_def split: any.splits option.splits)
  then show ?thesis
    using assms
    by (auto simp: json_decode_def decodeFrom_squeezed readKeyValues_json_def one_field_def fromJSON_def
        fromJSON_visit_def do_visit_scalar split_beta fromJSON_new_def)
qed

text \<open>A key with a colon: the loop repeats without end.\<close>

lemma split_from_False_nonempty: "split_from False s d \<noteq> []"
  by (subst split_from.simps) simp

lemma split_two_colons:
  assumes "58 \<in> set n"
  shows "length (split (34 # n @ 34 # 58 # v) 58) \<noteq> 2"
proof -
  obtain a b where n: "n = a @ 58 # b" "58 \<notin> set a" using split_list_first [OF assms] by blast
  have "split (34 # n @ 34 # 58 # v) 58 = (34 # a) # split_from False (b @ 34 # 58 # v) 58"
    using split_from_one [of 58 "34 # a" True "b @ 34 # 58 # v"] n by (simp add: split_def)
  moreover have "length (split_from False (b @ 34 # 58 # v) 58) > 1"
    using split_from_False_nonempty [of "tl (dropWhile (\<lambda>c. c \<noteq> 58) (b @ 34 # 58 # v))" 58]
    by (subst split_from.simps) simp
  ultimately show ?thesis by simp
qed

lemma readPairs_repeats:
  assumes "regex_search MATCH_JSON bad = Some (match, suffix)" and "length (split match 58) \<noteq> 2"
  shows "old \<noteq> bad \<Longrightarrow> readPairs old bad acc = None"
proof -
  have "\<not> (i' = bad \<and> o' \<noteq> bad)" if "readPairs o' i' acc = Some r" for o' i' acc r
  proof (rule readPairs.raw_induct [where P = "\<lambda>o' i' _ _. \<not> (i' = bad \<and> o' \<noteq> bad)", OF _ that])
    fix f and o' i' :: cstring and acc r
    assume ih: "\<And>o' i' acc y. f o' i' acc = Some y \<Longrightarrow> \<not> (i' = bad \<and> o' \<noteq> bad)"
      and body: "(case regex_search MATCH_JSON i' of None \<Rightarrow> Some (acc, i', False)
       | Some (match, suffix) \<Rightarrow>
           if length (split match 58) = 2
           then case json_key (split match 58 ! 0) of
                None \<Rightarrow> Some (acc, i', True)
                | Some key \<Rightarrow>
                    let v = trim (split match 58 ! 1); rem = trim suffix
                    in if v = []
                       then Option.bind (f [] rem [])
                             (\<lambda>(nested, rem, ub).
                                 let result = assign key (JSONKeyValue key OBJECT (A_obj nested)) acc
                                 in if \<not> ub \<and> i' \<noteq> rem then f i' rem result
                                    else Some (result, rem, ub))
                       else let result = assign key (json_value key v) acc
                            in if rem \<noteq> [] \<and> hd rem = 125 \<or> i' = rem
                               then Some (result, rem, False)
                               else f i' rem result
           else if o' \<noteq> i' then f o' i' acc else Some (acc, i', False)) = Some r"
    show "\<not> (i' = bad \<and> o' \<noteq> bad)"
    proof
      assume "i' = bad \<and> o' \<noteq> bad"
      moreover from this body assms have "f o' bad acc = Some r" by simp
      ultimately show False using ih [of o' bad acc r] by simp
    qed
  qed
  then show "old \<noteq> bad \<Longrightarrow> readPairs old bad acc = None" by (cases "readPairs old bad acc") auto
qed

section \<open>Properties\<close>

text \<open>
  C11: A message encoded with \<open>ToJSONVisitor\<close> and decoded with \<open>FromJSONVisitor\<close> is restored,
  whatever its nesting and whatever the message decoded into held: booleans, characters, integers,
  strings (in base64) and nested messages, as far as \<open>json_ok\<close> allows them. The decoder returns, and
  neither undefined behaviour nor an exception occurs.
\<close>

theorem json_roundtrip:
  assumes "json_ok m" and "same_shape m' m"
  shows "\<exists>s. json_decode (json_encode m) m' = Some (m, s) \<and> \<not> fj_undef s \<and> \<not> fj_throws s"
  by (rule json_decode_encode [OF assms])

theorem json_roundtrip_witness:
  "\<exists>s. json_decode (json_encode (sample (- 3) (str ''hi'') 300)) (sample 0 [] 0) =
     Some (sample (- 3) (str ''hi'') 300, s) \<and> \<not> fj_undef s \<and> \<not> fj_throws s"
proof (rule json_roundtrip [OF _ sample_shape])
  have "json_text_ok (encodeBase64 (str ''hi''))"
    by (simp add: json_text_ok_def Let_def sextet_def ALPHABET_def is_digit_def)
  then show "json_ok (sample (- 3) (str ''hi'') 300)"
    by (simp add: sample_def sample_inner_def json_ok_value.simps json_name_def is_space_def last_scalar_def)
qed

text \<open>
  Base64: \<open>decodeBase64\<close> restores every string that \<open>encodeBase64\<close> encoded.
\<close>

theorem base64_roundtrip: "decodeBase64 (encodeBase64 s) = s"
  using decodeBase64_encodeBase64_append [of "[]" s] by simp

text \<open>
  The expression for values does not contain the slash, which is a character of base64: a
  string whose encoding has one is cut off there, as is every ASCII string with a question mark at
  a position of the form \<open>3 k + 2\<close>.
\<close>

theorem json_slash_cuts:
  assumes "json_name n" and "encodeBase64 s = a @ 47 # b" and "json_text_ok a" and "47 \<notin> set b"
  shows "\<exists>st. json_decode (json_encode (one_field n (A_string s))) (one_field n (A_string t)) =
    Some (one_field n (A_string (decodeBase64 a)), st)"
proof -
  have c: "c = 47 \<or> is_plain c \<and> c \<noteq> 45 \<and> \<not> is_space c \<and> c \<noteq> 34 \<and> c \<noteq> 58" if "c \<in> set (a @ 47 # b)" for c
    using base64_char [of c s] that by (simp add: assms(2))
  have a: "\<forall>c\<in>set a. is_plain c \<and> c \<noteq> 45 \<and> c \<noteq> 58 \<and> \<not> is_blank c"
  proof (intro ballI)
    fix x assume x: "x \<in> set a"
    then have "x \<noteq> 47" using assms(3) by (auto simp: json_text_ok_def)
    then show "is_plain x \<and> x \<noteq> 45 \<and> x \<noteq> 58 \<and> \<not> is_blank x"
      using c [of x] x is_blank_space [of x] by auto
  qed
  have b: "no_quote (47 # b)"
    unfolding list_all_iff
  proof (intro ballI)
    fix x assume "x \<in> set (47 # b)"
    then have "x = 47 \<or> is_plain x \<and> x \<noteq> 34" using c [of x] by auto
    then show "\<not> is_quote x" by (auto simp: is_quote_def is_plain_def is_digit_def)
  qed
  have q: "\<not> is_plain 47" "\<not> is_space 47" by (simp_all add: is_plain_def is_digit_def is_space_def)
  have "list_all (\<lambda>c. \<not> is_space c) (a @ 47 # b)" using c q by (auto simp: list_all_iff)
  then have "squeeze (json_encode (one_field n (A_string s))) = 123 # 34 # n @ 34 # 58 # 34 # a @ 47 # b @ [34, 125]"
    using squeeze_id [of a] squeeze_id [of b] squeeze_name [OF assms(1)]
    by (simp add: json_encode_one assms(2) is_space_def)
  with readPairs_cut [OF assms(1,3) a q b] obtain r where
    "readPairs [] (squeeze (json_encode (one_field n (A_string s)))) [] =
      Some ([(n, JSONKeyValue n STRING (A_string a))], r, False)" by auto
  from json_decode_one [OF this, of "A_string t"] show ?thesis by auto
qed

theorem json_slash_cuts_witness:
  "\<exists>st. json_decode (json_encode (one_field (str ''s'') (A_string (str ''ab?''))))
      (one_field (str ''s'') (A_string [])) =
    Some (one_field (str ''s'') (A_string (decodeBase64 (str ''YWI''))), st)"
  by (rule json_slash_cuts [of _ _ _ "[]"])
    (simp_all add: json_name_def is_space_def Let_def sextet_def ALPHABET_def json_text_ok_def is_digit_def)

text \<open>
  The text that \<open>ToJSONVisitor\<close> writes for a character outside of the same class, such as \<open>@\<close>,
  ends the program that decodes it: the value found is empty, and \<open>at(0)\<close> throws in a function that is
  \<open>noexcept\<close>.
\<close>

theorem json_char_throws:
  assumes "json_name n" and "\<not> is_plain c" and "\<not> is_quote c" and "\<not> is_space c"
  shows "\<exists>m s. json_decode (json_encode (one_field n (A_char c))) (one_field n (A_char d)) = Some (m, s) \<and> fj_throws s"
proof -
  have "squeeze (json_encode (one_field n (A_char c))) = 123 # 34 # n @ 34 # 58 # 34 # [] @ c # [] @ [34, 125]"
    using squeeze_name [OF assms(1)] assms(4) by (simp add: json_encode_one is_space_def)
  moreover have "json_text_ok []" "no_quote (c # [])" using assms(3) by (simp_all add: json_text_ok_def)
  ultimately obtain r where "readPairs [] (squeeze (json_encode (one_field n (A_char c)))) [] =
      Some ([(n, JSONKeyValue n STRING (A_string []))], r, False)"
    using readPairs_cut [OF assms(1) _ _ assms(2,4), of "[]" "[]"] by auto
  from json_decode_one [OF this, of "A_char d"] show ?thesis by auto
qed

theorem json_char_throws_witness:
  "\<exists>m s. json_decode (json_encode (one_field (str ''c'') (A_char 64))) (one_field (str ''c'') (A_char 0)) = Some (m, s) \<and>
     fj_throws s"
  by (rule json_char_throws) (simp_all add: json_name_def is_space_def is_plain_def is_digit_def is_quote_def)

text \<open>
  C34: A key that contains a colon keeps \<open>readKeyValues\<close> from returning: the match splits into more
  than two parts, no part of the input is consumed, and the loop starts again with the same input.
\<close>

theorem json_colon_diverges:
  assumes "squeeze content = pre @ 34 # n @ 34 # 58 # v @ t" and "no_quote pre" and "34 \<notin> set n"
    and "58 \<in> set n" and "matches_value v t"
  shows "json_decode content m = None"
proof -
  have "regex_search MATCH_JSON (squeeze content) = Some (34 # n @ 34 # 58 # v, t)"
    using search_pair [OF assms(2,3,5)] by (simp add: assms(1))
  from readPairs_repeats [OF this split_two_colons [OF assms(4)], of "[]" "[]"]
  show ?thesis by (simp add: json_decode_def decodeFrom_squeezed readKeyValues_json_def assms(1))
qed

theorem json_colon_diverges_witness:
  "json_decode (123 # 34 # str ''a:b'' @ 34 # 58 # str ''1}'') (sample 0 [] 0) = None"
proof (rule json_colon_diverges)
  show "squeeze (123 # 34 # str ''a:b'' @ 34 # 58 # str ''1}'') = [123] @ 34 # str ''a:b'' @ 34 # 58 # [49] @ [125]"
    by (simp add: is_space_def)
  show "matches_value [49] [125]" by (rule matches_integer [of _ "[49]"]) (simp_all add: is_digit_def)
qed (simp_all add: is_quote_def)

text \<open>A message whose first field is a message whose last field is a message.\<close>

definition three_levels :: "int8 \<Rightarrow> int8 \<Rightarrow> visitable" where
  "three_levels v w = Visitable 1 (str ''A'') (str ''A'')
     [(1, str ''B'', str ''o'', A_obj (Visitable 2 (str ''B'') (str ''B'')
        [(1, str ''C'', str ''x'', A_obj (Visitable 3 (str ''C'') (str ''C'') [(1, str ''int8'', str ''a'', A_int8 v)]))])),
      (2, str ''int8'', str ''z'', A_int8 w)]"

lemma three_levels_text:
  "squeeze (json_encode (three_levels v w)) =
     [123] @ 34 # [111] @ 34 # 58 # 123 # 34 # [120] @ 34 # 58 # 123 # 34 # [97] @ 34 # 58 # dec_int (sint v) @
     125 # 125 # 44 # 34 # [122] @ 34 # 58 # dec_int (sint w) @ [125]"
proof -
  have "squeeze (dec_int i) = dec_int i" for i
    using dec_text_ok [of i] by (intro squeeze_id) (simp add: scalar_text_ok_def)
  moreover have "json_encode (three_levels v w) =
      [123] @ 34 # [111] @ 34 # 58 # 123 # 34 # [120] @ 34 # 58 # 123 # 34 # [97] @ 34 # 58 # dec_int (sint v) @
      125 # 125 # 44 # 10 # 34 # [122] @ 34 # 58 # dec_int (sint w) @ [125]"
    by (simp add: json_encode_def json_encode_with_def three_levels_def toJSON_def toJSON_new_def toJSON_json_def
        toJSON_visit_def toJSON_put_def masked_in_def) (simp add: numeral_eq_Suc)
  ultimately show ?thesis by (simp add: is_space_def)
qed

lemma three_levels_read:
  "\<exists>r. readPairs [] (squeeze (json_encode (three_levels v w))) [] =
     Some ([([111], JSONKeyValue [111] OBJECT (A_obj
       [([120], JSONKeyValue [120] OBJECT (A_obj [([97], json_value [97] (dec_int (sint v)))])),
        ([122], json_value [122] (dec_int (sint w)))]))], r, False)"
proof -
  let ?v = "dec_int (sint v)" and ?w = "dec_int (sint w)"
  let ?z = "125 # 125 # 44 # 34 # [122] @ 34 # 58 # ?w @ [125]"
  have n: "json_name [97]" "json_name [111]" "json_name [120]" "json_name [122]"
    by (simp_all add: json_name_def is_space_def)
  have p: "no_quote [123]" "no_quote [125, 125, 44]" "no_quote [125]" by (simp_all add: is_quote_def)
  have t: "tidy ?z" "tidy [125]" "tidy (c # xs @ ?z)" if "c = 123" for c xs
    using that by (simp_all add: tidy_def is_blank_def)
  note t = t [OF refl]
  have "readPairs [] ([123] @ 34 # [97] @ 34 # 58 # ?v @ ?z) [] = Some ([([97], json_value [97] ?v)], ?z, False)"
    by (subst readPairs_scalar [OF p(1) n(1) dec_text_ok t(1)]) simp_all
  then have x: "readPairs [] (123 # 34 # [97] @ 34 # 58 # ?v @ ?z) [] = Some ([([97], json_value [97] ?v)], ?z, False)"
    by simp
  have tx: "tidy (123 # 34 # [97] @ 34 # 58 # ?v @ ?z)" using t(3) [of "34 # [97] @ 34 # 58 # ?v"] by simp
  let ?ox = "[([120], JSONKeyValue [120] OBJECT (A_obj [([97], json_value [97] ?v)]))]"
  have "readPairs [] ([123] @ 34 # [120] @ 34 # 58 # 123 # 34 # [97] @ 34 # 58 # ?v @ ?z) [] =
      readPairs ([123] @ 34 # [120] @ 34 # 58 # 123 # 34 # [97] @ 34 # 58 # ?v @ ?z) ?z ?ox"
    by (subst readPairs_nested [OF p(1) n(3) tx x]) simp_all
  also have "\<dots> = Some (?ox @ [([122], json_value [122] ?w)], [125], False)"
    using readPairs_scalar [OF p(2) n(4) dec_text_ok t(2), of _ "sint w" ?ox] by simp
  finally have o: "readPairs [] (123 # 34 # [120] @ 34 # 58 # 123 # 34 # [97] @ 34 # 58 # ?v @ ?z) [] =
      Some (?ox @ [([122], json_value [122] ?w)], [125], False)" by simp
  have to: "tidy (123 # 34 # [120] @ 34 # 58 # 123 # 34 # [97] @ 34 # 58 # ?v @ ?z)"
    using t(3) [of "34 # [120] @ 34 # 58 # 123 # 34 # [97] @ 34 # 58 # ?v"] by simp
  show ?thesis
    unfolding three_levels_text
    using readPairs_nested [OF p(1) n(2) to o, of "[]" "[]"] readPairs_end [OF p(3)] by simp
qed

text \<open>
  A nested message ends with the first closing brace behind a scalar value. If its last
  field is a message, its own brace is passed over and the fields of the outer message that follow
  are taken for its own: the outer message does not receive them.
\<close>

theorem json_nested_misplaced:
  "\<exists>s. json_decode (json_encode (three_levels v w)) (three_levels v' w') = Some (three_levels v w', s)"
proof -
  obtain r where r: "readPairs [] (squeeze (json_encode (three_levels v w))) [] =
     Some ([([111], JSONKeyValue [111] OBJECT (A_obj
       [([120], JSONKeyValue [120] OBJECT (A_obj [([97], json_value [97] (dec_int (sint v)))])),
        ([122], json_value [122] (dec_int (sint w)))]))], r, False)"
    using three_levels_read by blast
  define V where "V = json_value [97] (dec_int (sint v))"
  define W where "W = json_value [122] (dec_int (sint w))"
  let ?s = "fromJSON_new\<lparr>fj_keyValues := [([111], JSONKeyValue [111] OBJECT (A_obj
       [([120], JSONKeyValue [120] OBJECT (A_obj [([97], V)])), ([122], W)]))]\<rparr>"
  have d: "decodeFrom_json (json_encode (three_levels v w)) fromJSON_new = Some ?s"
    unfolding decodeFrom_squeezed readKeyValues_json_def r V_def W_def by (simp add: fromJSON_new_def)
  have "- 128 \<le> sint v" "sint v \<le> 127" "\<bar>sint v\<bar> < 2 ^ 53" using sint_bounds [of v] by auto
  then have V: "json_assign V (A_int8 v') s = (A_int8 v, s)" for s
    by (simp add: V_def json_value_number json_integer_dec)
  have "\<exists>s. accept fromJSON (three_levels v' w') ?s = (three_levels v w', s)"
    by (simp add: three_levels_def fromJSON_def fromJSON_enter_def fromJSON_visit_def V del: json_assign.simps)
  then show ?thesis by (simp add: json_decode_def d)
qed

text \<open>A 64-bit integer passes through a \<open>double\<close>, which has 53 bits.\<close>

lemma json_int64_rounded:
  "json_assign (json_value n (dec_int 9007199254740993)) (A_int64 v) s = (A_int64 9007199254740992, s)"
  by (simp add: json_value_number read_dec_int double_of_rat_def ieee_round_def log2_floor_def nbits.simps
      round_even_def json_integer_def double_trunc_def double_parts_def)

end
