(* ===== verification/Converter.thy ===== *)
theory Converter
  imports GenericCorrect JSONCorrect Envelopes
begin

text \<open>
  \<open>EnvelopeConverter\<close> and \<open>LCMToGenericMessage\<close>: translation of envelopes between Proto and JSON,
  and of LCM packets, with message types that are known from a message specification only.
\<close>

section \<open>Message specifications\<close>

text \<open>
  The parser of message specifications is an argument: the descriptions it gives, or \<open>None\<close> for
  an error.
\<close>

type_synonym spec_parser = "cstring \<Rightarrow> MetaMessage list option"

text \<open>\<open>setMessageSpecification\<close>, over what messages are found by: their identifier, or their name.\<close>

definition setMessageSpecification ::
  "(MetaMessage \<Rightarrow> 'k) \<Rightarrow> spec_parser \<Rightarrow> cstring \<Rightarrow> int32 \<times> MetaMessage list \<times> ('k \<times> MetaMessage) list" where
  "setMessageSpecification key parse ms =
     (case parse ms of
        None \<Rightarrow> (- 1, [], [])
      | Some listOfMetaMessages \<Rightarrow>
          (of_nat (length listOfMetaMessages), listOfMetaMessages,
           fold (\<lambda>mm. assign (key mm) mm) listOfMetaMessages []))"

record EnvelopeConverter =
  ec_listOfMetaMessages :: "MetaMessage list"
  ec_scopeOfMetaMessages :: "(int32 \<times> MetaMessage) list"

definition ec_setMessageSpecification :: "spec_parser \<Rightarrow> cstring \<Rightarrow> int32 \<times> EnvelopeConverter" where
  "ec_setMessageSpecification parse ms =
     (let (r, l, scope) = setMessageSpecification mm_messageIdentifier parse ms
      in (r, \<lparr>ec_listOfMetaMessages = l, ec_scopeOfMetaMessages = scope\<rparr>))"

section \<open>EnvelopeConverter\<close>

text \<open>
  The first argument bounds the nesting of messages in \<open>createFrom\<close>. The result is \<open>None\<close> if this
  bound is too small, if a call does not return, and if the program ends or its behaviour is
  undefined.
\<close>

definition getJSONFromEnvelope :: "nat \<Rightarrow> EnvelopeConverter \<Rightarrow> Envelope \<Rightarrow> cstring option" where
  "getJSONFromEnvelope k c envelope =
     (case map_of (ec_scopeOfMetaMessages c) (env_dataType envelope) of
        None \<Rightarrow> Some (str ''{}'')
      | Some payload \<Rightarrow>
          if ec_listOfMetaMessages c = [] then Some (str ''{}'')
          else
            (let envelopeJSON = json_encode_with False [(2, False)] (Envelope_msg envelope);
                 protoDecoder = fst (decodeFrom fromProto_new (istream_of (env_serializedData envelope)))
             in case gm_createFrom_spec k (ec_listOfMetaMessages c) payload of
                  None \<Rightarrow> None
                | Some gm \<Rightarrow>
                    (case gm_accept fromProto gm protoDecoder of
                       None \<Rightarrow> None
                     | Some (gm, protoDecoder) \<Rightarrow>
                         if fp_undef protoDecoder then None
                         else
                         (case gm_accept toJSON gm (toJSON_new False []) of
                            None \<Rightarrow> None
                          | Some (_, payloadToJSON) \<Rightarrow>
                              (let tmp = replaceAll (mm_messageName payload) 46 95;
                                   payloadJSON = (if toJSON_json payloadToJSON \<noteq> str ''{}''
                                                  then toJSON_json payloadToJSON else [])
                               in Some (123 # envelopeJSON @ 44 # 10 # 34 # tmp @ 34 # 58 # 123 # payloadJSON @
                                        [125, 125]))))))"

text \<open>
  With a header the envelope is extracted; otherwise, and when its type is zero, the stream as it is
  then is decoded as an envelope without header.
\<close>

definition getJSONFromProtoEncodedEnvelope :: "nat \<Rightarrow> EnvelopeConverter \<Rightarrow> cstring \<Rightarrow> cstring option" where
  "getJSONFromProtoEncodedEnvelope k c data =
     (if ec_listOfMetaMessages c = [] then Some (str ''{}'')
      else
        (let sstr = istream_of data;
             len = drop_bit 8 (of_le_bytes (take 4 (drop 1 data))) :: uint32
         in case (if 5 < length data \<and> data ! 0 = 0x0D \<and> data ! 1 = 0xA4 \<and> unat (5 + len) = length data
                  then map_option (\<lambda>((found, env), sstr). (if found then env else Envelope_new, sstr)) (extractEnvelope sstr)
                  else Some (Envelope_new, sstr)) of
              None \<Rightarrow> None
            | Some (envelope, sstr) \<Rightarrow>
                (if env_dataType envelope = 0
                 then (let (m, protoDecoder, _) = decodeFrom_direct fromProto_new sstr (Envelope_msg envelope)
                       in if fp_undef protoDecoder then None else getJSONFromEnvelope k c (Envelope_of m))
                 else getJSONFromEnvelope k c envelope)))"

definition getProtoEncodedEnvelopeFromJSON ::
  "nat \<Rightarrow> EnvelopeConverter \<Rightarrow> cstring \<Rightarrow> int32 \<Rightarrow> uint32 \<Rightarrow> TimeStamp \<Rightarrow> cstring option" where
  "getProtoEncodedEnvelopeFromJSON k c json messageIdentifier senderStamp sampleTimeStamp =
     (case map_of (ec_scopeOfMetaMessages c) messageIdentifier of
        None \<Rightarrow> Some []
      | Some message \<Rightarrow>
          (case gm_createFrom_spec k (ec_listOfMetaMessages c) message of
             None \<Rightarrow> None
           | Some gm \<Rightarrow>
               (case decodeFrom_json json fromJSON_new of
                  None \<Rightarrow> None
                | Some jsonDecoder \<Rightarrow>
                    (case gm_accept fromJSON gm jsonDecoder of
                       None \<Rightarrow> None
                     | Some (gm, jsonDecoder) \<Rightarrow>
                         if fj_throws jsonDecoder \<or> fj_undef jsonDecoder then None
                         else
                           (case gm_accept toProto gm [] of
                              None \<Rightarrow> None
                            | Some (_, protoEncoder) \<Rightarrow>
                                Some (serializeEnvelope
                                  (Envelope_new\<lparr>env_dataType := messageIdentifier,
                                     env_serializedData := protoEncoder, env_senderStamp := senderStamp,
                                     env_sampleTimeStamp := sampleTimeStamp\<rparr>))))))) "

definition getProtoEncodedEnvelopeFromJSONWithoutTimeStamps ::
  "nat \<Rightarrow> EnvelopeConverter \<Rightarrow> cstring \<Rightarrow> int32 \<Rightarrow> uint32 \<Rightarrow> cstring option" where
  "getProtoEncodedEnvelopeFromJSONWithoutTimeStamps k c json messageIdentifier senderStamp =
     getProtoEncodedEnvelopeFromJSON k c json messageIdentifier senderStamp TimeStamp_new"

section \<open>LCMToGenericMessage\<close>

record LCMToGenericMessage =
  lg_listOfMetaMessages :: "MetaMessage list"
  lg_scopeOfMetaMessages :: "(cstring \<times> MetaMessage) list"

definition lg_setMessageSpecification :: "spec_parser \<Rightarrow> cstring \<Rightarrow> int32 \<times> LCMToGenericMessage" where
  "lg_setMessageSpecification parse ms =
     (let (r, l, scope) = setMessageSpecification mm_messageName parse ms
      in (r, \<lparr>lg_listOfMetaMessages = l, lg_scopeOfMetaMessages = scope\<rparr>))"

text \<open>
  A packet: the magic number, the sequence number, which is zero for a message that is not
  fragmented, the name of the channel with its closing zero byte, and the message.
\<close>

definition getGenericMessage :: "nat \<Rightarrow> LCMToGenericMessage \<Rightarrow> cstring \<Rightarrow> gmsg option" where
  "getGenericMessage k c data =
     (if lg_listOfMetaMessages c = [] \<or> length data \<le> 9 then Some gm_new
      else if (of_be_bytes (take 4 data) :: uint32) \<noteq> 0x4c433032 then Some gm_new
      else if (of_be_bytes (take 4 (drop 4 data)) :: uint32) \<noteq> 0 then Some gm_new
      else if 0 \<notin> set (drop 8 data) then Some gm_new
      else
        (let channel = takeWhile (\<lambda>b. b \<noteq> 0) (drop 8 data);
             payload = drop (8 + length channel + 1) data
         in case map_of (lg_scopeOfMetaMessages c) channel of
              None \<Rightarrow> Some gm_new
            | Some mm \<Rightarrow>
                (let fromLCM' = fromLCM_decodeFrom (fromLCM_new (istream_of [])) (istream_of payload)
                 in case gm_createFrom_spec k (lg_listOfMetaMessages c) mm of
                      None \<Rightarrow> None
                    | Some gm \<Rightarrow> map_option fst (gm_accept fromLCM gm fromLCM'))))"

section \<open>Visiting keeps a GenericMessage in order\<close>

lemma gvalue_ok_scalar_as [simp]: "gvalue_ok nm (scalar_as a)"
  by (cases a) simp_all

context value_free_names
begin

lemma do_visit_ok:
  assumes "\<And>g s g' s'. acc g s = Some (g', s') \<Longrightarrow> gm_ok nm g \<Longrightarrow> gm_ok nm g'"
    and "gm_do_visit acc V i tn n a s = Some (a', s')" and "gvalue_ok nm a"
  shows "gvalue_ok nm a'"
proof (cases "\<exists>g. a = A_obj g")
  case True
  then show ?thesis using assms by (auto simp: gm_do_visit_def split: option.splits)
next
  case False
  then have "a' = scalar_as (fst (v_visit V i tn n (scalar_as a) s))"
    using assms(2) by (auto simp: gm_do_visit_def split_beta split: any.splits)
  then show ?thesis by (simp del: gvalue_ok.simps)
qed

lemma idr_ok_map_of: "idr_ok nm idr \<Longrightarrow> map_of idr i = Some a \<Longrightarrow> gvalue_ok nm a"
  by (induction idr) (auto split: if_splits simp del: gvalue_ok.simps)

lemma visit_fields_ok:
  assumes "\<And>g s g' s'. acc g s = Some (g', s') \<Longrightarrow> gm_ok nm g \<Longrightarrow> gm_ok nm g'"
  shows "gm_visit_fields acc visitAll fieldId V fs idr s = Some (idr', s') \<Longrightarrow> idr_ok nm idr \<Longrightarrow> idr_ok nm idr'"
proof (induction fs arbitrary: idr s)
  case (Cons f fs)
  have d: "gm_do_visit acc V i tn n a s = Some (a', s1) \<Longrightarrow> gvalue_ok nm a \<Longrightarrow> gvalue_ok nm a'"
    for i tn n a s a' s1
    by (rule do_visit_ok [OF assms])
  have f: "idr_ok nm idr1" if "gm_visit_field acc V f idr s = Some (idr1, s1)" for idr1 s1
    using that Cons.prems(2)
    by (auto simp: gm_visit_field_def intro: idr_ok_assign d [OF _ idr_ok_map_of]
        split: option.splits if_splits simp del: gvalue_ok.simps)
  show ?case
    using Cons.prems Cons.IH f by (auto split: option.splits if_splits)
qed simp

lemma accept_fuel_ok:
  "gm_accept_fuel k nm visitAll fieldId V g s = Some (g', s') \<Longrightarrow> gm_ok nm g \<Longrightarrow> gm_ok nm g'"
proof (induction k arbitrary: visitAll fieldId g s g' s')
  case (Suc k)
  obtain mm sc mp ln idr where g: "g = GM mm sc mp ln idr" by (cases g)
  obtain idr' i sn l s1 where g': "g' = GM mm sc mp ln idr'" and
    v: "gm_visit_fields (gm_accept_fuel k nm True 0 V) visitAll fieldId V (mm_listOfMetaFields mm) idr
      (v_pre V i sn l s) = Some (idr', s1)"
    using Suc.prems(1) by (auto simp: g split: option.splits)
  have "idr_ok nm idr'" using visit_fields_ok [OF Suc.IH v] Suc.prems(2) by (simp add: g)
  then show ?case using Suc.prems(2) names_free [of mm sc mp ln idr' idr] by (simp add: g g')
qed simp

end

section \<open>The JSON visitors\<close>

interpretation to_json: reader_visitor toJSON
  by unfold_locales (simp add: toJSON_def toJSON_visit_def)

lemma json_integer_type:
  "(\<And>n. any_type (mk n) = any_type v) \<Longrightarrow> any_type (fst (json_integer lo hi kv mk v s)) = any_type v"
  by (auto simp: json_integer_def split: any.splits option.splits)

lemma json_assign_type: "same_type (fst (json_assign kv a s)) a"
  by (cases a) (auto simp: json_integer_type same_type_def split: any.splits option.splits)

interpretation typed_from_json: typed_visitor fromJSON
  by unfold_locales (auto simp: fromJSON_def fromJSON_visit_def json_assign_type split: option.split)

text \<open>Braces are put around the text at the end.\<close>

lemma toJSON_braces:
    "\<And>s. snd (accept toJSON m (s\<lparr>tj_withOuterCurlyBraces := b\<rparr>)) = (snd (accept toJSON m s))\<lparr>tj_withOuterCurlyBraces := b\<rparr>"
  and "\<And>s. snd (accept_fields toJSON fs (s\<lparr>tj_withOuterCurlyBraces := b\<rparr>)) =
      (snd (accept_fields toJSON fs s))\<lparr>tj_withOuterCurlyBraces := b\<rparr>"
  and "\<And>i tn n s. snd (do_visit toJSON i tn n a (s\<lparr>tj_withOuterCurlyBraces := b\<rparr>)) =
      (snd (do_visit toJSON i tn n a s))\<lparr>tj_withOuterCurlyBraces := b\<rparr>"
proof (induction m and fs and a rule: message_induct)
  case (Val a)
  then show ?case
    by (cases a) (simp_all add: toJSON_def toJSON_visit_def toJSON_put_def split_beta)
qed (simp_all add: toJSON_def split_beta)

lemma toJSON_grows:
    "\<And>s. \<exists>x. tj_buffer (snd (accept toJSON m s)) = tj_buffer s @ x \<and> (x = [] \<or> hd x = 34)"
  and "\<And>s. \<exists>x. tj_buffer (snd (accept_fields toJSON fs s)) = tj_buffer s @ x \<and> (x = [] \<or> hd x = 34)"
  and "\<And>i tn n s. \<exists>x. tj_buffer (snd (do_visit toJSON i tn n a s)) = tj_buffer s @ x \<and> (x = [] \<or> hd x = 34)"
proof (induction m and fs and a rule: message_induct)
  case (Cons i tn n a fs)
  obtain x where x: "tj_buffer (snd (do_visit toJSON i tn n a s)) = tj_buffer s @ x" "x = [] \<or> hd x = 34"
    using Cons.IH(1) by blast
  obtain y where y: "tj_buffer (snd (accept_fields toJSON fs (snd (do_visit toJSON i tn n a s)))) =
      tj_buffer (snd (do_visit toJSON i tn n a s)) @ y" "y = [] \<or> hd y = 34"
    using Cons.IH(2) by blast
  have "tj_buffer (snd (accept_fields toJSON ((i, tn, n, a) # fs) s)) = tj_buffer s @ (x @ y)"
    using x(1) y(1) by (simp add: split_beta)
  moreover have "x @ y = [] \<or> hd (x @ y) = 34" using x(2) y(2) by (cases x) auto
  ultimately show ?case by blast
next
  case (Val a)
  then show ?case
    by (cases a) (auto simp: toJSON_def toJSON_visit_def toJSON_put_def split_beta)
qed (simp_all add: toJSON_def split_beta)

lemma json_without_braces:
  defines "inner m \<equiv> toJSON_json (snd (accept toJSON m (toJSON_new False [])))"
  shows "123 # (if inner m \<noteq> str ''{}'' then inner m else []) @ [125] = json_encode m"
proof -
  obtain x where x: "tj_buffer (snd (accept toJSON m (toJSON_new True []))) = x" "x = [] \<or> hd x = 34"
    using toJSON_grows(1) [of m "toJSON_new True []"] by (auto simp: toJSON_new_def)
  have "toJSON_new False [] = (toJSON_new True [])\<lparr>tj_withOuterCurlyBraces := False\<rparr>"
    by (simp add: toJSON_new_def)
  then have s: "snd (accept toJSON m (toJSON_new False [])) =
      (snd (accept toJSON m (toJSON_new True [])))\<lparr>tj_withOuterCurlyBraces := False\<rparr>"
    by (simp only: toJSON_braces)
  have "(toJSON_new True []) = (toJSON_new True [])\<lparr>tj_withOuterCurlyBraces := True\<rparr>"
    by (simp add: toJSON_new_def)
  then have o: "tj_withOuterCurlyBraces (snd (accept toJSON m (toJSON_new True [])))"
    by (metis toJSON.select_convs(1) toJSON.surjective toJSON.update_convs(1) toJSON_braces(1))
  have "take (length x - 2) x \<noteq> str ''{}''" if "2 < length x"
  proof -
    have "x \<noteq> []" "length x - 2 \<noteq> 0" using that by auto
    then have "hd (take (length x - 2) x) = 34" using x(2) by (cases x) (auto simp: take_Cons')
    then show ?thesis by auto
  qed
  then show ?thesis
    using x(1) by (simp add: inner_def s o json_encode_def json_encode_with_def toJSON_json_def Let_def)
qed

section \<open>Decoding into a message known from its specification\<close>

context typed_visitor
begin

lemma described_decoded:
  assumes "describes mms mm m" and "unique_ids m" and "depth m < k"
    and "\<And>m'. same_shape m' m \<Longrightarrow> fst (accept V m' s) = m \<and> P (snd (accept V m' s))"
  obtains g g' t where "gm_createFrom_spec k mms mm = Some g" and "gm_accept V g s = Some (g', t)"
    and "P t" and "gm_ok visitor_names g'" and "gm_view visitor_names g' = m"
proof -
  obtain g where g: "gm_createFrom_spec k mms mm = Some g"
    and s: "same_shape (gm_view visitor_names g) m" and o: "gm_ok visitor_names g"
    using createFrom_spec_ok [OF assms(1-3)] by blast
  obtain g' where g': "gm_accept V g s = Some (g', snd (accept V (gm_view visitor_names g) s))"
    "gm_view visitor_names g' = fst (accept V (gm_view visitor_names g) s)"
    using accept_view [OF o] by blast
  have "gm_ok visitor_names g'"
    using g'(1) o unfolding gm_accept_def by (rule visitor_names.accept_fuel_ok)
  with that [OF g g'(1)] g'(2) assms(4) [OF s] show ?thesis by simp
qed

end

section \<open>Properties\<close>

lemma serializeEnvelope_header:
  assumes "length (proto_encode (Envelope_msg e)) < 2 ^ 24"
  shows "5 < length (serializeEnvelope e) \<and> serializeEnvelope e ! 0 = 0x0D \<and> serializeEnvelope e ! 1 = 0xA4 \<and>
    unat (5 + (drop_bit 8 (of_le_bytes (take 4 (drop 1 (serializeEnvelope e)))) :: uint32)) = length (serializeEnvelope e)"
proof -
  let ?n = "length (proto_encode (Envelope_msg e))"
  let ?l = "le_bytes 3 (of_nat (?n mod 2 ^ 24) :: uint32)"
  have l: "length ?l = 3" by simp
  have "take 4 (drop 1 (serializeEnvelope e)) = 0xA4 # ?l" by (simp add: serializeEnvelope_bytes)
  then have "drop_bit 8 (of_le_bytes (take 4 (drop 1 (serializeEnvelope e)))) = (of_le_bytes ?l :: uint32)"
    using header_length_3 [OF l] by (simp only:)
  moreover have "unat (of_le_bytes ?l :: uint32) = ?n"
    using header_len_le_bytes [of ?n] assms by (simp only: header_len_def mod_less)
  then have "unat (5 + (of_le_bytes ?l :: uint32)) = 5 + ?n"
    using assms by (subst unat_add_lem [THEN iffD1]) (simp_all del: of_le_bytes.simps)
  moreover have "0 < ?n" by (simp add: proto_encode_bytes Envelope_msg_def proto_value.simps key_bytes_def)
  ultimately show ?thesis by (simp add: serializeEnvelope_bytes del: of_le_bytes.simps)
qed

text \<open>
  C29: The JSON text of a message becomes an envelope whose payload is the message's Proto encoding,
  with the given identifier and stamps, for every message that JSON carries and the specification
  describes. If the envelope is shorter than \<open>2 ^ 24\<close> bytes, and Proto carries the message, then
  \<open>extractEnvelope\<close> gives this envelope back and \<open>extractMessage\<close> the message.
\<close>

theorem converter_from_json:
  assumes "describes (ec_listOfMetaMessages c) mm m" and "map_of (ec_scopeOfMetaMessages c) i = Some mm"
    and "json_ok m" and "unique_ids m" and "depth m < k"
  shows "let e = Envelope_new\<lparr>env_dataType := i, env_serializedData := proto_encode m,
      env_senderStamp := stamp, env_sampleTimeStamp := ts\<rparr>
    in getProtoEncodedEnvelopeFromJSON k c (json_encode m) i stamp ts = Some (serializeEnvelope e) \<and>
      (length (proto_encode (Envelope_msg e)) < 2 ^ 24 \<longrightarrow>
        map_option fst (extractEnvelope (istream_of (serializeEnvelope e))) = Some (True, e)) \<and>
      (proto_ok m \<longrightarrow> (\<forall>m'. same_shape m' m \<longrightarrow> extractMessage e m' = Some m))"
proof -
  obtain d where d: "decodeFrom_json (json_encode m) fromJSON_new = Some d"
    using json_decode_encode [OF assms(3) same_shape_refl] by (auto simp: json_decode_def)
  have "fst (accept fromJSON m' d) = m \<and> \<not> fj_undef (snd (accept fromJSON m' d)) \<and>
      \<not> fj_throws (snd (accept fromJSON m' d))" if "same_shape m' m" for m'
    using json_decode_encode [OF assms(3) that] by (auto simp: json_decode_def d)
  then obtain g g' s where g: "gm_createFrom_spec k (ec_listOfMetaMessages c) mm = Some g"
    "gm_accept fromJSON g d = Some (g', s)" "\<not> fj_undef s" "\<not> fj_throws s"
    "gm_ok visitor_names g'" "gm_view visitor_names g' = m"
    using typed_from_json.described_decoded [OF assms(1,4,5), of d "\<lambda>s. \<not> fj_undef s \<and> \<not> fj_throws s"] by blast
  obtain g'' where "gm_accept toProto g' [] = Some (g'', proto_encode m)"
    using to_proto.accept_view [OF g(5), of "[]"] by (auto simp: g(6) proto_encode_def)
  then have "getProtoEncodedEnvelopeFromJSON k c (json_encode m) i stamp ts =
    Some (serializeEnvelope (Envelope_new\<lparr>env_dataType := i, env_serializedData := proto_encode m,
      env_senderStamp := stamp, env_sampleTimeStamp := ts\<rparr>))"
    using g by (simp add: getProtoEncodedEnvelopeFromJSON_def assms(2) d)
  moreover have "map_option fst (extractEnvelope (istream_of (serializeEnvelope e))) = Some (True, e)"
    if "length (proto_encode (Envelope_msg e)) < 2 ^ 24" for e
    using extractEnvelope_serializeEnvelope [OF _ that, of "istream_of (serializeEnvelope e)" "[]"] by simp
  ultimately show ?thesis by (simp add: Let_def extractMessage_encoded)
qed

definition sample_converter :: EnvelopeConverter where
  "sample_converter = snd (ec_setMessageSpecification (\<lambda>_. Some [spec_A, spec_B]) [])"

lemma sample_converter_facts:
  "ec_listOfMetaMessages sample_converter = [spec_A, spec_B]"
  "map_of (ec_scopeOfMetaMessages sample_converter) 9 = Some spec_A"
  by (simp_all add: sample_converter_def ec_setMessageSpecification_def setMessageSpecification_def
      spec_A_def spec_B_def)

definition converted_envelope :: Envelope where
  "converted_envelope = Envelope_new\<lparr>env_dataType := 9,
     env_serializedData := proto_encode (gen_sample (- 3) (str ''hi'') 300)\<rparr>"

lemma converted_envelope_length: "length (proto_encode (Envelope_msg converted_envelope)) < 2 ^ 24"
  by (simp add: proto_encode_bytes converted_envelope_def gen_sample_def Envelope_new_def Envelope_msg_def
      TimeStamp_msg_def TimeStamp_new_def proto_value.simps key_bytes_def leb128.simps zigzag_def
      length_delimited_def)

theorem converter_from_json_witness:
  "getProtoEncodedEnvelopeFromJSON 5 sample_converter (json_encode (gen_sample (- 3) (str ''hi'') 300)) 9 0 TimeStamp_new =
    Some (serializeEnvelope converted_envelope) \<and>
   map_option fst (extractEnvelope (istream_of (serializeEnvelope converted_envelope))) = Some (True, converted_envelope) \<and>
   extractMessage converted_envelope (gen_sample 0 [] 0) = Some (gen_sample (- 3) (str ''hi'') 300)"
proof -
  have d: "describes (ec_listOfMetaMessages sample_converter) spec_A (gen_sample (- 3) (str ''hi'') 300)"
    by (simp only: sample_converter_facts gen_sample_described)
  have "json_text_ok (encodeBase64 (str ''hi''))"
    by (simp add: json_text_ok_def Let_def sextet_def ALPHABET_def is_digit_def)
  then have j: "json_ok (gen_sample (- 3) (str ''hi'') 300)"
    by (simp add: gen_sample_def json_ok_value.simps json_name_def is_space_def last_scalar_def)
  have u: "unique_ids (gen_sample (- 3) (str ''hi'') 300)" by (rule gen_sample_ok)
  have k: "depth (gen_sample (- 3) (str ''hi'') 300) < 5" by (simp add: gen_sample_def)
  have s: "same_shape (gen_sample 0 [] 0) (gen_sample (- 3) (str ''hi'') 300)"
    by (simp add: gen_sample_def same_value.simps same_type_def)
  have e: "Envelope_new\<lparr>env_dataType := 9, env_serializedData := proto_encode (gen_sample (- 3) (str ''hi'') 300),
      env_senderStamp := 0, env_sampleTimeStamp := TimeStamp_new\<rparr> = converted_envelope"
    by (simp add: converted_envelope_def Envelope_new_def)
  show ?thesis
    using converter_from_json [OF d sample_converter_facts(2) j u k, where stamp = 0 and ts = TimeStamp_new, unfolded Let_def e]
      converted_envelope_length gen_sample_proto_ok s by blast
qed

text \<open>
  An envelope, serialised with its header, becomes the JSON text of its fields without the
  payload, followed by the JSON text of the message in the payload under the message's name.
\<close>

theorem converter_to_json:
  assumes "describes (ec_listOfMetaMessages c) mm m"
    and "map_of (ec_scopeOfMetaMessages c) (env_dataType e) = Some mm" and "ec_listOfMetaMessages c \<noteq> []"
    and "env_dataType e \<noteq> 0" and "env_serializedData e = proto_encode m" and "proto_ok m" and "depth m < k"
    and "length (proto_encode (Envelope_msg e)) < 2 ^ 24"
  shows "getJSONFromProtoEncodedEnvelope k c (serializeEnvelope e) =
    Some (123 # json_encode_with False [(2, False)] (Envelope_msg e) @ 44 # 10 # 34 #
      replaceAll (mm_messageName mm) 46 95 @ 34 # 58 # json_encode m @ [125])"
proof -
  let ?d = "fst (decodeFrom fromProto_new (istream_of (proto_encode m)))"
  have "fst (accept fromProto m' ?d) = m \<and> \<not> fp_undef (snd (accept fromProto m' ?d))" if "same_shape m' m" for m'
    using proto_decode_encode [OF assms(6) that] by (auto simp: proto_decode_def)
  then obtain g g' s where g: "gm_createFrom_spec k (ec_listOfMetaMessages c) mm = Some g"
    "gm_accept fromProto g ?d = Some (g', s)" "gm_ok visitor_names g'" "gm_view visitor_names g' = m"
    "\<not> fp_undef s"
    using typed_from_proto.described_decoded [OF assms(1) proto_ok_unique(1) [OF assms(6)] assms(7),
        of ?d "\<lambda>s. \<not> fp_undef s"] by blast
  obtain g'' where j: "gm_accept toJSON g' (toJSON_new False []) = Some (g'', snd (accept toJSON m (toJSON_new False [])))"
    using to_json.accept_view [OF g(3), of "toJSON_new False []"] by (auto simp: g(4))
  have inner: "getJSONFromEnvelope k c e =
    Some (123 # json_encode_with False [(2, False)] (Envelope_msg e) @ 44 # 10 # 34 #
      replaceAll (mm_messageName mm) 46 95 @ 34 # 58 # json_encode m @ [125])"
    using json_without_braces [of m, symmetric]
    by (simp add: getJSONFromEnvelope_def assms(2,3,5) g(1,2,5) j Let_def)
  have x: "extractEnvelope (istream_of (serializeEnvelope e)) =
      Some ((True, e), consumed (serializeEnvelope e) (istream_of (serializeEnvelope e)))"
    using assms(8) by (intro extractEnvelope_serializeEnvelope [of _ _ "[]"]) simp_all
  note header = serializeEnvelope_header [OF assms(8)]
  show ?thesis
    unfolding getJSONFromProtoEncodedEnvelope_def Let_def x
    using header by (simp add: assms(3,4) inner)
qed

theorem converter_to_json_witness:
  "getJSONFromProtoEncodedEnvelope 5 sample_converter (serializeEnvelope converted_envelope) =
    Some (123 # json_encode_with False [(2, False)] (Envelope_msg converted_envelope) @ 44 # 10 # 34 #
      replaceAll (mm_messageName spec_A) 46 95 @ 34 # 58 # json_encode (gen_sample (- 3) (str ''hi'') 300) @ [125])"
proof (rule converter_to_json [OF _ _ _ _ _ gen_sample_proto_ok])
  show "describes (ec_listOfMetaMessages sample_converter) spec_A (gen_sample (- 3) (str ''hi'') 300)"
    by (simp only: sample_converter_facts gen_sample_described)
  show "length (proto_encode (Envelope_msg converted_envelope)) < 2 ^ 24" by (rule converted_envelope_length)
qed (simp_all add: sample_converter_facts converted_envelope_def gen_sample_def)

text \<open>
  The \<open>GenericMessage\<close> made from an LCM packet on the channel of a described message shows the
  message that was encoded into the packet.
\<close>

theorem lcm_packet_generic:
  assumes "describes (lg_listOfMetaMessages c) mm m"
    and "map_of (lg_scopeOfMetaMessages c) channel = Some mm" and "lg_listOfMetaMessages c \<noteq> []"
    and "0 \<notin> set channel" and "lcm_ok m" and "unique_ids m" and "depth m < k"
  shows "\<exists>g. getGenericMessage k c
      (be_bytes 4 (0x4c433032 :: uint32) @ be_bytes 4 (0 :: uint32) @ channel @ 0 # lcm_encode m) = Some g \<and>
    gm_view visitor_names g = m"
proof -
  let ?d = "fromLCM_decodeFrom (fromLCM_new (istream_of [])) (istream_of (lcm_encode m))"
  let ?data = "be_bytes 4 (0x4c433032 :: uint32) @ be_bytes 4 (0 :: uint32) @ channel @ 0 # lcm_encode m"
  have "fst (accept fromLCM m' ?d) = m \<and> True" if "same_shape m' m" for m'
    using lcm_decode_encode [OF assms(5) that] by (auto simp: lcm_decode_def)
  then obtain g g' s where g: "gm_createFrom_spec k (lg_listOfMetaMessages c) mm = Some g"
    "gm_accept fromLCM g ?d = Some (g', s)" "gm_view visitor_names g' = m"
    using typed_from_lcm.described_decoded [OF assms(1,6,7), of ?d "\<lambda>_. True"] by blast
  have d: "take 4 ?data = be_bytes 4 (0x4c433032 :: uint32)" "take 4 (drop 4 ?data) = be_bytes 4 (0 :: uint32)"
    "drop 8 ?data = channel @ 0 # lcm_encode m" "\<not> length ?data \<le> 9"
    by (simp_all add: lcm_encode_bytes)
  have c: "takeWhile (\<lambda>b. b \<noteq> 0) (channel @ 0 # lcm_encode m) = channel"
    using while_not_at [OF assms(4)] by simp
  have p: "drop (8 + length channel + 1) ?data = lcm_encode m"
    by (simp add: numeral_eq_Suc)
  show ?thesis
    unfolding getGenericMessage_def Let_def d c p using assms(2,3) g by (simp add: lcm_encode_bytes)
qed

theorem lcm_packet_generic_witness:
  "\<exists>g. getGenericMessage 5 (snd (lg_setMessageSpecification (\<lambda>_. Some [spec_A, spec_B]) []))
      (be_bytes 4 (0x4c433032 :: uint32) @ be_bytes 4 (0 :: uint32) @ str ''A'' @
        0 # lcm_encode (gen_sample (- 3) (str ''hi'') 300)) = Some g \<and>
    gm_view visitor_names g = gen_sample (- 3) (str ''hi'') 300"
proof -
  let ?c = "snd (lg_setMessageSpecification (\<lambda>_. Some [spec_A, spec_B]) [])"
  have c: "lg_listOfMetaMessages ?c = [spec_A, spec_B]"
    "map_of (lg_scopeOfMetaMessages ?c) (str ''A'') = Some spec_A"
    by (simp_all add: lg_setMessageSpecification_def setMessageSpecification_def spec_A_def spec_B_def)
  show ?thesis
  proof (rule lcm_packet_generic [OF _ c(2)])
    show "describes (lg_listOfMetaMessages ?c) spec_A (gen_sample (- 3) (str ''hi'') 300)"
      by (simp only: c gen_sample_described)
    show "unique_ids (gen_sample (- 3) (str ''hi'') 300)" by (rule gen_sample_ok)
  qed (simp_all add: c(1) gen_sample_def lcm_ok_value.simps)
qed

end
