(* ===== verification/CSV.thy ===== *)
theory CSV
  imports ToJSON
begin

text \<open>
  \<open>ToCSVVisitor.cpp\<close>: messages as lines of values, with a line of column names before them.
\<close>

section \<open>The visitor\<close>

record toCSV =
  tc_mask :: "(uint32 \<times> bool) list"
  tc_prefix :: cstring
  tc_delimiter :: byte
  tc_withHeader :: bool
  tc_isNested :: bool
  tc_fillHeader :: bool
  tc_bufferHeader :: cstring
  tc_bufferValues :: cstring

definition toCSV_new :: "byte \<Rightarrow> bool \<Rightarrow> (uint32 \<times> bool) list \<Rightarrow> toCSV" where
  "toCSV_new delimiter withHeader masks =
     \<lparr>tc_mask = masks, tc_prefix = [], tc_delimiter = delimiter, tc_withHeader = withHeader,
      tc_isNested = False, tc_fillHeader = True, tc_bufferHeader = [], tc_bufferValues = []\<rparr>"

definition toCSV_nested :: "cstring \<Rightarrow> byte \<Rightarrow> bool \<Rightarrow> bool \<Rightarrow> toCSV" where
  "toCSV_nested prefix delimiter withHeader isNested =
     \<lparr>tc_mask = [], tc_prefix = prefix, tc_delimiter = delimiter, tc_withHeader = withHeader,
      tc_isNested = isNested, tc_fillHeader = True, tc_bufferHeader = [], tc_bufferValues = []\<rparr>"

definition toCSV_clear :: "toCSV \<Rightarrow> toCSV" where
  "toCSV_clear s = s\<lparr>tc_bufferHeader := [], tc_bufferValues := [], tc_fillHeader := True\<rparr>"

definition toCSV_csv :: "toCSV \<Rightarrow> cstring" where
  "toCSV_csv s = (if tc_withHeader s then tc_bufferHeader s else []) @ tc_bufferValues s"

definition toCSV_postVisit :: "toCSV \<Rightarrow> toCSV" where
  "toCSV_postVisit s =
     (let newline = (if tc_isNested s then [] else [10]) in
      s\<lparr>tc_bufferHeader := tc_bufferHeader s @ (if tc_fillHeader s then newline else []),
        tc_fillHeader := False,
        tc_bufferValues := tc_bufferValues s @ newline\<rparr>)"

text \<open>What \<open>operator<<\<close> writes for a value: as for JSON, but a character without quotes.\<close>

definition csv_scalar :: "'m any \<Rightarrow> cstring" where
  "csv_scalar a = (case a of A_char v \<Rightarrow> [v] | _ \<Rightarrow> json_scalar a)"

definition csv_column :: "cstring \<Rightarrow> cstring \<Rightarrow> cstring" where
  "csv_column prefix name = prefix @ (if prefix \<noteq> [] then str ''.'' else []) @ name"

definition toCSV_visit :: "uint32 \<Rightarrow> cstring \<Rightarrow> cstring \<Rightarrow> 'm any \<Rightarrow> toCSV \<Rightarrow> 'm any \<times> toCSV" where
  "toCSV_visit i tn name v s =
     (v, if is_scalar v \<and> masked_in (tc_mask s) i
         then s\<lparr>tc_bufferHeader := tc_bufferHeader s @
                  (if tc_fillHeader s then csv_column (tc_prefix s) name @ [tc_delimiter s] else []),
                tc_bufferValues := tc_bufferValues s @ csv_scalar v @ [tc_delimiter s]\<rparr>
         else s)"

text \<open>A nested message is visited with the name of its field as the prefix.\<close>

definition toCSV :: "(toCSV, 'm) visitor" where
  "toCSV =
     \<lparr>v_pre = (\<lambda>_ _ _ s. s), v_visit = toCSV_visit,
      v_enter = (\<lambda>i _ name s.
        if masked_in (tc_mask s) i then Some (toCSV_nested name (tc_delimiter s) (tc_withHeader s) True) else None),
      v_leave = (\<lambda>_ _ _ s t.
        s\<lparr>tc_bufferHeader := tc_bufferHeader s @ (if tc_fillHeader s then tc_bufferHeader t else []),
          tc_bufferValues := tc_bufferValues s @ tc_bufferValues t\<rparr>),
      v_post = toCSV_postVisit\<rparr>"

text \<open>Several messages visited one after the other.\<close>

definition csv_encode :: "byte \<Rightarrow> bool \<Rightarrow> (uint32 \<times> bool) list \<Rightarrow> visitable list \<Rightarrow> cstring" where
  "csv_encode delimiter withHeader masks ms =
     toCSV_csv (fold (\<lambda>m s. snd (accept toCSV m s)) ms (toCSV_new delimiter withHeader masks))"

section \<open>Tables\<close>

text \<open>
  The columns of a message: for every field that is not masked its column name and its text; the
  fields of nested messages are not masked, and their names have the name of the innermost field
  as a prefix.
\<close>

function csv_columns :: "(uint32 \<Rightarrow> bool) \<Rightarrow> cstring \<Rightarrow> visitable \<Rightarrow> (cstring \<times> cstring) list"
  and csv_columns_fields :: "(uint32 \<Rightarrow> bool) \<Rightarrow> cstring \<Rightarrow> field list \<Rightarrow> (cstring \<times> cstring) list"
  and csv_columns_value :: "cstring \<Rightarrow> cstring \<Rightarrow> visitable any \<Rightarrow> (cstring \<times> cstring) list" where
  "csv_columns shown prefix (Visitable i sn ln fs) = csv_columns_fields shown prefix fs"
| "csv_columns_fields shown prefix [] = []"
| "csv_columns_fields shown prefix ((i, tn, n, a) # fs) =
     (if shown i then csv_columns_value prefix n a else []) @ csv_columns_fields shown prefix fs"
| "csv_columns_value prefix n a =
     (case a of A_obj m \<Rightarrow> csv_columns (\<lambda>_. True) n m
      | A_empty \<Rightarrow> [] | _ \<Rightarrow> [(csv_column prefix n, csv_scalar a)])"
  by pat_completeness auto
termination
  by (relation "measure (\<lambda>x. case x of
        Inl (_, _, m) \<Rightarrow> size m | Inr (Inl (_, _, fs)) \<Rightarrow> fields_size fs
      | Inr (Inr (_, _, a)) \<Rightarrow> value_size a)") auto

declare csv_columns_value.simps [simp del]

definition csv_line :: "byte \<Rightarrow> cstring list \<Rightarrow> cstring" where
  "csv_line delimiter cells = concat (map (\<lambda>c. c @ [delimiter]) cells)"

lemma csv_line_append [simp]: "csv_line d (xs @ ys) = csv_line d xs @ csv_line d ys"
  by (simp add: csv_line_def)

interpretation to_csv: reader_visitor toCSV
  by unfold_locales (simp add: toCSV_def toCSV_visit_def)

text \<open>What a visit adds to the buffers, before the line is ended.\<close>

definition csv_add :: "(cstring \<times> cstring) list \<Rightarrow> toCSV \<Rightarrow> toCSV" where
  "csv_add cs s = s\<lparr>tc_bufferHeader := tc_bufferHeader s @
       (if tc_fillHeader s then csv_line (tc_delimiter s) (map fst cs) else []),
     tc_bufferValues := tc_bufferValues s @ csv_line (tc_delimiter s) (map snd cs)\<rparr>"

lemma csv_add_add: "csv_add ds (csv_add cs s) = csv_add (cs @ ds) s"
  by (simp add: csv_add_def)

lemma csv_add_nil: "csv_add [] s = s"
  by (simp add: csv_add_def csv_line_def)

lemma csv_add_sel [simp]:
  "tc_mask (csv_add cs s) = tc_mask s" "tc_prefix (csv_add cs s) = tc_prefix s"
  by (simp_all add: csv_add_def)

lemma toCSV_columns:
    "\<And>s. snd (accept toCSV m s) =
       toCSV_postVisit (csv_add (csv_columns (masked_in (tc_mask s)) (tc_prefix s) m) s)"
  and "\<And>s. snd (accept_fields toCSV fs s) = csv_add (csv_columns_fields (masked_in (tc_mask s)) (tc_prefix s) fs) s"
  and "\<And>i tn n s. snd (do_visit toCSV i tn n a s) =
       (if masked_in (tc_mask s) i then csv_add (csv_columns_value (tc_prefix s) n a) s else s)"
proof (induction m and fs and a rule: message_induct)
  case (Msg i sn ln fs)
  then show ?case by (simp add: toCSV_def split_beta)
next
  case Nil
  then show ?case by (simp add: csv_add_nil)
next
  case (Cons i tn n a fs)
  then show ?case by (simp add: split_beta csv_add_add csv_add_nil)
next
  case (Val a)
  show ?case
  proof (cases "\<exists>m. a = A_obj m")
    case True
    then obtain m where a: "a = A_obj m" by blast
    let ?t = "toCSV_nested n (tc_delimiter s) (tc_withHeader s) True"
    have m: "snd (accept toCSV m ?t) = toCSV_postVisit (csv_add (csv_columns (\<lambda>_. True) n m) ?t)"
      using Val.IH [OF a, of ?t] by (simp add: toCSV_nested_def masked_in_def [abs_def])
    show ?thesis
      using m by (simp add: a toCSV_def split_beta csv_columns_value.simps)
        (simp add: csv_add_def toCSV_postVisit_def toCSV_nested_def)
  next
    case False
    then have "csv_columns_value (tc_prefix s) n a = (if is_scalar a then [(csv_column (tc_prefix s) n, csv_scalar a)] else [])"
      by (cases a) (simp_all add: csv_columns_value.simps)
    moreover have "snd (do_visit toCSV i tn n a s) = snd (toCSV_visit i tn n a s)"
      using False by (cases a) (simp_all add: toCSV_def)
    ultimately show ?thesis
      by (simp add: toCSV_visit_def csv_add_def csv_line_def)
  qed
qed

text \<open>
  Visiting messages one after the other writes the column names of the first one and then, for
  every message, a line of its values, in the order of the fields, nested messages in place of
  their field.
\<close>

theorem csv_table:
  "csv_encode d withHeader masks (m # ms) =
     (if withHeader then csv_line d (map fst (csv_columns (masked_in masks) [] m)) @ [10] else []) @
     concat (map (\<lambda>m. csv_line d (map snd (csv_columns (masked_in masks) [] m)) @ [10]) (m # ms))"
proof -
  have f: "fold (\<lambda>m s. snd (accept toCSV m s)) ms s =
      s\<lparr>tc_bufferValues := tc_bufferValues s @
        concat (map (\<lambda>m. csv_line (tc_delimiter s) (map snd (csv_columns (masked_in (tc_mask s)) (tc_prefix s) m)) @ [10]) ms)\<rparr>"
    if "\<not> tc_fillHeader s" "\<not> tc_isNested s" for s
    using that by (induction ms arbitrary: s) (auto simp: toCSV_columns(1) csv_add_def toCSV_postVisit_def)
  define s1 where "s1 = snd (accept toCSV m (toCSV_new d withHeader masks))"
  have s1: "s1 = (toCSV_new d withHeader masks)
      \<lparr>tc_bufferHeader := csv_line d (map fst (csv_columns (masked_in masks) [] m)) @ [10], tc_fillHeader := False,
       tc_bufferValues := csv_line d (map snd (csv_columns (masked_in masks) [] m)) @ [10]\<rparr>"
    unfolding s1_def toCSV_columns(1) by (simp add: csv_add_def toCSV_postVisit_def toCSV_new_def Let_def)
  have "csv_encode d withHeader masks (m # ms) = toCSV_csv (fold (\<lambda>m s. snd (accept toCSV m s)) ms s1)"
    by (simp only: csv_encode_def fold_simps s1_def)
  also have "\<dots> = toCSV_csv (s1\<lparr>tc_bufferValues := tc_bufferValues s1 @
        concat (map (\<lambda>m. csv_line (tc_delimiter s1) (map snd (csv_columns (masked_in (tc_mask s1)) (tc_prefix s1) m)) @ [10]) ms)\<rparr>)"
    by (subst f) (simp_all add: s1 toCSV_new_def)
  finally show ?thesis by (simp add: s1 toCSV_new_def toCSV_csv_def)
qed

text \<open>Messages of one class have the same columns.\<close>

lemma csv_columns_shape:
    "\<And>m' shown p. same_shape m m' \<Longrightarrow> map fst (csv_columns shown p m) = map fst (csv_columns shown p m')"
  and "\<And>gs shown p. same_fields fs gs \<Longrightarrow> map fst (csv_columns_fields shown p fs) = map fst (csv_columns_fields shown p gs)"
  and "\<And>b p n. same_value a b \<Longrightarrow> map fst (csv_columns_value p n a) = map fst (csv_columns_value p n b)"
proof (induction m and fs and a rule: message_induct)
  case (Msg i sn ln fs)
  then show ?case by (cases m') simp
next
  case (Cons i tn n a fs)
  then show ?case by (auto split: list.splits)
next
  case (Val a)
  then show ?case
    by (cases a; cases b) (auto simp: csv_columns_value.simps same_value.simps same_type_def)
qed simp

text \<open>
  The name of a column has the name of the innermost message field only: fields of different
  messages in different places can have the same column name.
\<close>

theorem csv_columns_collide:
  "map fst (csv_columns shown [] (Visitable 1 sn ln
     [(1, tn, n1, A_obj (Visitable 2 sn2 ln2 [(1, tn3, n, A_obj (Visitable 3 sn3 ln3 [(1, tn4, x, A_int32 v)]))])),
      (2, tn2, n2, A_obj (Visitable 2 sn2 ln2 [(1, tn3, n, A_obj (Visitable 3 sn3 ln3 [(1, tn4, x, A_int32 w)]))]))])) =
   (if shown 1 then [csv_column n x] else []) @ (if shown 2 then [csv_column n x] else [])"
  by (simp add: csv_columns_value.simps)

end
