(* ===== verification/ODVD.thy ===== *)
theory ODVD
  imports Strings Visitors
begin

text \<open>
  \<open>ToODVDVisitor.cpp\<close>: the specification of a message in the language of \<open>MessageParser\<close>.
\<close>

section \<open>The visitor\<close>

record toODVD =
  to_forwardDeclarations :: "cstring list"
  to_buffer :: cstring

definition toODVD_new :: toODVD where
  "toODVD_new = \<lparr>to_forwardDeclarations = [], to_buffer = []\<rparr>"

definition toODVD_messageSpecification :: "toODVD \<Rightarrow> cstring" where
  "toODVD_messageSpecification s = concat (to_forwardDeclarations s) @ to_buffer s"

definition odvd_head :: "int32 \<Rightarrow> cstring \<Rightarrow> cstring" where
  "odvd_head i ln = str ''message '' @ ln @ str '' [ id = '' @ dec_int (sint i) @ str '' ] {'' @ [10]"

text \<open>The type and the default value that the overload of \<open>visit\<close> for a type writes.\<close>

primrec odvd_type :: "'m any \<Rightarrow> cstring \<times> cstring" where
  "odvd_type A_empty = ([], [])"
| "odvd_type (A_bool _) = (str ''bool'', str ''false'')"
| "odvd_type (A_char _) = (str ''char'', [39, 48, 39])"
| "odvd_type (A_int8 _) = (str ''int8'', str ''0'')"
| "odvd_type (A_uint8 _) = (str ''uint8'', str ''0'')"
| "odvd_type (A_int16 _) = (str ''int16'', str ''0'')"
| "odvd_type (A_uint16 _) = (str ''uint16'', str ''0'')"
| "odvd_type (A_int32 _) = (str ''int32'', str ''0'')"
| "odvd_type (A_uint32 _) = (str ''uint32'', str ''0'')"
| "odvd_type (A_int64 _) = (str ''int64'', str ''0'')"
| "odvd_type (A_uint64 _) = (str ''uint64'', str ''0'')"
| "odvd_type (A_float _) = (str ''float'', str ''0.0'')"
| "odvd_type (A_double _) = (str ''double'', str ''0.0'')"
| "odvd_type (A_string _) = (str ''string'', [34, 34])"
| "odvd_type (A_obj _) = ([], [])"

definition odvd_scalar_line :: "uint32 \<Rightarrow> cstring \<Rightarrow> 'm any \<Rightarrow> cstring" where
  "odvd_scalar_line i n a =
     (let (t, d) = odvd_type a
      in str ''    '' @ t @ str '' '' @ n @ str '' [ default = '' @ d @ str '', id = '' @ dec_nat (unat i) @ str '' ];'' @ [10])"

text \<open>\<open>regex_replace\<close> of \<open>::\<close> by a full stop.\<close>

fun colons_to_stop :: "cstring \<Rightarrow> cstring" where
  "colons_to_stop (a # b # cs) =
     (if a = 58 \<and> b = 58 then 46 # colons_to_stop cs else a # colons_to_stop (b # cs))"
| "colons_to_stop cs = cs"

definition odvd_message_line :: "uint32 \<Rightarrow> cstring \<Rightarrow> cstring \<Rightarrow> cstring" where
  "odvd_message_line i tn n =
     str ''    '' @ colons_to_stop tn @ str '' '' @ n @ str '' [ id = '' @ dec_nat (unat i) @ str '' ];'' @ [10]"

definition toODVD_visit :: "uint32 \<Rightarrow> cstring \<Rightarrow> cstring \<Rightarrow> 'm any \<Rightarrow> toODVD \<Rightarrow> 'm any \<times> toODVD" where
  "toODVD_visit i tn n v s =
     (v, if is_scalar v then s\<lparr>to_buffer := to_buffer s @ odvd_scalar_line i n v\<rparr> else s)"

definition toODVD :: "(toODVD, 'm) visitor" where
  "toODVD =
     \<lparr>v_pre = (\<lambda>i _ ln s. s\<lparr>to_buffer := to_buffer s @ odvd_head i ln\<rparr>), v_visit = toODVD_visit,
      v_enter = (\<lambda>_ _ _ _. Some toODVD_new),
      v_leave = (\<lambda>i tn n s t.
        s\<lparr>to_forwardDeclarations := toODVD_messageSpecification t # to_forwardDeclarations s,
          to_buffer := to_buffer s @ odvd_message_line i tn n\<rparr>),
      v_post = (\<lambda>s. s\<lparr>to_buffer := to_buffer s @ [125, 10]\<rparr>)\<rparr>"

definition odvd_encode :: "visitable \<Rightarrow> cstring" where
  "odvd_encode m = toODVD_messageSpecification (snd (accept toODVD m toODVD_new))"

section \<open>The declarations in a specification\<close>

text \<open>
  The messages that are declared, in order: those of the nested messages, the last field first,
  then the message itself.
\<close>

function odvd_declared :: "visitable \<Rightarrow> visitable list"
  and odvd_declared_fields :: "field list \<Rightarrow> visitable list"
  and odvd_declared_value :: "visitable any \<Rightarrow> visitable list" where
  "odvd_declared (Visitable i sn ln fs) = odvd_declared_fields fs @ [Visitable i sn ln fs]"
| "odvd_declared_fields [] = []"
| "odvd_declared_fields ((i, tn, n, a) # fs) = odvd_declared_fields fs @ odvd_declared_value a"
| "odvd_declared_value a = (case a of A_obj m \<Rightarrow> odvd_declared m | _ \<Rightarrow> [])"
  by pat_completeness auto
termination
  by (relation "measure (\<lambda>x. case x of
        Inl m \<Rightarrow> size m | Inr (Inl fs) \<Rightarrow> fields_size fs | Inr (Inr a) \<Rightarrow> value_size a)") auto

declare odvd_declared_value.simps [simp del]

definition odvd_field :: "field \<Rightarrow> cstring" where
  "odvd_field f = (case f of (i, tn, n, a) \<Rightarrow>
     (case a of A_obj _ \<Rightarrow> odvd_message_line i tn n | A_empty \<Rightarrow> [] | _ \<Rightarrow> odvd_scalar_line i n a))"

definition odvd_declaration :: "visitable \<Rightarrow> cstring" where
  "odvd_declaration m =
     odvd_head (msg_ID m) (msg_LongName m) @ concat (map odvd_field (msg_fields m)) @ [125, 10]"

interpretation to_odvd: reader_visitor toODVD
  by unfold_locales (simp add: toODVD_def toODVD_visit_def)

lemma toODVD_declares:
    "\<And>s. toODVD_messageSpecification (snd (accept toODVD m s)) =
       concat (map odvd_declaration (odvd_declared_fields (msg_fields m))) @
       toODVD_messageSpecification s @ odvd_declaration m"
  and "\<And>s. concat (to_forwardDeclarations (snd (accept_fields toODVD fs s))) =
       concat (map odvd_declaration (odvd_declared_fields fs)) @ concat (to_forwardDeclarations s) \<and>
     to_buffer (snd (accept_fields toODVD fs s)) = to_buffer s @ concat (map odvd_field fs)"
  and "\<And>i tn n s. concat (to_forwardDeclarations (snd (do_visit toODVD i tn n a s))) =
       concat (map odvd_declaration (odvd_declared_value a)) @ concat (to_forwardDeclarations s) \<and>
     to_buffer (snd (do_visit toODVD i tn n a s)) = to_buffer s @ odvd_field (i, tn, n, a)"
proof (induction m and fs and a rule: message_induct)
  case (Msg i sn ln fs)
  then show ?case
    by (simp add: toODVD_def split_beta toODVD_messageSpecification_def odvd_declaration_def)
next
  case (Cons i tn n a fs)
  then show ?case by (simp add: split_beta)
next
  case (Val a)
  show ?case
  proof (cases "\<exists>m. a = A_obj m")
    case True
    then obtain m where a: "a = A_obj m" by blast
    have "toODVD_messageSpecification (snd (accept toODVD m toODVD_new)) = concat (map odvd_declaration (odvd_declared m))"
      using Val.IH [OF a, of toODVD_new]
      by (cases m) (simp add: toODVD_new_def toODVD_messageSpecification_def)
    then show ?thesis
      by (simp add: a toODVD_def split_beta odvd_declared_value.simps odvd_field_def)
  next
    case False
    then show ?thesis
      by (cases a) (simp_all add: toODVD_def toODVD_visit_def odvd_declared_value.simps odvd_field_def)
  qed
qed simp

text \<open>
  C36: The specification consists of one declaration for every message in a message, with all its
  fields, each nested one before the message that contains it.
\<close>

theorem odvd_declares:
  "odvd_encode m = concat (map odvd_declaration (odvd_declared m))"
  using toODVD_declares(1) [of m toODVD_new]
  by (cases m) (simp add: odvd_encode_def toODVD_new_def toODVD_messageSpecification_def)

end
