(* ===== verification/Parser.thy ===== *)
theory Parser
  imports MetaMessages Strings "HOL-Library.List_Lexorder"
begin

text \<open>
  \<open>MessageParser.cpp\<close>: message specifications. The grammar is run by the vendored \<open>peglib\<close>, whose
  optimised syntax tree is an argument; the model begins there: the check for duplicates and the
  translation into \<open>MetaMessage\<close>s.
\<close>

section \<open>Syntax trees\<close>

text \<open>What the code reads of \<open>peg::Ast\<close>.\<close>

datatype Ast = Ast (ast_name: cstring) (ast_original_name: cstring) (ast_token: cstring) (ast_nodes: "Ast list")

text \<open>\<open>std::stoi\<close>; \<open>None\<close> stands for its exceptions.\<close>

definition stoi :: "cstring \<Rightarrow> int option" where
  "stoi s =
     (let t = dropWhile is_space s;
          neg = (t \<noteq> [] \<and> hd t = 45);
          t = (if t \<noteq> [] \<and> (hd t = 45 \<or> hd t = 43) then tl t else t);
          ds = takeWhile is_digit t;
          v = (if neg then - int (digits_value ds 0) else int (digits_value ds 0))
      in if ds \<noteq> [] \<and> - (2 ^ 31) \<le> v \<and> v < 2 ^ 31 then Some v else None)"

section \<open>Comments\<close>

text \<open>
  \<open>regex_replace\<close> of \<open>/\*([\s\S]*?)\*/|//.*\<close> by nothing: from left to right, a comment in asterisks
  up to the first end of it, or the rest of a line.
\<close>

fun end_of_comment :: "cstring \<Rightarrow> cstring option" where
  "end_of_comment (a # b # cs) = (if a = 42 \<and> b = 47 then Some cs else end_of_comment (b # cs))"
| "end_of_comment _ = None"

lemma end_of_comment_shorter: "end_of_comment s = Some t \<Longrightarrow> length t < length s"
  by (induction s rule: end_of_comment.induct) (auto split: if_splits)

function strip_comments :: "cstring \<Rightarrow> cstring" where
  "strip_comments [] = []"
| "strip_comments (c # cs) =
     (if c = 47 \<and> cs \<noteq> [] \<and> hd cs = 42
      then (case end_of_comment (tl cs) of Some t \<Rightarrow> strip_comments t | None \<Rightarrow> c # strip_comments cs)
      else if c = 47 \<and> cs \<noteq> [] \<and> hd cs = 47
      then strip_comments (dropWhile (\<lambda>d. d \<noteq> 10 \<and> d \<noteq> 13) (tl cs))
      else c # strip_comments cs)"
  by pat_completeness auto
termination
proof (relation "measure length")
  fix c :: byte and cs t
  assume "end_of_comment (tl cs) = Some t"
  from end_of_comment_shorter [OF this] show "(t, c # cs) \<in> measure length" by simp
next
  fix c :: byte and cs :: cstring
  have "length (dropWhile (\<lambda>d. d \<noteq> 10 \<and> d \<noteq> 13) (tl cs)) \<le> length (tl cs)" by (rule length_dropWhile_le)
  then show "(dropWhile (\<lambda>d. d \<noteq> 10 \<and> d \<noteq> 13) (tl cs), c # cs) \<in> measure length" by simp
qed auto

declare strip_comments.simps [simp del]

section \<open>The check for duplicates\<close>

text \<open>
  The loop over the sorted entries: the last entry with an equal one behind it, and the initial
  value if there is none.
\<close>

fun last_duplicate :: "'a \<Rightarrow> 'a list \<Rightarrow> 'a" where
  "last_duplicate d [] = d"
| "last_duplicate d (x # xs) = last_duplicate (if x \<in> set xs then x else d) xs"

text \<open>The vectors that the check passes by reference.\<close>

record check_state =
  ck_prefix :: cstring
  ck_messageNames :: "cstring list"
  ck_fieldNames :: "cstring list"
  ck_messageIdentifiers :: "int list"
  ck_fieldIdentifiers :: "int list"

definition check_state_new :: check_state where
  "check_state_new = \<lparr>ck_prefix = [], ck_messageNames = [], ck_fieldNames = [], ck_messageIdentifiers = [],
     ck_fieldIdentifiers = []\<rparr>"

text \<open>A \<open>FIELD\<close>: its name and its identifier, if they are there.\<close>

definition find_node :: "cstring \<Rightarrow> Ast list \<Rightarrow> Ast option" where
  "find_node n nodes = find (\<lambda>a. ast_original_name a = n) nodes"

definition check_field :: "Ast list \<Rightarrow> check_state \<Rightarrow> check_state option" where
  "check_field nodes s =
     (let s = (case find_node (str ''NAME'') nodes of
                 None \<Rightarrow> s | Some a \<Rightarrow> s\<lparr>ck_fieldNames := ck_fieldNames s @ [ast_token a]\<rparr>)
      in case find_node (str ''IDENTIFIER'') nodes of
           None \<Rightarrow> Some s
         | Some a \<Rightarrow>
             (case stoi (ast_token a) of
                None \<Rightarrow> None
              | Some i \<Rightarrow> Some (s\<lparr>ck_fieldIdentifiers := ck_fieldIdentifiers s @ [i]\<rparr>)))"

text \<open>What is done behind the loop over the parts of a message declaration, and of a specification.\<close>

definition check_fields_unique :: "bool \<Rightarrow> check_state \<Rightarrow> bool \<times> check_state" where
  "check_fields_unique retVal s =
     (let (retVal, s) =
        (if retVal
         then (let s = s\<lparr>ck_fieldIdentifiers := sort (ck_fieldIdentifiers s)\<rparr>
               in (- 1 = last_duplicate (- 1) (ck_fieldIdentifiers s), s))
         else (retVal, s))
      in if retVal
         then (let s = s\<lparr>ck_fieldNames := sort (ck_fieldNames s)\<rparr>
               in (last_duplicate [] (ck_fieldNames s) = [], s))
         else (retVal, s))"

definition check_messages_unique :: "bool \<Rightarrow> check_state \<Rightarrow> bool \<times> check_state" where
  "check_messages_unique retVal s =
     (let (retVal, s) =
        (if retVal
         then (let s = s\<lparr>ck_messageIdentifiers := sort (ck_messageIdentifiers s)\<rparr>
               in (- 1 = last_duplicate (- 1) (ck_messageIdentifiers s), s))
         else (retVal, s))
      in if retVal
         then (let s = s\<lparr>ck_messageNames := sort (ck_messageNames s)\<rparr>
               in (last_duplicate [] (ck_messageNames s) = [], s))
         else (retVal, s))"

text \<open>
  \<open>check4UniqueFieldNames\<close>. The three cases are one behind the other, as in the code; the calls for
  the nodes of a specification and of a message declaration are the two loops.
\<close>

primrec check_nodes ::
  "(Ast \<Rightarrow> check_state \<Rightarrow> (bool \<times> check_state) option) \<Rightarrow> Ast list \<Rightarrow> bool \<Rightarrow> check_state \<Rightarrow>
   (bool \<times> check_state) option" where
  "check_nodes check [] retVal s = Some (retVal, s)"
| "check_nodes check (node # nodes) retVal s =
     (case check node s of
        None \<Rightarrow> None
      | Some (r, s) \<Rightarrow> check_nodes check nodes (retVal \<and> r) s)"

definition check_part ::
  "(Ast \<Rightarrow> check_state \<Rightarrow> (bool \<times> check_state) option) \<Rightarrow> Ast \<Rightarrow> check_state \<Rightarrow> (bool \<times> check_state) option" where
  "check_part check node s =
     (if ast_original_name node = str ''MESSAGE_NAME''
      then Some (True, s\<lparr>ck_prefix := trim (ast_token node),
                   ck_messageNames := ck_messageNames s @ [trim (ast_token node)]\<rparr>)
      else if ast_original_name node = str ''IDENTIFIER''
      then (case stoi (ast_token node) of
              None \<Rightarrow> None
            | Some i \<Rightarrow> Some (True, s\<lparr>ck_messageIdentifiers := ck_messageIdentifiers s @ [i]\<rparr>))
      else if ast_original_name node = str ''FIELD'' then check node s
      else Some (True, s))"

lemma check_nodes_cong [fundef_cong]:
  "xs = ys \<Longrightarrow> r = q \<Longrightarrow> s = t \<Longrightarrow> (\<And>x s. x \<in> set ys \<Longrightarrow> f x s = g x s) \<Longrightarrow>
     check_nodes f xs r s = check_nodes g ys q t"
  by (induction ys arbitrary: xs r q s t) (auto split: option.split)

lemma check_part_cong [fundef_cong]:
  "x = y \<Longrightarrow> s = t \<Longrightarrow> f y t = g y t \<Longrightarrow> check_part f x s = check_part g y t"
  by (simp add: check_part_def)

function check4UniqueFieldNames :: "Ast \<Rightarrow> check_state \<Rightarrow> (bool \<times> check_state) option" where
  "check4UniqueFieldNames (Ast name original_name token nodes) s =
     Option.bind
       (if name = str ''MESSAGES_SPECIFICATION''
        then Option.bind (check_nodes (\<lambda>node s. check4UniqueFieldNames node s) nodes True s)
               (\<lambda>(retVal, s). Some (check_messages_unique retVal s))
        else Some (True, s))
       (\<lambda>(retVal, s). Option.bind
         (if name = str ''MESSAGE_DECLARATION''
          then Option.bind (check_nodes (\<lambda>node s. check_part check4UniqueFieldNames node s) nodes True
                 (s\<lparr>ck_fieldNames := [], ck_fieldIdentifiers := [], ck_prefix := []\<rparr>))
                 (\<lambda>(retVal, s). Some (check_fields_unique retVal s))
          else Some (retVal, s))
         (\<lambda>(retVal, s). if original_name = str ''FIELD''
            then map_option (Pair retVal) (check_field nodes s) else Some (retVal, s)))"
  by pat_completeness auto
termination
  by (relation "measure (\<lambda>(a, _). size a)") (auto simp: less_Suc_eq_le dest: size_list_estimation' [OF _ order_refl])

declare check4UniqueFieldNames.simps [simp del]

section \<open>Translation into MetaMessages\<close>

definition STRING_TO_DATATYPE_MAP :: "(cstring \<times> data_type) list" where
  "STRING_TO_DATATYPE_MAP =
     [(str ''bool'', BOOL_T), (str ''char'', CHAR_T), (str ''uint8'', UINT8_T), (str ''int8'', INT8_T),
      (str ''uint16'', UINT16_T), (str ''int16'', INT16_T), (str ''uint32'', UINT32_T), (str ''int32'', INT32_T),
      (str ''uint64'', UINT64_T), (str ''int64'', INT64_T), (str ''float'', FLOAT_T), (str ''double'', DOUBLE_T),
      (str ''string'', STRING_T), (str ''bytes'', BYTES_T)]"

record field_parts =
  fp_fieldDataType :: cstring
  fp_fieldName :: cstring
  fp_fieldDefaultInitializerValue :: cstring
  fp_fieldIdentifier :: cstring

definition field_part :: "Ast \<Rightarrow> field_parts \<Rightarrow> field_parts" where
  "field_part f p =
     (if ast_original_name f = str ''PRIMITIVE_TYPE'' then p\<lparr>fp_fieldDataType := ast_token f\<rparr>
      else if ast_original_name f = str ''NAME'' then p\<lparr>fp_fieldName := ast_token f\<rparr>
      else if ast_original_name f = str ''DEFAULT''
      then p\<lparr>fp_fieldDefaultInitializerValue :=
               (if ast_name f = str ''STRING'' then 34 # ast_token f @ [34]
                else if ast_name f = str ''CHARACTER'' then 39 # ast_token f @ [39]
                else ast_token f)\<rparr>
      else if ast_original_name f = str ''IDENTIFIER'' then p\<lparr>fp_fieldIdentifier := ast_token f\<rparr>
      else p)"

definition field_parts_of :: "Ast \<Rightarrow> field_parts" where
  "field_parts_of e = fold field_part (ast_nodes e)
     \<lparr>fp_fieldDataType = [], fp_fieldName = [], fp_fieldDefaultInitializerValue = [], fp_fieldIdentifier = []\<rparr>"

text \<open>The field, and the counter of the fields without identifier.\<close>

definition createMetaField :: "Ast \<Rightarrow> uint32 \<Rightarrow> (MetaField \<times> uint32) option" where
  "createMetaField e counter =
     (let p = field_parts_of e;
          counter = (if fp_fieldIdentifier p = [] then counter + 1 else counter);
          d = (case map_of STRING_TO_DATATYPE_MAP (fp_fieldDataType p) of Some d \<Rightarrow> d | None \<Rightarrow> MESSAGE_T);
          mf = MetaField_new\<lparr>mf_fieldDataType := d, mf_fieldDataTypeName := trim (fp_fieldDataType p),
                 mf_fieldName := trim (fp_fieldName p),
                 mf_defaultInitializationValue := fp_fieldDefaultInitializerValue p\<rparr>
      in if fp_fieldIdentifier p \<noteq> []
         then map_option (\<lambda>i. (mf\<lparr>mf_fieldIdentifier := of_int i\<rparr>, counter)) (stoi (trim (fp_fieldIdentifier p)))
         else Some (mf\<lparr>mf_fieldIdentifier := counter\<rparr>, counter))"

fun createMetaMessage_nodes :: "Ast list \<Rightarrow> MetaMessage \<Rightarrow> uint32 \<Rightarrow> MetaMessage option" where
  "createMetaMessage_nodes [] mm counter = Some mm"
| "createMetaMessage_nodes (e # es) mm counter =
     (if ast_original_name e = str ''MESSAGE_NAME''
      then createMetaMessage_nodes es (mm\<lparr>mm_messageName := trim (ast_token e)\<rparr>) counter
      else if ast_original_name e = str ''IDENTIFIER''
      then (case stoi (ast_token e) of
              None \<Rightarrow> None
            | Some i \<Rightarrow> createMetaMessage_nodes es (mm\<lparr>mm_messageIdentifier := of_int i\<rparr>) counter)
      else if ast_original_name e = str ''FIELD''
      then (case createMetaField e counter of
              None \<Rightarrow> None
            | Some (mf, counter) \<Rightarrow> createMetaMessage_nodes es (mm_add mf mm) counter)
      else createMetaMessage_nodes es mm counter)"

definition createMetaMessage :: "cstring \<Rightarrow> Ast \<Rightarrow> MetaMessage option" where
  "createMetaMessage packageName node =
     createMetaMessage_nodes (ast_nodes node) (MetaMessage_new\<lparr>mm_packageName := trim packageName\<rparr>) 0"

fun all_some :: "'a option list \<Rightarrow> 'a list option" where
  "all_some [] = Some []"
| "all_some (x # xs) = (case x of None \<Rightarrow> None | Some y \<Rightarrow> map_option ((#) y) (all_some xs))"

definition transform2MetaMessages :: "Ast \<Rightarrow> MetaMessage list option" where
  "transform2MetaMessages ast =
     (if ast_name ast = str ''MESSAGES_SPECIFICATION''
      then (let packageName = (case find (\<lambda>a. ast_name a = str ''PACKAGE_NAME'') (ast_nodes ast) of
                                 None \<Rightarrow> [] | Some a \<Rightarrow> ast_token a)
            in all_some (map (createMetaMessage packageName)
                 (filter (\<lambda>node. ast_name node = str ''MESSAGE_DECLARATION'') (ast_nodes ast))))
      else map_option (\<lambda>mm. [mm]) (createMetaMessage [] ast))"

section \<open>The parser\<close>

datatype MessageParserErrorCodes = NO_MESSAGEPARSER_ERROR | SYNTAX_ERROR | DUPLICATE_IDENTIFIERS

text \<open>
  \<open>peg\<close> is the vendored parser for the grammar with its optimiser; it is given a C string. \<open>None\<close>: an
  exception of \<open>stoi\<close>, which leaves the function.
\<close>

definition parse_ast :: "Ast option \<Rightarrow> (MetaMessage list \<times> MessageParserErrorCodes) option" where
  "parse_ast ast =
     (case ast of
        None \<Rightarrow> Some ([], SYNTAX_ERROR)
      | Some ast \<Rightarrow>
          (case check4UniqueFieldNames ast check_state_new of
             None \<Rightarrow> None
           | Some (unique, _) \<Rightarrow>
               if unique then map_option (\<lambda>l. (l, NO_MESSAGEPARSER_ERROR)) (transform2MetaMessages ast)
               else Some ([], DUPLICATE_IDENTIFIERS)))"

definition parse :: "(cstring \<Rightarrow> Ast option) \<Rightarrow> cstring \<Rightarrow> (MetaMessage list \<times> MessageParserErrorCodes) option" where
  "parse peg input = parse_ast (peg (takeWhile (\<lambda>c. c \<noteq> 0) (strip_comments input)))"

end
