(* ===== verification/ParserCorrect.thy ===== *)
theory ParserCorrect
  imports Parser
begin

text \<open>
  The parser of message specifications from the syntax tree on: which trees it accepts, what it
  makes of them, and which duplicates it overlooks.
\<close>

section \<open>Specifications that the grammar gives\<close>

definition parts :: "char list \<Rightarrow> Ast \<Rightarrow> Ast list" where
  "parts n a = filter (\<lambda>b. ast_original_name b = str n) (ast_nodes a)"

definition natural :: "Ast \<Rightarrow> bool" where
  "natural a \<longleftrightarrow> (\<exists>i\<ge>0. stoi (ast_token a) = Some i) \<and> ast_token a \<noteq> [] \<and> trim (ast_token a) = ast_token a"

definition number :: "Ast \<Rightarrow> int" where
  "number a = the (stoi (ast_token a))"

text \<open>
  A field has one name and at most one identifier, a message declaration one name and one
  identifier; the tokens are names and natural numbers.
\<close>

definition field_ok :: "Ast \<Rightarrow> bool" where
  "field_ok f \<longleftrightarrow> ast_name f \<noteq> str ''MESSAGES_SPECIFICATION'' \<and> ast_name f \<noteq> str ''MESSAGE_DECLARATION'' \<and>
     ast_original_name f = str ''FIELD'' \<and>
     (\<exists>n. parts ''NAME'' f = [n] \<and> ast_token n \<noteq> [] \<and> trim (ast_token n) = ast_token n) \<and>
     length (parts ''IDENTIFIER'' f) \<le> 1 \<and> (\<forall>a\<in>set (parts ''IDENTIFIER'' f). natural a)"

definition declaration_ok :: "Ast \<Rightarrow> bool" where
  "declaration_ok d \<longleftrightarrow> ast_name d = str ''MESSAGE_DECLARATION'' \<and> ast_original_name d \<noteq> str ''FIELD'' \<and>
     (\<exists>n. parts ''MESSAGE_NAME'' d = [n] \<and> trim (ast_token n) \<noteq> []) \<and>
     (\<exists>i. parts ''IDENTIFIER'' d = [i] \<and> natural i) \<and> (\<forall>f\<in>set (parts ''FIELD'' d). field_ok f)"

definition declarations :: "Ast \<Rightarrow> Ast list" where
  "declarations a =
     (if ast_name a = str ''MESSAGES_SPECIFICATION''
      then filter (\<lambda>b. ast_name b = str ''MESSAGE_DECLARATION'') (ast_nodes a) else [a])"

definition specification_ok :: "Ast \<Rightarrow> bool" where
  "specification_ok a \<longleftrightarrow> (\<forall>d\<in>set (declarations a). declaration_ok d) \<and>
     ast_original_name a \<noteq> str ''FIELD'' \<and>
     (ast_name a = str ''MESSAGES_SPECIFICATION'' \<longrightarrow>
        (\<forall>b\<in>set (ast_nodes a). ast_name b \<noteq> str ''MESSAGES_SPECIFICATION'' \<and> ast_original_name b \<noteq> str ''FIELD''))"

definition declaration_name :: "Ast \<Rightarrow> cstring" where
  "declaration_name d = trim (ast_token (hd (parts ''MESSAGE_NAME'' d)))"

definition declaration_number :: "Ast \<Rightarrow> int" where
  "declaration_number d = number (hd (parts ''IDENTIFIER'' d))"

definition field_names :: "Ast \<Rightarrow> cstring list" where
  "field_names d = map (\<lambda>f. ast_token (hd (parts ''NAME'' f))) (parts ''FIELD'' d)"

definition field_numbers :: "Ast \<Rightarrow> int list" where
  "field_numbers d = concat (map (\<lambda>f. map number (parts ''IDENTIFIER'' f)) (parts ''FIELD'' d))"

definition declaration_unique :: "Ast \<Rightarrow> bool" where
  "declaration_unique d \<longleftrightarrow> distinct (field_numbers d) \<and> distinct (field_names d)"

definition specification_unique :: "Ast \<Rightarrow> bool" where
  "specification_unique a \<longleftrightarrow> list_all declaration_unique (declarations a) \<and>
     (ast_name a = str ''MESSAGES_SPECIFICATION'' \<longrightarrow>
        distinct (map declaration_number (declarations a)) \<and> distinct (map declaration_name (declarations a)))"

section \<open>What the check finds\<close>

lemma last_duplicate_distinct: "d \<notin> set xs \<Longrightarrow> last_duplicate d xs = d \<longleftrightarrow> distinct xs"
proof -
  have e: "distinct xs \<Longrightarrow> last_duplicate d xs = d" for d and xs :: "'a list"
    by (induction xs arbitrary: d) auto
  have "\<not> distinct xs \<Longrightarrow> last_duplicate d xs \<in> set xs" for d
  proof (induction xs arbitrary: d)
    case (Cons x xs)
    then show ?case by (cases "distinct xs") (auto simp: e)
  qed simp
  with e show "d \<notin> set xs \<Longrightarrow> last_duplicate d xs = d \<longleftrightarrow> distinct xs" by metis
qed

text \<open>A field adds its name and its identifiers, a declaration its own.\<close>

definition add_fields :: "Ast list \<Rightarrow> check_state \<Rightarrow> check_state" where
  "add_fields fs s = s\<lparr>ck_fieldNames := ck_fieldNames s @ map (\<lambda>f. ast_token (hd (parts ''NAME'' f))) fs,
     ck_fieldIdentifiers := ck_fieldIdentifiers s @ concat (map (\<lambda>f. map number (parts ''IDENTIFIER'' f)) fs)\<rparr>"

lemma find_node_parts: "find_node (str n) (ast_nodes a) = (case parts n a of [] \<Rightarrow> None | b # _ \<Rightarrow> Some b)"
proof -
  have "find P xs = (case filter P xs of [] \<Rightarrow> None | b # _ \<Rightarrow> Some b)" for P and xs :: "Ast list"
    by (induction xs) auto
  then show ?thesis by (simp only: find_node_def parts_def)
qed

lemma check_field_ok:
  assumes "field_ok f"
  shows "check4UniqueFieldNames f s = Some (True, add_fields [f] s)"
proof -
  obtain nm on tk ns where f: "f = Ast nm on tk ns" by (cases f)
  obtain n where n: "parts ''NAME'' f = [n]" using assms by (auto simp: field_ok_def)
  have i: "parts ''IDENTIFIER'' f = [] \<or> (\<exists>a. parts ''IDENTIFIER'' f = [a] \<and> stoi (ast_token a) = Some (number a))"
    using assms by (cases "parts ''IDENTIFIER'' f") (auto simp: field_ok_def natural_def number_def)
  have c: "check_field ns s = Some (add_fields [f] s)"
    using n i find_node_parts [of "''NAME''" f] find_node_parts [of "''IDENTIFIER''" f]
    by (auto simp: check_field_def add_fields_def f)
  show ?thesis
    unfolding f check4UniqueFieldNames.simps using assms c [unfolded f] by (simp add: field_ok_def f)
qed

lemma add_fields_add: "add_fields gs (add_fields fs s) = add_fields (fs @ gs) s"
  by (simp add: add_fields_def)

definition add_parts :: "Ast list \<Rightarrow> check_state \<Rightarrow> check_state" where
  "add_parts ps s = fold (\<lambda>a s.
     if ast_original_name a = str ''MESSAGE_NAME''
     then s\<lparr>ck_prefix := trim (ast_token a), ck_messageNames := ck_messageNames s @ [trim (ast_token a)]\<rparr>
     else if ast_original_name a = str ''IDENTIFIER''
     then s\<lparr>ck_messageIdentifiers := ck_messageIdentifiers s @ [number a]\<rparr>
     else if ast_original_name a = str ''FIELD'' then add_fields [a] s else s) ps s"

lemma check_parts_ok:
  assumes "\<forall>a\<in>set ps. ast_original_name a = str ''FIELD'' \<longrightarrow> field_ok a"
    and "\<forall>a\<in>set ps. ast_original_name a = str ''IDENTIFIER'' \<longrightarrow> natural a"
  shows "check_nodes (\<lambda>node s. check_part check4UniqueFieldNames node s) ps r s = Some (r, add_parts ps s)"
  using assms
proof (induction ps arbitrary: s)
  case (Cons a ps)
  have "check_part check4UniqueFieldNames a s = Some (True, add_parts [a] s)"
    using Cons.prems check_field_ok [of a s]
    by (auto simp: check_part_def add_parts_def natural_def number_def)
  moreover have "add_parts (a # ps) s = add_parts ps (add_parts [a] s)" by (simp add: add_parts_def)
  ultimately show ?case using Cons by simp
qed (simp add: add_parts_def)

lemma add_parts_sel:
  "ck_messageNames (add_parts ps s) = ck_messageNames s @
     map (\<lambda>a. trim (ast_token a)) (filter (\<lambda>b. ast_original_name b = str ''MESSAGE_NAME'') ps)"
  "ck_messageIdentifiers (add_parts ps s) = ck_messageIdentifiers s @
     map number (filter (\<lambda>b. ast_original_name b = str ''IDENTIFIER'') ps)"
  "ck_fieldNames (add_parts ps s) = ck_fieldNames s @
     map (\<lambda>f. ast_token (hd (parts ''NAME'' f))) (filter (\<lambda>b. ast_original_name b = str ''FIELD'') ps)"
  "ck_fieldIdentifiers (add_parts ps s) = ck_fieldIdentifiers s @
     concat (map (\<lambda>f. map number (parts ''IDENTIFIER'' f)) (filter (\<lambda>b. ast_original_name b = str ''FIELD'') ps))"
proof (induction ps arbitrary: s)
  case (Cons a ps)
  have e: "add_parts (a # ps) s = add_parts ps (add_parts [a] s)" by (simp add: add_parts_def)
  {
    case 1 show ?case using Cons.IH(1) [of "add_parts [a] s"] unfolding e by (simp add: add_parts_def add_fields_def)
  next
    case 2 show ?case using Cons.IH(2) [of "add_parts [a] s"] unfolding e by (simp add: add_parts_def add_fields_def)
  next
    case 3 show ?case using Cons.IH(3) [of "add_parts [a] s"] unfolding e by (simp add: add_parts_def add_fields_def)
  next
    case 4 show ?case using Cons.IH(4) [of "add_parts [a] s"] unfolding e by (simp add: add_parts_def add_fields_def)
  }
qed (simp_all add: add_parts_def)

lemma check_fields_unique_ok:
  assumes "- 1 \<notin> set (ck_fieldIdentifiers s)" and "[] \<notin> set (ck_fieldNames s)"
  shows "\<exists>s'. check_fields_unique True s =
      (distinct (ck_fieldIdentifiers s) \<and> distinct (ck_fieldNames s), s') \<and>
    ck_messageNames s' = ck_messageNames s \<and> ck_messageIdentifiers s' = ck_messageIdentifiers s"
  using last_duplicate_distinct [of "- 1" "sort (ck_fieldIdentifiers s)"]
    last_duplicate_distinct [of "[]" "sort (ck_fieldNames s)"] assms
  by (auto simp: check_fields_unique_def)

lemma check_messages_unique_ok:
  assumes "- 1 \<notin> set (ck_messageIdentifiers s)" and "[] \<notin> set (ck_messageNames s)"
  shows "fst (check_messages_unique r s) \<longleftrightarrow>
    r \<and> distinct (ck_messageIdentifiers s) \<and> distinct (ck_messageNames s)"
  using last_duplicate_distinct [of "- 1" "sort (ck_messageIdentifiers s)"]
    last_duplicate_distinct [of "[]" "sort (ck_messageNames s)"] assms
  by (auto simp: check_messages_unique_def)

lemma natural_number: "natural a \<Longrightarrow> stoi (ast_token a) = Some (number a) \<and> 0 \<le> number a"
  by (auto simp: natural_def number_def)

lemma check_declaration_ok:
  assumes "declaration_ok d"
  shows "\<exists>s'. check4UniqueFieldNames d s = Some (declaration_unique d, s') \<and>
    ck_messageNames s' = ck_messageNames s @ [declaration_name d] \<and>
    ck_messageIdentifiers s' = ck_messageIdentifiers s @ [declaration_number d]"
proof -
  obtain nm on tk ns where d: "d = Ast nm on tk ns" by (cases d)
  let ?s = "s\<lparr>ck_fieldNames := [], ck_fieldIdentifiers := [], ck_prefix := []\<rparr>"
  let ?p = "add_parts ns ?s"
  have f: "\<forall>f\<in>set (parts ''FIELD'' d). field_ok f" using assms by (simp add: declaration_ok_def)
  obtain n i where n: "parts ''MESSAGE_NAME'' d = [n]" and i: "parts ''IDENTIFIER'' d = [i]" "natural i"
    using assms by (auto simp: declaration_ok_def)
  have "check_nodes (\<lambda>node s. check_part check4UniqueFieldNames node s) ns True ?s = Some (True, ?p)"
  proof (rule check_parts_ok)
    show "\<forall>a\<in>set ns. ast_original_name a = str ''FIELD'' \<longrightarrow> field_ok a" using f by (auto simp: parts_def d)
    have "\<forall>a\<in>set (parts ''IDENTIFIER'' d). natural a" using i by simp
    then show "\<forall>a\<in>set ns. ast_original_name a = str ''IDENTIFIER'' \<longrightarrow> natural a"
      by (auto simp: parts_def d)
  qed
  then have c: "check4UniqueFieldNames d s = Some (check_fields_unique True ?p)"
    unfolding d check4UniqueFieldNames.simps using assms by (simp add: declaration_ok_def d split_beta)
  have p: "ck_fieldIdentifiers ?p = field_numbers d" "ck_fieldNames ?p = field_names d"
    "ck_messageNames ?p = ck_messageNames s @ [declaration_name d]"
    "ck_messageIdentifiers ?p = ck_messageIdentifiers s @ [declaration_number d]"
    using n i(1) unfolding add_parts_sel parts_def
    by (simp_all add: d field_numbers_def field_names_def parts_def declaration_name_def declaration_number_def)
  have "\<forall>j\<in>set (field_numbers d). 0 \<le> j"
    using f natural_number by (fastforce simp: field_numbers_def field_ok_def)
  then have "- 1 \<notin> set (field_numbers d)" by auto
  moreover have "[] \<notin> set (field_names d)"
    using f by (auto simp: field_names_def field_ok_def)
  ultimately show ?thesis
    using check_fields_unique_ok [of ?p] by (auto simp: c p declaration_unique_def)
qed

lemma check_other: "ast_name a \<noteq> str ''MESSAGES_SPECIFICATION'' \<Longrightarrow> ast_name a \<noteq> str ''MESSAGE_DECLARATION'' \<Longrightarrow>
    ast_original_name a \<noteq> str ''FIELD'' \<Longrightarrow> check4UniqueFieldNames a s = Some (True, s)"
  by (cases a) (simp add: check4UniqueFieldNames.simps)

lemma check_nodes_ok:
  assumes "\<forall>b\<in>set bs. ast_name b \<noteq> str ''MESSAGES_SPECIFICATION'' \<and> ast_original_name b \<noteq> str ''FIELD''"
    and "\<forall>d\<in>set bs. ast_name d = str ''MESSAGE_DECLARATION'' \<longrightarrow> declaration_ok d"
  shows "\<exists>s'. check_nodes (\<lambda>node s. check4UniqueFieldNames node s) bs r s =
      Some (r \<and> list_all declaration_unique (filter (\<lambda>b. ast_name b = str ''MESSAGE_DECLARATION'') bs), s') \<and>
    ck_messageNames s' = ck_messageNames s @
      map declaration_name (filter (\<lambda>b. ast_name b = str ''MESSAGE_DECLARATION'') bs) \<and>
    ck_messageIdentifiers s' = ck_messageIdentifiers s @
      map declaration_number (filter (\<lambda>b. ast_name b = str ''MESSAGE_DECLARATION'') bs)"
  using assms
proof (induction bs arbitrary: r s)
  case (Cons b bs)
  show ?case
  proof (cases "ast_name b = str ''MESSAGE_DECLARATION''")
    case True
    then have "declaration_ok b" using Cons.prems(2) by simp
    from check_declaration_ok [OF this, of s] obtain s1 where
      1: "check4UniqueFieldNames b s = Some (declaration_unique b, s1)"
      "ck_messageNames s1 = ck_messageNames s @ [declaration_name b]"
      "ck_messageIdentifiers s1 = ck_messageIdentifiers s @ [declaration_number b]" by blast
    show ?thesis using Cons.IH [of "r \<and> declaration_unique b" s1] Cons.prems True 1 by auto
  next
    case False
    have "check4UniqueFieldNames b s = Some (True, s)" using Cons.prems(1) False by (intro check_other) simp_all
    then show ?thesis using Cons.IH [of r s] Cons.prems False by simp
  qed
qed simp

lemma check_specification_ok:
  assumes "specification_ok a"
  shows "\<exists>s'. check4UniqueFieldNames a check_state_new = Some (specification_unique a, s')"
proof (cases "ast_name a = str ''MESSAGES_SPECIFICATION''")
  case True
  obtain nm on tk ns where a: "a = Ast nm on tk ns" by (cases a)
  let ?ds = "filter (\<lambda>b. ast_name b = str ''MESSAGE_DECLARATION'') ns"
  have ds: "declarations a = ?ds" using True by (simp add: declarations_def a)
  have ok: "declaration_ok d" if "d \<in> set ?ds" for d using assms that ds by (simp add: specification_ok_def)
  have 1: "\<forall>b\<in>set ns. ast_name b \<noteq> str ''MESSAGES_SPECIFICATION'' \<and> ast_original_name b \<noteq> str ''FIELD''"
    using assms True unfolding specification_ok_def a Ast.sel by blast
  have 2: "\<forall>d\<in>set ns. ast_name d = str ''MESSAGE_DECLARATION'' \<longrightarrow> declaration_ok d" using ok by simp
  obtain s' where
    c: "check_nodes (\<lambda>node s. check4UniqueFieldNames node s) ns True check_state_new =
        Some (True \<and> list_all declaration_unique ?ds, s')"
      "ck_messageNames s' = ck_messageNames check_state_new @ map declaration_name ?ds"
      "ck_messageIdentifiers s' = ck_messageIdentifiers check_state_new @ map declaration_number ?ds"
    using check_nodes_ok [OF 1 2, of True check_state_new] by (elim exE conjE) (rule that)
  have "ck_messageNames check_state_new = []" "ck_messageIdentifiers check_state_new = []"
    by (simp_all add: check_state_new_def)
  with c have s': "check_nodes (\<lambda>node s. check4UniqueFieldNames node s) ns True check_state_new =
        Some (list_all declaration_unique ?ds, s')"
      "ck_messageNames s' = map declaration_name ?ds" "ck_messageIdentifiers s' = map declaration_number ?ds"
    by (simp_all only: simp_thms append_Nil)
  have m: "- 1 \<notin> declaration_number ` D \<and> [] \<notin> declaration_name ` D" if "\<forall>d\<in>D. declaration_ok d" for D
  proof -
    have "- 1 \<noteq> declaration_number d \<and> declaration_name d \<noteq> []" if "declaration_ok d" for d
    proof -
      obtain i n where "parts ''IDENTIFIER'' d = [i]" "natural i" "parts ''MESSAGE_NAME'' d = [n]" "trim (ast_token n) \<noteq> []"
        using \<open>declaration_ok d\<close> unfolding declaration_ok_def by blast
      then show ?thesis using natural_number [of i] by (simp add: declaration_number_def declaration_name_def)
    qed
    then show ?thesis using that by fastforce
  qed
  have "- 1 \<notin> set (ck_messageIdentifiers s')" "[] \<notin> set (ck_messageNames s')"
    unfolding s'(2,3) set_map by (rule conjunct1 [OF m] conjunct2 [OF m], rule ballI, erule ok)+
  note u = check_messages_unique_ok [OF this]
  have "check4UniqueFieldNames a check_state_new = Some (check_messages_unique (list_all declaration_unique ?ds) s')"
    unfolding a check4UniqueFieldNames.simps
    using s'(1) assms True unfolding a specification_ok_def by simp
  moreover have "fst (check_messages_unique (list_all declaration_unique ?ds) s') \<longleftrightarrow> specification_unique a"
    unfolding u specification_unique_def ds s'(2,3) using True by simp
  ultimately show ?thesis
    by (intro exI [of _ "snd (check_messages_unique (list_all declaration_unique ?ds) s')"]) (simp only: prod_eq_iff option.inject prod.sel)
next
  case False
  then have "declaration_ok a" using assms by (simp add: specification_ok_def declarations_def)
  then show ?thesis
    using check_declaration_ok [of a check_state_new] False
    unfolding specification_unique_def declarations_def by auto
qed

section \<open>What the translation gives\<close>

abbreviation tokens_of :: "char list \<Rightarrow> Ast list \<Rightarrow> cstring list" where
  "tokens_of n nodes \<equiv> map ast_token (filter (\<lambda>b. ast_original_name b = str n) nodes)"

lemma field_parts_fold:
  "fp_fieldName (fold field_part ns p) = last (fp_fieldName p # tokens_of ''NAME'' ns)"
  "fp_fieldIdentifier (fold field_part ns p) = last (fp_fieldIdentifier p # tokens_of ''IDENTIFIER'' ns)"
proof (induction ns arbitrary: p)
  case (Cons b ns)
  have "fp_fieldName (field_part b p) = (if ast_original_name b = str ''NAME'' then ast_token b else fp_fieldName p)"
    and "fp_fieldIdentifier (field_part b p) = (if ast_original_name b = str ''IDENTIFIER'' then ast_token b else fp_fieldIdentifier p)"
    for p by (simp_all add: field_part_def)
  note f = this
  {
    case 1 show ?case using Cons.IH(1) [of "field_part b p"] by (simp add: f)
  next
    case 2 show ?case using Cons.IH(2) [of "field_part b p"] by (simp add: f)
  }
qed simp_all

lemma createMetaField_ok:
  assumes "field_ok f"
  shows "\<exists>mf c'. createMetaField f c = Some (mf, c') \<and> mf_fieldName mf = ast_token (hd (parts ''NAME'' f)) \<and>
    (parts ''IDENTIFIER'' f \<noteq> [] \<longrightarrow> mf_fieldIdentifier mf = of_int (number (hd (parts ''IDENTIFIER'' f))) \<and> c' = c) \<and>
    (parts ''IDENTIFIER'' f = [] \<longrightarrow> mf_fieldIdentifier mf = c + 1 \<and> c' = c + 1)"
proof -
  obtain n where n: "parts ''NAME'' f = [n]" "trim (ast_token n) = ast_token n"
    using assms unfolding field_ok_def by blast
  have name: "fp_fieldName (field_parts_of f) = ast_token n"
    using n(1) by (simp add: field_parts_of_def field_parts_fold parts_def)
  consider "parts ''IDENTIFIER'' f = []" | a where "parts ''IDENTIFIER'' f = [a]" "natural a"
    using assms unfolding field_ok_def by (cases "parts ''IDENTIFIER'' f") auto
  then show ?thesis
  proof cases
    case 1
    then have "fp_fieldIdentifier (field_parts_of f) = []"
      by (simp add: field_parts_of_def field_parts_fold parts_def)
    then show ?thesis using 1 n name by (simp add: createMetaField_def Let_def)
  next
    case (2 a)
    then have "fp_fieldIdentifier (field_parts_of f) = ast_token a"
      by (simp add: field_parts_of_def field_parts_fold parts_def)
    moreover have "ast_token a \<noteq> []" "trim (ast_token a) = ast_token a" using 2(2) by (simp_all add: natural_def)
    ultimately show ?thesis
      using 2(1) n name natural_number [OF 2(2)] by (simp add: createMetaField_def Let_def)
  qed
qed

definition describes_declaration :: "MetaMessage \<Rightarrow> Ast \<Rightarrow> bool" where
  "describes_declaration mm d \<longleftrightarrow> mm_messageName mm = declaration_name d \<and>
     mm_messageIdentifier mm = of_int (declaration_number d) \<and>
     map mf_fieldName (mm_listOfMetaFields mm) = field_names d \<and>
     ((\<forall>f\<in>set (parts ''FIELD'' d). parts ''IDENTIFIER'' f \<noteq> []) \<longrightarrow>
        map mf_fieldIdentifier (mm_listOfMetaFields mm) = map of_int (field_numbers d))"

lemma createMetaMessage_nodes_ok:
  assumes "\<forall>a\<in>set ps. ast_original_name a = str ''FIELD'' \<longrightarrow> field_ok a"
    and "\<forall>a\<in>set ps. ast_original_name a = str ''IDENTIFIER'' \<longrightarrow> natural a"
  shows "\<exists>mm'. createMetaMessage_nodes ps mm c = Some mm' \<and>
    mm_messageName mm' = last (mm_messageName mm # map trim (tokens_of ''MESSAGE_NAME'' ps)) \<and>
    mm_messageIdentifier mm' = last (mm_messageIdentifier mm #
      map (\<lambda>a. of_int (number a)) (filter (\<lambda>b. ast_original_name b = str ''IDENTIFIER'') ps)) \<and>
    map mf_fieldName (mm_listOfMetaFields mm') = map mf_fieldName (mm_listOfMetaFields mm) @
      map (\<lambda>f. ast_token (hd (parts ''NAME'' f))) (filter (\<lambda>b. ast_original_name b = str ''FIELD'') ps) \<and>
    ((\<forall>f\<in>set (filter (\<lambda>b. ast_original_name b = str ''FIELD'') ps). parts ''IDENTIFIER'' f \<noteq> []) \<longrightarrow>
       map mf_fieldIdentifier (mm_listOfMetaFields mm') = map mf_fieldIdentifier (mm_listOfMetaFields mm) @
         map (\<lambda>f. of_int (number (hd (parts ''IDENTIFIER'' f))))
           (filter (\<lambda>b. ast_original_name b = str ''FIELD'') ps))"
  using assms
proof (induction ps arbitrary: mm c)
  case (Cons a ps)
  have ps: "\<forall>a\<in>set ps. ast_original_name a = str ''FIELD'' \<longrightarrow> field_ok a"
    "\<forall>a\<in>set ps. ast_original_name a = str ''IDENTIFIER'' \<longrightarrow> natural a" using Cons.prems by simp_all
  note IH = Cons.IH [OF ps]
  consider (name) "ast_original_name a = str ''MESSAGE_NAME''" | (id) "ast_original_name a = str ''IDENTIFIER''"
    | (field) "ast_original_name a = str ''FIELD''"
    | (other) "ast_original_name a \<notin> {str ''MESSAGE_NAME'', str ''IDENTIFIER'', str ''FIELD''}" by blast
  then show ?case
  proof cases
    case name
    then show ?thesis using IH [of "mm\<lparr>mm_messageName := trim (ast_token a)\<rparr>" c] by simp
  next
    case id
    then have "stoi (ast_token a) = Some (number a)" using Cons.prems(2) natural_number [of a] by simp
    then show ?thesis using id IH [of "mm\<lparr>mm_messageIdentifier := of_int (number a)\<rparr>" c] by simp
  next
    case field
    then have "field_ok a" using Cons.prems(1) by simp
    from createMetaField_ok [OF this, of c] obtain mf c' where
      "createMetaField a c = Some (mf, c')" "mf_fieldName mf = ast_token (hd (parts ''NAME'' a))"
      "parts ''IDENTIFIER'' a \<noteq> [] \<longrightarrow> mf_fieldIdentifier mf = of_int (number (hd (parts ''IDENTIFIER'' a)))"
      by blast
    then show ?thesis using field IH [of "mm_add mf mm" c'] by (auto simp: mm_add_def)
  next
    case other
    then show ?thesis using IH [of mm c] by simp
  qed
qed simp

lemma createMetaMessage_ok:
  assumes "declaration_ok d"
  shows "\<exists>mm. createMetaMessage pkg d = Some mm \<and> describes_declaration mm d"
proof -
  have f: "\<forall>a\<in>set (ast_nodes d). ast_original_name a = str ''FIELD'' \<longrightarrow> field_ok a"
    using assms by (simp add: declaration_ok_def parts_def)
  obtain n i where ni: "parts ''MESSAGE_NAME'' d = [n]" "parts ''IDENTIFIER'' d = [i]" "natural i"
    using assms unfolding declaration_ok_def by blast
  then have "\<forall>a\<in>set (parts ''IDENTIFIER'' d). natural a" by simp
  then have "\<forall>a\<in>set (ast_nodes d). ast_original_name a = str ''IDENTIFIER'' \<longrightarrow> natural a"
    by (simp add: parts_def)
  from createMetaMessage_nodes_ok [OF f this, of "MetaMessage_new\<lparr>mm_packageName := trim pkg\<rparr>" 0]
  obtain mm where mm: "createMetaMessage pkg d = Some mm"
    "mm_messageName mm = last ([] # map trim (tokens_of ''MESSAGE_NAME'' (ast_nodes d)))"
    "mm_messageIdentifier mm = last (0 # map (\<lambda>a. of_int (number a)) (parts ''IDENTIFIER'' d))"
    "map mf_fieldName (mm_listOfMetaFields mm) = field_names d"
    "(\<forall>f\<in>set (parts ''FIELD'' d). parts ''IDENTIFIER'' f \<noteq> []) \<longrightarrow>
       map mf_fieldIdentifier (mm_listOfMetaFields mm) =
         map (\<lambda>f. of_int (number (hd (parts ''IDENTIFIER'' f)))) (parts ''FIELD'' d)"
    unfolding createMetaMessage_def field_names_def parts_def by (auto simp: MetaMessage_new_def)
  have "concat (map (\<lambda>f. map number (parts ''IDENTIFIER'' f)) fs) = map (\<lambda>f. number (hd (parts ''IDENTIFIER'' f))) fs"
    if "\<forall>f\<in>set fs. field_ok f \<and> parts ''IDENTIFIER'' f \<noteq> []" for fs
    using that
  proof (induction fs)
    case (Cons g fs)
    then show ?case by (cases "parts ''IDENTIFIER'' g") (auto simp: field_ok_def)
  qed simp
  from this [of "parts ''FIELD'' d"]
  have e: "(\<forall>f\<in>set (parts ''FIELD'' d). parts ''IDENTIFIER'' f \<noteq> []) \<longrightarrow>
      map (of_int :: int \<Rightarrow> uint32) (field_numbers d) = map (\<lambda>f. of_int (number (hd (parts ''IDENTIFIER'' f)))) (parts ''FIELD'' d)"
    using assms by (simp add: field_numbers_def declaration_ok_def)
  have "mm_messageName mm = declaration_name d" "mm_messageIdentifier mm = of_int (declaration_number d)"
    using mm(2,3) ni by (simp_all add: declaration_name_def declaration_number_def parts_def)
  then show ?thesis
    using mm(1,4,5) e unfolding describes_declaration_def by metis
qed

lemma all_some_ok:
  "\<forall>d\<in>set ds. \<exists>x. f d = Some x \<and> R x d \<Longrightarrow> \<exists>xs. all_some (map f ds) = Some xs \<and> list_all2 R xs ds"
  by (induction ds) force+

lemma transform_ok:
  assumes "specification_ok a"
  shows "\<exists>mms. transform2MetaMessages a = Some mms \<and> list_all2 describes_declaration mms (declarations a)"
proof (cases "ast_name a = str ''MESSAGES_SPECIFICATION''")
  case True
  have "\<forall>d\<in>set (declarations a). declaration_ok d" using assms unfolding specification_ok_def by blast
  then have "\<exists>xs. all_some (map (createMetaMessage pkg) (declarations a)) = Some xs \<and>
      list_all2 describes_declaration xs (declarations a)" for pkg
    by (intro all_some_ok) (blast intro: createMetaMessage_ok)
  then show ?thesis using True unfolding transform2MetaMessages_def Let_def declarations_def by simp
next
  case False
  then have "declarations a = [a]" by (simp add: declarations_def)
  moreover have "declaration_ok a" using assms calculation by (simp add: specification_ok_def)
  ultimately show ?thesis
    using createMetaMessage_ok [of a "[]"] False by (auto simp: transform2MetaMessages_def)
qed

text \<open>
  C24: For a syntax tree that follows the grammar the parser succeeds exactly if no message
  identifier, message name, field name or written field identifier occurs twice, and then gives a
  description for every declaration, in order.
\<close>

theorem parser_accepts:
  assumes "specification_ok a"
  shows "\<exists>mms. parse_ast (Some a) =
      Some (if specification_unique a then (mms, NO_MESSAGEPARSER_ERROR) else ([], DUPLICATE_IDENTIFIERS)) \<and>
    list_all2 describes_declaration mms (declarations a)"
  using check_specification_ok [OF assms] transform_ok [OF assms] by (auto simp: parse_ast_def)

section \<open>Sample syntax trees\<close>

definition identifier_node :: "char list \<Rightarrow> Ast" where
  "identifier_node i = Ast (str ''NATURAL_NUMBER'') (str ''IDENTIFIER'') (str i) []"

definition field_node :: "char list \<Rightarrow> char list \<Rightarrow> char list list \<Rightarrow> Ast" where
  "field_node t n is = Ast (str ''FIELD'') (str ''FIELD'') []
     (Ast (str ''PRIMITIVE_TYPE'') (str ''PRIMITIVE_TYPE'') (str t) [] #
      Ast (str ''NAME'') (str ''NAME'') (str n) [] # map identifier_node is)"

definition declaration_node :: "char list \<Rightarrow> char list \<Rightarrow> Ast list \<Rightarrow> Ast" where
  "declaration_node n i fs = Ast (str ''MESSAGE_DECLARATION'') (str ''MESSAGE_DECLARATION'') []
     (Ast (str ''MESSAGE_NAME'') (str ''MESSAGE_NAME'') (str n) [] # identifier_node i # fs)"

definition specification_node :: "Ast list \<Rightarrow> Ast" where
  "specification_node ds = Ast (str ''MESSAGES_SPECIFICATION'') (str ''MESSAGES_SPECIFICATION'') [] ds"

definition sample_spec :: Ast where
  "sample_spec = specification_node
     [declaration_node ''A'' ''1'' [field_node ''int32'' ''x'' [''1''], field_node ''B'' ''b'' [''2'']],
      declaration_node ''B'' ''2'' [field_node ''char'' ''c'' [''1'']]]"

lemma sample_naturals: "natural (identifier_node ''1'')" "natural (identifier_node ''2'')"
  by (simp_all add: natural_def identifier_node_def stoi_def is_space_def is_digit_def trim_def ltrim_def rtrim_def is_blank_def)

lemma field_node_ok:
  "list_all natural (map identifier_node is) \<Longrightarrow> length is \<le> 1 \<Longrightarrow> str n \<noteq> [] \<Longrightarrow> trim (str n) = str n \<Longrightarrow>
    field_ok (field_node t n is)"
proof -
  have "filter (\<lambda>b. ast_original_name b = str ''NAME'') (map identifier_node xs) = []"
    "filter (\<lambda>b. ast_original_name b = str ''IDENTIFIER'') (map identifier_node xs) = map identifier_node xs" for xs
    by (induction xs) (simp_all add: identifier_node_def)
  then show "list_all natural (map identifier_node is) \<Longrightarrow> length is \<le> 1 \<Longrightarrow> str n \<noteq> [] \<Longrightarrow> trim (str n) = str n \<Longrightarrow>
      field_ok (field_node t n is)"
    by (auto simp: field_ok_def field_node_def parts_def list_all_iff)
qed

lemma declaration_node_ok:
  assumes "natural (identifier_node i)" and "trim (str n) \<noteq> []" and "\<forall>f\<in>set fs. field_ok f"
  shows "declaration_ok (declaration_node n i fs)"
proof -
  have "\<forall>f\<in>set fs. ast_original_name f = str ''FIELD''" using assms(3) unfolding field_ok_def by blast
  then have "filter (\<lambda>b. ast_original_name b = str ''MESSAGE_NAME'') fs = []"
    "filter (\<lambda>b. ast_original_name b = str ''IDENTIFIER'') fs = []"
    by (auto simp: filter_empty_conv)
  then show ?thesis using assms by (auto simp: declaration_ok_def declaration_node_def parts_def identifier_node_def)
qed

lemma specification_node_ok:
  assumes "\<forall>d\<in>set ds. declaration_ok d"
  shows "specification_ok (specification_node ds)" and "declarations (specification_node ds) = ds"
proof -
  have "\<forall>d\<in>set ds. ast_original_name d \<noteq> str ''FIELD'' \<and> ast_name d = str ''MESSAGE_DECLARATION''"
    using assms unfolding declaration_ok_def by blast
  then show "specification_ok (specification_node ds)" and "declarations (specification_node ds) = ds"
    using assms by (simp_all add: specification_ok_def specification_node_def declarations_def filter_id_conv)
qed

lemmas sample_trees = sample_naturals trim_def ltrim_def rtrim_def is_blank_def

lemma sample_spec_ok: "specification_ok sample_spec"
  unfolding sample_spec_def
  by (rule specification_node_ok) (auto intro!: declaration_node_ok field_node_ok simp: sample_trees)

theorem parser_accepts_witness:
  "\<exists>mms. parse_ast (Some sample_spec) =
      Some (if specification_unique sample_spec then (mms, NO_MESSAGEPARSER_ERROR) else ([], DUPLICATE_IDENTIFIERS)) \<and>
    list_all2 describes_declaration mms (declarations sample_spec)"
  by (rule parser_accepts [OF sample_spec_ok])

section \<open>Identifiers given by counting\<close>

text \<open>The identifiers of fields: those written, and for the others their position among the fields without one.\<close>

fun counted :: "int \<Rightarrow> Ast list \<Rightarrow> int list" where
  "counted k [] = []"
| "counted k (f # fs) =
     (case parts ''IDENTIFIER'' f of
        [] \<Rightarrow> (k + 1) # counted (k + 1) fs
      | i # _ \<Rightarrow> number i # counted k fs)"

definition written :: "Ast list \<Rightarrow> int list" where
  "written fs = concat (map (\<lambda>f. map number (parts ''IDENTIFIER'' f)) fs)"

definition unwritten :: "Ast list \<Rightarrow> int" where
  "unwritten fs = int (length (filter (\<lambda>f. parts ''IDENTIFIER'' f = []) fs))"

lemma written_Cons:
  assumes "field_ok f"
  shows "written (f # fs) = (case parts ''IDENTIFIER'' f of [] \<Rightarrow> written fs | i # _ \<Rightarrow> number i # written fs)"
  using assms by (cases "parts ''IDENTIFIER'' f") (simp_all add: written_def field_ok_def)

lemma unwritten_Cons: "unwritten (f # fs) = (if parts ''IDENTIFIER'' f = [] then unwritten fs + 1 else unwritten fs)"
  by (simp add: unwritten_def)

lemma unwritten_nonneg: "0 \<le> unwritten fs" by (simp add: unwritten_def)

lemma set_counted:
  "\<forall>f\<in>set fs. field_ok f \<Longrightarrow> set (counted k fs) = set (written fs) \<union> {k + 1..k + unwritten fs}"
proof (induction fs arbitrary: k)
  case (Cons f fs)
  have "insert (k + 1) {k + 2..k + (unwritten fs + 1)} = {k + 1..k + (unwritten fs + 1)}"
    using unwritten_nonneg [of fs] by auto
  then show ?case
    using Cons.IH [of "k + 1"] Cons.IH [of k] Cons.prems
    by (cases "parts ''IDENTIFIER'' f") (auto simp: written_Cons unwritten_Cons add.assoc)
qed (simp add: written_def unwritten_def)

lemma distinct_counted:
  "\<forall>f\<in>set fs. field_ok f \<Longrightarrow>
    distinct (counted k fs) \<longleftrightarrow> distinct (written fs) \<and> (\<forall>i\<in>set (written fs). \<not> (k + 1 \<le> i \<and> i \<le> k + unwritten fs))"
proof (induction fs arbitrary: k)
  case (Cons f fs)
  then have ok: "\<forall>f\<in>set fs. field_ok f" "field_ok f" by simp_all
  show ?case
  proof (cases "parts ''IDENTIFIER'' f")
    case Nil
    have "k + 1 \<le> i \<and> i \<le> k + unwritten fs + 1 \<longleftrightarrow> i = k + 1 \<or> k + 2 \<le> i \<and> i \<le> k + unwritten fs + 1" for i
      using unwritten_nonneg [of fs] by auto
    then show ?thesis using Nil Cons.IH [OF ok(1), of "k + 1"] set_counted [OF ok(1), of "k + 1"]
      by (auto simp: written_Cons [OF ok(2)] unwritten_Cons algebra_simps)
  next
    case (Cons i js)
    then show ?thesis using Cons.IH [OF ok(1), of k] set_counted [OF ok(1), of k]
      by (auto simp: written_Cons [OF ok(2)] unwritten_Cons)
  qed
qed (simp add: written_def)

lemma createMetaMessage_nodes_counted:
  assumes "\<forall>a\<in>set ps. ast_original_name a = str ''FIELD'' \<longrightarrow> field_ok a"
    and "createMetaMessage_nodes ps mm (of_int k) = Some mm'"
  shows "map mf_fieldIdentifier (mm_listOfMetaFields mm') =
    map mf_fieldIdentifier (mm_listOfMetaFields mm) @
      map of_int (counted k (filter (\<lambda>b. ast_original_name b = str ''FIELD'') ps))"
  using assms
proof (induction ps arbitrary: mm k)
  case (Cons a ps)
  show ?case
  proof (cases "ast_original_name a = str ''FIELD''")
    case True
    then have "field_ok a" using Cons.prems(1) by simp
    from createMetaField_ok [OF this, of "of_int k"] obtain mf c' where
      mf: "createMetaField a (of_int k) = Some (mf, c')"
      "parts ''IDENTIFIER'' a \<noteq> [] \<longrightarrow> mf_fieldIdentifier mf = of_int (number (hd (parts ''IDENTIFIER'' a))) \<and> c' = of_int k"
      "parts ''IDENTIFIER'' a = [] \<longrightarrow> mf_fieldIdentifier mf = of_int (k + 1) \<and> c' = of_int (k + 1)" by auto
    show ?thesis
    proof (cases "parts ''IDENTIFIER'' a")
      case Nil
      then show ?thesis using Cons.IH [of "mm_add mf mm" "k + 1"] Cons.prems True mf by (simp add: mm_add_def)
    next
      case (Cons i js)
      then show ?thesis using Cons.IH [of "mm_add mf mm" k] Cons.prems True mf by (simp add: mm_add_def)
    qed
  next
    case False
    then show ?thesis using Cons.IH Cons.prems by (auto split: if_splits option.splits)
  qed
qed simp

lemma number_int32: "natural a \<Longrightarrow> 0 \<le> number a \<and> number a < 2 ^ 31"
  by (auto simp: natural_def number_def stoi_def Let_def split: if_splits)

definition field_identifiers :: "MetaMessage \<Rightarrow> uint32 list" where
  "field_identifiers mm = map mf_fieldIdentifier (mm_listOfMetaFields mm)"

definition counts_fields :: "MetaMessage \<Rightarrow> Ast \<Rightarrow> bool" where
  "counts_fields mm d \<longleftrightarrow> field_identifiers mm = map of_int (counted 0 (parts ''FIELD'' d))"

lemma createMetaMessage_counted:
  assumes "declaration_ok d" and "createMetaMessage pkg d = Some mm"
  shows "counts_fields mm d"
proof -
  have "\<forall>a\<in>set (ast_nodes d). ast_original_name a = str ''FIELD'' \<longrightarrow> field_ok a"
    using assms(1) by (simp add: declaration_ok_def parts_def)
  from createMetaMessage_nodes_counted [OF this, of _ 0] show ?thesis
    using assms(2) by (auto simp: createMetaMessage_def counts_fields_def field_identifiers_def parts_def MetaMessage_new_def)
qed

lemma transform_counted:
  assumes "specification_ok a"
  shows "\<exists>mms. transform2MetaMessages a = Some mms \<and> list_all2 counts_fields mms (declarations a)"
proof -
  have ok: "\<forall>d\<in>set (declarations a). declaration_ok d" using assms unfolding specification_ok_def by blast
  have "\<forall>d\<in>set (declarations a). \<exists>x. createMetaMessage pkg d = Some x \<and> counts_fields x d" for pkg
    using ok createMetaMessage_ok createMetaMessage_counted by blast
  from all_some_ok [OF this] show ?thesis
    using ok createMetaMessage_ok [of a "[]"] createMetaMessage_counted [of a "[]"]
    by (cases "ast_name a = str ''MESSAGES_SPECIFICATION''")
      (auto simp: transform2MetaMessages_def declarations_def Let_def)
qed

lemma counts_fields_distinct:
  assumes "counts_fields mm d" and "declaration_ok d" and "declaration_unique d" and "length (parts ''FIELD'' d) < 2 ^ 32"
  shows "distinct (field_identifiers mm) \<longleftrightarrow> (\<forall>i\<in>set (field_numbers d). \<not> (1 \<le> i \<and> i \<le> unwritten (parts ''FIELD'' d)))"
proof -
  let ?fs = "parts ''FIELD'' d"
  have f: "\<forall>f\<in>set ?fs. field_ok f" using assms(2) unfolding declaration_ok_def by blast
  have "unwritten ?fs < 2 ^ 32"
    using le_less_trans [OF length_filter_le assms(4)] by (simp add: unwritten_def)
  moreover have "0 \<le> i \<and> i < 2 ^ 31" if "i \<in> set (written ?fs)" for i
    using that f number_int32 by (fastforce simp: written_def field_ok_def)
  ultimately have "\<forall>i\<in>set (counted 0 ?fs). 0 \<le> i \<and> i < 2 ^ 32" unfolding set_counted [OF f] by fastforce
  then have "inj_on (of_int :: int \<Rightarrow> uint32) (set (counted 0 ?fs))"
    by (intro inj_onI) (drule arg_cong [where f = uint], simp add: unsigned_of_int take_bit_int_eq_self)
  then show ?thesis
    using assms(1,3) distinct_counted [OF f, of 0]
    by (simp add: counts_fields_def distinct_map declaration_unique_def field_numbers_def written_def)
qed

text \<open>
  C40: An accepted specification gives every field without an identifier its position among the fields without
  one. The check for duplicates does not look at these: the fields of a message get different identifiers
  exactly if no identifier that is written lies between one and the number of fields without one.
\<close>

theorem parser_identifiers_collide:
  assumes "specification_ok a" and "specification_unique a" and "\<forall>d\<in>set (declarations a). length (parts ''FIELD'' d) < 2 ^ 32"
  shows "\<exists>mms. parse_ast (Some a) = Some (mms, NO_MESSAGEPARSER_ERROR) \<and>
    list_all2 (\<lambda>mm d. field_identifiers mm = map of_int (counted 0 (parts ''FIELD'' d)) \<and>
      (distinct (field_identifiers mm) \<longleftrightarrow>
        (\<forall>i\<in>set (field_numbers d). \<not> (1 \<le> i \<and> i \<le> unwritten (parts ''FIELD'' d))))) mms (declarations a)"
proof -
  obtain mms where mms: "transform2MetaMessages a = Some mms" "list_all2 counts_fields mms (declarations a)"
    using transform_counted [OF assms(1)] by blast
  have "declaration_ok d \<and> declaration_unique d" if "d \<in> set (declarations a)" for d
    using assms(1,2) that unfolding specification_ok_def specification_unique_def list_all_iff by blast
  then have "list_all2 (\<lambda>mm d. field_identifiers mm = map of_int (counted 0 (parts ''FIELD'' d)) \<and>
      (distinct (field_identifiers mm) \<longleftrightarrow>
        (\<forall>i\<in>set (field_numbers d). \<not> (1 \<le> i \<and> i \<le> unwritten (parts ''FIELD'' d))))) mms (declarations a)"
    using counts_fields_distinct assms(3) by (intro list.rel_mono_strong [OF mms(2)]) (simp add: counts_fields_def)
  then show ?thesis using check_specification_ok [OF assms(1)] assms(2) mms(1) by (auto simp: parse_ast_def)
qed

text \<open>Two messages of which the second one has two fields with the identifier 1.\<close>

definition counted_spec :: Ast where
  "counted_spec = specification_node
     [declaration_node ''A'' ''1'' [field_node ''int32'' ''x'' [''2''], field_node ''int32'' ''y'' []],
      declaration_node ''B'' ''2'' [field_node ''int32'' ''x'' [''1''], field_node ''int32'' ''y'' []]]"

lemma counted_spec_ok: "specification_ok counted_spec"
  unfolding counted_spec_def
  by (rule specification_node_ok) (auto intro!: declaration_node_ok field_node_ok simp: sample_trees)

theorem parser_identifiers_collide_witness:
  "\<exists>mms. parse_ast (Some counted_spec) = Some (mms, NO_MESSAGEPARSER_ERROR) \<and>
    map field_identifiers mms = [[2, 1], [1, 1]]"
proof -
  have "\<forall>d\<in>set (declarations counted_spec). length (parts ''FIELD'' d) \<le> 2" by code_simp
  then have "specification_unique counted_spec" "\<forall>d\<in>set (declarations counted_spec). length (parts ''FIELD'' d) < 2 ^ 32"
    "map (map of_int \<circ> counted 0 \<circ> parts ''FIELD'') (declarations counted_spec) = [[2, 1], [1, 1 :: uint32]]"
    by (code_simp, fastforce, code_simp)
  note c = this
  have eq: "list_all2 (\<lambda>x y. f x = g y \<and> Q x y) xs ys \<Longrightarrow> map f xs = map g ys"
    for f :: "MetaMessage \<Rightarrow> uint32 list" and g :: "Ast \<Rightarrow> uint32 list" and Q xs ys
    by (induction xs ys rule: list_all2_induct) simp_all
  obtain mms where mms: "parse_ast (Some counted_spec) = Some (mms, NO_MESSAGEPARSER_ERROR)"
    "map field_identifiers mms = map (\<lambda>d. map of_int (counted 0 (parts ''FIELD'' d))) (declarations counted_spec)"
    using parser_identifiers_collide [OF counted_spec_ok c(1,2)] by (elim exE conjE) (drule eq, rule that)
  then show ?thesis using c(3) by (simp add: comp_def)
qed

text \<open>Of several identifiers written for one field, the check looks at the first, the translation takes the last.\<close>

lemma parser_several_identifiers:
  "map_option (\<lambda>(mms, e). (map field_identifiers mms, e))
     (parse_ast (Some (declaration_node ''A'' ''1'' [field_node ''int32'' ''x'' [''1'', ''2''], field_node ''int32'' ''y'' [''2'']]))) =
   Some ([[2, 2]], NO_MESSAGEPARSER_ERROR)"
  by code_simp

text \<open>
  An identifier from \<open>2 ^ 31\<close> on, which the grammar allows, is an exception that \<open>parse\<close> does not
  catch.
\<close>

lemma parser_identifier_throws: "parse_ast (Some (declaration_node n ''2147483648'' fs)) = None"
proof -
  have "stoi (str ''2147483648'') = None" by (simp add: stoi_def is_space_def is_digit_def Let_def)
  then have "check_part check4UniqueFieldNames (identifier_node ''2147483648'') s = None" for s
    by (simp add: check_part_def identifier_node_def)
  moreover have "check_part check4UniqueFieldNames (Ast (str ''MESSAGE_NAME'') (str ''MESSAGE_NAME'') (str n) []) s =
      Some (True, s\<lparr>ck_prefix := trim (str n), ck_messageNames := ck_messageNames s @ [trim (str n)]\<rparr>)" for s
    by (simp add: check_part_def)
  ultimately show ?thesis
    by (simp add: parse_ast_def declaration_node_def check4UniqueFieldNames.simps)
qed

text \<open>A comment is also looked for in the text of a default value.\<close>

lemma comment_anywhere:
  "47 \<notin> set a \<Longrightarrow> 10 \<notin> set b \<Longrightarrow> 13 \<notin> set b \<Longrightarrow> strip_comments (a @ 47 # 47 # b) = a"
proof (induction a)
  case Nil
  have d: "dropWhile (\<lambda>d. d \<noteq> 10 \<and> d \<noteq> 13) b = []" using Nil by (auto simp: dropWhile_eq_Nil_conv)
  have "strip_comments (47 # 47 # b) = strip_comments (dropWhile (\<lambda>d. d \<noteq> 10 \<and> d \<noteq> 13) b)"
    by (subst strip_comments.simps(2)) simp
  then show ?case unfolding d append_Nil by (simp add: strip_comments.simps(1))
next
  case (Cons c a)
  have "c \<noteq> 47" using Cons.prems by auto
  then have "strip_comments (c # a @ 47 # 47 # b) = c # strip_comments (a @ 47 # 47 # b)"
    by (subst strip_comments.simps(2)) simp
  then show ?case using Cons by simp
qed

end
