(* ===== verification/ProtoFiles.thy ===== *)
theory ProtoFiles
  imports MetaMessages Strings
begin

text \<open>
  \<open>MetaMessageToProtoTransformator.cpp\<close>: the Proto specification of a message. What is handed to
  the vendored template engine is modelled, and the text it makes of the template in the source.
\<close>

section \<open>The data to be rendered\<close>

record proto_field =
  pf_TYPE :: cstring
  pf_NAME :: cstring
  pf_FIELD_IDENTIFIER :: cstring

record proto_file =
  pr_PROTO2_HEADER :: cstring
  pr_MESSAGE_IDENTIFIER :: cstring
  pr_MESSAGE :: cstring
  pr_FIELDS :: "proto_field list"

text \<open>\<open>operator[]\<close> of the map inserts an empty string for a type that is not in there.\<close>

primrec typeToTypeStringMap :: "data_type \<Rightarrow> cstring" where
  "typeToTypeStringMap BOOL_T = str ''bool''"
| "typeToTypeStringMap CHAR_T = str ''sint32''"
| "typeToTypeStringMap UINT8_T = str ''uint32''"
| "typeToTypeStringMap INT8_T = str ''sint32''"
| "typeToTypeStringMap UINT16_T = str ''uint32''"
| "typeToTypeStringMap INT16_T = str ''sint32''"
| "typeToTypeStringMap UINT32_T = str ''uint32''"
| "typeToTypeStringMap INT32_T = str ''sint32''"
| "typeToTypeStringMap UINT64_T = str ''uint64''"
| "typeToTypeStringMap INT64_T = str ''sint64''"
| "typeToTypeStringMap FLOAT_T = str ''float''"
| "typeToTypeStringMap DOUBLE_T = str ''double''"
| "typeToTypeStringMap STRING_T = str ''string''"
| "typeToTypeStringMap BYTES_T = str ''bytes''"
| "typeToTypeStringMap MESSAGE_T = []"
| "typeToTypeStringMap UNDEFINED_T = []"

text \<open>The name before and behind the last full stop.\<close>

definition split_name :: "cstring \<Rightarrow> cstring \<times> cstring" where
  "split_name n =
     (if 46 \<in> set n
      then (rev (tl (dropWhile (\<lambda>c. c \<noteq> 46) (rev n))), rev (takeWhile (\<lambda>c. c \<noteq> 46) (rev n)))
      else ([], n))"

definition proto_message_name :: "cstring \<Rightarrow> cstring \<Rightarrow> cstring" where
  "proto_message_name packageName name =
     (let (namespacePrefix, messageName) = split_name name;
          package = replaceAll packageName 46 95;
          complete = package @ (if package \<noteq> [] \<and> namespacePrefix \<noteq> [] then str ''.'' else []) @ namespacePrefix;
          complete = replaceAll complete 46 95
      in complete @ (if complete \<noteq> [] then str ''_'' else []) @ messageName)"

definition proto_field_of :: "cstring \<Rightarrow> MetaField \<Rightarrow> proto_field" where
  "proto_field_of packageName f =
     (let package = replaceAll packageName 46 95 in
      \<lparr>pf_TYPE = (if mf_fieldDataType f \<noteq> MESSAGE_T then typeToTypeStringMap (mf_fieldDataType f)
                 else package @ (if package \<noteq> [] then str ''_'' else []) @ replaceAll (mf_fieldDataTypeName f) 46 95),
       pf_NAME = replaceAll (mf_fieldName f) 46 95,
       pf_FIELD_IDENTIFIER = dec_nat (unat (mf_fieldIdentifier f))\<rparr>)"

definition proto_transform :: "MetaMessage \<Rightarrow> proto_file" where
  "proto_transform mm =
     \<lparr>pr_PROTO2_HEADER = [],
      pr_MESSAGE_IDENTIFIER = dec_int (sint (mm_messageIdentifier mm)),
      pr_MESSAGE = proto_message_name (mm_packageName mm) (mm_messageName mm),
      pr_FIELDS = map (proto_field_of (mm_packageName mm)) (mm_listOfMetaFields mm)\<rparr>"

section \<open>Names\<close>

lemma replaceAll_id: "x \<notin> set s \<Longrightarrow> replaceAll s x y = s"
  unfolding replaceAll_def by (rule map_idI) auto

lemma replaceAll_Nil [simp]: "replaceAll [] x y = []" "replaceAll s x y = [] \<longleftrightarrow> s = []"
  by (simp_all add: replaceAll_def)

lemma split_name_join:
  "46 \<in> set n \<Longrightarrow> n = fst (split_name n) @ 46 # snd (split_name n) \<and> 46 \<notin> set (snd (split_name n))"
proof -
  assume "46 \<in> set n"
  then have "dropWhile (\<lambda>c. c \<noteq> 46) (rev n) \<noteq> []" by (simp add: dropWhile_eq_Nil_conv)
  then have "rev n = takeWhile (\<lambda>c. c \<noteq> 46) (rev n) @ 46 # tl (dropWhile (\<lambda>c. c \<noteq> 46) (rev n))"
    using hd_dropWhile [of "\<lambda>c. c \<noteq> 46" "rev n"] takeWhile_dropWhile_id [of "\<lambda>c. c \<noteq> 46" "rev n"]
    by (metis list.collapse)
  then have "n = rev (takeWhile (\<lambda>c. c \<noteq> 46) (rev n) @ 46 # tl (dropWhile (\<lambda>c. c \<noteq> 46) (rev n)))"
    by (metis rev_rev_ident)
  moreover have "46 \<notin> set (takeWhile (\<lambda>c. c \<noteq> 46) (rev n))" using set_takeWhileD by fastforce
  ultimately show ?thesis using \<open>46 \<in> set n\<close> by (simp add: split_name_def)
qed

text \<open>
  The type of a field whose type is a message is the name that the transformation gives to this
  message, for all names: the specifications of a message and of the messages in it fit together.
\<close>

theorem proto_names_agree:
  assumes "name \<noteq> []" and "46 \<notin> set name \<or> hd name \<noteq> 46"
    and "mf_fieldDataType f = MESSAGE_T" and "mf_fieldDataTypeName f = name"
  shows "pf_TYPE (proto_field_of package f) = proto_message_name package name"
proof (cases "46 \<in> set name")
  case True
  obtain a b where s: "split_name name = (a, b)" by (cases "split_name name")
  have n: "name = a @ 46 # b" "46 \<notin> set b" using split_name_join [OF True] by (simp_all add: s)
  then have "a \<noteq> []" using assms(2) by auto
  moreover have "replaceAll (replaceAll package 46 95) 46 95 = replaceAll package 46 95"
    by (intro replaceAll_id) (auto simp: replaceAll_def)
  moreover have "split_name (a @ 46 # b) = (a, b)" using s n(1) by simp
  moreover have "replaceAll (46 # x) 46 95 = 95 # replaceAll x 46 95" for x
    by (simp add: replaceAll_def)
  ultimately show ?thesis
    using n(1) assms(3,4) replaceAll_id [OF n(2)]
    by (simp add: proto_field_of_def proto_message_name_def Let_def replaceAll_append)
next
  case False
  have "replaceAll (replaceAll package 46 95) 46 95 = replaceAll package 46 95"
    by (intro replaceAll_id) (auto simp: replaceAll_def)
  with False show ?thesis
    using assms(3,4) replaceAll_id [OF False]
    by (simp add: proto_field_of_def proto_message_name_def split_name_def Let_def)
qed

theorem proto_names_agree_witness:
  "pf_TYPE (proto_field_of (str ''a.b'') (MetaField_new\<lparr>mf_fieldDataType := MESSAGE_T, mf_fieldDataTypeName := str ''C.D''\<rparr>)) =
     proto_message_name (str ''a.b'') (str ''C.D'')"
  by (rule proto_names_agree) simp_all

end
