(* ===== verification/CppFiles.thy ===== *)
theory CppFiles
  imports ProtoFiles
begin

text \<open>
  \<open>MetaMessageToCPPTransformator.cpp\<close>: what \<open>visit\<close> hands to the vendored template engine for the C++
  header of a message. The code that the template generates is modelled in \<open>Visitors\<close>.
\<close>

section \<open>The data to be rendered\<close>

text \<open>\<open>None\<close>: the entry is not set, which happens for fields whose type is a message.\<close>

record cpp_field =
  cf_NAME :: cstring
  cf_TYPE :: cstring
  cf_FIELD_DEFAULT_INITIALIZATION_VALUE :: "cstring option"
  cf_INITIALIZER_SUFFIX :: "cstring option"
  cf_FIELDIDENTIFIER :: cstring

record cpp_file =
  cc_HEADER_GUARD :: cstring
  cc_NAMESPACE_OPENING :: cstring
  cc_COMPLETEPACKAGENAME :: cstring
  cc_COMPLETEPACKAGENAME_WITH_COLON_SEPARATORS :: cstring
  cc_MESSAGE :: cstring
  cc_NAMESPACE_CLOSING :: cstring
  cc_IDENTIFIER :: cstring
  cc_FIELDS :: "cpp_field list"

primrec cpp_typeToTypeStringMap :: "data_type \<Rightarrow> cstring" where
  "cpp_typeToTypeStringMap BOOL_T = str ''bool''"
| "cpp_typeToTypeStringMap CHAR_T = str ''char''"
| "cpp_typeToTypeStringMap UINT8_T = str ''uint8_t''"
| "cpp_typeToTypeStringMap INT8_T = str ''int8_t''"
| "cpp_typeToTypeStringMap UINT16_T = str ''uint16_t''"
| "cpp_typeToTypeStringMap INT16_T = str ''int16_t''"
| "cpp_typeToTypeStringMap UINT32_T = str ''uint32_t''"
| "cpp_typeToTypeStringMap INT32_T = str ''int32_t''"
| "cpp_typeToTypeStringMap UINT64_T = str ''uint64_t''"
| "cpp_typeToTypeStringMap INT64_T = str ''int64_t''"
| "cpp_typeToTypeStringMap FLOAT_T = str ''float''"
| "cpp_typeToTypeStringMap DOUBLE_T = str ''double''"
| "cpp_typeToTypeStringMap STRING_T = str ''std::string''"
| "cpp_typeToTypeStringMap BYTES_T = str ''std::string''"
| "cpp_typeToTypeStringMap MESSAGE_T = []"
| "cpp_typeToTypeStringMap UNDEFINED_T = []"

text \<open>The value of a \<open>char\<close> is written as a backslash and a zero in single quotes, that of a string as two double quotes.\<close>

primrec typeToDefaultInitizationValueMap :: "data_type \<Rightarrow> cstring" where
  "typeToDefaultInitizationValueMap BOOL_T = str ''false''"
| "typeToDefaultInitizationValueMap CHAR_T = [39, 92, 48, 39]"
| "typeToDefaultInitizationValueMap UINT8_T = str ''0''"
| "typeToDefaultInitizationValueMap INT8_T = str ''0''"
| "typeToDefaultInitizationValueMap UINT16_T = str ''0''"
| "typeToDefaultInitizationValueMap INT16_T = str ''0''"
| "typeToDefaultInitizationValueMap UINT32_T = str ''0''"
| "typeToDefaultInitizationValueMap INT32_T = str ''0''"
| "typeToDefaultInitizationValueMap UINT64_T = str ''0''"
| "typeToDefaultInitizationValueMap INT64_T = str ''0''"
| "typeToDefaultInitizationValueMap FLOAT_T = str ''0.0''"
| "typeToDefaultInitizationValueMap DOUBLE_T = str ''0.0''"
| "typeToDefaultInitizationValueMap STRING_T = [34, 34]"
| "typeToDefaultInitizationValueMap BYTES_T = [34, 34]"
| "typeToDefaultInitizationValueMap MESSAGE_T = []"
| "typeToDefaultInitizationValueMap UNDEFINED_T = []"

text \<open>\<open>std::regex_replace\<close> of the full stops, and \<open>toupper\<close> in the C locale.\<close>

definition replace_dots :: "cstring \<Rightarrow> cstring \<Rightarrow> cstring" where
  "replace_dots s by_text = concat (map (\<lambda>c. if c = 46 then by_text else [c]) s)"

definition toupper :: "byte \<Rightarrow> byte" where
  "toupper c = (if 97 \<le> c \<and> c \<le> 122 then c - 32 else c)"

definition cpp_field_of :: "cstring \<Rightarrow> MetaField \<Rightarrow> cpp_field" where
  "cpp_field_of packageName e =
     (let t = mf_fieldDataType e; v = mf_defaultInitializationValue e in
      \<lparr>cf_NAME = replace_dots (mf_fieldName e) (str ''_''),
       cf_TYPE = (if t \<noteq> MESSAGE_T then cpp_typeToTypeStringMap t
                  else replace_dots (packageName @ (if packageName \<noteq> [] then str ''.'' else []) @ mf_fieldDataTypeName e) (str ''::'')),
       cf_FIELD_DEFAULT_INITIALIZATION_VALUE =
         (if t \<noteq> MESSAGE_T then Some (if v = [] then typeToDefaultInitizationValueMap t else v) else None),
       cf_INITIALIZER_SUFFIX =
         (if t \<noteq> MESSAGE_T then Some (if t = FLOAT_T then str ''f'' else if t = STRING_T \<or> t = BYTES_T then str ''s'' else []) else None),
       cf_FIELDIDENTIFIER = dec_nat (unat (mf_fieldIdentifier e))\<rparr>)"

definition cpp_transform :: "MetaMessage \<Rightarrow> cpp_file" where
  "cpp_transform mm =
     (let (namespacePrefix, messageName) = split_name (mm_messageName mm);
          completePackageName = mm_packageName mm @ (if mm_packageName mm \<noteq> [] \<and> namespacePrefix \<noteq> [] then str ''.'' else []) @ namespacePrefix;
          withColons = replace_dots completePackageName (str ''::'');
          namespaceHeader = replace_dots completePackageName (str '' { namespace '');
          namespaceFooter = replicate (count_list namespaceHeader 123 + (if namespaceHeader \<noteq> [] then 1 else 0)) 125;
          headerGuard = replace_dots completePackageName (str ''_'');
          headerGuard = headerGuard @ (if headerGuard \<noteq> [] then str ''_'' else []) @ messageName
      in \<lparr>cc_HEADER_GUARD = map toupper headerGuard,
          cc_NAMESPACE_OPENING = (if namespaceHeader \<noteq> [] then str ''namespace '' @ namespaceHeader @ str '' {'' else []),
          cc_COMPLETEPACKAGENAME = completePackageName @ (if completePackageName \<noteq> [] then str ''.'' else []),
          cc_COMPLETEPACKAGENAME_WITH_COLON_SEPARATORS = withColons @ (if withColons \<noteq> [] then str ''::'' else []),
          cc_MESSAGE = messageName,
          cc_NAMESPACE_CLOSING = namespaceFooter,
          cc_IDENTIFIER = dec_int (sint (mm_messageIdentifier mm)),
          cc_FIELDS = map (cpp_field_of (mm_packageName mm)) (mm_listOfMetaFields mm)\<rparr>)"

section \<open>Names\<close>

lemma replace_dots_Nil [simp]: "replace_dots [] y = []"
  by (simp add: replace_dots_def)

lemma replace_dots_eq_Nil [simp]: "y \<noteq> [] \<Longrightarrow> replace_dots s y = [] \<longleftrightarrow> s = []"
  by (cases s) (simp_all add: replace_dots_def)

lemma replace_dots_append [simp]: "replace_dots (s @ t) y = replace_dots s y @ replace_dots t y"
  by (simp add: replace_dots_def)

lemma replace_dots_dot [simp]: "replace_dots (46 # s) y = y @ replace_dots s y"
  by (simp add: replace_dots_def)

lemma replace_dots_id: "46 \<notin> set s \<Longrightarrow> replace_dots s y = s"
  by (induction s) (auto simp: replace_dots_def)

text \<open>One character for a full stop is what \<open>replaceAll\<close> does.\<close>

lemma replace_dots_replaceAll: "replace_dots s [y] = replaceAll s 46 y"
  by (induction s) (auto simp: replace_dots_def replaceAll_def)

lemma str_dot [simp]: "str ''.'' = [46]" and str_colons: "str ''::'' = [58, 58]" and str_underscore: "str ''_'' = [95]"
  by (simp_all add: str_def)

text \<open>What the rest of the file calls a message, and its name without the last part.\<close>

definition full_name :: "MetaMessage \<Rightarrow> cstring" where
  "full_name mm = mm_packageName mm @ (if mm_packageName mm \<noteq> [] then [46] else []) @ mm_messageName mm"

definition well_named :: "cstring \<Rightarrow> bool" where
  "well_named n \<longleftrightarrow> n \<noteq> [] \<and> (46 \<in> set n \<longrightarrow> hd n \<noteq> 46)"

lemma split_well_named:
  assumes "well_named n"
  obtains (dotted) a b where "split_name n = (a, b)" "n = a @ 46 # b" "46 \<notin> set b" "a \<noteq> []"
  | (plain) "split_name n = ([], n)" "46 \<notin> set n"
proof (cases "46 \<in> set n")
  case True
  obtain a b where s: "split_name n = (a, b)" by (cases "split_name n")
  have n: "n = a @ 46 # b" "46 \<notin> set b" using split_name_join [OF True] by (simp_all add: s)
  moreover have "a \<noteq> []" using assms True n(1) by (auto simp: well_named_def)
  ultimately show ?thesis using s that(1) by blast
next
  case False
  then show ?thesis using that(2) by (simp add: split_name_def)
qed

text \<open>The parts of a name between full stops, and texts behind each other with a separator.\<close>

fun name_parts :: "cstring \<Rightarrow> cstring list" where
  "name_parts [] = [[]]"
| "name_parts (c # s) =
     (if c = 46 then [] # name_parts s
      else case name_parts s of [] \<Rightarrow> [[c]] | p # ps \<Rightarrow> (c # p) # ps)"

fun join :: "cstring \<Rightarrow> cstring list \<Rightarrow> cstring" where
  "join sep [] = []"
| "join sep (x # xs) = (if xs = [] then x else x @ sep @ join sep xs)"

lemma name_parts_nonempty: "name_parts s \<noteq> []"
  by (cases s) (auto split: list.splits)

lemma name_parts_Cons: obtains p ps where "name_parts s = p # ps"
  using name_parts_nonempty by (meson list.exhaust)

lemma replace_dots_join: "replace_dots s sep = join sep (name_parts s)"
proof (induction s)
  case (Cons c s)
  obtain p ps where "name_parts s = p # ps" by (rule name_parts_Cons)
  then show ?case using Cons by (simp add: replace_dots_def)
qed (simp add: replace_dots_def)

lemma length_name_parts: "length (name_parts s) = Suc (count_list s 46)"
proof (induction s)
  case (Cons c s)
  obtain p ps where "name_parts s = p # ps" by (rule name_parts_Cons)
  then show ?case using Cons by simp
qed simp

lemma join_enclosed: "xs \<noteq> [] \<Longrightarrow> a @ join (b @ sep @ a) xs @ b = join sep (map (\<lambda>x. a @ x @ b) xs)"
  by (induction xs) auto

lemma enclosed_parts: "t = b @ sep @ a \<Longrightarrow> a @ replace_dots p t @ b = join sep (map (\<lambda>x. a @ x @ b) (name_parts p))"
  by (simp add: replace_dots_join join_enclosed name_parts_nonempty)

lemma join_snoc: "join sep (xs @ [x]) = (if xs = [] then x else join sep xs @ sep @ x)"
  by (induction xs) auto

lemma count_namespaces: "123 \<notin> set s \<Longrightarrow> count_list (replace_dots s (str '' { namespace '')) 123 = count_list s 46"
  by (induction s) (auto simp: replace_dots_def str_def)

definition complete_package :: "MetaMessage \<Rightarrow> cstring" where
  "complete_package mm = (let p = fst (split_name (mm_messageName mm)) in
     mm_packageName mm @ (if mm_packageName mm \<noteq> [] \<and> p \<noteq> [] then [46] else []) @ p)"

definition namespaces :: "MetaMessage \<Rightarrow> cstring list" where
  "namespaces mm = (if complete_package mm = [] then [] else name_parts (complete_package mm))"

lemma cpp_transform_names:
  "cc_NAMESPACE_OPENING (cpp_transform mm) =
     (if complete_package mm = [] then []
      else str ''namespace '' @ replace_dots (complete_package mm) (str '' { namespace '') @ str '' {'')"
  "cc_NAMESPACE_CLOSING (cpp_transform mm) =
     replicate (count_list (replace_dots (complete_package mm) (str '' { namespace '')) 123 + (if complete_package mm = [] then 0 else 1)) 125"
  "cc_COMPLETEPACKAGENAME_WITH_COLON_SEPARATORS (cpp_transform mm) =
     (if complete_package mm = [] then [] else replace_dots (complete_package mm) (str ''::'') @ str ''::'')"
  "cc_MESSAGE (cpp_transform mm) = snd (split_name (mm_messageName mm))"
  by (simp_all add: cpp_transform_def complete_package_def split_beta Let_def)

lemma cpp_namespaces:
  assumes "123 \<notin> set (complete_package mm)"
  shows "cc_NAMESPACE_OPENING (cpp_transform mm) = join (str '' '') (map (\<lambda>n. str ''namespace '' @ n @ str '' {'') (namespaces mm))"
    and "cc_NAMESPACE_CLOSING (cpp_transform mm) = replicate (length (namespaces mm)) 125"
    and "cc_COMPLETEPACKAGENAME_WITH_COLON_SEPARATORS (cpp_transform mm) @ m = join (str ''::'') (namespaces mm @ [m])"
proof -
  have sep: "str '' { namespace '' = str '' {'' @ str '' '' @ str ''namespace ''" by (simp add: str_def)
  show "cc_NAMESPACE_OPENING (cpp_transform mm) = join (str '' '') (map (\<lambda>n. str ''namespace '' @ n @ str '' {'') (namespaces mm))"
    unfolding cpp_transform_names namespaces_def enclosed_parts [OF sep] by (simp del: str_def)
  show "cc_NAMESPACE_CLOSING (cpp_transform mm) = replicate (length (namespaces mm)) 125"
    unfolding cpp_transform_names namespaces_def count_namespaces [OF assms]
    by (simp add: length_name_parts)
  show "cc_COMPLETEPACKAGENAME_WITH_COLON_SEPARATORS (cpp_transform mm) @ m = join (str ''::'') (namespaces mm @ [m])"
    unfolding cpp_transform_names namespaces_def replace_dots_join join_snoc by (simp add: name_parts_nonempty)
qed

text \<open>
  C28: The C++ header of a message declares its class in the namespaces that its complete name consists of. All
  namespaces that are opened are closed; and the name for which \<open>isVisitable\<close> is specialised and the type of a field with this
  message in another one of the package are the qualified name of this class.
\<close>

theorem cpp_names_agree:
  assumes "well_named (mm_messageName mm)" and "123 \<notin> set (complete_package mm)"
    and "mf_fieldDataType f = MESSAGE_T" and "mf_fieldDataTypeName f = mm_messageName mm"
  shows "cc_NAMESPACE_OPENING (cpp_transform mm) =
      join (str '' '') (map (\<lambda>n. str ''namespace '' @ n @ str '' {'') (namespaces mm)) \<and>
    cc_NAMESPACE_CLOSING (cpp_transform mm) = replicate (length (namespaces mm)) 125 \<and>
    cc_COMPLETEPACKAGENAME_WITH_COLON_SEPARATORS (cpp_transform mm) @ cc_MESSAGE (cpp_transform mm) =
      join (str ''::'') (namespaces mm @ [cc_MESSAGE (cpp_transform mm)]) \<and>
    cf_TYPE (cpp_field_of (mm_packageName mm) f) = join (str ''::'') (namespaces mm @ [cc_MESSAGE (cpp_transform mm)])"
proof -
  have "cf_TYPE (cpp_field_of (mm_packageName mm) f) =
      cc_COMPLETEPACKAGENAME_WITH_COLON_SEPARATORS (cpp_transform mm) @ cc_MESSAGE (cpp_transform mm)"
    using assms(1)
  proof (cases rule: split_well_named)
    case (dotted a b)
    then show ?thesis using assms(3,4) replace_dots_id [OF dotted(3)]
      by (simp add: cpp_field_of_def cpp_transform_def str_colons)
  next
    case plain
    then show ?thesis using assms(3,4) replace_dots_id [OF plain(2)]
      by (simp add: cpp_field_of_def cpp_transform_def str_colons)
  qed
  then show ?thesis by (simp add: cpp_namespaces [OF assms(2)])
qed

theorem cpp_names_agree_witness:
  "cf_TYPE (cpp_field_of (str ''a.b'') (MetaField_new\<lparr>mf_fieldDataType := MESSAGE_T, mf_fieldDataTypeName := str ''C.D''\<rparr>)) =
     str ''a::b::C::D'' \<and>
   cc_NAMESPACE_OPENING (cpp_transform (MetaMessage_new\<lparr>mm_packageName := str ''a.b'', mm_messageName := str ''C.D''\<rparr>)) =
     str ''namespace a { namespace b { namespace C {''"
proof -
  let ?mm = "MetaMessage_new\<lparr>mm_packageName := str ''a.b'', mm_messageName := str ''C.D''\<rparr>"
  have n: "namespaces ?mm = [str ''a'', str ''b'', str ''C'']" "cc_MESSAGE (cpp_transform ?mm) = str ''D''"
    "well_named (mm_messageName ?mm)" "123 \<notin> set (complete_package ?mm)"
    by code_simp+
  show ?thesis
    using cpp_names_agree [OF n(3,4), of "MetaField_new\<lparr>mf_fieldDataType := MESSAGE_T, mf_fieldDataTypeName := str ''C.D''\<rparr>"]
    unfolding n(1,2) by simp
qed

text \<open>
  The header guard is the name in capitals, with underscores: it is the same for different messages,
  as for \<open>a.b\<close> and \<open>A_B\<close>, and the preprocessor leaves out the second class.
\<close>

lemma cpp_header_guard:
  assumes "well_named (mm_messageName mm)"
  shows "cc_HEADER_GUARD (cpp_transform mm) = map toupper (replaceAll (full_name mm) 46 95)"
  using assms
proof (cases rule: split_well_named)
  case (dotted a b)
  then show ?thesis using replace_dots_id [OF dotted(3)]
    by (simp add: cpp_transform_def full_name_def str_underscore flip: replace_dots_replaceAll)
next
  case plain
  then show ?thesis using replace_dots_id [OF plain(2)]
    by (simp add: cpp_transform_def full_name_def str_underscore flip: replace_dots_replaceAll)
qed

end
