(* ===== verification/SharedMem.thy ===== *)
theory SharedMem
  imports Envelopes Strings
begin

text \<open>
  \<open>SharedMemory.cpp\<close> as it is built on Linux: shared memory with a mutex and a condition, from
  System V segments and semaphores or from POSIX shared memory. Names, construction, use and
  destruction of an instance; the operating system is a state that its calls change as their
  manual pages say.
\<close>

section \<open>The calls of the operating system\<close>

text \<open>A pointer to mapped memory: \<open>nullptr\<close>, the result of a failure, or an object's memory.\<close>

datatype pointer = Null | Failed | Mapped nat

text \<open>
  System V objects have the position in their list as identifier. A segment or a set of semaphores
  that was removed has no key. \<open>sem_sleepers\<close> are the threads that wait for the value zero,
  \<open>sem_adj\<close> is what \<open>SEM_UNDO\<close> adds to the value when a process ends.
\<close>

record segment =
  seg_key :: "int option"
  seg_size :: nat

record semaphore =
  sem_key :: "int option"
  sem_val :: nat
  sem_adj :: "nat \<Rightarrow> int"
  sem_sleepers :: "nat list"

text \<open>
  A process-shared robust mutex: free, held (and whether the state it protects is inconsistent),
  left by an owner that ended, or not recoverable.
\<close>

datatype robust_mutex = M_none | M_free | M_held nat bool | M_owner_dead | M_not_recoverable

text \<open>An object of POSIX shared memory: its length, and the \<open>SharedMemoryHeader\<close> in it.\<close>

record posix_object =
  po_length :: nat
  po_size :: uint32
  po_mutex :: robust_mutex
  po_sleepers :: "nat list"

text \<open>
  The calls that can be refused for reasons the program does not see; a refused call fails.
\<close>

datatype os_call =
    OS_create | OS_open | OS_ftok int | OS_shmget | OS_shmctl | OS_shmat | OS_semget | OS_semctl
  | OS_shm_open | OS_ftruncate | OS_mmap | OS_futimens | OS_fstat

text \<open>What a file descriptor is for: a file, or an object of POSIX shared memory.\<close>

datatype fd_target = Token nat | Object nat

text \<open>
  Files are found by name and have an identity and a modification time in seconds and nanoseconds;
  a file descriptor is a position in the list of open files. \<open>os_ftok\<close> gives a key for the identity
  of a file.
\<close>

record os =
  os_refuses :: "os_call \<Rightarrow> bool"
  os_ftok :: "nat \<Rightarrow> int \<Rightarrow> int"
  os_files :: "(cstring \<times> nat) list"
  os_next_file :: nat
  os_mtime :: "fd_target \<Rightarrow> int \<times> int"
  os_fds :: "fd_target option list"
  os_segments :: "segment list"
  os_semaphores :: "semaphore list"
  os_posix_names :: "(cstring \<times> nat) list"
  os_posix :: "posix_object list"

definition file_exists :: "cstring \<Rightarrow> os \<Rightarrow> bool" where
  "file_exists name k \<longleftrightarrow> map_of (os_files k) name \<noteq> None"

text \<open>\<open>std::fstream::open\<close> for output creates a file that does not exist.\<close>

definition create_file :: "cstring \<Rightarrow> os \<Rightarrow> bool \<times> os" where
  "create_file name k =
     (if os_refuses k OS_create then (False, k)
      else if file_exists name k then (True, k)
      else (True, k\<lparr>os_files := (name, os_next_file k) # os_files k, os_next_file := Suc (os_next_file k)\<rparr>))"

definition unlink :: "cstring \<Rightarrow> os \<Rightarrow> os" where
  "unlink name k = k\<lparr>os_files := filter (\<lambda>p. fst p \<noteq> name) (os_files k)\<rparr>"

definition ftok :: "cstring \<Rightarrow> int \<Rightarrow> os \<Rightarrow> int" where
  "ftok name i k =
     (case map_of (os_files k) name of
        None \<Rightarrow> - 1
      | Some file \<Rightarrow> if os_refuses k (OS_ftok i) then - 1 else os_ftok k file i)"

definition open_file :: "cstring \<Rightarrow> os \<Rightarrow> int \<times> os" where
  "open_file name k =
     (case map_of (os_files k) name of
        None \<Rightarrow> (- 1, k)
      | Some file \<Rightarrow>
          if os_refuses k OS_open then (- 1, k)
          else (int (length (os_fds k)), k\<lparr>os_fds := os_fds k @ [Some (Token file)]\<rparr>))"

definition fd_file :: "int \<Rightarrow> os \<Rightarrow> fd_target option" where
  "fd_file fd k = (if 0 \<le> fd \<and> nat fd < length (os_fds k) then os_fds k ! nat fd else None)"

definition close_file :: "int \<Rightarrow> os \<Rightarrow> os" where
  "close_file fd k =
     (if 0 \<le> fd \<and> nat fd < length (os_fds k) then k\<lparr>os_fds := (os_fds k)[nat fd := None]\<rparr> else k)"

text \<open>The nanoseconds have to be less than a second.\<close>

definition futimens :: "int \<Rightarrow> int \<Rightarrow> int \<Rightarrow> os \<Rightarrow> int \<times> os" where
  "futimens fd sec nsec k =
     (case fd_file fd k of
        None \<Rightarrow> (- 1, k)
      | Some file \<Rightarrow>
          if os_refuses k OS_futimens \<or> nsec < 0 \<or> 1000000000 \<le> nsec then (- 1, k)
          else (0, k\<lparr>os_mtime := (os_mtime k)(file := (sec, nsec))\<rparr>))"

definition fstat :: "int \<Rightarrow> os \<Rightarrow> (int \<times> int) option" where
  "fstat fd k =
     (case fd_file fd k of
        None \<Rightarrow> None
      | Some file \<Rightarrow> if os_refuses k OS_fstat then None else Some (os_mtime k file))"

subsection \<open>System V segments\<close>

definition find_segment :: "int \<Rightarrow> os \<Rightarrow> nat option" where
  "find_segment key k = find (\<lambda>i. seg_key (os_segments k ! i) = Some key) [0..<length (os_segments k)]"

text \<open>\<open>shmget\<close> without flags, and with \<open>IPC_CREAT | IPC_EXCL\<close>.\<close>

definition shmget :: "int \<Rightarrow> os \<Rightarrow> int" where
  "shmget key k = (case find_segment key k of None \<Rightarrow> - 1 | Some i \<Rightarrow> if os_refuses k OS_shmget then - 1 else int i)"

definition shmget_create :: "int \<Rightarrow> uint32 \<Rightarrow> os \<Rightarrow> int \<times> os" where
  "shmget_create key bytes k =
     (if os_refuses k OS_shmget \<or> find_segment key k \<noteq> None then (- 1, k)
      else (int (length (os_segments k)),
            k\<lparr>os_segments := os_segments k @ [\<lparr>seg_key = Some key, seg_size = unat bytes\<rparr>]\<rparr>))"

definition shmctl_rmid :: "int \<Rightarrow> os \<Rightarrow> os" where
  "shmctl_rmid i k =
     (if os_refuses k OS_shmctl \<or> i < 0 \<or> length (os_segments k) \<le> nat i then k
      else k\<lparr>os_segments := (os_segments k)[nat i := (os_segments k ! nat i)\<lparr>seg_key := None\<rparr>]\<rparr>)"

definition shmctl_stat :: "int \<Rightarrow> os \<Rightarrow> nat option" where
  "shmctl_stat i k =
     (if os_refuses k OS_shmctl \<or> i < 0 \<or> length (os_segments k) \<le> nat i then None
      else Some (seg_size (os_segments k ! nat i)))"

definition shmat :: "int \<Rightarrow> os \<Rightarrow> pointer" where
  "shmat i k =
     (if os_refuses k OS_shmat \<or> i < 0 \<or> length (os_segments k) \<le> nat i then Failed else Mapped (nat i))"

subsection \<open>System V semaphores\<close>

definition find_semaphore :: "int \<Rightarrow> os \<Rightarrow> nat option" where
  "find_semaphore key k = find (\<lambda>i. sem_key (os_semaphores k ! i) = Some key) [0..<length (os_semaphores k)]"

definition semget :: "int \<Rightarrow> os \<Rightarrow> int" where
  "semget key k = (case find_semaphore key k of None \<Rightarrow> - 1 | Some i \<Rightarrow> if os_refuses k OS_semget then - 1 else int i)"

definition semget_create :: "int \<Rightarrow> os \<Rightarrow> int \<times> os" where
  "semget_create key k =
     (if os_refuses k OS_semget \<or> find_semaphore key k \<noteq> None then (- 1, k)
      else (int (length (os_semaphores k)),
            k\<lparr>os_semaphores := os_semaphores k @
                [\<lparr>sem_key = Some key, sem_val = 0, sem_adj = (\<lambda>_. 0), sem_sleepers = []\<rparr>]\<rparr>))"

definition sem_there :: "int \<Rightarrow> os \<Rightarrow> bool" where
  "sem_there i k \<longleftrightarrow> 0 \<le> i \<and> nat i < length (os_semaphores k) \<and> sem_key (os_semaphores k ! nat i) \<noteq> None"

definition sem_update :: "int \<Rightarrow> (semaphore \<Rightarrow> semaphore) \<Rightarrow> os \<Rightarrow> os" where
  "sem_update i f k = k\<lparr>os_semaphores := (os_semaphores k)[nat i := f (os_semaphores k ! nat i)]\<rparr>"

text \<open>Setting a value clears what is to be undone, and zero wakes the threads that wait for it.\<close>

definition semctl_setval :: "int \<Rightarrow> nat \<Rightarrow> os \<Rightarrow> int \<times> os" where
  "semctl_setval i v k =
     (if os_refuses k OS_semctl \<or> \<not> sem_there i k then (- 1, k)
      else (0, sem_update i (\<lambda>s. s\<lparr>sem_val := v, sem_adj := (\<lambda>_. 0),
                 sem_sleepers := (if v = 0 then [] else sem_sleepers s)\<rparr>) k))"

definition semctl_rmid :: "int \<Rightarrow> os \<Rightarrow> os" where
  "semctl_rmid i k =
     (if os_refuses k OS_semctl \<or> \<not> sem_there i k then k
      else sem_update i (\<lambda>s. s\<lparr>sem_key := None, sem_sleepers := []\<rparr>) k)"

text \<open>
  \<open>semop\<close> of a process for \<open>- 1\<close> or \<open>1\<close> with \<open>SEM_UNDO\<close>, and for \<open>0\<close>: the result, or \<open>None\<close>
  when the thread has to sleep.
\<close>

definition semop :: "nat \<Rightarrow> int \<Rightarrow> int \<Rightarrow> os \<Rightarrow> (int \<times> os) option" where
  "semop p i sem_op k =
     (if \<not> sem_there i k then Some (- 1, k)
      else (let v = sem_val (os_semaphores k ! nat i) in
        if sem_op = 0 then (if v = 0 then Some (0, k) else None)
        else if int v + sem_op < 0 then None
        else if 32767 < int v + sem_op then Some (- 1, k)
        else Some (0, sem_update i (\<lambda>s. s\<lparr>sem_val := nat (int (sem_val s) + sem_op),
                        sem_adj := (sem_adj s)(p := sem_adj s p - sem_op)\<rparr>) k)))"

subsection \<open>POSIX shared memory\<close>

text \<open>A name is a slash and other characters. \<open>O_CREAT | O_EXCL\<close> demands a new object.\<close>

definition shm_open :: "cstring \<Rightarrow> bool \<Rightarrow> os \<Rightarrow> int \<times> os" where
  "shm_open name create k =
     (if os_refuses k OS_shm_open \<or> 47 \<in> set (tl name) then (- 1, k)
      else case map_of (os_posix_names k) name of
        Some i \<Rightarrow>
          (if create then (- 1, k) else (int (length (os_fds k)), k\<lparr>os_fds := os_fds k @ [Some (Object i)]\<rparr>))
      | None \<Rightarrow>
          (if \<not> create then (- 1, k)
           else (int (length (os_fds k)),
             k\<lparr>os_fds := os_fds k @ [Some (Object (length (os_posix k)))],
               os_posix_names := (name, length (os_posix k)) # os_posix_names k,
               os_posix := os_posix k @ [\<lparr>po_length = 0, po_size = 0, po_mutex = M_none, po_sleepers = []\<rparr>]\<rparr>)))"

definition shm_unlink :: "cstring \<Rightarrow> os \<Rightarrow> int \<times> os" where
  "shm_unlink name k =
     (case map_of (os_posix_names k) name of
        None \<Rightarrow> (- 1, k)
      | Some _ \<Rightarrow> (0, k\<lparr>os_posix_names := filter (\<lambda>p. fst p \<noteq> name) (os_posix_names k)\<rparr>))"

definition posix_update :: "nat \<Rightarrow> (posix_object \<Rightarrow> posix_object) \<Rightarrow> os \<Rightarrow> os" where
  "posix_update i f k = k\<lparr>os_posix := (os_posix k)[i := f (os_posix k ! i)]\<rparr>"

definition ftruncate :: "int \<Rightarrow> nat \<Rightarrow> os \<Rightarrow> bool \<times> os" where
  "ftruncate fd len k =
     (case fd_file fd k of
        Some (Object i) \<Rightarrow>
          if os_refuses k OS_ftruncate then (False, k) else (True, posix_update i (\<lambda>ob. ob\<lparr>po_length := len\<rparr>) k)
      | _ \<Rightarrow> (False, k))"

definition mmap :: "int \<Rightarrow> os \<Rightarrow> pointer" where
  "mmap fd k =
     (case fd_file fd k of
        Some (Object i) \<Rightarrow> if os_refuses k OS_mmap then Failed else Mapped i
      | _ \<Rightarrow> Failed)"

text \<open>
  Locking and unlocking a robust mutex: the error number, and the mutex. The owner's end shows in
  the next call of \<open>pthread_mutex_lock\<close>; unless \<open>pthread_mutex_consistent\<close> is called, the mutex is
  lost when it is unlocked then.
\<close>

definition EOWNERDEAD :: int where "EOWNERDEAD = 130"
definition ENOTRECOVERABLE :: int where "ENOTRECOVERABLE = 131"

fun pthread_mutex_lock :: "nat \<Rightarrow> robust_mutex \<Rightarrow> (int \<times> robust_mutex) option" where
  "pthread_mutex_lock t M_free = Some (0, M_held t False)"
| "pthread_mutex_lock t (M_held u b) = None"
| "pthread_mutex_lock t M_owner_dead = Some (EOWNERDEAD, M_held t True)"
| "pthread_mutex_lock t M_not_recoverable = Some (ENOTRECOVERABLE, M_not_recoverable)"
| "pthread_mutex_lock t M_none = Some (22, M_none)"

fun pthread_mutex_unlock :: "nat \<Rightarrow> robust_mutex \<Rightarrow> int \<times> robust_mutex" where
  "pthread_mutex_unlock t (M_held u b) =
     (if u = t then (0, if b then M_not_recoverable else M_free) else (1, M_held u b))"
| "pthread_mutex_unlock t m = (1, m)"

fun owner_ends :: "nat \<Rightarrow> robust_mutex \<Rightarrow> robust_mutex" where
  "owner_ends t (M_held u b) = (if u = t then M_owner_dead else M_held u b)"
| "owner_ends t m = m"

section \<open>The members\<close>

record shm =
  sm_name :: cstring
  sm_nameForTimeStamping :: cstring
  sm_size :: uint32
  sm_sharedMemory :: pointer
  sm_userAccessibleSharedMemory :: pointer
  sm_hasOnlyAttachedToSharedMemory :: bool
  sm_broken :: bool
  sm_isLocked :: bool
  sm_fdForTimeStamping :: int
  sm_usePOSIX :: bool
  sm_fd :: int
  sm_sharedMemoryHeader :: pointer
  sm_shmKeySysV :: int
  sm_mutexKeySysV :: int
  sm_conditionKeySysV :: int
  sm_sharedMemoryIDSysV :: int
  sm_mutexIDSysV :: int
  sm_conditionIDSysV :: int

definition shm_init :: "uint32 \<Rightarrow> shm" where
  "shm_init bytes =
     \<lparr>sm_name = [], sm_nameForTimeStamping = [], sm_size = bytes, sm_sharedMemory = Null,
      sm_userAccessibleSharedMemory = Null, sm_hasOnlyAttachedToSharedMemory = False, sm_broken = False,
      sm_isLocked = False, sm_fdForTimeStamping = - 1, sm_usePOSIX = True, sm_fd = - 1,
      sm_sharedMemoryHeader = Null, sm_shmKeySysV = 0, sm_mutexKeySysV = 0, sm_conditionKeySysV = 0,
      sm_sharedMemoryIDSysV = - 1, sm_mutexIDSysV = - 1, sm_conditionIDSysV = - 1\<rparr>"

section \<open>The System V implementation\<close>

text \<open>An orphaned segment with the key is removed first.\<close>

definition create_segment :: "int \<Rightarrow> uint32 \<Rightarrow> os \<Rightarrow> int \<times> os" where
  "create_segment key bytes k =
     (let orphaned = shmget key k;
          k = (if \<not> orphaned < 0 then shmctl_rmid orphaned k else k)
      in shmget_create key bytes k)"

definition initSysV_segment :: "shm \<Rightarrow> os \<Rightarrow> shm \<times> os" where
  "initSysV_segment m k =
     (let key = ftok (sm_name m) 1 k; m = m\<lparr>sm_shmKeySysV := key\<rparr> in
      if key = - 1 then (m, k)
      else if \<not> sm_hasOnlyAttachedToSharedMemory m then
        (let (i, k) = create_segment key (sm_size m) k;
             m = m\<lparr>sm_sharedMemoryIDSysV := i\<rparr>
         in if i \<noteq> - 1
            then (let p = shmat i k; m = m\<lparr>sm_sharedMemory := p\<rparr>
                  in (if p \<noteq> Failed then m\<lparr>sm_userAccessibleSharedMemory := p\<rparr> else m, k))
            else (m, k))
      else
        (let i = shmget key k; m = m\<lparr>sm_sharedMemoryIDSysV := i\<rparr> in
         if i \<noteq> - 1
         then (case shmctl_stat i k of
                 None \<Rightarrow> (m, k)
               | Some bytes \<Rightarrow>
                   (let p = shmat i k; m = m\<lparr>sm_size := of_nat bytes, sm_sharedMemory := p\<rparr>
                    in (if p \<noteq> Failed then m\<lparr>sm_userAccessibleSharedMemory := p\<rparr> else m, k)))
         else (m, k)))"

text \<open>A semaphore for a key, which the creator of the memory makes anew with the value one.\<close>

definition initSysV_semaphore :: "bool \<Rightarrow> int \<Rightarrow> os \<Rightarrow> int \<times> os" where
  "initSysV_semaphore attached key k =
     (if \<not> attached then
        (let orphaned = semget key k;
             k = (if \<not> orphaned < 0 then semctl_rmid orphaned k else k);
             (i, k) = semget_create key k
         in (i, if i \<noteq> - 1 then snd (semctl_setval i 1 k) else k))
      else (semget key k, k))"

definition initSysV_mutex :: "shm \<Rightarrow> os \<Rightarrow> shm \<times> os" where
  "initSysV_mutex m k =
     (let key = ftok (sm_name m) 2 k; m = m\<lparr>sm_mutexKeySysV := key\<rparr> in
      if sm_shmKeySysV m \<noteq> - 1 \<and> key \<noteq> - 1 \<and> sm_userAccessibleSharedMemory m \<noteq> Null
      then (let (i, k) = initSysV_semaphore (sm_hasOnlyAttachedToSharedMemory m) key k
            in (m\<lparr>sm_mutexIDSysV := i\<rparr>, k))
      else (m, k))"

definition initSysV_condition :: "shm \<Rightarrow> os \<Rightarrow> shm \<times> os" where
  "initSysV_condition m k =
     (let key = ftok (sm_name m) 3 k; m = m\<lparr>sm_conditionKeySysV := key\<rparr> in
      if sm_shmKeySysV m \<noteq> - 1 \<and> sm_mutexKeySysV m \<noteq> - 1 \<and> key \<noteq> - 1 \<and>
        sm_userAccessibleSharedMemory m \<noteq> Null
      then (let (i, k) = initSysV_semaphore (sm_hasOnlyAttachedToSharedMemory m) key k
            in (m\<lparr>sm_conditionIDSysV := i\<rparr>, k))
      else (m, k))"

definition initSysV :: "shm \<Rightarrow> os \<Rightarrow> shm \<times> os" where
  "initSysV m k =
     (let (tokenFileExisting, m, k) =
            (if 0 < sm_size m then (let (good, k) = create_file (sm_name m) k in (good, m, k))
             else (file_exists (sm_name m) k, m\<lparr>sm_hasOnlyAttachedToSharedMemory := True\<rparr>, k));
          (m, k) =
            (if tokenFileExisting
             then (let (m, k) = initSysV_segment m k; (m, k) = initSysV_mutex m k in initSysV_condition m k)
             else (m, k))
      in if sm_sharedMemory m \<noteq> Null
         then (let (fd, k) = open_file (sm_name m) k in (m\<lparr>sm_fdForTimeStamping := fd\<rparr>, k))
         else (m, k))"

text \<open>The call of \<open>semop\<close> on the mutex: whether it has been decremented or incremented.\<close>

definition mutex_semop :: "nat \<Rightarrow> int \<Rightarrow> shm \<Rightarrow> os \<Rightarrow> (bool \<times> shm \<times> os) option" where
  "mutex_semop p VALUE m k =
     (if sm_mutexIDSysV m \<noteq> - 1
      then (case semop p (sm_mutexIDSysV m) VALUE k of
              None \<Rightarrow> None
            | Some (r, k) \<Rightarrow> Some (if r = - 1 then (False, m\<lparr>sm_broken := True\<rparr>, k) else (True, m, k)))
      else Some (False, m, k))"

definition lockSysV :: "nat \<Rightarrow> shm \<Rightarrow> os \<Rightarrow> (shm \<times> os) option" where
  "lockSysV p m k = map_option snd (mutex_semop p (- 1) m k)"

definition unlockSysV :: "nat \<Rightarrow> shm \<Rightarrow> os \<Rightarrow> (shm \<times> os) option" where
  "unlockSysV p m k = map_option snd (mutex_semop p 1 m k)"

definition waitSysV :: "nat \<Rightarrow> shm \<Rightarrow> os \<Rightarrow> (shm \<times> os) option" where
  "waitSysV p m k =
     (if sm_conditionIDSysV m \<noteq> - 1
      then (case semop p (sm_conditionIDSysV m) 0 k of
              None \<Rightarrow> None
            | Some (r, k) \<Rightarrow> Some (if r = - 1 then m\<lparr>sm_broken := True\<rparr> else m, k))
      else Some (m, k))"

text \<open>One of the two calls in \<open>notifyAllSysV\<close>: the value zero wakes, the value one is for sleeping.\<close>

definition notify_setval :: "nat \<Rightarrow> shm \<Rightarrow> os \<Rightarrow> shm \<times> os" where
  "notify_setval v m k =
     (if sm_conditionIDSysV m \<noteq> - 1
      then (let (r, k) = semctl_setval (sm_conditionIDSysV m) v k
            in (if r = - 1 then m\<lparr>sm_broken := True\<rparr> else m, k))
      else (m, k))"

definition notifyAllSysV :: "shm \<Rightarrow> os \<Rightarrow> shm \<times> os" where
  "notifyAllSysV m k = (let (m, k) = notify_setval 0 m k in notify_setval 1 m k)"

definition validSysV :: "shm \<Rightarrow> bool" where
  "validSysV m \<longleftrightarrow> sm_sharedMemoryIDSysV m \<noteq> - 1 \<and> sm_sharedMemory m \<noteq> Null \<and> 0 < sm_size m \<and>
     sm_mutexIDSysV m \<noteq> - 1 \<and> sm_conditionIDSysV m \<noteq> - 1"

definition deinitSysV :: "shm \<Rightarrow> os \<Rightarrow> shm \<times> os" where
  "deinitSysV m k =
     (let (m, k) =
            (if sm_sharedMemory m \<noteq> Null
             then (m\<lparr>sm_fdForTimeStamping := - 1\<rparr>, close_file (sm_fdForTimeStamping m) k) else (m, k))
      in if \<not> sm_hasOnlyAttachedToSharedMemory m
         then (let (m, k) = notifyAllSysV m k;
                   k = (if sm_conditionIDSysV m \<noteq> - 1 then semctl_rmid (sm_conditionIDSysV m) k else k);
                   k = (if sm_mutexIDSysV m \<noteq> - 1 then semctl_rmid (sm_mutexIDSysV m) k else k);
                   k = (if sm_sharedMemoryIDSysV m \<noteq> - 1 then shmctl_rmid (sm_sharedMemoryIDSysV m) k else k)
               in (m, unlink (sm_name m) k))
         else (m, k))"

section \<open>The POSIX implementation\<close>

text \<open>The size of \<open>SharedMemoryHeader\<close> on a 64-bit machine: the size, a mutex and a condition.\<close>

definition HEADER_SIZE :: nat where "HEADER_SIZE = 96"

text \<open>
  \<open>None\<close>: the memory is accessed behind the end of the object, which ends the program.
\<close>

definition initPOSIX_map :: "shm \<Rightarrow> os \<Rightarrow> (shm \<times> os) option" where
  "initPOSIX_map m k =
     (case mmap (sm_fd m) k of
        Mapped i \<Rightarrow>
          (let m = m\<lparr>sm_sharedMemory := Mapped i, sm_sharedMemoryHeader := Mapped i\<rparr> in
           if po_length (os_posix k ! i) < HEADER_SIZE then None
           else if 0 < sm_size m
           then Some (m\<lparr>sm_userAccessibleSharedMemory := Mapped i\<rparr>,
                      posix_update i (\<lambda>ob. ob\<lparr>po_size := sm_size m, po_mutex := M_free, po_sleepers := []\<rparr>) k)
           else Some (m\<lparr>sm_hasOnlyAttachedToSharedMemory := True, sm_size := po_size (os_posix k ! i),
                        sm_userAccessibleSharedMemory := Mapped i\<rparr>, k))
      | p \<Rightarrow> Some (m\<lparr>sm_sharedMemory := p\<rparr>, k))"

definition initPOSIX :: "shm \<Rightarrow> os \<Rightarrow> (shm \<times> os) option" where
  "initPOSIX m k =
     (let create = 0 < sm_size m;
          (fd, k) = shm_open (sm_name m) create k;
          (fd, k) =
            (if fd = - 1 \<and> create
             then (let (r, k) = shm_unlink (sm_name m) k
                   in if r = 0 then shm_open (sm_name m) True k else (fd, k))
             else (fd, k));
          m = m\<lparr>sm_fd := fd\<rparr>
      in if fd = - 1 then Some (m, k)
         else
           (let (retVal, k) = (if create then ftruncate fd (HEADER_SIZE + unat (sm_size m)) k else (True, k))
            in if retVal
               then map_option (\<lambda>(m, k). (m\<lparr>sm_fdForTimeStamping := sm_fd m\<rparr>, k)) (initPOSIX_map m k)
               else Some (m\<lparr>sm_fd := - 1\<rparr>, snd (shm_unlink (sm_name m) k))))"

definition deinitPOSIX :: "shm \<Rightarrow> os \<Rightarrow> os" where
  "deinitPOSIX m k =
     (let k = (case sm_sharedMemoryHeader m of
                 Mapped i \<Rightarrow>
                   if \<not> sm_hasOnlyAttachedToSharedMemory m
                   then posix_update i (\<lambda>ob. ob\<lparr>po_mutex := M_none, po_sleepers := []\<rparr>) k else k
               | _ \<Rightarrow> k)
      in if \<not> sm_hasOnlyAttachedToSharedMemory m \<and> sm_fd m \<noteq> - 1 then snd (shm_unlink (sm_name m) k) else k)"

definition lockPOSIX :: "nat \<Rightarrow> shm \<Rightarrow> os \<Rightarrow> (shm \<times> os) option" where
  "lockPOSIX t m k =
     (case sm_sharedMemoryHeader m of
        Mapped i \<Rightarrow>
          (case pthread_mutex_lock t (po_mutex (os_posix k ! i)) of
             None \<Rightarrow> None
           | Some (retVal, x) \<Rightarrow>
               Some (if retVal = EOWNERDEAD then m else if retVal \<noteq> 0 then m\<lparr>sm_broken := True\<rparr> else m,
                     posix_update i (\<lambda>ob. ob\<lparr>po_mutex := x\<rparr>) k))
      | _ \<Rightarrow> Some (m, k))"

definition unlockPOSIX :: "nat \<Rightarrow> shm \<Rightarrow> os \<Rightarrow> shm \<times> os" where
  "unlockPOSIX t m k =
     (case sm_sharedMemoryHeader m of
        Mapped i \<Rightarrow>
          (let (r, x) = pthread_mutex_unlock t (po_mutex (os_posix k ! i))
           in (if r \<noteq> 0 then m\<lparr>sm_broken := True\<rparr> else m, posix_update i (\<lambda>ob. ob\<lparr>po_mutex := x\<rparr>) k))
      | _ \<Rightarrow> (m, k))"

definition notifyAllPOSIX :: "shm \<Rightarrow> os \<Rightarrow> shm \<times> os" where
  "notifyAllPOSIX m k =
     (case sm_sharedMemoryHeader m of
        Mapped i \<Rightarrow> (m, posix_update i (\<lambda>ob. ob\<lparr>po_sleepers := []\<rparr>) k)
      | _ \<Rightarrow> (m, k))"

text \<open>
  \<open>waitPOSIX\<close> behind \<open>lock\<close>: \<open>pthread_cond_wait\<close> gives the mutex away and sleeps; woken, it takes
  the mutex again, and \<open>unlock\<close> follows.
\<close>

definition waitPOSIX_sleep :: "nat \<Rightarrow> shm \<Rightarrow> os \<Rightarrow> os" where
  "waitPOSIX_sleep t m k =
     (case sm_sharedMemoryHeader m of
        Mapped i \<Rightarrow>
          posix_update i (\<lambda>ob. ob\<lparr>po_mutex := snd (pthread_mutex_unlock t (po_mutex ob)),
            po_sleepers := t # po_sleepers ob\<rparr>) k
      | _ \<Rightarrow> k)"

definition waitPOSIX_woken :: "nat \<Rightarrow> shm \<Rightarrow> os \<Rightarrow> (shm \<times> os) option" where
  "waitPOSIX_woken t m k =
     (case sm_sharedMemoryHeader m of
        Mapped i \<Rightarrow>
          (case pthread_mutex_lock t (po_mutex (os_posix k ! i)) of
             None \<Rightarrow> None
           | Some (r, x) \<Rightarrow>
               (let (m, k) = unlockPOSIX t (if r \<noteq> 0 then m\<lparr>sm_broken := True\<rparr> else m)
                      (posix_update i (\<lambda>ob. ob\<lparr>po_mutex := x\<rparr>) k)
                in Some (m\<lparr>sm_isLocked := False\<rparr>, k)))
      | _ \<Rightarrow> Some (m, k))"

definition validPOSIX :: "shm \<Rightarrow> bool" where
  "validPOSIX m \<longleftrightarrow> sm_fd m \<noteq> - 1 \<and> sm_sharedMemory m \<noteq> Failed"

section \<open>The public operations\<close>

definition MAX_LENGTH_NAME :: nat where "MAX_LENGTH_NAME = 254"

text \<open>The names that the constructor computes: of the memory, and of the file for time stamps.\<close>

definition shm_names :: "bool \<Rightarrow> cstring \<Rightarrow> cstring \<times> cstring" where
  "shm_names usePOSIX name =
     (let n = take MAX_LENGTH_NAME name;
          m_name = (if hd n \<noteq> 47 then [47] else []);
          (m_name, m_nameForTimeStamping) =
            (if take 4 n \<noteq> str ''/tmp''
             then (let ts = str ''/tmp'' @ m_name in (if \<not> usePOSIX then ts else m_name, ts))
             else (m_name, []))
      in (take MAX_LENGTH_NAME (m_name @ n), take MAX_LENGTH_NAME (m_nameForTimeStamping @ n)))"

definition SharedMemory_new :: "bool \<Rightarrow> cstring \<Rightarrow> uint32 \<Rightarrow> os \<Rightarrow> (shm \<times> os) option" where
  "SharedMemory_new usePOSIX name bytes k =
     (let m = shm_init bytes in
      if name = [] then Some (m, k)
      else
        (let (n, ts) = shm_names usePOSIX name;
             m = m\<lparr>sm_usePOSIX := usePOSIX, sm_name := n, sm_nameForTimeStamping := ts\<rparr>
         in if usePOSIX then initPOSIX m k else Some (initSysV m k)))"

definition SharedMemory_destroy :: "shm \<Rightarrow> os \<Rightarrow> os" where
  "SharedMemory_destroy m k = (if sm_usePOSIX m then deinitPOSIX m k else snd (deinitSysV m k))"

text \<open>
  \<open>lock\<close> and \<open>unlock\<close> called by thread \<open>t\<close> of process \<open>p\<close>; \<open>None\<close> when the thread has to wait.
\<close>

definition shm_lock :: "nat \<Rightarrow> nat \<Rightarrow> shm \<Rightarrow> os \<Rightarrow> (shm \<times> os) option" where
  "shm_lock p t m k =
     map_option (\<lambda>(m, k). (m\<lparr>sm_isLocked := True\<rparr>, k))
       (if sm_usePOSIX m then lockPOSIX t m k else lockSysV p m k)"

definition shm_unlock :: "nat \<Rightarrow> nat \<Rightarrow> shm \<Rightarrow> os \<Rightarrow> (shm \<times> os) option" where
  "shm_unlock p t m k =
     map_option (\<lambda>(m, k). (m\<lparr>sm_isLocked := False\<rparr>, k))
       (if sm_usePOSIX m then Some (unlockPOSIX t m k) else unlockSysV p m k)"

definition shm_notifyAll :: "shm \<Rightarrow> os \<Rightarrow> shm \<times> os" where
  "shm_notifyAll m k = (if sm_usePOSIX m then notifyAllPOSIX m k else notifyAllSysV m k)"

definition shm_valid :: "shm \<Rightarrow> bool" where
  "shm_valid m \<longleftrightarrow> \<not> sm_broken m \<and> sm_sharedMemory m \<noteq> Null \<and> 0 < sm_size m \<and>
     (if sm_usePOSIX m then validPOSIX m else validSysV m)"

definition setTimeStamp :: "TimeStamp \<Rightarrow> shm \<Rightarrow> os \<Rightarrow> bool \<times> os" where
  "setTimeStamp ts m k =
     (if sm_isLocked m
      then (let (r, k) = futimens (sm_fdForTimeStamping m) (sint (ts_seconds ts)) (sint (ts_microseconds ts * 1000)) k
            in (r = 0, k))
      else (False, k))"

definition getTimeStamp :: "shm \<Rightarrow> os \<Rightarrow> bool \<times> TimeStamp" where
  "getTimeStamp m k =
     (sm_isLocked m,
      if sm_isLocked m
      then (case fstat (sm_fdForTimeStamping m) k of
              None \<Rightarrow> TimeStamp_new
            | Some (sec, nsec) \<Rightarrow>
                TimeStamp_new\<lparr>ts_seconds := of_int sec, ts_microseconds := of_int (nsec sdiv 1000)\<rparr>)
      else TimeStamp_new)"

end
