(* ===== verification/SharedMemAreas.thy ===== *)
theory SharedMemAreas
  imports SharedMem
begin

text \<open>
  Areas of shared memory: creating one, attaching to it by its name, handing over its lock and its
  time stamp, creating one of a name that is in use. The lock is a contract (\<open>shared_lock\<close>) that both
  implementations keep.
\<close>

text \<open>
  An operating system that refuses nothing, gives a key of their own to files and purposes, and
  has one object for a key.
\<close>

definition unique_keys :: "int option list \<Rightarrow> bool" where
  "unique_keys ks \<longleftrightarrow> (\<forall>i<length ks. \<forall>j<length ks. \<forall>x. ks ! i = Some x \<longrightarrow> ks ! j = Some x \<longrightarrow> i = j)"

definition os_ok :: "os \<Rightarrow> bool" where
  "os_ok k \<longleftrightarrow> (\<forall>c. \<not> os_refuses k c) \<and>
     (\<forall>f g. \<forall>i\<in>{1, 2, 3}. \<forall>j\<in>{1, 2, 3}. os_ftok k f i = os_ftok k g j \<longrightarrow> f = g \<and> i = j) \<and>
     (\<forall>f. \<forall>i\<in>{1, 2, 3}. os_ftok k f i \<noteq> - 1) \<and>
     unique_keys (map seg_key (os_segments k)) \<and> unique_keys (map sem_key (os_semaphores k))"

lemma find_upt: "find P [0..<n] = Some i \<longleftrightarrow> i < n \<and> P i \<and> (\<forall>j<i. \<not> P j)"
  by (auto simp: find_Some_iff)

lemma unique_keysD:
  "unique_keys ks \<Longrightarrow> ks ! i = Some x \<Longrightarrow> ks ! j = Some x \<Longrightarrow> i < length ks \<Longrightarrow> j < length ks \<Longrightarrow> i = j"
  by (auto simp: unique_keys_def)

lemma find_key:
  assumes "unique_keys (map f xs)"
  shows "find (\<lambda>i. f (xs ! i) = Some key) [0..<length xs] = Some i \<longleftrightarrow> i < length xs \<and> f (xs ! i) = Some key"
proof -
  have "j = i" if "i < length xs" "f (xs ! i) = Some key" "j < length xs" "f (xs ! j) = Some key" for j
    by (rule unique_keysD [OF assms, of j key]) (use that in simp_all)
  then show ?thesis unfolding find_upt
    by (metis order_less_trans order_less_irrefl)
qed

lemma find_key_None:
  "find (\<lambda>i. f (xs ! i) = Some key) [0..<length xs] = None \<longleftrightarrow> (\<forall>i<length xs. f (xs ! i) \<noteq> Some key)"
  by (auto simp: find_None_iff)

lemma unique_keys_append:
  assumes "unique_keys ks" and "x \<notin> set ks"
  shows "unique_keys (ks @ [x])"
  unfolding unique_keys_def
proof (intro allI impI)
  fix i j y
  assume "i < length (ks @ [x])" "j < length (ks @ [x])" "(ks @ [x]) ! i = Some y" "(ks @ [x]) ! j = Some y"
  then show "i = j"
    using assms(2) unique_keysD [OF assms(1), of i y j]
    by (auto simp: nth_append less_Suc_eq in_set_conv_nth split: if_splits)
qed

lemma unique_keys_less:
  assumes "unique_keys ks" and "length ls = length ks"
    and "\<And>i x. i < length ls \<Longrightarrow> ls ! i = Some x \<Longrightarrow> ks ! i = Some x"
  shows "unique_keys ls"
  using assms by (auto simp: unique_keys_def)

text \<open>The objects with one for a key that was made anew: those that had the key have lost it.\<close>

definition fresh_object :: "('a \<Rightarrow> int option) \<Rightarrow> int \<Rightarrow> 'a list \<Rightarrow> 'a list \<Rightarrow> bool" where
  "fresh_object f key xs ys \<longleftrightarrow> length ys = Suc (length xs) \<and> f (ys ! length xs) = Some key \<and>
     unique_keys (map f ys) \<and>
     (\<forall>i<length xs. (if f (xs ! i) = Some key then f (ys ! i) = None else ys ! i = xs ! i))"

lemma fresh_objectI:
  assumes "unique_keys (map f xs)" and "length zs = length xs" and "f y = Some key"
    and "\<And>i. i < length xs \<Longrightarrow> (if f (xs ! i) = Some key then f (zs ! i) = None else zs ! i = xs ! i)"
  shows "fresh_object f key xs (zs @ [y])"
proof -
  have old: "f (xs ! i) = Some x \<and> x \<noteq> key" if "i < length xs" "f (zs ! i) = Some x" for i x
    using assms(4) [OF that(1)] that(2) by (metis option.distinct(1) option.inject)
  have u: "unique_keys (map f zs)"
    by (rule unique_keys_less [OF assms(1)]) (use assms(2) old in simp_all)
  have "f z \<noteq> Some key" if "z \<in> set zs" for z
    using that old assms(2) by (metis in_set_conv_nth)
  then have n: "f y \<notin> set (map f zs)" using assms(3) by force
  have "unique_keys (map f (zs @ [y]))" using unique_keys_append [OF u n] by simp
  moreover have "\<forall>i<length xs. (if f (xs ! i) = Some key then f ((zs @ [y]) ! i) = None else (zs @ [y]) ! i = xs ! i)"
    using assms(2,4) by (simp add: nth_append)
  ultimately show ?thesis
    unfolding fresh_object_def using assms(2,3) by (simp add: nth_append)
qed

lemma fresh_objectD:
  assumes "fresh_object f key xs ys"
  shows "length ys = Suc (length xs)" and "f (ys ! length xs) = Some key" and "unique_keys (map f ys)"
    and "\<forall>i<length xs. (if f (xs ! i) = Some key then f (ys ! i) = None else ys ! i = xs ! i)"
  using assms [unfolded fresh_object_def] by - (elim conjE, assumption)+

lemma find_fresh:
  assumes "fresh_object f key xs ys"
  shows "find (\<lambda>i. f (ys ! i) = Some key) [0..<length ys] = Some (length xs)"
  by (rule find_key [OF fresh_objectD(3) [OF assms], THEN iffD2]) (simp add: fresh_objectD(1,2) [OF assms])

lemma find_semaphore_iff:
  "unique_keys (map sem_key (os_semaphores k)) \<Longrightarrow>
     find_semaphore key k = Some i \<longleftrightarrow> i < length (os_semaphores k) \<and> sem_key (os_semaphores k ! i) = Some key"
  by (simp add: find_semaphore_def find_key)

lemma find_segment_iff:
  "unique_keys (map seg_key (os_segments k)) \<Longrightarrow>
     find_segment key k = Some i \<longleftrightarrow> i < length (os_segments k) \<and> seg_key (os_segments k ! i) = Some key"
  by (simp add: find_segment_def find_key)

text \<open>The objects without a key: what \<open>r\<close> makes of an object has none.\<close>

definition without_key :: "('a \<Rightarrow> int option) \<Rightarrow> ('a \<Rightarrow> 'a) \<Rightarrow> int \<Rightarrow> 'a list \<Rightarrow> 'a list" where
  "without_key f r key xs =
     (case find (\<lambda>i. f (xs ! i) = Some key) [0..<length xs] of None \<Rightarrow> xs | Some i \<Rightarrow> xs[i := r (xs ! i)])"

lemma without_key_laws:
  assumes u: "unique_keys (map f xs)" and r: "\<And>x. f (r x) = None"
  shows "length (without_key f r key xs) = length xs"
    and "i < length xs \<Longrightarrow> (if f (xs ! i) = Some key then f (without_key f r key xs ! i) = None else without_key f r key xs ! i = xs ! i)"
    and "find (\<lambda>i. f (without_key f r key xs ! i) = Some key) [0..<length xs] = None"
    and "f y = Some key \<Longrightarrow> fresh_object f key xs (without_key f r key xs @ [y])"
proof -
  let ?zs = "without_key f r key xs"
  show len: "length ?zs = length xs" by (simp add: without_key_def split: option.split)
  show keys: "(if f (xs ! i) = Some key then f (?zs ! i) = None else ?zs ! i = xs ! i)" if "i < length xs" for i
  proof (cases "find (\<lambda>i. f (xs ! i) = Some key) [0..<length xs]")
    case None
    then show ?thesis using that None [unfolded find_key_None] by (simp add: without_key_def)
  next
    case (Some j)
    then have "j < length xs" "f (xs ! j) = Some key" using find_key [OF u, of key j] by simp_all
    then show ?thesis
      using that Some r unique_keysD [OF u, of i key j] by (auto simp: without_key_def nth_list_update)
  qed
  then have "f (?zs ! j) \<noteq> Some key" if "j < length xs" for j using that by (metis option.distinct(1))
  then show "find (\<lambda>i. f (?zs ! i) = Some key) [0..<length xs] = None"
    using find_key_None [of f ?zs key] by (simp add: len)
  show "fresh_object f key xs (?zs @ [y])" if "f y = Some key"
    by (rule fresh_objectI [OF u len that keys])
qed

lemma semaphore_created:
  assumes "os_ok k"
  obtains xs where "initSysV_semaphore False key k = (int (length (os_semaphores k)), k\<lparr>os_semaphores := xs\<rparr>)"
    and "fresh_object sem_key key (os_semaphores k) xs"
    and "xs ! length (os_semaphores k) = \<lparr>sem_key = Some key, sem_val = 1, sem_adj = (\<lambda>_. 0), sem_sleepers = []\<rparr>"
proof -
  let ?xs = "os_semaphores k" and ?r = "\<lambda>s. s\<lparr>sem_key := None, sem_sleepers := []\<rparr>"
  have u: "unique_keys (map sem_key ?xs)" and w: "\<And>c. \<not> os_refuses k c" using assms by (simp_all add: os_ok_def)
  define zs where "zs = without_key sem_key ?r key ?xs"
  note z = without_key_laws [where r = ?r and key = key, OF u, simplified, folded zs_def]
  define y where "y = \<lparr>sem_key = Some key, sem_val = 1, sem_adj = (\<lambda>_. 0), sem_sleepers = []\<rparr>"
  have gone: "(let orphaned = semget key k in if \<not> orphaned < 0 then semctl_rmid orphaned k else k) = k\<lparr>os_semaphores := zs\<rparr>"
  proof (cases "find_semaphore key k")
    case None
    then show ?thesis by (simp add: semget_def zs_def without_key_def find_semaphore_def)
  next
    case (Some j)
    then have "j < length ?xs" "sem_key (?xs ! j) = Some key" by (simp_all add: find_semaphore_iff [OF u])
    with Some w show ?thesis
      by (simp add: semget_def zs_def without_key_def semctl_rmid_def sem_there_def sem_update_def find_semaphore_def)
  qed
  have none: "find_semaphore key (k\<lparr>os_semaphores := zs\<rparr>) = None"
    using z(1,3) by (simp add: find_semaphore_def)
  have "initSysV_semaphore False key k = (int (length ?xs), k\<lparr>os_semaphores := zs @ [y]\<rparr>)"
    using gone none w
    by (simp add: initSysV_semaphore_def Let_def semget_create_def semctl_setval_def sem_there_def sem_update_def z(1) y_def
        nth_append list_update_append)
  then show thesis
    by (rule that) (use z(4) [of y] z(1) in \<open>simp_all add: nth_append y_def\<close>)
qed

lemma segment_created:
  assumes "os_ok k"
  obtains xs where "create_segment key n k = (int (length (os_segments k)), k\<lparr>os_segments := xs\<rparr>)"
    and "fresh_object seg_key key (os_segments k) xs"
    and "xs ! length (os_segments k) = \<lparr>seg_key = Some key, seg_size = unat n\<rparr>"
proof -
  let ?xs = "os_segments k" and ?r = "\<lambda>s. s\<lparr>seg_key := None\<rparr>"
  have u: "unique_keys (map seg_key ?xs)" and w: "\<And>c. \<not> os_refuses k c" using assms by (simp_all add: os_ok_def)
  define zs where "zs = without_key seg_key ?r key ?xs"
  note z = without_key_laws [where r = ?r and key = key, OF u, simplified, folded zs_def]
  define y where "y = \<lparr>seg_key = Some key, seg_size = unat n\<rparr>"
  have gone: "(let orphaned = shmget key k in if \<not> orphaned < 0 then shmctl_rmid orphaned k else k) = k\<lparr>os_segments := zs\<rparr>"
  proof (cases "find_segment key k")
    case None
    then show ?thesis by (simp add: shmget_def zs_def without_key_def find_segment_def)
  next
    case (Some j)
    then have "j < length ?xs" "seg_key (?xs ! j) = Some key" by (simp_all add: find_segment_iff [OF u])
    with Some w show ?thesis
      by (simp add: shmget_def zs_def without_key_def shmctl_rmid_def find_segment_def)
  qed
  have none: "find_segment key (k\<lparr>os_segments := zs\<rparr>) = None"
    using z(1,3) by (simp add: find_segment_def)
  have "create_segment key n k = (int (length ?xs), k\<lparr>os_segments := zs @ [y]\<rparr>)"
    using gone none w by (simp add: create_segment_def Let_def shmget_create_def z(1) y_def)
  then show thesis
    by (rule that) (use z(4) [of y] z(1) in \<open>simp_all add: nth_append y_def\<close>)
qed

section \<open>Creating and attaching\<close>

text \<open>
  The area of a name: its token file, a segment, and two semaphores with the keys of this file.
  An instance that shows it.
\<close>

definition has_area :: "os \<Rightarrow> cstring \<Rightarrow> nat \<Rightarrow> nat \<Rightarrow> nat \<Rightarrow> uint32 \<Rightarrow> bool" where
  "has_area k n s a b sz \<longleftrightarrow>
     (case map_of (os_files k) n of
        None \<Rightarrow> False
      | Some f \<Rightarrow>
          s < length (os_segments k) \<and> os_segments k ! s = \<lparr>seg_key = Some (os_ftok k f 1), seg_size = unat sz\<rparr> \<and>
          a < length (os_semaphores k) \<and> sem_key (os_semaphores k ! a) = Some (os_ftok k f 2) \<and>
          b < length (os_semaphores k) \<and> sem_key (os_semaphores k ! b) = Some (os_ftok k f 3))"

definition shows_area :: "shm \<Rightarrow> cstring \<Rightarrow> nat \<Rightarrow> nat \<Rightarrow> nat \<Rightarrow> uint32 \<Rightarrow> bool" where
  "shows_area m n s a b sz \<longleftrightarrow>
     sm_name m = n \<and> \<not> sm_usePOSIX m \<and> sm_size m = sz \<and> sm_sharedMemory m = Mapped s \<and>
     sm_userAccessibleSharedMemory m = Mapped s \<and> \<not> sm_broken m \<and> \<not> sm_isLocked m \<and>
     sm_sharedMemoryIDSysV m = int s \<and> sm_mutexIDSysV m = int a \<and> sm_conditionIDSysV m = int b"

lemma shows_area_valid: "shows_area m n s a b sz \<Longrightarrow> 0 < sz \<Longrightarrow> shm_valid m"
  by (simp add: shows_area_def shm_valid_def validSysV_def)

lemma os_ok_change:
  "os_ok (k\<lparr>os_files := x\<rparr>) = os_ok k" "os_ok (k\<lparr>os_next_file := y\<rparr>) = os_ok k"
  "os_ok (k\<lparr>os_fds := z\<rparr>) = os_ok k" "os_ok (k\<lparr>os_mtime := t\<rparr>) = os_ok k"
  by (simp_all add: os_ok_def)

lemma os_ok_semaphores:
  "os_ok k \<Longrightarrow> fresh_object sem_key key xs ys \<Longrightarrow> os_ok (k\<lparr>os_semaphores := ys\<rparr>)"
  by (simp add: os_ok_def fresh_objectD)

lemma os_ok_segments:
  "os_ok k \<Longrightarrow> fresh_object seg_key key xs ys \<Longrightarrow> os_ok (k\<lparr>os_segments := ys\<rparr>)"
  by (simp add: os_ok_def fresh_objectD)

lemma create_file_ok:
  assumes "os_ok k"
  obtains files nx f where "create_file n k = (True, k\<lparr>os_files := files, os_next_file := nx\<rparr>)"
    and "map_of files n = Some f" and "\<And>n'. n' \<noteq> n \<Longrightarrow> map_of files n' = map_of (os_files k) n'"
    and "\<And>g. map_of (os_files k) n = Some g \<Longrightarrow> f = g"
proof (cases "map_of (os_files k) n")
  case None
  show thesis
    by (rule that [where files = "(n, os_next_file k) # os_files k" and nx = "Suc (os_next_file k)" and f = "os_next_file k"])
      (use assms None in \<open>simp_all add: create_file_def file_exists_def os_ok_def\<close>)
next
  case (Some g)
  have k: "k\<lparr>os_files := os_files k, os_next_file := os_next_file k\<rparr> = k" by simp
  show thesis
    by (rule that [where files = "os_files k" and nx = "os_next_file k" and f = g])
      (use assms Some in \<open>simp_all add: create_file_def file_exists_def os_ok_def k\<close>)
qed

lemma shm_create:
  assumes ok: "os_ok k" and name: "name \<noteq> []" and sz: "0 < sz" and n: "n = fst (shm_names False name)"
  obtains m k' where "SharedMemory_new False name sz k = Some (m, k')" and "os_ok k'"
    and "shows_area m n (length (os_segments k)) (length (os_semaphores k)) (Suc (length (os_semaphores k))) sz"
    and "has_area k' n (length (os_segments k)) (length (os_semaphores k)) (Suc (length (os_semaphores k))) sz"
    and "\<not> sm_hasOnlyAttachedToSharedMemory m"
    and "length (os_semaphores k') = length (os_semaphores k) + 2"
    and "os_semaphores k' ! length (os_semaphores k) =
      \<lparr>sem_key = sem_key (os_semaphores k' ! length (os_semaphores k)), sem_val = 1, sem_adj = (\<lambda>_. 0), sem_sleepers = []\<rparr>"
    and "\<And>f i. map_of (os_files k) n = Some f \<Longrightarrow> i < length (os_semaphores k) \<Longrightarrow>
      sem_key (os_semaphores k ! i) = Some (os_ftok k f 2) \<or> sem_key (os_semaphores k ! i) = Some (os_ftok k f 3) \<Longrightarrow>
      \<not> sem_there (int i) k'"
    and "fd_file (sm_fdForTimeStamping m) k' = map_option Token (map_of (os_files k') n)"
proof -
  obtain files nx f where f: "create_file n k = (True, k\<lparr>os_files := files, os_next_file := nx\<rparr>)"
      "map_of files n = Some f" and g: "\<And>g. map_of (os_files k) n = Some g \<Longrightarrow> f = g"
    by (rule create_file_ok [OF ok, of n], rule that) assumption+
  let ?k1 = "k\<lparr>os_files := files, os_next_file := nx\<rparr>"
  have ok1: "os_ok ?k1" using ok by (simp add: os_ok_change)
  have w: "\<And>c. \<not> os_refuses k c" and key: "os_ftok k f 1 \<noteq> - 1" "os_ftok k f 2 \<noteq> - 1" "os_ftok k f 3 \<noteq> - 1"
    and inj: "os_ftok k f 2 \<noteq> os_ftok k f 3"
    using ok by (simp_all add: os_ok_def)
  obtain ss where s: "create_segment (os_ftok k f 1) sz ?k1 = (int (length (os_segments k)), ?k1\<lparr>os_segments := ss\<rparr>)"
    "fresh_object seg_key (os_ftok k f 1) (os_segments k) ss"
    "ss ! length (os_segments k) = \<lparr>seg_key = Some (os_ftok k f 1), seg_size = unat sz\<rparr>"
    by (rule segment_created [OF ok1, of "os_ftok k f 1" sz], rule that) simp_all
  let ?k2 = "?k1\<lparr>os_segments := ss\<rparr>"
  have ok2: "os_ok ?k2" by (rule os_ok_segments [OF ok1 s(2)])
  obtain xs where x: "initSysV_semaphore False (os_ftok k f 2) ?k2 = (int (length (os_semaphores k)), ?k2\<lparr>os_semaphores := xs\<rparr>)"
    "fresh_object sem_key (os_ftok k f 2) (os_semaphores k) xs"
    "xs ! length (os_semaphores k) = \<lparr>sem_key = Some (os_ftok k f 2), sem_val = 1, sem_adj = (\<lambda>_. 0), sem_sleepers = []\<rparr>"
    by (rule semaphore_created [OF ok2, of "os_ftok k f 2"], rule that) simp_all
  let ?k3 = "?k2\<lparr>os_semaphores := xs\<rparr>"
  have ok3: "os_ok ?k3" by (rule os_ok_semaphores [OF ok2 x(2)])
  obtain ys where y: "initSysV_semaphore False (os_ftok k f 3) ?k3 = (int (length xs), ?k3\<lparr>os_semaphores := ys\<rparr>)"
    "fresh_object sem_key (os_ftok k f 3) xs ys"
    "ys ! length xs = \<lparr>sem_key = Some (os_ftok k f 3), sem_val = 1, sem_adj = (\<lambda>_. 0), sem_sleepers = []\<rparr>"
    by (rule semaphore_created [OF ok3, of "os_ftok k f 3"], rule that) simp_all
  let ?a = "length (os_semaphores k)"
  have len: "length xs = Suc ?a" "length ys = Suc (Suc ?a)" using x(2) y(2) by (simp_all add: fresh_objectD(1))
  have a: "ys ! ?a = xs ! ?a"
    using fresh_objectD(4) [OF y(2), rule_format, of ?a] x(3) inj len by (simp split: if_splits)
  let ?k4 = "?k3\<lparr>os_semaphores := ys\<rparr>"
  have ok4: "os_ok ?k4" by (rule os_ok_semaphores [OF ok3 y(2)])
  obtain ts where nt: "shm_names False name = (n, ts)" using n by (metis prod.collapse)
  let ?s = "length (os_segments k)"
  let ?m = "(shm_init sz)\<lparr>sm_usePOSIX := False, sm_name := n, sm_nameForTimeStamping := ts,
    sm_shmKeySysV := os_ftok k f 1, sm_sharedMemoryIDSysV := int ?s, sm_sharedMemory := Mapped ?s,
    sm_userAccessibleSharedMemory := Mapped ?s, sm_mutexKeySysV := os_ftok k f 2, sm_mutexIDSysV := int ?a,
    sm_conditionKeySysV := os_ftok k f 3, sm_conditionIDSysV := int (Suc ?a),
    sm_fdForTimeStamping := int (length (os_fds k))\<rparr>"
  have seg: "length ss = Suc ?s" using s(2) by (simp add: fresh_objectD(1))
  let ?k5 = "?k4\<lparr>os_fds := os_fds k @ [Some (Token f)]\<rparr>"
  have new: "SharedMemory_new False name sz k = Some (?m, ?k5)"
    using name sz f s(1,3) x(1) y(1) key w seg len(1)
    by (simp add: SharedMemory_new_def nt initSysV_def shm_init_def initSysV_segment_def initSysV_mutex_def
        initSysV_condition_def ftok_def shmat_def open_file_def Let_def)
  have gone: "\<not> sem_there (int i) ?k5"
    if "map_of (os_files k) n = Some h" "i < length (os_semaphores k)"
      "sem_key (os_semaphores k ! i) = Some (os_ftok k h 2) \<or> sem_key (os_semaphores k ! i) = Some (os_ftok k h 3)" for h i
  proof -
    have h: "f = h" by (rule g [OF that(1)])
    have "sem_key (ys ! i) = None"
      using fresh_objectD(4) [OF x(2), rule_format, OF that(2)] fresh_objectD(4) [OF y(2), rule_format, of i] that(2,3) inj len
      by (auto simp: h split: if_splits)
    then show ?thesis by (simp add: sem_there_def)
  qed
  show thesis
  proof (rule that [OF new])
    show "\<not> sem_there (int i) ?k5"
      if "map_of (os_files k) n = Some h" "i < length (os_semaphores k)"
        "sem_key (os_semaphores k ! i) = Some (os_ftok k h 2) \<or> sem_key (os_semaphores k ! i) = Some (os_ftok k h 3)" for h i
      by (rule gone [OF that])
  qed (use ok4 f s x y seg len a in \<open>simp_all add: os_ok_change shows_area_def has_area_def shm_init_def fd_file_def\<close>)
qed

lemma shm_attach:
  assumes ok: "os_ok k" and name: "name \<noteq> []" and n: "n = fst (shm_names False name)"
    and area: "has_area k n s a b sz"
  obtains m k' where "SharedMemory_new False name 0 k = Some (m, k')" and "shows_area m n s a b sz"
    and "k' = k\<lparr>os_fds := os_fds k'\<rparr>" and "sm_hasOnlyAttachedToSharedMemory m"
    and "fd_file (sm_fdForTimeStamping m) k' = map_option Token (map_of (os_files k) n)"
    and "\<And>fd f. fd_file fd k = Some f \<Longrightarrow> fd_file fd k' = Some f"
proof -
  obtain f where f: "map_of (os_files k) n = Some f"
    and s: "s < length (os_segments k)" "os_segments k ! s = \<lparr>seg_key = Some (os_ftok k f 1), seg_size = unat sz\<rparr>"
    and a: "a < length (os_semaphores k)" "sem_key (os_semaphores k ! a) = Some (os_ftok k f 2)"
    and b: "b < length (os_semaphores k)" "sem_key (os_semaphores k ! b) = Some (os_ftok k f 3)"
    using area by (auto simp: has_area_def split: option.splits)
  have w: "\<And>c. \<not> os_refuses k c" and key: "os_ftok k f 1 \<noteq> - 1" "os_ftok k f 2 \<noteq> - 1" "os_ftok k f 3 \<noteq> - 1"
    and u: "unique_keys (map seg_key (os_segments k))" "unique_keys (map sem_key (os_semaphores k))"
    using ok by (simp_all add: os_ok_def)
  obtain ts where nt: "shm_names False name = (n, ts)" using n by (metis prod.collapse)
  have fs: "find_segment (os_ftok k f 1) k = Some s" using s by (simp add: find_segment_iff [OF u(1)])
  have fa: "find_semaphore (os_ftok k f 2) k = Some a" using a by (simp add: find_semaphore_iff [OF u(2)])
  have fb: "find_semaphore (os_ftok k f 3) k = Some b" using b by (simp add: find_semaphore_iff [OF u(2)])
  let ?m = "(shm_init sz)\<lparr>sm_usePOSIX := False, sm_name := n, sm_nameForTimeStamping := ts,
    sm_hasOnlyAttachedToSharedMemory := True,
    sm_shmKeySysV := os_ftok k f 1, sm_sharedMemoryIDSysV := int s, sm_sharedMemory := Mapped s,
    sm_userAccessibleSharedMemory := Mapped s, sm_mutexKeySysV := os_ftok k f 2, sm_mutexIDSysV := int a,
    sm_conditionKeySysV := os_ftok k f 3, sm_conditionIDSysV := int b,
    sm_fdForTimeStamping := int (length (os_fds k))\<rparr>"
  have "SharedMemory_new False name 0 k = Some (?m, k\<lparr>os_fds := os_fds k @ [Some (Token f)]\<rparr>)"
    using fs fa fb name f s key w
    by (simp add: SharedMemory_new_def nt initSysV_def shm_init_def initSysV_segment_def initSysV_mutex_def
        initSysV_condition_def ftok_def shmat_def open_file_def file_exists_def shmget_def semget_def shmctl_stat_def
        initSysV_semaphore_def Let_def)
  then show thesis
    by (rule that) (use f in \<open>auto simp: shows_area_def shm_init_def fd_file_def nth_append split: if_splits\<close>)
qed

section \<open>The contract of the lock\<close>

text \<open>
  Locking and unlocking touch neither file descriptors nor time stamps.
\<close>

definition same_files :: "os \<Rightarrow> os \<Rightarrow> bool" where
  "same_files k' k \<longleftrightarrow> os_refuses k' = os_refuses k \<and> os_fds k' = os_fds k \<and> os_mtime k' = os_mtime k"

lemma lock_frame: "shm_lock p t m k = Some (m', k') \<Longrightarrow> same_files k' k"
  by (auto simp: same_files_def shm_lock_def lockSysV_def mutex_semop_def semop_def Let_def sem_update_def
      lockPOSIX_def posix_update_def split: if_splits option.splits pointer.splits prod.splits)

lemma unlock_frame: "shm_unlock p t m k = Some (m', k') \<Longrightarrow> same_files k' k"
  by (auto simp: same_files_def shm_unlock_def unlockSysV_def mutex_semop_def semop_def Let_def sem_update_def
      unlockPOSIX_def posix_update_def split: if_splits option.splits pointer.splits prod.splits)

lemma fd_file_cong: "os_fds k' = os_fds k \<Longrightarrow> fd_file fd k' = fd_file fd k"
  by (simp add: fd_file_def)

lemma time_stamp_set:
  assumes "sm_isLocked m" and "fd_file (sm_fdForTimeStamping m) k = Some f" and "\<forall>c. \<not> os_refuses k c"
    and "0 \<le> sint (ts_microseconds ts)" and "sint (ts_microseconds ts) < 1000000"
  shows "setTimeStamp ts m k = (True, k\<lparr>os_mtime := (os_mtime k)(f :=
    (sint (ts_seconds ts), sint (ts_microseconds ts) * 1000))\<rparr>)"
proof -
  have "sint (ts_microseconds ts * 1000) = sint (ts_microseconds ts) * 1000"
    using assms(4,5) by (simp add: sint_word_ariths signed_take_bit_int_eq_self)
  then show ?thesis using assms by (simp add: setTimeStamp_def futimens_def)
qed

lemma time_stamp_get:
  assumes "sm_isLocked m" and "fd_file (sm_fdForTimeStamping m) k = Some f" and "\<forall>c. \<not> os_refuses k c"
    and "os_mtime k f = (sint (ts_seconds ts), sint (ts_microseconds ts) * 1000)"
  shows "getTimeStamp m k = (True, ts)"
proof -
  have "x * 1000 sdiv 1000 = x" for x :: int
    by (simp add: signed_divide_int_def abs_mult sgn_mult) (metis mult.commute mult_sgn_abs)
  then show ?thesis using assms by (simp add: getTimeStamp_def fstat_def TimeStamp_new_def)
qed

text \<open>
  What the clients of an area rely on, whichever calls implement it: a free lock is taken, nobody
  else passes while it is held, \<open>unlock\<close> frees it, and neither has to do with files and their times. \<open>area\<close> is
  the lock an instance uses, \<open>free\<close> and \<open>held\<close> its states.
\<close>

locale shared_lock =
  fixes lock unlock :: "nat \<Rightarrow> nat \<Rightarrow> shm \<Rightarrow> os \<Rightarrow> (shm \<times> os) option"
    and area :: "shm \<Rightarrow> nat option"
    and free :: "nat \<Rightarrow> os \<Rightarrow> bool" and held :: "nat \<Rightarrow> nat \<Rightarrow> os \<Rightarrow> bool"
  assumes lock_free: "area m = Some i \<Longrightarrow> free i k \<Longrightarrow> \<exists>k'. lock p t m k = Some (m\<lparr>sm_isLocked := True\<rparr>, k') \<and> held i t k'"
    and lock_held: "area m = Some i \<Longrightarrow> held i t k \<Longrightarrow> lock q u m k = None"
    and unlock_held: "area m = Some i \<Longrightarrow> held i t k \<Longrightarrow>
      \<exists>k'. unlock p t m k = Some (m\<lparr>sm_isLocked := False\<rparr>, k') \<and> free i k'"
    and area_isLocked: "area (m\<lparr>sm_isLocked := b\<rparr>) = area m"
    and lock_files: "lock p t m k = Some (m', k') \<Longrightarrow> same_files k' k"
    and unlock_files: "unlock p t m k = Some (m', k') \<Longrightarrow> same_files k' k"
    and held_mtime: "held i t (k\<lparr>os_mtime := x\<rparr>) = held i t k"
begin

lemma hand_over:
  assumes "area m = Some i" and "area m2 = Some i" and "free i k"
  obtains k3 k4 k5 where "lock p t m k = Some (m\<lparr>sm_isLocked := True\<rparr>, k3)" and "lock q u m2 k3 = None"
    and "unlock p t (m\<lparr>sm_isLocked := True\<rparr>) k3 = Some (m\<lparr>sm_isLocked := False\<rparr>, k4)"
    and "lock q u m2 k4 = Some (m2\<lparr>sm_isLocked := True\<rparr>, k5)"
proof -
  obtain k3 where k3: "lock p t m k = Some (m\<lparr>sm_isLocked := True\<rparr>, k3)" "held i t k3"
    using lock_free [OF assms(1,3)] by blast
  obtain k4 where k4: "unlock p t (m\<lparr>sm_isLocked := True\<rparr>) k3 = Some (m\<lparr>sm_isLocked := False\<rparr>, k4)" "free i k4"
    using unlock_held [of "m\<lparr>sm_isLocked := True\<rparr>" i t k3 p] k3(2) assms(1) by (auto simp: area_isLocked)
  obtain k5 where "lock q u m2 k4 = Some (m2\<lparr>sm_isLocked := True\<rparr>, k5)"
    using lock_free [OF assms(2) k4(2)] by blast
  then show thesis using that k3(1) k4(1) lock_held [OF assms(2) k3(2)] by blast
qed

lemma hand_over_time_stamp:
  assumes "area m = Some i" and "area m2 = Some i" and "free i k"
    and "fd_file (sm_fdForTimeStamping m) k = Some f" and "fd_file (sm_fdForTimeStamping m2) k = Some f"
    and "\<forall>c. \<not> os_refuses k c" and "0 \<le> sint (ts_microseconds ts)" and "sint (ts_microseconds ts) < 1000000"
  obtains k3 k4 k5 k6 where "lock p t m k = Some (m\<lparr>sm_isLocked := True\<rparr>, k3)"
    and "setTimeStamp ts (m\<lparr>sm_isLocked := True\<rparr>) k3 = (True, k4)"
    and "unlock p t (m\<lparr>sm_isLocked := True\<rparr>) k4 = Some (m\<lparr>sm_isLocked := False\<rparr>, k5)"
    and "lock q u m2 k5 = Some (m2\<lparr>sm_isLocked := True\<rparr>, k6)"
    and "getTimeStamp (m2\<lparr>sm_isLocked := True\<rparr>) k6 = (True, ts)"
proof -
  let ?m = "m\<lparr>sm_isLocked := True\<rparr>" and ?m2 = "m2\<lparr>sm_isLocked := True\<rparr>"
  obtain k3 where k3: "lock p t m k = Some (?m, k3)" "held i t k3" using lock_free [OF assms(1,3)] by blast
  define k4 where "k4 = k3\<lparr>os_mtime := (os_mtime k3)(f := (sint (ts_seconds ts), sint (ts_microseconds ts) * 1000))\<rparr>"
  note f3 = lock_files [OF k3(1), unfolded same_files_def]
  have set: "setTimeStamp ts ?m k3 = (True, k4)"
    unfolding k4_def by (rule time_stamp_set) (use assms(4,6-8) f3 in \<open>simp_all add: fd_file_cong [of k3 k]\<close>)
  have "held i t k4" using k3(2) by (simp add: held_mtime k4_def)
  then obtain k5 where k5: "unlock p t ?m k4 = Some (m\<lparr>sm_isLocked := False\<rparr>, k5)" "free i k5"
    using unlock_held [of ?m i t k4 p] assms(1) by (auto simp: area_isLocked)
  obtain k6 where k6: "lock q u m2 k5 = Some (?m2, k6)" using lock_free [OF assms(2) k5(2)] by blast
  note f6 = unlock_files [OF k5(1), unfolded same_files_def] lock_files [OF k6, unfolded same_files_def]
  have "os_fds k6 = os_fds k" using f3 f6 by (simp add: k4_def)
  then have "fd_file (sm_fdForTimeStamping m2) k6 = Some f" using assms(5) fd_file_cong by metis
  then have "getTimeStamp ?m2 k6 = (True, ts)"
    by (intro time_stamp_get [where f = f]) (use assms(6) f3 f6 in \<open>simp_all add: k4_def\<close>)
  then show thesis by (rule that [OF k3(1) set k5(1) k6])
qed

end

definition sysv_area :: "shm \<Rightarrow> nat option" where
  "sysv_area m = (if sm_usePOSIX m \<or> sm_mutexIDSysV m < 0 then None else Some (nat (sm_mutexIDSysV m)))"

definition sysv_free :: "nat \<Rightarrow> os \<Rightarrow> bool" where
  "sysv_free i k \<longleftrightarrow> sem_there (int i) k \<and> sem_val (os_semaphores k ! i) = 1"

definition sysv_held :: "nat \<Rightarrow> nat \<Rightarrow> os \<Rightarrow> bool" where
  "sysv_held i t k \<longleftrightarrow> sem_there (int i) k \<and> sem_val (os_semaphores k ! i) = 0"

definition posix_area :: "shm \<Rightarrow> nat option" where
  "posix_area m = (if sm_usePOSIX m then case sm_sharedMemoryHeader m of Mapped i \<Rightarrow> Some i | _ \<Rightarrow> None else None)"

definition posix_free :: "nat \<Rightarrow> os \<Rightarrow> bool" where
  "posix_free i k \<longleftrightarrow> i < length (os_posix k) \<and> po_mutex (os_posix k ! i) = M_free"

definition posix_held :: "nat \<Rightarrow> nat \<Rightarrow> os \<Rightarrow> bool" where
  "posix_held i t k \<longleftrightarrow> i < length (os_posix k) \<and> po_mutex (os_posix k ! i) = M_held t False"

lemma sysv_areaE:
  assumes "sysv_area m = Some i"
  obtains "\<not> sm_usePOSIX m" and "sm_mutexIDSysV m = int i"
  using assms by (auto simp: sysv_area_def split: if_splits)

lemma posix_areaE:
  assumes "posix_area m = Some i"
  obtains "sm_usePOSIX m" and "sm_sharedMemoryHeader m = Mapped i"
  using assms by (auto simp: posix_area_def split: if_splits pointer.splits)

lemma sem_there_update:
  "\<forall>x. sem_key (f x) = sem_key x \<Longrightarrow> sem_there i (sem_update i f k) = sem_there i k"
  by (auto simp: sem_there_def sem_update_def nth_list_update)

lemma sem_update_at: "sem_there i k \<Longrightarrow> os_semaphores (sem_update i f k) ! nat i = f (os_semaphores k ! nat i)"
  by (simp add: sem_there_def sem_update_def)

lemmas sysv_lock_defs = shm_lock_def shm_unlock_def lockSysV_def unlockSysV_def mutex_semop_def semop_def
  sysv_free_def sysv_held_def Let_def

interpretation sysv: shared_lock shm_lock shm_unlock sysv_area sysv_free sysv_held
proof (unfold_locales, goal_cases)
  case (1 m i k p t)
  then show ?case using sem_update_at [of "int i" k]
    by (elim sysv_areaE) (simp add: sysv_lock_defs sem_there_update)
next
  case (2 m i t k q u)
  then show ?case by (elim sysv_areaE) (simp add: sysv_lock_defs)
next
  case (3 m i t k p)
  then show ?case using sem_update_at [of "int i" k]
    by (elim sysv_areaE) (simp add: sysv_lock_defs sem_there_update)
qed (simp_all add: sysv_area_def lock_frame unlock_frame sysv_held_def sem_there_def)

lemmas posix_lock_defs = shm_lock_def shm_unlock_def lockPOSIX_def unlockPOSIX_def posix_update_def
  posix_free_def posix_held_def Let_def

interpretation posix: shared_lock shm_lock shm_unlock posix_area posix_free posix_held
proof (unfold_locales, goal_cases)
  case (1 m i k p t)
  then show ?case by (elim posix_areaE) (simp add: posix_lock_defs)
next
  case (2 m i t k q u)
  then show ?case by (elim posix_areaE) (simp add: posix_lock_defs)
next
  case (3 m i t k p)
  then show ?case by (elim posix_areaE) (simp add: posix_lock_defs)
qed (simp_all add: posix_area_def lock_frame unlock_frame posix_held_def)

section \<open>Creating and attaching\<close>

text \<open>What a new object of POSIX shared memory holds when the constructor has returned.\<close>

definition new_object :: "uint32 \<Rightarrow> posix_object" where
  "new_object sz = \<lparr>po_length = HEADER_SIZE + unat sz, po_size = sz, po_mutex = M_free, po_sleepers = []\<rparr>"

text \<open>An instance of an object, with its descriptor and whether it created it.\<close>

definition shows_object :: "shm \<Rightarrow> cstring \<Rightarrow> nat \<Rightarrow> nat \<Rightarrow> bool \<Rightarrow> uint32 \<Rightarrow> bool" where
  "shows_object m n i fd attached sz \<longleftrightarrow>
     sm_name m = n \<and> sm_usePOSIX m \<and> sm_size m = sz \<and> sm_sharedMemory m = Mapped i \<and>
     sm_sharedMemoryHeader m = Mapped i \<and> sm_userAccessibleSharedMemory m = Mapped i \<and> \<not> sm_broken m \<and>
     sm_fd m = int fd \<and> sm_fdForTimeStamping m = int fd \<and> sm_hasOnlyAttachedToSharedMemory m = attached"

lemma shows_object:
  assumes "shows_object m n i fd attached sz"
  shows "posix_area m = Some i" and "0 < sz \<Longrightarrow> shm_valid m" and "sm_userAccessibleSharedMemory m = Mapped i"
    and "sm_size m = sz" and "fd < length (os_fds k) \<Longrightarrow> fd_file (sm_fdForTimeStamping m) k = os_fds k ! fd"
  using assms by (simp_all add: shows_object_def posix_area_def shm_valid_def validPOSIX_def fd_file_def)

lemma posix_create:
  assumes ok: "\<forall>c. \<not> os_refuses k c" and name: "name \<noteq> []" and sz: "0 < sz"
    and n: "n = fst (shm_names True name)" "47 \<notin> set (tl n)"
  obtains m names where "map_of names n = Some (length (os_posix k))"
    and "SharedMemory_new True name sz k = Some (m, k\<lparr>os_fds := os_fds k @ [Some (Object (length (os_posix k)))],
      os_posix_names := names, os_posix := os_posix k @ [new_object sz]\<rparr>)"
    and "shows_object m n (length (os_posix k)) (length (os_fds k)) False sz"
proof -
  obtain ts where nt: "shm_names True name = (n, ts)" using n(1) by (metis prod.collapse)
  let ?i = "length (os_posix k)" and ?fd = "length (os_fds k)"
  let ?k1 = "\<lambda>names. k\<lparr>os_fds := os_fds k @ [Some (Object ?i)], os_posix_names := names, os_posix := os_posix k @ [new_object sz]\<rparr>"
  define m where "m = (shm_init sz)\<lparr>sm_usePOSIX := True, sm_name := n, sm_nameForTimeStamping := ts,
    sm_fd := int ?fd, sm_sharedMemory := Mapped ?i, sm_sharedMemoryHeader := Mapped ?i,
    sm_userAccessibleSharedMemory := Mapped ?i, sm_fdForTimeStamping := int ?fd\<rparr>"
  note defs = SharedMemory_new_def nt initPOSIX_def initPOSIX_map_def shm_init_def shm_open_def shm_unlink_def ftruncate_def
    mmap_def fd_file_def posix_update_def HEADER_SIZE_def m_def new_object_def Let_def
  have "\<exists>names. map_of names n = Some ?i \<and> SharedMemory_new True name sz k = Some (m, ?k1 names)"
  proof (cases "map_of (os_posix_names k) n")
    case None
    then have "SharedMemory_new True name sz k = Some (m, ?k1 ((n, ?i) # os_posix_names k))"
      using name sz ok n(2) by (simp add: defs)
    then show ?thesis by (intro exI conjI) simp_all
  next
    case (Some j)
    have "map_of (filter (\<lambda>p. fst p \<noteq> n) (os_posix_names k)) n = None" by (auto simp: map_of_eq_None_iff)
    with Some have "SharedMemory_new True name sz k = Some (m, ?k1 ((n, ?i) # filter (\<lambda>p. fst p \<noteq> n) (os_posix_names k)))"
      using name sz ok n(2) by (simp add: defs)
    then show ?thesis by (intro exI conjI) simp_all
  qed
  then show thesis using that by (auto simp: shows_object_def m_def shm_init_def)
qed

lemma posix_attach:
  assumes ok: "\<forall>c. \<not> os_refuses k c" and name: "name \<noteq> []" and n: "n = fst (shm_names True name)" "47 \<notin> set (tl n)"
    and i: "map_of (os_posix_names k) n = Some i" "os_posix k ! i = new_object sz"
  obtains m where "SharedMemory_new True name 0 k = Some (m, k\<lparr>os_fds := os_fds k @ [Some (Object i)]\<rparr>)"
    and "shows_object m n i (length (os_fds k)) True sz"
proof -
  obtain ts where nt: "shm_names True name = (n, ts)" using n(1) by (metis prod.collapse)
  let ?fd = "length (os_fds k)"
  define m where "m = (shm_init sz)\<lparr>sm_usePOSIX := True, sm_name := n, sm_nameForTimeStamping := ts,
    sm_hasOnlyAttachedToSharedMemory := True, sm_fd := int ?fd, sm_sharedMemory := Mapped i, sm_sharedMemoryHeader := Mapped i,
    sm_userAccessibleSharedMemory := Mapped i, sm_fdForTimeStamping := int ?fd\<rparr>"
  have "SharedMemory_new True name 0 k = Some (m, k\<lparr>os_fds := os_fds k @ [Some (Object i)]\<rparr>)"
    using name ok n(2) i
    by (simp add: SharedMemory_new_def nt initPOSIX_def initPOSIX_map_def shm_init_def shm_open_def
        mmap_def fd_file_def HEADER_SIZE_def m_def new_object_def Let_def)
  then show thesis by (rule that) (simp add: shows_object_def m_def shm_init_def)
qed

lemma posix_create_attach:
  assumes "\<forall>c. \<not> os_refuses k c" and "name \<noteq> []" and "0 < sz" and "47 \<notin> set (tl (fst (shm_names True name)))"
  obtains m k1 m2 k2 i f where "SharedMemory_new True name sz k = Some (m, k1)"
    and "SharedMemory_new True name 0 k1 = Some (m2, k2)" and "shm_valid m" and "shm_valid m2" and "sm_size m2 = sz"
    and "sm_userAccessibleSharedMemory m2 = sm_userAccessibleSharedMemory m"
    and "posix_area m = Some i" and "posix_area m2 = Some i" and "posix_free i k2"
    and "\<forall>c. \<not> os_refuses k2 c"
    and "fd_file (sm_fdForTimeStamping m) k2 = Some f" and "fd_file (sm_fdForTimeStamping m2) k2 = Some f"
proof -
  let ?i = "length (os_posix k)"
  obtain m names where names: "map_of names (fst (shm_names True name)) = Some ?i"
    and new: "SharedMemory_new True name sz k = Some (m, k\<lparr>os_fds := os_fds k @ [Some (Object ?i)],
      os_posix_names := names, os_posix := os_posix k @ [new_object sz]\<rparr>)" (is "_ = Some (m, ?k1)")
    and m: "shows_object m (fst (shm_names True name)) ?i (length (os_fds k)) False sz"
    by (rule posix_create [OF assms(1-3) refl assms(4)])
  obtain m2 where att: "SharedMemory_new True name 0 ?k1 = Some (m2, ?k1\<lparr>os_fds := os_fds ?k1 @ [Some (Object ?i)]\<rparr>)"
    and m2: "shows_object m2 (fst (shm_names True name)) ?i (length (os_fds ?k1)) True sz"
    by (rule posix_attach [of ?k1 name _ ?i sz, OF _ assms(2) refl assms(4)]) (use assms(1) names in \<open>simp_all add: nth_append_length\<close>)
  show thesis
    by (rule that [OF new att, of ?i "Object ?i"])
      (use assms(1,3) shows_object [OF m] shows_object [OF m2] in \<open>simp_all add: posix_free_def new_object_def nth_append\<close>)
qed

lemma sysv_create_attach:
  assumes "os_ok k" and "name \<noteq> []" and "0 < sz"
  obtains m k1 m2 k2 i f where "SharedMemory_new False name sz k = Some (m, k1)"
    and "SharedMemory_new False name 0 k1 = Some (m2, k2)" and "shm_valid m" and "shm_valid m2" and "sm_size m2 = sz"
    and "sm_userAccessibleSharedMemory m2 = sm_userAccessibleSharedMemory m"
    and "sysv_area m = Some i" and "sysv_area m2 = Some i" and "sysv_free i k2"
    and "\<forall>c. \<not> os_refuses k2 c"
    and "fd_file (sm_fdForTimeStamping m) k2 = Some f" and "fd_file (sm_fdForTimeStamping m2) k2 = Some f"
proof -
  let ?n = "fst (shm_names False name)" and ?a = "length (os_semaphores k)"
  obtain m k1 where m: "SharedMemory_new False name sz k = Some (m, k1)" and ok: "os_ok k1"
    and sh: "shows_area m ?n (length (os_segments k)) ?a (Suc ?a) sz"
    and ar: "has_area k1 ?n (length (os_segments k)) ?a (Suc ?a) sz"
    and x: "os_semaphores k1 ! ?a = \<lparr>sem_key = sem_key (os_semaphores k1 ! ?a), sem_val = 1, sem_adj = (\<lambda>_. 0), sem_sleepers = []\<rparr>"
    and fd: "fd_file (sm_fdForTimeStamping m) k1 = map_option Token (map_of (os_files k1) ?n)"
    by (rule shm_create [OF assms refl], rule that) assumption+
  obtain m2 k2 where m2: "SharedMemory_new False name 0 k1 = Some (m2, k2)"
    and sh2: "shows_area m2 ?n (length (os_segments k)) ?a (Suc ?a) sz" and k2: "k2 = k1\<lparr>os_fds := os_fds k2\<rparr>"
    and fd2: "fd_file (sm_fdForTimeStamping m2) k2 = map_option Token (map_of (os_files k1) ?n)"
    and fds: "\<And>fd f. fd_file fd k1 = Some f \<Longrightarrow> fd_file fd k2 = Some f"
    by (rule shm_attach [OF ok assms(2) refl ar], rule that) assumption+
  obtain f where f: "map_of (os_files k1) ?n = Some f"
    and there: "?a < length (os_semaphores k1)" "sem_key (os_semaphores k1 ! ?a) = Some (os_ftok k1 f 2)"
    by (cases "map_of (os_files k1) ?n") (use ar in \<open>simp_all add: has_area_def\<close>)
  have sems: "os_semaphores k2 = os_semaphores k1" and refuses: "os_refuses k2 = os_refuses k1"
    using arg_cong [OF k2, of os_semaphores] arg_cong [OF k2, of os_refuses] by simp_all
  have v: "sem_val (os_semaphores k1 ! ?a) = 1" using arg_cong [OF x, of sem_val] by simp
  show thesis
  proof (rule that [OF m m2, of ?a "Token f"])
    show "sysv_free ?a k2" using there v by (simp add: sysv_free_def sem_there_def sems)
    show "\<forall>c. \<not> os_refuses k2 c" using ok by (simp add: refuses os_ok_def)
  qed (use sh sh2 f fd fd2 fds shows_area_valid [OF sh assms(3)] shows_area_valid [OF sh2 assms(3)] in
      \<open>simp_all add: shows_area_def sysv_area_def\<close>)
qed

text \<open>
  C22: An area that is created can be attached to by its name, with System V and with POSIX: both
  instances are valid, the second has the size and the memory of the first, and they share one
  lock: while the first holds it, the second has to wait, and when the first has unlocked it, the second gets it.
\<close>

theorem shm_hand_over:
  assumes "os_ok k" and "name \<noteq> []" and "0 < sz" and "usePOSIX \<longrightarrow> 47 \<notin> set (tl (fst (shm_names True name)))"
  shows "\<exists>m k1 m2 k2 k3 k4 k5.
    SharedMemory_new usePOSIX name sz k = Some (m, k1) \<and> SharedMemory_new usePOSIX name 0 k1 = Some (m2, k2) \<and>
    shm_valid m \<and> shm_valid m2 \<and> sm_size m2 = sz \<and>
    sm_userAccessibleSharedMemory m2 = sm_userAccessibleSharedMemory m \<and>
    shm_lock p t m k2 = Some (m\<lparr>sm_isLocked := True\<rparr>, k3) \<and> shm_lock q u m2 k3 = None \<and>
    shm_unlock p t (m\<lparr>sm_isLocked := True\<rparr>) k3 = Some (m\<lparr>sm_isLocked := False\<rparr>, k4) \<and>
    shm_lock q u m2 k4 = Some (m2\<lparr>sm_isLocked := True\<rparr>, k5)"
proof (cases usePOSIX)
  case True
  then have ok: "\<forall>c. \<not> os_refuses k c" "47 \<notin> set (tl (fst (shm_names True name)))"
    using assms(1,4) by (simp_all add: os_ok_def)
  have "usePOSIX = True" using True by simp
  show ?thesis unfolding \<open>usePOSIX = True\<close>
    by (rule posix_create_attach [OF ok(1) assms(2,3) ok(2)], rule posix.hand_over, assumption+) blast
next
  case False
  then have "usePOSIX = False" by simp
  show ?thesis unfolding \<open>usePOSIX = False\<close>
    by (rule sysv_create_attach [OF assms(1-3)], rule sysv.hand_over, assumption+) blast
qed

section \<open>A system for the examples\<close>

definition os_sample :: os where
  "os_sample = \<lparr>os_refuses = (\<lambda>_. False), os_ftok = (\<lambda>f i. 4 * int f + i), os_files = [], os_next_file = 1,
     os_mtime = (\<lambda>_. (0, 0)), os_fds = [], os_segments = [], os_semaphores = [], os_posix_names = [], os_posix = []\<rparr>"

lemma os_sample_ok: "os_ok os_sample"
  unfolding os_ok_def os_sample_def unique_keys_def by (simp add: ball_Un) presburger

definition area_name :: cstring where "area_name = str ''/area''"

lemma area_name_nonempty: "area_name \<noteq> []" by (simp add: area_name_def)

section \<open>Properties of areas\<close>

theorem shm_hand_over_witness:
  "\<exists>m k1 m2 k2 k3 k4 k5.
    SharedMemory_new True area_name 8 os_sample = Some (m, k1) \<and> SharedMemory_new True area_name 0 k1 = Some (m2, k2) \<and>
    shm_valid m \<and> shm_valid m2 \<and> sm_size m2 = 8 \<and>
    sm_userAccessibleSharedMemory m2 = sm_userAccessibleSharedMemory m \<and>
    shm_lock 0 0 m k2 = Some (m\<lparr>sm_isLocked := True\<rparr>, k3) \<and> shm_lock 1 1 m2 k3 = None \<and>
    shm_unlock 0 0 (m\<lparr>sm_isLocked := True\<rparr>) k3 = Some (m\<lparr>sm_isLocked := False\<rparr>, k4) \<and>
    shm_lock 1 1 m2 k4 = Some (m2\<lparr>sm_isLocked := True\<rparr>, k5)"
proof (rule shm_hand_over [OF os_sample_ok area_name_nonempty])
  show "True \<longrightarrow> 47 \<notin> set (tl (fst (shm_names True area_name)))" by code_simp
qed simp

lemma destroy_unlinks:
  assumes "\<not> sm_hasOnlyAttachedToSharedMemory m" and "\<not> sm_usePOSIX m"
  shows "\<not> file_exists (sm_name m) (SharedMemory_destroy m k)"
proof -
  have name: "sm_name (fst (notify_setval v m k)) = sm_name m" for v m k
    by (simp add: notify_setval_def split_beta)
  have "sm_name (fst (notifyAllSysV m k)) = sm_name m" for m k
    by (simp add: notifyAllSysV_def split_beta name)
  then have "\<exists>x. SharedMemory_destroy m k = unlink (sm_name m) x"
    using assms by (simp add: SharedMemory_destroy_def deinitSysV_def split_beta Let_def) blast
  then show ?thesis by (auto simp: file_exists_def unlink_def map_of_eq_None_iff)
qed

lemma no_token:
  assumes "name \<noteq> []" and "\<not> file_exists (fst (shm_names False name)) k"
  obtains m k' where "SharedMemory_new False name 0 k = Some (m, k')" and "\<not> shm_valid m"
proof (rule that)
  let ?m = "(shm_init 0)\<lparr>sm_usePOSIX := False, sm_name := fst (shm_names False name),
    sm_nameForTimeStamping := snd (shm_names False name), sm_hasOnlyAttachedToSharedMemory := True\<rparr>"
  show "SharedMemory_new False name 0 k = Some (?m, k)"
    using assms by (simp add: SharedMemory_new_def split_beta initSysV_def shm_init_def)
  show "\<not> shm_valid ?m" by (simp add: shm_valid_def shm_init_def)
qed

lemma no_object:
  assumes "name \<noteq> []" and "n = fst (shm_names True name)" and "map_of (os_posix_names k) n = None"
  obtains m k' where "SharedMemory_new True name 0 k = Some (m, k')" and "\<not> shm_valid m"
proof (rule that)
  let ?m = "(shm_init 0)\<lparr>sm_usePOSIX := True, sm_name := n, sm_nameForTimeStamping := snd (shm_names True name), sm_fd := - 1\<rparr>"
  show "SharedMemory_new True name 0 k = Some (?m, k)"
    using assms by (simp add: SharedMemory_new_def split_beta initPOSIX_def shm_open_def shm_init_def Let_def)
  show "\<not> shm_valid ?m" by (simp add: shm_valid_def shm_init_def)
qed

lemma sysv_recreate:
  assumes "os_ok k" and "name \<noteq> []" and "0 < sz" and "0 < sz2"
  obtains m k1 m2 k2 where "SharedMemory_new False name sz k = Some (m, k1)" and "shm_valid m"
    and "SharedMemory_new False name sz2 k1 = Some (m2, k2)" and "shm_valid m2"
    and "sm_userAccessibleSharedMemory m2 \<noteq> sm_userAccessibleSharedMemory m"
    and "\<not> sm_usePOSIX m" and "sm_name m = fst (shm_names False name)" and "\<not> sm_hasOnlyAttachedToSharedMemory m"
    and "sm_mutexIDSysV m \<noteq> - 1" and "\<not> sem_there (sm_mutexIDSysV m) k2"
proof -
  let ?n = "fst (shm_names False name)" and ?a = "length (os_semaphores k)"
  obtain m k1 where m: "SharedMemory_new False name sz k = Some (m, k1)" and ok: "os_ok k1"
    and sh: "shows_area m ?n (length (os_segments k)) ?a (Suc ?a) sz"
    and ar: "has_area k1 ?n (length (os_segments k)) ?a (Suc ?a) sz"
    and creator: "\<not> sm_hasOnlyAttachedToSharedMemory m"
    by (rule shm_create [OF assms(1-3) refl], rule that) assumption+
  obtain f where f: "map_of (os_files k1) ?n = Some f" and seg: "length (os_segments k) < length (os_segments k1)"
    and there: "?a < length (os_semaphores k1)" "sem_key (os_semaphores k1 ! ?a) = Some (os_ftok k1 f 2)"
    by (cases "map_of (os_files k1) ?n") (use ar in \<open>simp_all add: has_area_def\<close>)
  obtain m2 k2 a2 b2 where m2: "SharedMemory_new False name sz2 k1 = Some (m2, k2)"
    and sh2: "shows_area m2 ?n (length (os_segments k1)) a2 b2 sz2" and gone: "\<not> sem_there (int ?a) k2"
    by (rule shm_create [OF ok assms(2,4) refl], rule that, assumption, assumption)
      (use f there in \<open>simp add: has_area_def\<close>)
  show thesis
    by (rule that [OF m _ m2])
      (use sh sh2 seg gone creator shows_area_valid [OF sh assms(3)] shows_area_valid [OF sh2 assms(4)] in
        \<open>simp_all add: shows_area_def\<close>)
qed

lemma posix_recreate:
  assumes ok: "\<forall>c. \<not> os_refuses k c" and name: "name \<noteq> []" and sz: "0 < sz" "0 < sz2"
    and n: "n = fst (shm_names True name)" "47 \<notin> set (tl n)"
  obtains m k1 m2 k2 i fd where "SharedMemory_new True name sz k = Some (m, k1)"
    and "SharedMemory_new True name sz2 k1 = Some (m2, k2)" and "shm_valid m2" and "sm_userAccessibleSharedMemory m2 \<noteq> Mapped i"
    and "shows_object m n i fd False sz" and "posix_free i k2"
proof -
  obtain m names where new: "SharedMemory_new True name sz k = Some (m, k\<lparr>os_fds := os_fds k @ [Some (Object (length (os_posix k)))],
      os_posix_names := names, os_posix := os_posix k @ [new_object sz]\<rparr>)" (is "_ = Some (m, ?k1)")
    and m: "shows_object m n (length (os_posix k)) (length (os_fds k)) False sz"
    by (rule posix_create [OF ok name sz(1) n])
  have ok1: "\<forall>c. \<not> os_refuses ?k1 c" using ok by simp
  obtain m2 names2 where new2: "SharedMemory_new True name sz2 ?k1 =
      Some (m2, ?k1\<lparr>os_fds := os_fds ?k1 @ [Some (Object (length (os_posix ?k1)))],
        os_posix_names := names2, os_posix := os_posix ?k1 @ [new_object sz2]\<rparr>)" (is "_ = Some (m2, ?k2)")
    and m2: "shows_object m2 n (length (os_posix ?k1)) (length (os_fds ?k1)) False sz2"
    by (rule posix_create [OF ok1 name sz(2) n])
  show thesis
    by (rule that [OF new new2 _ _ m])
      (use sz shows_object [OF m2] in \<open>simp_all add: posix_free_def new_object_def nth_append\<close>)
qed

text \<open>
  C39: Creating an area with a name that is in use. The new area has memory of its own. With System V the
  instance that uses the name is broken: its next call of \<open>lock\<close> makes it invalid. With POSIX it keeps its area and its
  lock. But with both, when it is destroyed, the name of the new area is removed, so that attaching to that
  area fails from then on.
\<close>

theorem shm_recreate:
  assumes "os_ok k" and "name \<noteq> []" and "0 < sz" and "0 < sz2" and "usePOSIX \<longrightarrow> 47 \<notin> set (tl (fst (shm_names True name)))"
  shows "\<exists>m k1 m2 k2 m3 k3 m4 k4 m5 k5.
    SharedMemory_new usePOSIX name sz k = Some (m, k1) \<and> shm_valid m \<and>
    SharedMemory_new usePOSIX name sz2 k1 = Some (m2, k2) \<and> shm_valid m2 \<and>
    sm_userAccessibleSharedMemory m2 \<noteq> sm_userAccessibleSharedMemory m \<and>
    shm_lock p t m k2 = Some (m3, k3) \<and> shm_valid m3 = usePOSIX \<and>
    shm_unlock p t m3 k3 = Some (m4, k4) \<and> shm_valid m4 = usePOSIX \<and>
    SharedMemory_new usePOSIX name 0 (SharedMemory_destroy m4 k4) = Some (m5, k5) \<and> \<not> shm_valid m5"
proof (cases usePOSIX)
  case False
  then have u: "usePOSIX = False" by simp
  obtain m k1 m2 k2 where new: "SharedMemory_new False name sz k = Some (m, k1)" "shm_valid m"
      "SharedMemory_new False name sz2 k1 = Some (m2, k2)" "shm_valid m2"
      "sm_userAccessibleSharedMemory m2 \<noteq> sm_userAccessibleSharedMemory m"
    and m: "\<not> sm_usePOSIX m" "sm_name m = fst (shm_names False name)" "\<not> sm_hasOnlyAttachedToSharedMemory m"
      "sm_mutexIDSysV m \<noteq> - 1" "\<not> sem_there (sm_mutexIDSysV m) k2"
    by (rule sysv_recreate [OF assms(1-4)], rule that) assumption+
  define m3 where "m3 = m\<lparr>sm_broken := True, sm_isLocked := True\<rparr>"
  let ?m4 = "m3\<lparr>sm_isLocked := False\<rparr>"
  have lock: "shm_lock p t m k2 = Some (m3, k2)" "shm_unlock p t m3 k2 = Some (?m4, k2)"
    using m by (simp_all add: shm_lock_def lockSysV_def shm_unlock_def unlockSysV_def mutex_semop_def semop_def m3_def)
  have invalid: "\<not> shm_valid m3" "\<not> shm_valid ?m4" by (simp_all add: m3_def shm_valid_def)
  have none: "\<not> file_exists (fst (shm_names False name)) (SharedMemory_destroy ?m4 k2)"
    using destroy_unlinks [of ?m4 k2] m(1-3) by (simp add: m3_def)
  obtain m5 k5 where "SharedMemory_new False name 0 (SharedMemory_destroy ?m4 k2) = Some (m5, k5)" "\<not> shm_valid m5"
    by (rule no_token [OF assms(2) none])
  then show ?thesis unfolding u using new lock invalid by blast
next
  case True
  then have u: "usePOSIX = True" by simp
  let ?n = "fst (shm_names True name)"
  have slash: "47 \<notin> set (tl ?n)" and ok: "\<forall>c. \<not> os_refuses k c" using assms(1,5) u by (simp_all add: os_ok_def)
  obtain m k1 m2 k2 i fd where new: "SharedMemory_new True name sz k = Some (m, k1)"
      "SharedMemory_new True name sz2 k1 = Some (m2, k2)" "shm_valid m2" "sm_userAccessibleSharedMemory m2 \<noteq> Mapped i"
    and m: "shows_object m ?n i fd False sz" and free: "posix_free i k2"
    by (rule posix_recreate [OF ok assms(2-4) refl slash], rule that) assumption+
  note s = shows_object [OF m]
  let ?m3 = "m\<lparr>sm_isLocked := True\<rparr>" and ?m4 = "m\<lparr>sm_isLocked := False\<rparr>"
  obtain k3 where k3: "shm_lock p t m k2 = Some (?m3, k3)" "posix_held i t k3" using posix.lock_free [OF s(1) free] by blast
  obtain k4 where k4: "shm_unlock p t ?m3 k3 = Some (?m4, k4)"
    using posix.unlock_held [of ?m3 i t k3 p] s(1) k3(2) by (auto simp: posix.area_isLocked)
  have valid: "shm_valid m" "shm_valid ?m3" "shm_valid ?m4" using s(2) assms(3) by (simp_all add: shm_valid_def validPOSIX_def validSysV_def split: if_splits)
  have none: "map_of (os_posix_names (SharedMemory_destroy ?m4 k4)) ?n = None"
    using m by (auto simp: SharedMemory_destroy_def deinitPOSIX_def shows_object_def shm_unlink_def posix_update_def map_of_eq_None_iff
        Let_def split: option.splits)
  obtain m5 k5 where "SharedMemory_new True name 0 (SharedMemory_destroy ?m4 k4) = Some (m5, k5)" "\<not> shm_valid m5"
    by (rule no_object [OF assms(2) refl none])
  then show ?thesis unfolding u using new k3(1) k4 valid s(3) by metis
qed

theorem shm_recreate_witness:
  "\<exists>m k1 m2 k2 m3 k3 m4 k4 m5 k5.
    SharedMemory_new True area_name 8 os_sample = Some (m, k1) \<and> shm_valid m \<and>
    SharedMemory_new True area_name 4 k1 = Some (m2, k2) \<and> shm_valid m2 \<and>
    sm_userAccessibleSharedMemory m2 \<noteq> sm_userAccessibleSharedMemory m \<and>
    shm_lock 0 0 m k2 = Some (m3, k3) \<and> shm_valid m3 = True \<and>
    shm_unlock 0 0 m3 k3 = Some (m4, k4) \<and> shm_valid m4 = True \<and>
    SharedMemory_new True area_name 0 (SharedMemory_destroy m4 k4) = Some (m5, k5) \<and> \<not> shm_valid m5"
proof (rule shm_recreate [OF os_sample_ok area_name_nonempty])
  show "True \<longrightarrow> 47 \<notin> set (tl (fst (shm_names True area_name)))" by code_simp
qed simp_all

text \<open>
  C38: With System V and with POSIX, the time stamp that is set under the lock of an area is read under the
  lock by another instance of the area, if its microseconds are less than a second.
\<close>

theorem shm_time_stamp:
  assumes "os_ok k" and "name \<noteq> []" and "0 < sz" and "usePOSIX \<longrightarrow> 47 \<notin> set (tl (fst (shm_names True name)))"
    and "0 \<le> sint (ts_microseconds ts)" and "sint (ts_microseconds ts) < 1000000"
  shows "\<exists>m k1 m2 k2 k3 k4 k5 k6.
    SharedMemory_new usePOSIX name sz k = Some (m, k1) \<and> SharedMemory_new usePOSIX name 0 k1 = Some (m2, k2) \<and>
    shm_lock p t m k2 = Some (m\<lparr>sm_isLocked := True\<rparr>, k3) \<and>
    setTimeStamp ts (m\<lparr>sm_isLocked := True\<rparr>) k3 = (True, k4) \<and>
    shm_unlock p t (m\<lparr>sm_isLocked := True\<rparr>) k4 = Some (m\<lparr>sm_isLocked := False\<rparr>, k5) \<and>
    shm_lock q u m2 k5 = Some (m2\<lparr>sm_isLocked := True\<rparr>, k6) \<and>
    getTimeStamp (m2\<lparr>sm_isLocked := True\<rparr>) k6 = (True, ts)"
proof (cases usePOSIX)
  case True
  then have ok: "\<forall>c. \<not> os_refuses k c" "47 \<notin> set (tl (fst (shm_names True name)))" and "usePOSIX = True"
    using assms(1,4) by (simp_all add: os_ok_def)
  show ?thesis unfolding \<open>usePOSIX = True\<close>
    by (rule posix_create_attach [OF ok(1) assms(2,3) ok(2)], rule posix.hand_over_time_stamp [OF _ _ _ _ _ _ assms(5,6)],
        assumption+) blast
next
  case False
  then have "usePOSIX = False" by simp
  show ?thesis unfolding \<open>usePOSIX = False\<close>
    by (rule sysv_create_attach [OF assms(1-3)], rule sysv.hand_over_time_stamp [OF _ _ _ _ _ _ assms(5,6)], assumption+) blast
qed

theorem shm_time_stamp_witness:
  "\<exists>m k1 m2 k2 k3 k4 k5 k6.
    SharedMemory_new True area_name 8 os_sample = Some (m, k1) \<and> SharedMemory_new True area_name 0 k1 = Some (m2, k2) \<and>
    shm_lock 0 0 m k2 = Some (m\<lparr>sm_isLocked := True\<rparr>, k3) \<and>
    setTimeStamp \<lparr>ts_seconds = 12, ts_microseconds = 999999\<rparr> (m\<lparr>sm_isLocked := True\<rparr>) k3 = (True, k4) \<and>
    shm_unlock 0 0 (m\<lparr>sm_isLocked := True\<rparr>) k4 = Some (m\<lparr>sm_isLocked := False\<rparr>, k5) \<and>
    shm_lock 1 1 m2 k5 = Some (m2\<lparr>sm_isLocked := True\<rparr>, k6) \<and>
    getTimeStamp (m2\<lparr>sm_isLocked := True\<rparr>) k6 = (True, \<lparr>ts_seconds = 12, ts_microseconds = 999999\<rparr>)"
proof (rule shm_time_stamp [OF os_sample_ok area_name_nonempty])
  show "True \<longrightarrow> 47 \<notin> set (tl (fst (shm_names True area_name)))" by code_simp
qed simp_all

text \<open>
  With POSIX, the first \<open>lock\<close> after the end of a process that held the mutex succeeds, but as
  the state is never declared consistent, the mutex is lost at the next \<open>unlock\<close>: from then on
  every \<open>lock\<close> of every instance breaks the instance.
\<close>

theorem shm_posix_owner_dead:
  assumes "posix_area m = Some i" and "posix_held i v k" and "posix_area m2 = Some i"
    and "k1 = posix_update i (\<lambda>ob. ob\<lparr>po_mutex := owner_ends v (po_mutex ob)\<rparr>) k"
  shows "\<exists>k2 k3. shm_lock p t m k1 = Some (m\<lparr>sm_isLocked := True\<rparr>, k2) \<and>
    shm_unlock p t (m\<lparr>sm_isLocked := True\<rparr>) k2 = Some (m\<lparr>sm_isLocked := False\<rparr>, k3) \<and>
    shm_lock q u m2 k3 = Some (m2\<lparr>sm_broken := True, sm_isLocked := True\<rparr>, k3)"
  using assms
  by (elim posix_areaE) (simp add: posix_lock_defs EOWNERDEAD_def ENOTRECOVERABLE_def)

definition area_creator :: "bool \<Rightarrow> shm \<times> os" where
  "area_creator usePOSIX = the (SharedMemory_new usePOSIX area_name 8 os_sample)"

theorem shm_posix_owner_dead_witness:
  "let (m, k) = area_creator True; (m1, k1) = the (shm_lock 7 7 m k);
     k2 = posix_update 0 (\<lambda>ob. ob\<lparr>po_mutex := owner_ends 7 (po_mutex ob)\<rparr>) k1
   in \<exists>k3 k4. shm_lock 1 1 m k2 = Some (m\<lparr>sm_isLocked := True\<rparr>, k3) \<and>
    shm_unlock 1 1 (m\<lparr>sm_isLocked := True\<rparr>) k3 = Some (m\<lparr>sm_isLocked := False\<rparr>, k4) \<and>
    shm_lock 2 2 m k4 = Some (m\<lparr>sm_broken := True, sm_isLocked := True\<rparr>, k4)"
proof -
  have "posix_area (fst (area_creator True)) = Some 0" by code_simp
  moreover have "posix_held 0 7 (snd (the (shm_lock 7 7 (fst (area_creator True)) (snd (area_creator True)))))" by code_simp
  ultimately show ?thesis
    using shm_posix_owner_dead [where i = 0 and v = 7, OF _ _ _ refl] by (simp add: split_beta Let_def)
qed

text \<open>
  The name of an area has at most 254 bytes and starts with a slash, with System V with \<open>/tmp\<close>.
\<close>

theorem shm_names_ok:
  assumes "name \<noteq> []"
  shows "length (fst (shm_names usePOSIX name)) \<le> 254 \<and> hd (fst (shm_names usePOSIX name)) = 47 \<and>
    (\<not> usePOSIX \<longrightarrow> take 4 (fst (shm_names usePOSIX name)) = str ''/tmp'')"
proof -
  obtain c r where "name = c # r" using assms by (cases name) auto
  moreover have "take 4 (str ''/tmp'' @ x) = str ''/tmp''" "str ''/tmp'' = 47 # tl (str ''/tmp'')" for x by simp_all
  ultimately show ?thesis
    by (simp add: shm_names_def MAX_LENGTH_NAME_def split_beta Let_def)
qed

theorem shm_names_ok_witness:
  "length (fst (shm_names False area_name)) \<le> 254 \<and> hd (fst (shm_names False area_name)) = 47 \<and>
    take 4 (fst (shm_names False area_name)) = str ''/tmp''"
  using shm_names_ok [OF area_name_nonempty, of False] by simp

end
