(* ===== verification/SharedMemThreads.thy ===== *)
theory SharedMemThreads
  imports SharedMemAreas
begin

text \<open>
  The threads of several processes that share an area (System V): the step relation, its invariant,
  and mutual exclusion.
\<close>

section \<open>Processes and threads\<close>

text \<open>
  Where a thread is. The flag says whether the client's code is behind \<open>lock\<close> and before
  \<open>unlock\<close>. \<open>T_sleeping\<close> is a thread in the \<open>semop\<close> of \<open>wait\<close>, \<open>T_reset\<close> one between the two calls in
  \<open>notifyAll\<close>.
\<close>

datatype thread =
    T_ready bool | T_lock | T_locked | T_unlock | T_unlocked | T_wait bool | T_sleeping bool
  | T_notify bool | T_reset bool

text \<open>
  The operating system, the instances of the processes (and which processes have one) and the threads. \<open>sy_holders\<close> records the
  threads that have decremented the mutex and not yet incremented it.
\<close>

record system =
  sy_os :: os
  sy_mem :: "nat \<Rightarrow> shm"
  sy_there :: "nat \<Rightarrow> bool"
  sy_thread :: "nat \<Rightarrow> thread"
  sy_holders :: "nat list"

text \<open>
  The steps. \<open>Attach\<close> constructs the instance of a process, \<open>Destroy\<close> destroys it, \<open>Crash\<close> ends a
  process; the others are those of a thread. \<open>Interrupt\<close> is a signal that ends a \<open>semop\<close> that
  waits with the error \<open>EINTR\<close>.
\<close>

datatype step =
    Attach nat | Destroy nat | Crash nat | Call_lock nat | Call_unlock nat | Call_wait nat | Call_notifyAll nat
  | Run nat | Interrupt nat

definition set_thread :: "nat \<Rightarrow> thread \<Rightarrow> system \<Rightarrow> system" where
  "set_thread t x s = s\<lparr>sy_thread := (sy_thread s)(t := x)\<rparr>"

definition set_mem :: "nat \<Rightarrow> shm \<Rightarrow> system \<Rightarrow> system" where
  "set_mem p m s = s\<lparr>sy_mem := (sy_mem s)(p := m)\<rparr>"

text \<open>What is undone for the semaphores when a process ends; its threads no longer wait.\<close>

definition process_ends :: "(nat \<Rightarrow> nat) \<Rightarrow> nat \<Rightarrow> os \<Rightarrow> os" where
  "process_ends proc p k =
     k\<lparr>os_semaphores := map (\<lambda>x. x\<lparr>sem_val := nat (int (sem_val x) + sem_adj x p), sem_adj := (sem_adj x)(p := 0),
         sem_sleepers := filter (\<lambda>t. proc t \<noteq> p) (sem_sleepers x)\<rparr>) (os_semaphores k)\<rparr>"

text \<open>\<open>proc\<close> gives the process of a thread. A step of a thread that waits is \<open>None\<close>.\<close>

definition thread_run :: "(nat \<Rightarrow> nat) \<Rightarrow> nat \<Rightarrow> system \<Rightarrow> system option" where
  "thread_run proc t s =
     (let p = proc t; m = sy_mem s p; k = sy_os s in
      case sy_thread s t of
        T_lock \<Rightarrow>
          (case mutex_semop p (- 1) m k of
             None \<Rightarrow> None
           | Some (changed, m, k) \<Rightarrow>
               Some (set_thread t T_locked (set_mem p m
                 (s\<lparr>sy_os := k, sy_holders := (if changed then t # sy_holders s else sy_holders s)\<rparr>))))
      | T_locked \<Rightarrow> Some (set_thread t (T_ready True) (set_mem p (m\<lparr>sm_isLocked := True\<rparr>) s))
      | T_unlock \<Rightarrow>
          (case mutex_semop p 1 m k of
             None \<Rightarrow> None
           | Some (changed, m, k) \<Rightarrow>
               Some (set_thread t T_unlocked (set_mem p m
                 (s\<lparr>sy_os := k, sy_holders := (if changed then remove1 t (sy_holders s) else sy_holders s)\<rparr>))))
      | T_unlocked \<Rightarrow> Some (set_thread t (T_ready False) (set_mem p (m\<lparr>sm_isLocked := False\<rparr>) s))
      | T_wait b \<Rightarrow>
          (case waitSysV p m k of
             Some (m, k) \<Rightarrow> Some (set_thread t (T_ready b) (set_mem p m (s\<lparr>sy_os := k\<rparr>)))
           | None \<Rightarrow>
               Some (set_thread t (T_sleeping b)
                 (s\<lparr>sy_os := sem_update (sm_conditionIDSysV m) (\<lambda>x. x\<lparr>sem_sleepers := t # sem_sleepers x\<rparr>) k\<rparr>)))
      | T_sleeping b \<Rightarrow>
          (if \<not> sem_there (sm_conditionIDSysV m) k
           then Some (set_thread t (T_ready b) (set_mem p (m\<lparr>sm_broken := True\<rparr>) s))
           else if t \<in> set (sem_sleepers (os_semaphores k ! nat (sm_conditionIDSysV m))) then None
           else Some (set_thread t (T_ready b) s))
      | T_notify b \<Rightarrow>
          (let (m, k) = notify_setval 0 m k in Some (set_thread t (T_reset b) (set_mem p m (s\<lparr>sy_os := k\<rparr>))))
      | T_reset b \<Rightarrow>
          (let (m, k) = notify_setval 1 m k in Some (set_thread t (T_ready b) (set_mem p m (s\<lparr>sy_os := k\<rparr>))))
      | _ \<Rightarrow> None)"

definition interrupt :: "(nat \<Rightarrow> nat) \<Rightarrow> nat \<Rightarrow> system \<Rightarrow> system option" where
  "interrupt proc t s =
     (let p = proc t; m = sy_mem s p; k = sy_os s; broken = set_mem p (m\<lparr>sm_broken := True\<rparr>) s in
      case sy_thread s t of
        T_lock \<Rightarrow> if mutex_semop p (- 1) m k = None then Some (set_thread t T_locked broken) else None
      | T_sleeping b \<Rightarrow>
          Some (set_thread t (T_ready b)
            (broken\<lparr>sy_os := sem_update (sm_conditionIDSysV m) (\<lambda>x. x\<lparr>sem_sleepers := remove1 t (sem_sleepers x)\<rparr>) k\<rparr>))
      | _ \<Rightarrow> None)"

definition threads_end :: "(nat \<Rightarrow> nat) \<Rightarrow> nat \<Rightarrow> system \<Rightarrow> system" where
  "threads_end proc p s =
     s\<lparr>sy_there := (sy_there s)(p := False),
       sy_thread := (\<lambda>t. if proc t = p then T_ready False else sy_thread s t)\<rparr>"

fun system_step :: "(nat \<Rightarrow> nat) \<Rightarrow> cstring \<Rightarrow> step \<Rightarrow> system \<Rightarrow> system option" where
  "system_step proc name (Attach p) s =
     (if sy_there s p then None
      else case SharedMemory_new False name 0 (sy_os s) of
        None \<Rightarrow> None
      | Some (m, k) \<Rightarrow> Some (set_mem p m (s\<lparr>sy_os := k, sy_there := (sy_there s)(p := True)\<rparr>)))"
| "system_step proc name (Destroy p) s =
     (if sy_there s p
      then Some (threads_end proc p (s\<lparr>sy_os := SharedMemory_destroy (sy_mem s p) (sy_os s)\<rparr>)) else None)"
| "system_step proc name (Crash p) s =
     Some (threads_end proc p (s\<lparr>sy_os := process_ends proc p (sy_os s),
       sy_holders := filter (\<lambda>t. proc t \<noteq> p) (sy_holders s)\<rparr>))"
| "system_step proc name (Call_lock t) s =
     (if sy_there s (proc t) \<and> sy_thread s t = T_ready False then Some (set_thread t T_lock s) else None)"
| "system_step proc name (Call_unlock t) s =
     (if sy_there s (proc t) \<and> sy_thread s t = T_ready True then Some (set_thread t T_unlock s) else None)"
| "system_step proc name (Call_wait t) s =
     (case sy_thread s t of
        T_ready b \<Rightarrow> if sy_there s (proc t) then Some (set_thread t (T_wait b) s) else None
      | _ \<Rightarrow> None)"
| "system_step proc name (Call_notifyAll t) s =
     (case sy_thread s t of
        T_ready b \<Rightarrow> if sy_there s (proc t) then Some (set_thread t (T_notify b) s) else None
      | _ \<Rightarrow> None)"
| "system_step proc name (Run t) s = thread_run proc t s"
| "system_step proc name (Interrupt t) s = interrupt proc t s"

text \<open>Process 0 has created the area.\<close>

definition system_new :: "cstring \<Rightarrow> uint32 \<Rightarrow> os \<Rightarrow> system option" where
  "system_new name bytes k =
     (case SharedMemory_new False name bytes k of
        None \<Rightarrow> None
      | Some (m, k) \<Rightarrow> Some \<lparr>sy_os = k, sy_mem = (\<lambda>_. m), sy_there = (\<lambda>p. p = 0), sy_thread = (\<lambda>_. T_ready False),
          sy_holders = []\<rparr>)"

inductive reachable :: "bool \<Rightarrow> (nat \<Rightarrow> nat) \<Rightarrow> cstring \<Rightarrow> system \<Rightarrow> system \<Rightarrow> bool" for interrupts proc name s0 where
  start: "reachable interrupts proc name s0 s0"
| step: "reachable interrupts proc name s0 s \<Longrightarrow> system_step proc name e s = Some s' \<Longrightarrow>
    interrupts \<or> (\<forall>t. e \<noteq> Interrupt t) \<Longrightarrow> reachable interrupts proc name s0 s'"

text \<open>Whether the client's code runs between \<open>lock\<close> and \<open>unlock\<close>, or one of these calls returns or begins.\<close>

fun inside :: "thread \<Rightarrow> bool" where
  "inside (T_ready b) = b"
| "inside T_locked = True"
| "inside T_unlock = True"
| "inside (T_wait b) = b"
| "inside (T_sleeping b) = b"
| "inside (T_notify b) = b"
| "inside (T_reset b) = b"
| "inside _ = False"

section \<open>Invariant\<close>

text \<open>What no call changes: keys and names can only be removed. \<open>keeps a\<close>: nor the semaphore \<open>a\<close>.\<close>

definition frame :: "os \<Rightarrow> os \<Rightarrow> bool" where
  "frame k k' \<longleftrightarrow> os_ftok k' = os_ftok k \<and> length (os_semaphores k') = length (os_semaphores k) \<and>
     (\<forall>i<length (os_semaphores k). sem_key (os_semaphores k' ! i) = sem_key (os_semaphores k ! i) \<or>
        sem_key (os_semaphores k' ! i) = None) \<and>
     (\<forall>n. map_of (os_files k') n = map_of (os_files k) n \<or> map_of (os_files k') n = None)"

definition keeps :: "nat \<Rightarrow> os \<Rightarrow> os \<Rightarrow> bool" where
  "keeps a k k' \<longleftrightarrow> frame k k' \<and> os_semaphores k' ! a = os_semaphores k ! a"

lemma frame_trans: "frame k k' \<Longrightarrow> frame k' k'' \<Longrightarrow> frame k k''"
  unfolding frame_def by (metis (no_types, lifting))

lemma frame_refl [simp]: "frame k k"
  by (simp add: frame_def)

lemma keeps_refl [simp]: "keeps a k k"
  by (simp add: keeps_def frame_def)

lemma keeps_trans: "keeps a k k' \<Longrightarrow> keeps a k' k'' \<Longrightarrow> keeps a k k''"
  unfolding keeps_def using frame_trans by metis

lemma keeps_frame: "keeps a k k' \<Longrightarrow> frame k k'"
  by (simp add: keeps_def)

lemma keeps_same:
  "os_ftok k' = os_ftok k \<Longrightarrow> os_semaphores k' = os_semaphores k \<Longrightarrow> os_files k' = os_files k \<Longrightarrow> keeps a k k'"
  by (simp add: keeps_def frame_def)

lemma frame_sem_update:
  assumes "\<And>x. sem_key (f x) = sem_key x \<or> sem_key (f x) = None"
  shows "frame k (sem_update i f k)"
  using assms [of "os_semaphores k ! nat i"]
  by (cases "nat i < length (os_semaphores k)")
    (auto simp: frame_def sem_update_def nth_list_update list_update_beyond)

lemma keeps_sem_update:
  assumes "b \<noteq> a" and "\<And>x. sem_key (f x) = sem_key x \<or> sem_key (f x) = None"
  shows "keeps a k (sem_update (int b) f k)"
  unfolding keeps_def using frame_sem_update [OF assms(2), of k "int b"] assms(1)
  by (simp add: sem_update_def)

lemma keeps_semctl_setval: "b \<noteq> a \<Longrightarrow> keeps a k (snd (semctl_setval (int b) v k))"
  by (auto simp: semctl_setval_def intro!: keeps_sem_update)

lemma keeps_semctl_rmid: "b \<noteq> a \<Longrightarrow> keeps a k (semctl_rmid (int b) k)"
  by (auto simp: semctl_rmid_def intro!: keeps_sem_update)

lemma keeps_other:
  "keeps a k (snd (open_file n k))" "keeps a k (close_file fd k)" "keeps a k (shmctl_rmid i k)"
  by (auto simp: open_file_def close_file_def shmctl_rmid_def split: option.split intro!: keeps_same)

lemma keeps_unlink: "keeps a k (unlink n k)"
  by (simp add: keeps_def frame_def unlink_def map_of_filter_key)

text \<open>An instance that shows the area, or at least nothing else.\<close>

definition ids_ok :: "cstring \<Rightarrow> nat \<Rightarrow> nat \<Rightarrow> shm \<Rightarrow> bool" where
  "ids_ok n a b m \<longleftrightarrow> \<not> sm_usePOSIX m \<and> sm_name m = n \<and> sm_mutexIDSysV m \<in> {- 1, int a} \<and>
     sm_conditionIDSysV m \<in> {- 1, int b}"

lemma ids_ok_updates [simp]:
  "ids_ok n a b (m\<lparr>sm_size := sz\<rparr>) = ids_ok n a b m" "ids_ok n a b (m\<lparr>sm_sharedMemory := q\<rparr>) = ids_ok n a b m"
  "ids_ok n a b (m\<lparr>sm_userAccessibleSharedMemory := q\<rparr>) = ids_ok n a b m"
  "ids_ok n a b (m\<lparr>sm_shmKeySysV := i\<rparr>) = ids_ok n a b m" "ids_ok n a b (m\<lparr>sm_mutexKeySysV := i\<rparr>) = ids_ok n a b m"
  "ids_ok n a b (m\<lparr>sm_conditionKeySysV := i\<rparr>) = ids_ok n a b m"
  "ids_ok n a b (m\<lparr>sm_sharedMemoryIDSysV := i\<rparr>) = ids_ok n a b m"
  "ids_ok n a b (m\<lparr>sm_broken := x\<rparr>) = ids_ok n a b m" "ids_ok n a b (m\<lparr>sm_isLocked := x\<rparr>) = ids_ok n a b m"
  "ids_ok n a b (m\<lparr>sm_fdForTimeStamping := fd\<rparr>) = ids_ok n a b m"
  by (simp_all add: ids_ok_def)

lemma ids_okD: "ids_ok n a b m \<Longrightarrow> sm_name m = n" "ids_ok n a b m \<Longrightarrow> \<not> sm_usePOSIX m"
  by (simp_all add: ids_ok_def)

lemma ids_ok_ids:
  "ids_ok n a b m \<Longrightarrow> i \<in> {- 1, int a} \<Longrightarrow> ids_ok n a b (m\<lparr>sm_mutexIDSysV := i\<rparr>)"
  "ids_ok n a b m \<Longrightarrow> i \<in> {- 1, int b} \<Longrightarrow> ids_ok n a b (m\<lparr>sm_conditionIDSysV := i\<rparr>)"
  by (simp_all add: ids_ok_def)

text \<open>How a call on the condition changes the instance: it can break it.\<close>

definition breaks :: "shm \<Rightarrow> shm \<Rightarrow> bool" where
  "breaks m m' \<longleftrightarrow> m' = m \<or> m' = m\<lparr>sm_broken := True\<rparr>"

lemma notify_setval_keeps:
  assumes "ids_ok n a b m" and "a \<noteq> b"
  shows "keeps a k (snd (notify_setval v m k))" and "breaks m (fst (notify_setval v m k))"
  using assms keeps_semctl_setval [of b a k v]
  by (auto simp: notify_setval_def ids_ok_def split_beta breaks_def)

lemma waitSysV_keeps:
  assumes "waitSysV p m k = Some (m', k')"
  shows "k' = k" and "breaks m m'"
  using assms by (auto simp: waitSysV_def semop_def breaks_def Let_def split: if_splits)

lemma mutex_semop_cases:
  assumes "mutex_semop p v m k = Some (acquired, m', k')" and "ids_ok n a b m" and "v = - 1 \<or> v = 1"
  obtains (none) "\<not> acquired" "m' = m" "k' = k" "sm_mutexIDSysV m = - 1"
  | (removed) "\<not> acquired" "m' = m\<lparr>sm_broken := True\<rparr>" "k' = k" "\<not> sem_there (int a) k"
  | (overflow) "\<not> acquired" "m' = m\<lparr>sm_broken := True\<rparr>" "k' = k" "32767 \<le> sem_val (os_semaphores k ! a)"
  | (changed) "acquired" "m' = m" "sm_mutexIDSysV m = int a" "sem_there (int a) k" "0 \<le> int (sem_val (os_semaphores k ! a)) + v"
      "k' = sem_update (int a) (\<lambda>s. s\<lparr>sem_val := nat (int (sem_val s) + v), sem_adj := (sem_adj s)(p := sem_adj s p - v)\<rparr>) k"
proof (cases "sm_mutexIDSysV m = - 1")
  case True
  then show thesis using assms by (intro none) (simp_all add: mutex_semop_def)
next
  case False
  then have i: "sm_mutexIDSysV m = int a" using assms(2) by (simp add: ids_ok_def)
  obtain r where r: "semop p (int a) v k = Some (r, k')" "acquired \<longleftrightarrow> r \<noteq> - 1"
    "m' = (if r = - 1 then m\<lparr>sm_broken := True\<rparr> else m)"
    using assms(1) False by (auto simp: mutex_semop_def i split: option.splits if_splits)
  show thesis
  proof (cases "sem_there (int a) k")
    case False
    then show thesis using r by (intro removed) (simp_all add: semop_def)
  next
    case True
    show thesis
    proof (cases "32767 < int (sem_val (os_semaphores k ! a)) + v")
      case True
      then show thesis
        using r \<open>sem_there (int a) k\<close> assms(3) by (intro overflow) (auto simp: semop_def Let_def split: if_splits)
    next
      case False
      then show thesis
        using r \<open>sem_there (int a) k\<close> assms(3) i by (intro changed) (auto simp: semop_def Let_def split: if_splits)
    qed
  qed
qed

text \<open>Attaching and destroying.\<close>

definition os_inv :: "cstring \<Rightarrow> nat \<Rightarrow> nat \<Rightarrow> nat \<Rightarrow> os \<Rightarrow> bool" where
  "os_inv n f a b k \<longleftrightarrow> a < length (os_semaphores k) \<and> b < length (os_semaphores k) \<and> a \<noteq> b \<and>
     (\<forall>i<length (os_semaphores k). sem_key (os_semaphores k ! i) = Some (os_ftok k f 2) \<longrightarrow> i = a) \<and>
     (\<forall>i<length (os_semaphores k). sem_key (os_semaphores k ! i) = Some (os_ftok k f 3) \<longrightarrow> i = b) \<and>
     map_of (os_files k) n \<in> {None, Some f}"

lemma os_inv_frame: "frame k k' \<Longrightarrow> os_inv n f a b k \<Longrightarrow> os_inv n f a b k'"
  unfolding os_inv_def frame_def by (metis insertCI insertE option.distinct(1) singletonD)

lemma os_inv_files: "os_inv n f a b k \<Longrightarrow> map_of (os_files k) n = None \<or> map_of (os_files k) n = Some f"
  unfolding os_inv_def by blast

lemma semget_ok:
  assumes "os_inv n f a b k"
  shows "semget (os_ftok k f 2) k \<in> {- 1, int a}" and "semget (os_ftok k f 3) k \<in> {- 1, int b}"
  using assms by (auto simp: semget_def find_semaphore_def os_inv_def find_upt split: option.split)

lemma attach_ok:
  assumes "SharedMemory_new False name 0 k = Some (m, k')" and "name \<noteq> []" and "n = fst (shm_names False name)"
    and "os_inv n f a b k"
  shows "keeps a k k'" and "ids_ok n a b m" and "\<not> sm_broken m"
proof -
  obtain ts where nt: "shm_names False name = (n, ts)" using assms(3) by (metis prod.collapse)
  have ftok: "ftok n i k = - 1 \<or> ftok n i k = os_ftok k f i" for i
    using os_inv_files [OF assms(4)] by (auto simp: ftok_def)
  let ?m = "(shm_init 0)\<lparr>sm_usePOSIX := False, sm_name := n, sm_nameForTimeStamping := ts,
    sm_hasOnlyAttachedToSharedMemory := True\<rparr>"
  let ?new = "\<lambda>m. ids_ok n a b m \<and> \<not> sm_broken m \<and> sm_hasOnlyAttachedToSharedMemory m"
  have new: "?new ?m" by (simp add: ids_ok_def shm_init_def)
  have seg: "snd (initSysV_segment m k) = k \<and> ?new (fst (initSysV_segment m k))" if "?new m" for m
    using that by (simp add: initSysV_segment_def Let_def split: option.split)
  have id2: "ftok n 2 k \<noteq> - 1 \<Longrightarrow> semget (ftok n 2 k) k \<in> {- 1, int a}"
    using semget_ok(1) [OF assms(4)] ftok [of 2] by metis
  have id3: "ftok n 3 k \<noteq> - 1 \<Longrightarrow> semget (ftok n 3 k) k \<in> {- 1, int b}"
    using semget_ok(2) [OF assms(4)] ftok [of 3] by metis
  have mutex: "snd (initSysV_mutex m k) = k \<and> ?new (fst (initSysV_mutex m k))" if "?new m" for m
    using that ids_ok_ids(1) [OF _ id2, of n b m] ids_okD(1) [of n a b m]
    by (simp add: initSysV_mutex_def initSysV_semaphore_def Let_def ids_ok_ids(1) [OF _ id2])
  have cond: "snd (initSysV_condition m k) = k \<and> ?new (fst (initSysV_condition m k))" if "?new m" for m
    using that ids_okD(1) [of n a b m]
    by (simp add: initSysV_condition_def initSysV_semaphore_def Let_def ids_ok_ids(2) [OF _ id3])
  obtain ms where s: "initSysV_segment ?m k = (ms, k)" "?new ms" using seg [OF new] by (metis prod.collapse)
  obtain mm where m: "initSysV_mutex ms k = (mm, k)" "?new mm" using mutex [OF s(2)] by (metis prod.collapse)
  obtain mc where c: "initSysV_condition mm k = (mc, k)" "?new mc" using cond [OF m(2)] by (metis prod.collapse)
  define m' where "m' = (if file_exists n k then mc else ?m)"
  have m': "?new m'" using new c(2) by (simp add: m'_def)
  have sz: "sm_size (shm_init 0) = 0" by (simp add: shm_init_def)
  have "initSysV ((shm_init 0)\<lparr>sm_usePOSIX := False, sm_name := n, sm_nameForTimeStamping := ts\<rparr>) k =
      (if sm_sharedMemory m' \<noteq> Null
       then (m'\<lparr>sm_fdForTimeStamping := fst (open_file n k)\<rparr>, snd (open_file n k)) else (m', k))"
    using s(1) m(1) c ids_okD(1) [of n a b mc]
    by (simp add: initSysV_def m'_def sz split_beta)
  then show "keeps a k k'" "ids_ok n a b m" "\<not> sm_broken m"
    using assms(1,2) keeps_other(1) [of a k n] m'
    by (auto simp: SharedMemory_new_def nt split: if_splits)
qed

lemma destroy_ok:
  assumes "ids_ok n a b m" and "a \<noteq> b"
  shows "frame k (SharedMemory_destroy m k)"
    and "os_semaphores (SharedMemory_destroy m k) ! a = os_semaphores k ! a \<or>
      sem_key (os_semaphores (SharedMemory_destroy m k) ! a) = None"
proof -
  define k1 where "k1 = (if sm_sharedMemory m \<noteq> Null then close_file (sm_fdForTimeStamping m) k else k)"
  define m1 where "m1 = (if sm_sharedMemory m \<noteq> Null then m\<lparr>sm_fdForTimeStamping := - 1\<rparr> else m)"
  obtain m2 k2 where n2: "notifyAllSysV m1 k1 = (m2, k2)" by (cases "notifyAllSysV m1 k1")
  have m1: "ids_ok n a b m1" using assms(1) by (simp add: m1_def)
  have k1: "keeps a k k1" by (simp add: k1_def keeps_other)
  have k2: "keeps a k k2" and m2: "ids_ok n a b m2"
  proof -
    obtain m' k' where n1: "notify_setval 0 m1 k1 = (m', k')" by (cases "notify_setval 0 m1 k1")
    then have "keeps a k1 k'" "ids_ok n a b m'"
      using notify_setval_keeps [OF m1 assms(2), where k = k1 and v = 0] m1 by (auto simp: breaks_def)
    moreover have "notify_setval 1 m' k' = (m2, k2)" using n1 n2 by (simp add: notifyAllSysV_def)
    ultimately show "keeps a k k2" "ids_ok n a b m2"
      using notify_setval_keeps [where m = m' and k = k' and v = 1, of n a b] assms(2) keeps_trans k1 by (auto simp: breaks_def)
  qed
  define k3 where "k3 = (if sm_conditionIDSysV m2 \<noteq> - 1 then semctl_rmid (sm_conditionIDSysV m2) k2 else k2)"
  have k3: "keeps a k k3"
    using keeps_trans [OF k2 keeps_semctl_rmid [of b a k2]] assms(2) m2 k2 by (auto simp: k3_def ids_ok_def)
  define k4 where "k4 = (if sm_mutexIDSysV m2 \<noteq> - 1 then semctl_rmid (sm_mutexIDSysV m2) k3 else k3)"
  have "frame k3 k4"
    by (auto simp: k4_def semctl_rmid_def intro!: frame_sem_update keeps_frame [OF keeps_refl])
  moreover have "os_semaphores k4 ! a = os_semaphores k3 ! a \<or> sem_key (os_semaphores k4 ! a) = None"
    using m2 by (cases "sm_mutexIDSysV m2 = - 1") (simp_all add: k4_def ids_ok_def semctl_rmid_def sem_update_def sem_there_def)
  moreover define k5 where "k5 = (if sm_sharedMemoryIDSysV m2 \<noteq> - 1 then shmctl_rmid (sm_sharedMemoryIDSysV m2) k4 else k4)"
  moreover have "keeps a k4 (unlink (sm_name m2) k5)"
    using keeps_trans [OF _ keeps_unlink] keeps_other(3) [of a k4] by (auto simp: k5_def)
  moreover have "SharedMemory_destroy m k =
      (if \<not> sm_hasOnlyAttachedToSharedMemory m then unlink (sm_name m2) k5 else k1)"
    using assms(1) n2
    by (cases "sm_sharedMemory m = Null")
      (simp_all add: SharedMemory_destroy_def deinitSysV_def ids_ok_def m1_def k1_def k3_def k4_def k5_def)
  ultimately have "keeps a k (SharedMemory_destroy m k) \<or> (\<exists>k'. frame k k' \<and> keeps a k' (SharedMemory_destroy m k) \<and>
      (os_semaphores k' ! a = os_semaphores k ! a \<or> sem_key (os_semaphores k' ! a) = None))"
    using k1 k3 frame_trans [OF keeps_frame [OF k3], of k4]
    by (cases "sm_hasOnlyAttachedToSharedMemory m") (auto simp: keeps_def)
  then show "frame k (SharedMemory_destroy m k)"
    "os_semaphores (SharedMemory_destroy m k) ! a = os_semaphores k ! a \<or>
      sem_key (os_semaphores (SharedMemory_destroy m k) ! a) = None"
    by (auto simp: keeps_def intro: frame_trans)
qed


definition mutex_inv :: "(nat \<Rightarrow> nat) \<Rightarrow> semaphore \<Rightarrow> nat list \<Rightarrow> bool" where
  "mutex_inv proc x hs \<longleftrightarrow> length hs \<le> 1 \<and>
     (sem_key x \<noteq> None \<longrightarrow> sem_val x + length hs = 1 \<and>
        (\<forall>p. sem_adj x p = int (length (filter (\<lambda>t. proc t = p) hs))))"

definition system_inv :: "(nat \<Rightarrow> nat) \<Rightarrow> cstring \<Rightarrow> nat \<Rightarrow> nat \<Rightarrow> nat \<Rightarrow> system \<Rightarrow> bool" where
  "system_inv proc n f a b s \<longleftrightarrow> os_inv n f a b (sy_os s) \<and>
     mutex_inv proc (os_semaphores (sy_os s) ! a) (sy_holders s) \<and>
     (\<forall>p. sy_there s p \<longrightarrow> ids_ok n a b (sy_mem s p)) \<and>
     (\<forall>t. \<not> sy_there s (proc t) \<longrightarrow> sy_thread s t = T_ready False) \<and>
     (\<forall>t. inside (sy_thread s t) \<longrightarrow> sm_mutexIDSysV (sy_mem s (proc t)) = int a \<longrightarrow>
        t \<in> set (sy_holders s) \<or> sm_broken (sy_mem s (proc t)) \<and> sem_key (os_semaphores (sy_os s) ! a) = None)"

lemma system_invD:
  assumes "system_inv proc n f a b s"
  shows "os_inv n f a b (sy_os s)" and "mutex_inv proc (os_semaphores (sy_os s) ! a) (sy_holders s)"
    and "sy_there s p \<Longrightarrow> ids_ok n a b (sy_mem s p)" and "\<not> sy_there s (proc t) \<Longrightarrow> sy_thread s t = T_ready False"
    and "inside (sy_thread s t) \<Longrightarrow> sm_mutexIDSysV (sy_mem s (proc t)) = int a \<Longrightarrow>
        t \<in> set (sy_holders s) \<or> sm_broken (sy_mem s (proc t)) \<and> sem_key (os_semaphores (sy_os s) ! a) = None"
  using assms unfolding system_inv_def by blast+

text \<open>A step that leaves the mutex alone, or removes it.\<close>

lemma system_inv_frame:
  assumes "system_inv proc n f a b s" and "frame (sy_os s) (sy_os s')" and "sy_holders s' = sy_holders s"
    and "os_semaphores (sy_os s') ! a = os_semaphores (sy_os s) ! a \<or> sem_key (os_semaphores (sy_os s') ! a) = None"
    and "\<And>p. sy_there s' p \<Longrightarrow> ids_ok n a b (sy_mem s' p)"
    and "\<And>t. \<not> sy_there s' (proc t) \<Longrightarrow> sy_thread s' t = T_ready False"
    and "\<And>t. inside (sy_thread s' t) \<Longrightarrow> inside (sy_thread s t) \<and>
      sm_mutexIDSysV (sy_mem s' (proc t)) = sm_mutexIDSysV (sy_mem s (proc t)) \<and>
      (sm_broken (sy_mem s (proc t)) \<longrightarrow> sm_broken (sy_mem s' (proc t)))"
  shows "system_inv proc n f a b s'"
proof -
  let ?x = "os_semaphores (sy_os s) ! a" and ?y = "os_semaphores (sy_os s') ! a"
  have m: "mutex_inv proc ?y (sy_holders s')"
    using assms(3,4) system_invD(2) [OF assms(1)] by (auto simp: mutex_inv_def)
  have k: "sem_key ?x = None \<Longrightarrow> sem_key ?y = None" using assms(4) by auto
  show ?thesis
    unfolding system_inv_def
    using os_inv_frame [OF assms(2) system_invD(1) [OF assms(1)]] m k system_invD(5) [OF assms(1)] assms(3,5-7)
    by metis
qed

lemma system_inv_keeps:
  assumes "system_inv proc n f a b s" and "keeps a (sy_os s) k" and "sy_there s p"
    and "breaks (sy_mem s p) m" and "inside x \<longrightarrow> inside (sy_thread s t)" and "proc t = p"
  shows "system_inv proc n f a b (set_thread t x (set_mem p m (s\<lparr>sy_os := k\<rparr>)))"
proof (rule system_inv_frame [OF assms(1)])
  show "ids_ok n a b (sy_mem (set_thread t x (set_mem p m (s\<lparr>sy_os := k\<rparr>))) q)"
    if "sy_there (set_thread t x (set_mem p m (s\<lparr>sy_os := k\<rparr>))) q" for q
    using that system_invD(3) [OF assms(1), of p] system_invD(3) [OF assms(1), of q] assms(3,4)
    by (auto simp: set_thread_def set_mem_def breaks_def)
  show "sy_thread (set_thread t x (set_mem p m (s\<lparr>sy_os := k\<rparr>))) u = T_ready False"
    if "\<not> sy_there (set_thread t x (set_mem p m (s\<lparr>sy_os := k\<rparr>))) (proc u)" for u
    using that system_invD(4) [OF assms(1), of u] assms(3,6) by (auto simp: set_thread_def set_mem_def)
qed (use assms in \<open>auto simp: set_thread_def set_mem_def breaks_def keeps_def split: if_splits\<close>)

lemma breaks_refl [simp]: "breaks m m" "breaks m (m\<lparr>sm_broken := True\<rparr>)"
  by (simp_all add: breaks_def)

lemma set_mem_same: "set_mem p (sy_mem s p) s = s"
  by (simp add: set_mem_def)

lemma system_inv_thread:
  assumes "system_inv proc n f a b s" and "sy_there s (proc t)" and "inside x \<longrightarrow> inside (sy_thread s t)"
  shows "system_inv proc n f a b (set_thread t x s)"
  using system_inv_keeps [OF assms(1) keeps_refl assms(2) breaks_refl(1) assms(3) refl] by (simp add: set_mem_same)

lemma system_inv_locked:
  assumes "system_inv proc n f a b s" and "sy_there s (proc t)" and "inside x \<longrightarrow> inside (sy_thread s t)"
  shows "system_inv proc n f a b (set_thread t x (set_mem (proc t) ((sy_mem s (proc t))\<lparr>sm_isLocked := l\<rparr>) s))"
    (is "system_inv proc n f a b ?s")
proof (rule system_inv_frame [OF assms(1)])
  show "ids_ok n a b (sy_mem ?s q)" if "sy_there ?s q" for q
    using that system_invD(3) [OF assms(1), of q] by (auto simp: set_thread_def set_mem_def)
  show "sy_thread ?s u = T_ready False" if "\<not> sy_there ?s (proc u)" for u
    using that system_invD(4) [OF assms(1), of u] assms(2) by (auto simp: set_thread_def set_mem_def)
qed (use assms in \<open>auto simp: set_thread_def set_mem_def frame_refl split: if_splits\<close>)


lemma sem_at:
  "os_inv n f a b k \<Longrightarrow> os_semaphores (sem_update (int a) g k) ! a = g (os_semaphores k ! a)"
  by (simp add: sem_update_def os_inv_def)

lemma mutex_lock:
  assumes "mutex_inv proc x hs" and "sem_key x \<noteq> None" and "0 \<le> int (sem_val x) + - 1"
  shows "hs = []" and "mutex_inv proc (x\<lparr>sem_val := nat (int (sem_val x) + - 1),
    sem_adj := (sem_adj x)(proc t := sem_adj x (proc t) - - 1)\<rparr>) [t]"
proof -
  have v: "sem_val x + length hs = 1" "\<And>p. sem_adj x p = int (length (filter (\<lambda>t. proc t = p) hs))"
    using assms(1,2) by (simp_all add: mutex_inv_def)
  show "hs = []" using v(1) assms(3) by (cases hs) auto
  then show "mutex_inv proc (x\<lparr>sem_val := nat (int (sem_val x) + - 1),
    sem_adj := (sem_adj x)(proc t := sem_adj x (proc t) - - 1)\<rparr>) [t]"
    using v by (auto simp: mutex_inv_def)
qed

lemma mutex_unlock:
  assumes "mutex_inv proc x hs" and "sem_key x \<noteq> None" and "t \<in> set hs"
  shows "hs = [t]" and "mutex_inv proc (x\<lparr>sem_val := nat (int (sem_val x) + 1),
    sem_adj := (sem_adj x)(proc t := sem_adj x (proc t) - 1)\<rparr>) []"
proof -
  have v: "sem_val x + length hs = 1" "\<And>p. sem_adj x p = int (length (filter (\<lambda>t. proc t = p) hs))"
    using assms(1,2) by (simp_all add: mutex_inv_def)
  show h: "hs = [t]" using v(1) assms(3) by (cases hs) auto
  show "mutex_inv proc (x\<lparr>sem_val := nat (int (sem_val x) + 1),
    sem_adj := (sem_adj x)(proc t := sem_adj x (proc t) - 1)\<rparr>) []"
    using v by (auto simp: mutex_inv_def h)
qed

lemma mutex_val: "mutex_inv proc x hs \<Longrightarrow> sem_key x \<noteq> None \<Longrightarrow> sem_val x \<le> 1"
  by (simp add: mutex_inv_def)

text \<open>What has to be shown for a \<open>semop\<close> on the mutex.\<close>

lemma system_inv_mutex:
  assumes "system_inv proc n f a b s" and "sy_there s (proc t)" and "frame (sy_os s) k"
    and "breaks (sy_mem s (proc t)) m" and "mutex_inv proc (os_semaphores k ! a) hs"
    and "sem_key (os_semaphores (sy_os s) ! a) = None \<Longrightarrow> sem_key (os_semaphores k ! a) = None"
    and "\<And>u. u \<noteq> t \<Longrightarrow> u \<in> set (sy_holders s) \<Longrightarrow> u \<in> set hs"
    and "inside x \<Longrightarrow> sm_mutexIDSysV m = int a \<Longrightarrow>
      t \<in> set hs \<or> sm_broken m \<and> sem_key (os_semaphores k ! a) = None"
  shows "system_inv proc n f a b (set_thread t x (set_mem (proc t) m (s\<lparr>sy_os := k, sy_holders := hs\<rparr>)))"
proof -
  note inv = system_invD [OF assms(1)]
  have "ids_ok n a b m" using inv(3) [OF assms(2)] assms(4) by (auto simp: breaks_def)
  moreover have "u \<in> set hs \<or> sm_broken (((sy_mem s)(proc t := m)) (proc u)) \<and> sem_key (os_semaphores k ! a) = None"
    if "u \<noteq> t" "inside (sy_thread s u)" "sm_mutexIDSysV (((sy_mem s)(proc t := m)) (proc u)) = int a" for u
    using that inv(5) [of u] assms(4,6,7) by (auto simp: breaks_def split: if_splits)
  ultimately show ?thesis
    unfolding system_inv_def set_thread_def set_mem_def
    using os_inv_frame [OF assms(3) inv(1)] assms(2,5,8) inv(3,4) by auto
qed

lemma sem_there_key: "sem_there (int a) k \<Longrightarrow> sem_key (os_semaphores k ! a) \<noteq> None"
  by (simp add: sem_there_def)

lemma not_sem_there: "\<not> sem_there (int a) k \<Longrightarrow> os_inv n f a b k \<Longrightarrow> sem_key (os_semaphores k ! a) = None"
  by (simp add: sem_there_def os_inv_def)

lemma lock_step:
  assumes inv: "system_inv proc n f a b s" and t: "sy_there s (proc t)"
    and l: "mutex_semop (proc t) (- 1) (sy_mem s (proc t)) (sy_os s) = Some (changed, m, k)"
  shows "system_inv proc n f a b (set_thread t T_locked (set_mem (proc t) m
    (s\<lparr>sy_os := k, sy_holders := (if changed then t # sy_holders s else sy_holders s)\<rparr>)))"
  using l system_invD(3) [OF inv t] disjI1 [OF refl]
proof (cases rule: mutex_semop_cases)
  case none
  then show ?thesis
    using system_invD(2) [OF inv] by (intro system_inv_mutex [OF inv t]) simp_all
next
  case removed
  then show ?thesis
    using system_invD(2) [OF inv] not_sem_there [OF removed(4) system_invD(1) [OF inv]]
    by (intro system_inv_mutex [OF inv t]) simp_all
next
  case overflow
  have "sem_key (os_semaphores (sy_os s) ! a) = None"
    using mutex_val [OF system_invD(2) [OF inv]] overflow(4) by fastforce
  then show ?thesis
    using system_invD(2) [OF inv] overflow by (intro system_inv_mutex [OF inv t]) simp_all
next
  case changed
  let ?x = "os_semaphores (sy_os s) ! a"
  have "mutex_inv proc ?x (sy_holders s)" "sem_key ?x \<noteq> None"
    using system_invD(2) [OF inv] sem_there_key [OF changed(4)] by simp_all
  from mutex_lock(1) [OF this changed(5)] mutex_lock(2) [OF this changed(5), where t = t] show ?thesis
    using changed inv t system_invD(1) [OF inv]
    by (auto intro!: system_inv_mutex frame_sem_update simp: sem_at)
qed

lemma unlock_step:
  assumes inv: "system_inv proc n f a b s" and t: "sy_there s (proc t)" and i: "inside (sy_thread s t)"
    and l: "mutex_semop (proc t) 1 (sy_mem s (proc t)) (sy_os s) = Some (changed, m, k)"
  shows "system_inv proc n f a b (set_thread t T_unlocked (set_mem (proc t) m
    (s\<lparr>sy_os := k, sy_holders := (if changed then remove1 t (sy_holders s) else sy_holders s)\<rparr>)))"
  using l system_invD(3) [OF inv t] disjI2 [OF refl]
proof (cases rule: mutex_semop_cases)
  case changed
  let ?x = "os_semaphores (sy_os s) ! a"
  have k: "sem_key ?x \<noteq> None" using sem_there_key [OF changed(4)] .
  then have "t \<in> set (sy_holders s)" using system_invD(5) [OF inv i changed(3)] by (elim disjE conjE; simp)
  from mutex_unlock [OF system_invD(2) [OF inv] k this] show ?thesis
    using changed inv t system_invD(1) [OF inv]
    by (auto intro!: system_inv_mutex frame_sem_update simp: sem_at)
next
  case none
  then show ?thesis using system_invD(2) [OF inv] by (intro system_inv_mutex [OF inv t]) simp_all
next
  case removed
  then show ?thesis using system_invD(2) [OF inv] by (intro system_inv_mutex [OF inv t]) simp_all
next
  case overflow
  then show ?thesis using system_invD(2) [OF inv] by (intro system_inv_mutex [OF inv t]) simp_all
qed


lemma run_step:
  assumes inv: "system_inv proc n f a b s" and r: "thread_run proc t s = Some s'"
  shows "system_inv proc n f a b s'"
proof -
  let ?m = "sy_mem s (proc t)" and ?k = "sy_os s"
  have there: "sy_there s (proc t)"
  proof (rule ccontr)
    assume "\<not> sy_there s (proc t)"
    then have "sy_thread s t = T_ready False" using system_invD(4) [OF inv] by blast
    then show False using r by (simp add: thread_run_def)
  qed
  note ok = system_invD(3) [OF inv there] and ab = system_invD(1) [OF inv, unfolded os_inv_def]
  have ne: "a \<noteq> b" using ab by simp
  note keep = system_inv_keeps [OF inv _ there _ _ refl]
  show ?thesis
  proof (cases "sy_thread s t")
    case T_lock
    then show ?thesis using r lock_step [OF inv there] by (auto simp: thread_run_def Let_def split: option.splits)
  next
    case T_locked
    then show ?thesis using r system_inv_locked [OF inv there] by (auto simp: thread_run_def Let_def)
  next
    case T_unlock
    then show ?thesis using r unlock_step [OF inv there] by (auto simp: thread_run_def Let_def split: option.splits)
  next
    case T_unlocked
    then show ?thesis using r system_inv_locked [OF inv there] by (auto simp: thread_run_def Let_def)
  next
    case (T_wait x)
    show ?thesis
    proof (cases "waitSysV (proc t) ?m ?k")
      case None
      then have "sm_conditionIDSysV ?m = int b" using ok by (auto simp: waitSysV_def ids_ok_def)
      then show ?thesis
        using r T_wait None ne keep [OF keeps_sem_update [of b a "\<lambda>y. y\<lparr>sem_sleepers := t # sem_sleepers y\<rparr>"] breaks_refl(1), of "T_sleeping x"]
        by (simp add: thread_run_def Let_def set_mem_def)
    next
      case (Some y)
      obtain m k where y: "y = (m, k)" by (cases y)
      show ?thesis
        using r T_wait Some keep [of k m "T_ready x"] waitSysV_keeps [of "proc t" ?m ?k m k]
        by (auto simp: thread_run_def Let_def y)
    qed
  next
    case (T_sleeping x)
    then show ?thesis
      using r keep [OF keeps_refl, of "?m\<lparr>sm_broken := True\<rparr>" "T_ready x"] system_inv_thread [OF inv there, of "T_ready x"]
      by (auto simp: thread_run_def Let_def split: if_splits)
  next
    case (T_notify x)
    then show ?thesis
      using r keep [OF notify_setval_keeps(1) [OF ok ne, where v = 0 and k = ?k], OF notify_setval_keeps(2) [OF ok ne], of "T_reset x"]
      by (auto simp: thread_run_def Let_def split_beta)
  next
    case (T_reset x)
    then show ?thesis
      using r keep [OF notify_setval_keeps(1) [OF ok ne, where v = 1 and k = ?k], OF notify_setval_keeps(2) [OF ok ne], of "T_ready x"]
      by (auto simp: thread_run_def Let_def split_beta)
  qed (use r in \<open>auto simp: thread_run_def Let_def\<close>)
qed

lemma crash_step:
  assumes inv: "system_inv proc n f a b s"
  shows "system_inv proc n f a b (threads_end proc p (s\<lparr>sy_os := process_ends proc p (sy_os s),
    sy_holders := filter (\<lambda>t. proc t \<noteq> p) (sy_holders s)\<rparr>))"
proof -
  let ?k = "process_ends proc p (sy_os s)" and ?hs = "filter (\<lambda>t. proc t \<noteq> p) (sy_holders s)"
  note I = system_invD [OF inv]
  have a: "a < length (os_semaphores (sy_os s))" using I(1) by (simp add: os_inv_def)
  have f: "frame (sy_os s) ?k" by (simp add: frame_def process_ends_def)
  have key: "sem_key (os_semaphores ?k ! a) = sem_key (os_semaphores (sy_os s) ! a)"
    using a by (simp add: process_ends_def)
  have "length (sy_holders s) = length ?hs + length (filter (\<lambda>t. proc t = p) (sy_holders s))"
    using sum_length_filter_compl [of "\<lambda>t. proc t = p" "sy_holders s"] by simp
  moreover have "filter (\<lambda>t. proc t = q) ?hs = (if q = p then [] else filter (\<lambda>t. proc t = q) (sy_holders s))" for q
    by (auto intro: filter_cong)
  ultimately have m: "mutex_inv proc (os_semaphores ?k ! a) ?hs"
    using I(2) a by (auto simp: mutex_inv_def process_ends_def simp del: filter_filter)
  show ?thesis
    unfolding system_inv_def
    using os_inv_frame [OF f I(1)] m key I(3-5) by (auto simp: threads_end_def)
qed

lemma system_step_inv:
  assumes inv: "system_inv proc n f a b s" and e: "system_step proc name e s = Some s'" and i: "\<forall>t. e \<noteq> Interrupt t"
    and n: "name \<noteq> []" "n = fst (shm_names False name)"
  shows "system_inv proc n f a b s'"
proof (cases e)
  case (Attach p)
  then have there: "\<not> sy_there s p" using e by (auto split: if_splits)
  obtain m k where m: "SharedMemory_new False name 0 (sy_os s) = Some (m, k)"
    and s': "s' = set_mem p m (s\<lparr>sy_os := k, sy_there := (sy_there s)(p := True)\<rparr>)"
    using e Attach there by (auto split: option.splits)
  note att = attach_ok [OF m n system_invD(1) [OF inv]]
  show ?thesis
  proof (rule system_inv_frame [OF inv])
    show "inside (sy_thread s t) \<and> sm_mutexIDSysV (sy_mem s' (proc t)) = sm_mutexIDSysV (sy_mem s (proc t)) \<and>
        (sm_broken (sy_mem s (proc t)) \<longrightarrow> sm_broken (sy_mem s' (proc t)))" if "inside (sy_thread s' t)" for t
      using that system_invD(4) [OF inv, of t] there by (auto simp: s' set_mem_def)
  qed (use att(1,2) system_invD(3,4) [OF inv] in \<open>auto simp: s' set_mem_def keeps_def split: if_splits\<close>)
next
  case (Destroy p)
  then have there: "sy_there s p"
    and s': "s' = threads_end proc p (s\<lparr>sy_os := SharedMemory_destroy (sy_mem s p) (sy_os s)\<rparr>)"
    using e by (auto split: if_splits)
  have "a \<noteq> b" using system_invD(1) [OF inv] by (simp add: os_inv_def)
  note d = destroy_ok [OF system_invD(3) [OF inv there] this, of "sy_os s"]
  show ?thesis
    by (rule system_inv_frame [OF inv])
      (use d system_invD(3,4) [OF inv] in \<open>auto simp: s' threads_end_def split: if_splits\<close>)
next
  case (Crash p)
  then show ?thesis using e crash_step [OF inv, of p] by simp
next
  case (Run t)
  then show ?thesis using e run_step [OF inv] by simp
next
  case (Interrupt t)
  then show ?thesis using i by simp
qed (use e in \<open>auto split: if_splits thread.splits intro!: system_inv_thread [OF inv]\<close>)

lemma system_inv_start:
  assumes "os_ok k" and "name \<noteq> []" and "0 < sz" and "system_new name sz k = Some s0"
  obtains f a b where "system_inv proc (fst (shm_names False name)) f a b s0"
proof -
  let ?n = "fst (shm_names False name)" and ?a = "length (os_semaphores k)"
  obtain m k' where m: "SharedMemory_new False name sz k = Some (m, k')" and ok: "os_ok k'"
    and sh: "shows_area m ?n (length (os_segments k)) ?a (Suc ?a) sz"
    and ar: "has_area k' ?n (length (os_segments k)) ?a (Suc ?a) sz"
    and x: "os_semaphores k' ! ?a = \<lparr>sem_key = sem_key (os_semaphores k' ! ?a), sem_val = 1, sem_adj = (\<lambda>_. 0), sem_sleepers = []\<rparr>"
    by (rule shm_create [OF assms(1-3) refl], rule that) assumption+
  have s0: "s0 = \<lparr>sy_os = k', sy_mem = (\<lambda>_. m), sy_there = (\<lambda>p. p = 0), sy_thread = (\<lambda>_. T_ready False), sy_holders = []\<rparr>"
    using assms(4) m by (simp add: system_new_def)
  obtain f where f: "map_of (os_files k') ?n = Some f" and
    ab: "?a < length (os_semaphores k')" "sem_key (os_semaphores k' ! ?a) = Some (os_ftok k' f 2)"
    "Suc ?a < length (os_semaphores k')" "sem_key (os_semaphores k' ! Suc ?a) = Some (os_ftok k' f 3)"
    by (cases "map_of (os_files k') ?n") (use ar in \<open>simp_all add: has_area_def\<close>)
  have u: "unique_keys (map sem_key (os_semaphores k'))" using ok by (simp add: os_ok_def)
  have ia: "i = ?a" if "i < length (os_semaphores k')" "sem_key (os_semaphores k' ! i) = Some (os_ftok k' f 2)" for i
    by (rule unique_keysD [OF u, of i "os_ftok k' f 2"]) (use that ab in simp_all)
  have ib: "i = Suc ?a" if "i < length (os_semaphores k')" "sem_key (os_semaphores k' ! i) = Some (os_ftok k' f 3)" for i
    by (rule unique_keysD [OF u, of i "os_ftok k' f 3"]) (use that ab in simp_all)
  have "os_inv ?n f ?a (Suc ?a) k'"
    unfolding os_inv_def by (intro conjI allI impI ab(1,3); (rule ia | rule ib | simp add: f))
  moreover have "mutex_inv proc (os_semaphores k' ! ?a) []"
    using arg_cong [OF x, of sem_val] arg_cong [OF x, of sem_adj] by (simp add: mutex_inv_def)
  moreover have "ids_ok ?n ?a (Suc ?a) m" using sh by (simp add: ids_ok_def shows_area_def)
  ultimately show thesis
    by (intro that [of f ?a "Suc ?a"]) (simp add: system_inv_def s0)
qed

lemma shm_reachable_inv:
  assumes "reachable False proc name s0 s" and "name \<noteq> []" and "system_inv proc (fst (shm_names False name)) f a b s0"
  shows "system_inv proc (fst (shm_names False name)) f a b s"
  using assms(1)
proof induction
  case (step s e s')
  then show ?case using system_step_inv [of proc _ f a b s name e s'] assms(2) by simp
qed (rule assms(3))

text \<open>
  C8: Of the threads of all processes that use a System V area, at most one is between \<open>lock\<close> and
  \<open>unlock\<close> with an instance that is still valid: whatever processes attach, are destroyed or crash,
  and whatever threads wait and notify, if no signal interrupts a call.
\<close>

theorem shm_mutual_exclusion:
  assumes "os_ok k" and "name \<noteq> []" and "0 < sz" and "system_new name sz k = Some s0"
    and "reachable False proc name s0 s"
    and "inside (sy_thread s t)" and "shm_valid (sy_mem s (proc t))"
    and "inside (sy_thread s u)" and "shm_valid (sy_mem s (proc u))"
  shows "t = u"
proof -
  obtain f a b where s0: "system_inv proc (fst (shm_names False name)) f a b s0"
    by (rule system_inv_start [OF assms(1-4)])
  note inv = shm_reachable_inv [OF assms(5,2) s0]
  have "x \<in> set (sy_holders s)" if "inside (sy_thread s x)" "shm_valid (sy_mem s (proc x))" for x
  proof -
    have "sy_there s (proc x)" using system_invD(4) [OF inv, of x] that(1) by (metis inside.simps(1))
    then have "\<not> sm_usePOSIX (sy_mem s (proc x))" "sm_mutexIDSysV (sy_mem s (proc x)) \<in> {- 1, int a}"
      using system_invD(3) [OF inv] by (simp_all add: ids_ok_def)
    then have "sm_mutexIDSysV (sy_mem s (proc x)) = int a" "\<not> sm_broken (sy_mem s (proc x))"
      using that(2) by (auto simp: shm_valid_def validSysV_def)
    then show ?thesis using system_invD(5) [OF inv that(1)] by blast
  qed
  then have "t \<in> set (sy_holders s)" "u \<in> set (sy_holders s)" using assms(6-9) by blast+
  moreover have "length (sy_holders s) \<le> 1" using system_invD(2) [OF inv] by (simp add: mutex_inv_def)
  ultimately show ?thesis by (cases "sy_holders s") auto
qed

section \<open>Runs\<close>

primrec system_run :: "(nat \<Rightarrow> nat) \<Rightarrow> cstring \<Rightarrow> step list \<Rightarrow> system \<Rightarrow> system option" where
  "system_run proc name [] s = Some s"
| "system_run proc name (e # es) s = Option.bind (system_step proc name e s) (system_run proc name es)"

lemma run_reachable:
  assumes "system_run proc name es s = Some s'" and "reachable i proc name s0 s" and "i \<or> (\<forall>t. Interrupt t \<notin> set es)"
  shows "reachable i proc name s0 s'"
  using assms
proof (induction es arbitrary: s)
  case (Cons e es)
  then obtain s1 where "system_step proc name e s = Some s1" "system_run proc name es s1 = Some s'"
    by (auto simp: Option.bind_eq_Some_conv)
  with Cons show ?case by (auto intro: reachable.step)
qed simp

definition sys_sample :: "(nat \<Rightarrow> nat) \<Rightarrow> step list \<Rightarrow> system option" where
  "sys_sample proc es = Option.bind (system_new area_name 8 os_sample) (system_run proc area_name es)"

definition sys_start :: system where
  "sys_start = the (system_new area_name 8 os_sample)"

lemma sys_start_new: "system_new area_name 8 os_sample = Some sys_start"
proof -
  have "system_new area_name 8 os_sample \<noteq> None"
    by (simp add: system_new_def SharedMemory_new_def area_name_nonempty split_beta)
  then show ?thesis by (simp add: sys_start_def)
qed

lemma sys_sample_reachable:
  assumes "sys_sample proc es = Some s" and "i \<or> (\<forall>t. Interrupt t \<notin> set es)"
  shows "reachable i proc area_name sys_start s"
  using assms by (auto simp: sys_sample_def sys_start_new intro: run_reachable reachable.start)

lemma sys_sample_run:
  assumes "case sys_sample proc es of None \<Rightarrow> False | Some s \<Rightarrow> P s" and "i \<or> (\<forall>t. Interrupt t \<notin> set es)"
  shows "\<exists>s. reachable i proc area_name sys_start s \<and> P s"
proof (cases "sys_sample proc es")
  case (Some s)
  with assms(1) have "reachable i proc area_name sys_start s \<and> P s" using sys_sample_reachable [OF _ assms(2)] by simp
  then show ?thesis by blast
qed (use assms(1) in simp)

theorem shm_mutual_exclusion_witness:
  "\<exists>s. reachable False (\<lambda>t. t) area_name sys_start s \<and> sy_thread s 1 = T_lock \<and>
     {u. inside (sy_thread s u) \<and> shm_valid (sy_mem s u)} = {0}"
proof -
  have "case sys_sample (\<lambda>t. t) [Attach 1, Call_lock 0, Run 0, Run 0, Call_lock 1] of None \<Rightarrow> False
      | Some s \<Rightarrow> inside (sy_thread s 0) \<and> shm_valid (sy_mem s 0) \<and> sy_thread s 1 = T_lock"
    by code_simp
  then obtain s where s: "reachable False (\<lambda>t. t) area_name sys_start s" "inside (sy_thread s 0)" "shm_valid (sy_mem s 0)"
      "sy_thread s 1 = T_lock"
    using sys_sample_run [where i = False] by fastforce
  have "u = 0" if "inside (sy_thread s u)" "shm_valid (sy_mem s u)" for u
    by (rule shm_mutual_exclusion [OF os_sample_ok area_name_nonempty _ sys_start_new s(1) that s(2,3)]) simp
  then have "{u. inside (sy_thread s u) \<and> shm_valid (sy_mem s u)} = {0}" using s(2,3) by blast
  with s(1,4) show ?thesis by blast
qed

text \<open>
  C33: A signal that interrupts a thread that waits in \<open>lock\<close> breaks mutual exclusion: \<open>lock\<close> returns
  without the mutex, the \<open>unlock\<close> that follows raises the semaphore, and a third process enters beside
  the one that holds the lock, both with valid instances.
\<close>

theorem shm_interrupt_breaks:
  "\<exists>s. reachable True (\<lambda>t. t) area_name sys_start s \<and>
     sy_thread s 0 = T_ready True \<and> shm_valid (sy_mem s 0) \<and> sy_thread s 2 = T_ready True \<and> shm_valid (sy_mem s 2)"
proof (rule sys_sample_run)
  show "case sys_sample (\<lambda>t. t) [Attach 1, Attach 2, Call_lock 0, Run 0, Run 0, Call_lock 1, Interrupt 1, Run 1,
      Call_unlock 1, Run 1, Run 1, Call_lock 2, Run 2, Run 2] of None \<Rightarrow> False
      | Some s \<Rightarrow> sy_thread s 0 = T_ready True \<and> shm_valid (sy_mem s 0) \<and> sy_thread s 2 = T_ready True \<and>
          shm_valid (sy_mem s 2)"
    by code_simp
qed simp

text \<open>Two threads of one process: one is behind \<open>lock\<close>, and \<open>isLocked\<close> says no.\<close>

lemma shm_isLocked_race:
  "\<exists>s. reachable False (\<lambda>t. 0) area_name sys_start s \<and>
     sy_thread s 1 = T_ready True \<and> shm_valid (sy_mem s 0) \<and> \<not> sm_isLocked (sy_mem s 0)"
proof (rule sys_sample_run)
  show "case sys_sample (\<lambda>t. 0) [Call_lock 0, Run 0, Run 0, Call_unlock 0, Run 0, Call_lock 1, Run 1, Run 1, Run 0]
      of None \<Rightarrow> False
      | Some s \<Rightarrow> sy_thread s 1 = T_ready True \<and> shm_valid (sy_mem s 0) \<and> \<not> sm_isLocked (sy_mem s 0)"
    by code_simp
qed simp

text \<open>A thread that sleeps in \<open>wait\<close> goes on behind the first call of \<open>notifyAll\<close>.\<close>

lemma semctl_zero_wakes:
  assumes "sem_there i k" and "\<not> os_refuses k OS_semctl"
  shows "sem_sleepers (os_semaphores (snd (semctl_setval i 0 k)) ! nat i) = []"
  using assms by (simp add: semctl_setval_def sem_update_def sem_there_def)

text \<open>
  C31: When a process that holds the lock ends, the lock is free: a thread of another process that
  waits in \<open>lock\<close> goes on, unless the area has been removed, which it is told.
\<close>

theorem shm_crash_releases:
  assumes "os_ok k" and "name \<noteq> []" and "0 < sz" and "system_new name sz k = Some s0"
    and "reachable False proc name s0 s" and "u \<in> set (sy_holders s)" and "sy_thread s t = T_lock" and "proc t \<noteq> proc u"
    and "system_step proc name (Crash (proc u)) s = Some s'"
  shows "\<exists>s''. system_step proc name (Run t) s' = Some s'' \<and>
    (t \<in> set (sy_holders s'') \<or> \<not> shm_valid (sy_mem s'' (proc t)))"
proof -
  let ?n = "fst (shm_names False name)"
  obtain f a b where s0: "system_inv proc ?n f a b s0" by (rule system_inv_start [OF assms(1-4)])
  have "reachable False proc name s0 s'" by (rule reachable.step [OF assms(5,9)]) simp
  note inv = system_invD [OF shm_reachable_inv [OF assms(5,2) s0]] and inv' = system_invD [OF shm_reachable_inv [OF this assms(2) s0]]
  have "sy_holders s = [u]" using inv(2) assms(6) by (cases "sy_holders s") (auto simp: mutex_inv_def)
  then have h: "sy_holders s' = []" using assms(9) by (auto simp: threads_end_def)
  have m: "sy_mem s' (proc t) = sy_mem s (proc t)" "sy_thread s' t = T_lock" using assms(7-9) by (auto simp: threads_end_def)
  have "sy_there s (proc t)" using inv(4) [of t] assms(7) by (metis thread.distinct(1))
  then have id: "sm_mutexIDSysV (sy_mem s' (proc t)) \<in> {- 1, int a}" "\<not> sm_usePOSIX (sy_mem s' (proc t))"
    using inv(3) m by (simp_all add: ids_ok_def)
  have a: "a < length (os_semaphores (sy_os s'))" using inv'(1) by (simp add: os_inv_def)
  have "sem_key (os_semaphores (sy_os s') ! a) = None \<or> sem_val (os_semaphores (sy_os s') ! a) = 1"
    using inv'(2) h by (auto simp: mutex_inv_def)
  then show ?thesis
    using id a m(2)
    by (auto simp: thread_run_def Let_def mutex_semop_def semop_def sem_there_def set_thread_def set_mem_def
        shm_valid_def validSysV_def)
qed

theorem shm_crash_releases_witness:
  "\<exists>s s'. reachable False (\<lambda>t. t) area_name sys_start s \<and> system_step (\<lambda>t. t) area_name (Crash 0) s = Some s' \<and>
    (\<exists>s''. system_step (\<lambda>t. t) area_name (Run 1) s' = Some s'' \<and> (1 \<in> set (sy_holders s'') \<or> \<not> shm_valid (sy_mem s'' 1)))"
proof -
  have "case sys_sample (\<lambda>t. t) [Attach 1, Call_lock 0, Run 0, Run 0, Call_lock 1] of None \<Rightarrow> False
      | Some s \<Rightarrow> 0 \<in> set (sy_holders s) \<and> sy_thread s 1 = T_lock"
    by code_simp
  then obtain s where s: "reachable False (\<lambda>t. t) area_name sys_start s" "0 \<in> set (sy_holders s)" "sy_thread s 1 = T_lock"
    using sys_sample_run [where i = False] by fastforce
  obtain s' where s': "system_step (\<lambda>t. t) area_name (Crash 0) s = Some s'" by simp
  show ?thesis
    using shm_crash_releases [OF os_sample_ok area_name_nonempty _ sys_start_new s(1,2,3) _ s'] s(1) s' by auto
qed

end
