(* ===== verification/SocketLife.thy ===== *)
theory SocketLife
  imports OD4
begin

text \<open>
  Construction and destruction of \<open>UDPSender\<close>, \<open>UDPReceiver\<close>, \<open>TCPConnection\<close> and \<open>TCPServer\<close> on
  Linux, the accepting thread of \<open>TCPServer\<close>, \<open>IPv4Tools.cpp\<close> and \<open>TerminateHandler.cpp\<close>. Which calls
  of the operating system are refused, and what it knows of addresses, are arguments.
\<close>

section \<open>Addresses\<close>

text \<open>
  What an interface shows: whether it has an address, of which family, and the text of its broadcast
  address (\<open>None\<close>: there is none, or \<open>getnameinfo\<close> fails for it).
\<close>

record interface =
  if_has_addr :: bool
  if_inet :: bool
  if_ip :: uint32
  if_named :: bool
  if_broadcast :: "cstring option"

text \<open>
  \<open>getaddrinfo\<close> gives a list of hosts: whether the family is \<open>AF_INET\<close>, and what \<open>inet_ntop\<close> makes of
  the address. \<open>inet_pton\<close> accepts numerical addresses only.
\<close>

record libc =
  lc_getaddrinfo :: "cstring \<Rightarrow> (bool \<times> cstring option) list option"
  lc_inet_addr :: "cstring \<Rightarrow> uint32"
  lc_inet_pton :: "cstring \<Rightarrow> bool"
  lc_getifaddrs :: "interface list option"

definition INADDR_NONE :: uint32 where "INADDR_NONE = 0xFFFFFFFF"

text \<open>
  The loop over the hosts: \<open>e\<close> stays at the first one while \<open>listOfHosts\<close> advances. The result is the
  text, and how many hosts \<open>freeaddrinfo\<close> frees.
\<close>

fun ipv4_of_hosts :: "bool \<times> cstring option \<Rightarrow> (bool \<times> cstring option) list \<Rightarrow> cstring \<times> nat" where
  "ipv4_of_hosts e [] = ([], 0)"
| "ipv4_of_hosts e (h # hs) =
     (case e of (True, Some addr) \<Rightarrow> (addr, length (h # hs)) | _ \<Rightarrow> ipv4_of_hosts e hs)"

definition getIPv4FromHostname :: "libc \<Rightarrow> cstring \<Rightarrow> cstring" where
  "getIPv4FromHostname lc hostname =
     (if hostname = [] then []
      else case lc_getaddrinfo lc hostname of
        None \<Rightarrow> []
      | Some [] \<Rightarrow> []
      | Some (h # hs) \<Rightarrow> fst (ipv4_of_hosts h (h # hs)))"

text \<open>\<open>std::istream_iterator<int>\<close>: numbers up to the first text that is none, or does not fit.\<close>

lemma read_ints_shorter:
  assumes "takeWhile is_digit (if t \<noteq> [] \<and> (hd t = 43 \<or> hd t = 45) then tl t else t) \<noteq> []" and "length t \<le> length s"
  shows "length (dropWhile is_digit (if t \<noteq> [] \<and> (hd t = 43 \<or> hd t = 45) then tl t else t)) < length (s :: cstring)"
proof -
  let ?u = "if t \<noteq> [] \<and> (hd t = 43 \<or> hd t = 45) then tl t else t"
  have "length (takeWhile is_digit ?u) + length (dropWhile is_digit ?u) = length ?u"
    by (metis length_append takeWhile_dropWhile_id)
  moreover have "length ?u \<le> length t" by simp
  moreover have "0 < length (takeWhile is_digit ?u)" using assms(1) by simp
  ultimately show ?thesis using assms(2) by linarith
qed

function read_ints :: "cstring \<Rightarrow> int list" where
  "read_ints s =
     (let t = dropWhile is_space s;
          negative = (t \<noteq> [] \<and> hd t = 45);
          u = (if t \<noteq> [] \<and> (hd t = 43 \<or> hd t = 45) then tl t else t);
          ds = takeWhile is_digit u;
          n = (if negative then - int (digits_value ds 0) else int (digits_value ds 0))
      in if ds = [] \<or> n < - (2 ^ 31) \<or> 2 ^ 31 \<le> n then [] else n # read_ints (dropWhile is_digit u))"
  by pat_completeness auto
termination
proof (relation "measure length", goal_cases)
  case (2 s t negative u ds n)
  show ?case unfolding in_measure 2(3)
    by (rule read_ints_shorter) (use 2 length_dropWhile_le in \<open>auto simp del: takeWhile_eq_Nil_iff\<close>)
qed simp

declare read_ints.simps [simp del]

definition address_tokens :: "libc \<Rightarrow> cstring \<Rightarrow> int list" where
  "address_tokens lc address = read_ints (replaceAll (getIPv4FromHostname lc address) 46 32)"

definition valid_tokens :: "int list \<Rightarrow> bool" where
  "valid_tokens ts \<longleftrightarrow> length ts = 4 \<and> list_all (\<lambda>a. 0 \<le> a \<and> a \<le> 255) ts"

text \<open>Whether an address is a broadcast address; \<open>UDPReceiver\<close> looks at interfaces of \<open>AF_INET\<close> only.\<close>

definition is_broadcast :: "bool \<Rightarrow> libc \<Rightarrow> cstring \<Rightarrow> bool" where
  "is_broadcast inet_only lc address \<longleftrightarrow> address = str ''255.255.255.255'' \<or>
     (case lc_getifaddrs lc of
        None \<Rightarrow> False
      | Some ifs \<Rightarrow> list_ex (\<lambda>i. if_has_addr i \<and> (inet_only \<longrightarrow> if_inet i) \<and> if_broadcast i = Some address) ifs)"

section \<open>Descriptors\<close>

datatype net_call =
    N_socket | N_reuseaddr | N_broadcast | N_nonblock | N_bind | N_getsockname | N_membership | N_listen
  | N_connect | N_accept | N_thread | N_pipeline

text \<open>The calls that are refused, and the open descriptors of the process.\<close>

record net =
  nt_refuses :: "net_call \<Rightarrow> bool"
  nt_open :: "int32 list"

definition lowest_fd :: "int32 list \<Rightarrow> int32" where
  "lowest_fd fds =
     (case find (\<lambda>i. of_nat i \<notin> set fds) [0..<Suc (length fds)] of None \<Rightarrow> - 1 | Some i \<Rightarrow> of_nat i)"

text \<open>A call that makes a descriptor: the lowest that is not open, if the call succeeds.\<close>

definition new_fd :: "net_call \<Rightarrow> net \<Rightarrow> int32 \<times> net" where
  "new_fd call n =
     (if nt_refuses n call \<or> 2 ^ 31 - 1 \<le> int (length (nt_open n)) then (- 1, n)
      else (let fd = lowest_fd (nt_open n) in (fd, n\<lparr>nt_open := fd # nt_open n\<rparr>)))"

definition close_fd :: "int32 \<Rightarrow> net \<Rightarrow> net" where
  "close_fd fd n = n\<lparr>nt_open := filter (\<lambda>x. x \<noteq> fd) (nt_open n)\<rparr>"

definition bad_fd :: "int32 \<Rightarrow> bool" where
  "bad_fd fd \<longleftrightarrow> sint fd < 0"

text \<open>Closing a member \<open>m_socket\<close>, which all classes do in the same way.\<close>

definition close_socket :: "int32 \<Rightarrow> net \<Rightarrow> net" where
  "close_socket m_socket n = (if \<not> bad_fd m_socket then close_fd m_socket n else n)"

section \<open>\<open>TerminateHandler\<close>\<close>

record terminate_handler =
  isTerminated :: bool

definition cluon_handleExit :: "terminate_handler \<Rightarrow> terminate_handler" where
  "cluon_handleExit th = th\<lparr>isTerminated := True\<rparr>"

definition cluon_handleSignal :: "int32 \<Rightarrow> terminate_handler \<Rightarrow> terminate_handler" where
  "cluon_handleSignal signal th = th\<lparr>isTerminated := True\<rparr>"

text \<open>\<open>isRunning\<close> of all classes with a reading thread.\<close>

definition isRunning :: "bool \<Rightarrow> terminate_handler \<Rightarrow> bool" where
  "isRunning m_readFromSocketThreadRunning th \<longleftrightarrow> m_readFromSocketThreadRunning \<and> \<not> isTerminated th"

section \<open>\<open>UDPSender\<close>\<close>

text \<open>\<open>us_broadcast\<close>: broadcasting has been enabled for the socket.\<close>

record udp_sender =
  us_socket :: int32
  us_portToSentFrom :: uint16
  us_address :: uint32
  us_port :: uint16
  us_broadcast :: bool

text \<open>\<open>local_port\<close> is the port that \<open>bind\<close> chooses.\<close>

definition UDPSender_new :: "libc \<Rightarrow> uint16 \<Rightarrow> cstring \<Rightarrow> uint16 \<Rightarrow> net \<Rightarrow> udp_sender \<times> net" where
  "UDPSender_new lc local_port sendToAddress sendToPort n =
     (let s = \<lparr>us_socket = - 1, us_portToSentFrom = 0, us_address = 0, us_port = 0, us_broadcast = False\<rparr> in
      if sendToAddress \<noteq> [] \<and> valid_tokens (address_tokens lc sendToAddress) \<and> 0 < sendToPort
      then (let s = s\<lparr>us_address := lc_inet_addr lc sendToAddress, us_port := sendToPort\<rparr>;
                (fd, n) = new_fd N_socket n;
                s = s\<lparr>us_socket := fd\<rparr>;
                s = (if \<not> bad_fd fd \<and> is_broadcast False lc sendToAddress
                     then s\<lparr>us_broadcast := \<not> nt_refuses n N_broadcast\<rparr> else s);
                s = (if \<not> bad_fd fd \<and> \<not> nt_refuses n N_bind \<and> \<not> nt_refuses n N_getsockname
                     then s\<lparr>us_portToSentFrom := local_port\<rparr> else s)
            in (s, n))
      else (s, n))"

definition UDPSender_destroy :: "udp_sender \<Rightarrow> net \<Rightarrow> net" where
  "UDPSender_destroy s n = close_socket (us_socket s) n"

section \<open>\<open>UDPReceiver\<close>\<close>

record udp_endpoint = udp_receiver +
  ur_socket :: int32
  ur_isMulticast :: bool
  ur_running :: bool

definition is_multicast :: "int list \<Rightarrow> bool" where
  "is_multicast ts \<longleftrightarrow> (224 < ts ! 0 \<and> ts ! 0 \<le> 239) \<and> (0 \<le> ts ! 1 \<and> ts ! 1 \<le> 255) \<and>
     (0 \<le> ts ! 2 \<and> ts ! 2 \<le> 255) \<and> (1 \<le> ts ! 3 \<and> ts ! 3 \<le> 255)"

definition udp_closeSocket :: "udp_endpoint \<times> net \<Rightarrow> udp_endpoint \<times> net" where
  "udp_closeSocket sn = ((fst sn)\<lparr>ur_socket := - 1\<rparr>, close_socket (ur_socket (fst sn)) (snd sn))"

text \<open>A step of the constructor: if the socket is open and the call is refused, it is closed.\<close>

definition udp_try :: "net_call \<Rightarrow> udp_endpoint \<times> net \<Rightarrow> udp_endpoint \<times> net" where
  "udp_try call sn =
     (if \<not> bad_fd (ur_socket (fst sn)) \<and> nt_refuses (snd sn) call then udp_closeSocket sn else sn)"

definition local_addresses :: "libc \<Rightarrow> uint32 set" where
  "local_addresses lc =
     (case lc_getifaddrs lc of
        None \<Rightarrow> {}
      | Some ifs \<Rightarrow> set (map if_ip (filter (\<lambda>i. if_has_addr i \<and> if_inet i \<and> if_named i) ifs)))"

definition udp_enable_broadcast :: "libc \<Rightarrow> cstring \<Rightarrow> udp_endpoint \<times> net \<Rightarrow> udp_endpoint \<times> net" where
  "udp_enable_broadcast lc address sn = (if is_broadcast True lc address then udp_try N_broadcast sn else sn)"

definition udp_nonblock :: "udp_endpoint \<times> net \<Rightarrow> udp_endpoint \<times> net" where
  "udp_nonblock sn =
     (if \<not> bad_fd (ur_socket (fst sn))
      then ((fst sn)\<lparr>ur_isBlockingSocket := nt_refuses (snd sn) N_nonblock\<rparr>, snd sn) else sn)"

text \<open>The multicast group is joined; other addresses have to be valid.\<close>

definition udp_admit :: "bool \<Rightarrow> udp_endpoint \<times> net \<Rightarrow> udp_endpoint \<times> net" where
  "udp_admit isValid sn =
     (if ur_isMulticast (fst sn) then udp_try N_membership sn
      else if \<not> bad_fd (ur_socket (fst sn)) \<and> \<not> isValid then udp_closeSocket sn else sn)"

text \<open>The reading thread and the pipeline are started; the socket is closed if one of them fails.\<close>

definition udp_start :: "libc \<Rightarrow> udp_endpoint \<times> net \<Rightarrow> udp_endpoint \<times> net" where
  "udp_start lc sn =
     (if \<not> bad_fd (ur_socket (fst sn))
      then (let sn = ((fst sn)\<lparr>ur_listOfLocalIPAddresses := local_addresses lc\<rparr>, snd sn);
                sn = (if nt_refuses (snd sn) N_thread then udp_closeSocket sn else ((fst sn)\<lparr>ur_running := True\<rparr>, snd sn))
            in if nt_refuses (snd sn) N_pipeline then udp_closeSocket sn else ((fst sn)\<lparr>ur_has_pipeline := True\<rparr>, snd sn))
      else sn)"

definition UDPReceiver_new :: "libc \<Rightarrow> cstring \<Rightarrow> uint16 \<Rightarrow> bool \<Rightarrow> uint16 \<Rightarrow> net \<Rightarrow> udp_endpoint \<times> net" where
  "UDPReceiver_new lc receiveFromAddress receiveFromPort has_delegate localSendFromPort n =
     (let s = \<lparr>ur_localSendFromPort = localSendFromPort, ur_listOfLocalIPAddresses = {}, ur_isBlockingSocket = True,
               ur_has_delegate = has_delegate, ur_has_pipeline = False, ur_socket = - 1, ur_isMulticast = False, ur_running = False\<rparr>;
          ts = address_tokens lc receiveFromAddress
      in if receiveFromAddress \<noteq> [] \<and> valid_tokens ts \<and> 0 < receiveFromPort
         then (let isValid = (lc_inet_pton lc receiveFromAddress \<and> (ts ! 0 < 224 \<or> ts ! 0 = 255));
                   (fd, n) = new_fd N_socket n
               in udp_start lc (udp_admit isValid (udp_try N_bind (udp_nonblock (udp_enable_broadcast lc receiveFromAddress
                    (udp_try N_reuseaddr (s\<lparr>ur_isMulticast := is_multicast ts, ur_socket := fd\<rparr>, n)))))))
         else (s, n))"

definition UDPReceiver_destroy :: "udp_endpoint \<Rightarrow> net \<Rightarrow> net" where
  "UDPReceiver_destroy s n = snd (udp_closeSocket (s\<lparr>ur_running := False, ur_has_pipeline := False\<rparr>, n))"

section \<open>\<open>TCPConnection\<close>\<close>

record tcp_endpoint = tcp +
  tc_address :: uint32
  tc_port :: uint16

definition tcp_init :: "int32 \<Rightarrow> bool \<Rightarrow> bool \<Rightarrow> tcp_endpoint" where
  "tcp_init fd newDataDelegate connectionLostDelegate =
     \<lparr>tc_socket = fd, tc_running = False, tc_hasNewDataDelegate = False, tc_newDataDelegate = newDataDelegate,
      tc_connectionLostDelegate = connectionLostDelegate, tc_has_pipeline = False, tc_lost_locked = False, tc_lost_calls = 0,
      tc_address = 0, tc_port = 0\<rparr>"

definition tcp_closeSocket :: "tcp_endpoint \<times> net \<Rightarrow> tcp_endpoint \<times> net" where
  "tcp_closeSocket sn = ((fst sn)\<lparr>tc_socket := - 1\<rparr>, close_socket (tc_socket (fst sn)) (snd sn))"

definition startReadingFromSocket :: "tcp_endpoint \<times> net \<Rightarrow> tcp_endpoint \<times> net" where
  "startReadingFromSocket sn =
     (let sn = (if nt_refuses (snd sn) N_thread then tcp_closeSocket sn else ((fst sn)\<lparr>tc_running := True\<rparr>, snd sn))
      in if nt_refuses (snd sn) N_pipeline then tcp_closeSocket sn else ((fst sn)\<lparr>tc_has_pipeline := True\<rparr>, snd sn))"

text \<open>The constructor that \<open>TCPServer\<close> uses, and the one for clients.\<close>

definition TCPConnection_of :: "int32 \<Rightarrow> net \<Rightarrow> tcp_endpoint \<times> net" where
  "TCPConnection_of socket n =
     (let s = tcp_init socket False False in if \<not> bad_fd socket then startReadingFromSocket (s, n) else (s, n))"

definition TCPConnection_new :: "libc \<Rightarrow> cstring \<Rightarrow> uint16 \<Rightarrow> bool \<Rightarrow> bool \<Rightarrow> net \<Rightarrow> tcp_endpoint \<times> net" where
  "TCPConnection_new lc address port newDataDelegate connectionLostDelegate n =
     (let s = tcp_init (- 1) newDataDelegate connectionLostDelegate;
          resolvedHostname = getIPv4FromHostname lc address
      in if valid_tokens (address_tokens lc address) \<and> 0 < port \<and> lc_inet_pton lc resolvedHostname
         then (let s = s\<lparr>tc_address := lc_inet_addr lc resolvedHostname, tc_port := port\<rparr>;
                   (fd, n) = new_fd N_socket n;
                   sn = (s\<lparr>tc_socket := fd\<rparr>, n)
               in if \<not> bad_fd fd
                  then (if nt_refuses n N_connect then tcp_closeSocket sn else startReadingFromSocket sn) else sn)
         else (s, n))"

definition setOnNewData :: "bool \<Rightarrow> tcp_endpoint \<Rightarrow> tcp_endpoint" where
  "setOnNewData newDataDelegate s = s\<lparr>tc_newDataDelegate := newDataDelegate\<rparr>"

text \<open>\<open>None\<close>: the thread holds the mutex already, as in the delegate itself.\<close>

definition setOnConnectionLost :: "bool \<Rightarrow> tcp_endpoint \<Rightarrow> tcp_endpoint option" where
  "setOnConnectionLost connectionLostDelegate s =
     (if tc_lost_locked s then None else Some (s\<lparr>tc_connectionLostDelegate := connectionLostDelegate\<rparr>))"

definition TCPConnection_destroy :: "tcp_endpoint \<Rightarrow> net \<Rightarrow> net" where
  "TCPConnection_destroy s n = snd (tcp_closeSocket (s\<lparr>tc_running := False, tc_has_pipeline := False\<rparr>, n))"

section \<open>\<open>TCPServer\<close>\<close>

record tcp_server =
  sv_socket :: int32
  sv_running :: bool
  sv_newConnectionDelegate :: bool

definition server_closeSocket :: "tcp_server \<times> net \<Rightarrow> tcp_server \<times> net" where
  "server_closeSocket sn = ((fst sn)\<lparr>sv_socket := - 1\<rparr>, close_socket (sv_socket (fst sn)) (snd sn))"

definition TCPServer_new :: "uint16 \<Rightarrow> bool \<Rightarrow> net \<Rightarrow> tcp_server \<times> net" where
  "TCPServer_new port newConnectionDelegate n =
     (let s = \<lparr>sv_socket = - 1, sv_running = False, sv_newConnectionDelegate = newConnectionDelegate\<rparr> in
      if 0 < port
      then (let (fd, n) = new_fd N_socket n;
                sn = (s\<lparr>sv_socket := fd\<rparr>, n);
                sn = (if \<not> bad_fd fd \<and> nt_refuses n N_reuseaddr then server_closeSocket sn else sn)
            in if \<not> bad_fd (sv_socket (fst sn))
               then (if \<not> nt_refuses n N_bind
                     then (if \<not> nt_refuses n N_listen
                           then (if \<not> nt_refuses n N_thread then ((fst sn)\<lparr>sv_running := True\<rparr>, snd sn)
                                 else server_closeSocket sn)
                           else server_closeSocket sn)
                     else server_closeSocket sn)
               else sn)
      else (s, n))"

text \<open>
  A turn of \<open>readFromSocket\<close> when a client is connecting from an address and a port: what the delegate
  is called with.
\<close>

definition TCPServer_turn ::
    "(uint32 \<Rightarrow> cstring) \<Rightarrow> uint32 \<times> uint16 \<Rightarrow> tcp_server \<Rightarrow> net \<Rightarrow> (cstring \<times> tcp_endpoint) option \<times> net" where
  "TCPServer_turn ntop remote s n =
     (let (connectingClient, n) = new_fd N_accept n in
      if 0 \<le> sint connectingClient \<and> sv_newConnectionDelegate s
      then (let (connection, n) = TCPConnection_of connectingClient n
            in (Some (ntop (fst remote) @ 58 # dec_nat (unat (snd remote)), connection), n))
      else (None, n))"

definition TCPServer_destroy :: "tcp_server \<Rightarrow> net \<Rightarrow> net" where
  "TCPServer_destroy s n = snd (server_closeSocket (s\<lparr>sv_running := False\<rparr>, n))"

section \<open>\<open>OD4Session\<close>\<close>

text \<open>The sockets of an \<open>OD4Session\<close>.\<close>

definition OD4Session_open :: "libc \<Rightarrow> uint16 \<Rightarrow> uint16 \<Rightarrow> net \<Rightarrow> udp_sender \<times> udp_endpoint \<times> net" where
  "OD4Session_open lc local_port CID n =
     (let address = str ''225.0.0.'' @ dec_nat (unat CID);
          (m_sender, n) = UDPSender_new lc local_port address 12175 n;
          (m_receiver, n) = UDPReceiver_new lc address 12175 True (us_portToSentFrom m_sender) n
      in (m_sender, m_receiver, n))"

end
