(* ===== verification/SocketLifeCorrect.thy ===== *)
theory SocketLifeCorrect
  imports SocketLife "HOL-Library.Multiset"
begin

text \<open>
  Who owns which descriptor, as a contract of the four classes and an invariant of all histories; which
  addresses are accepted; and the sockets of a session.
\<close>

section \<open>Numerical addresses\<close>

definition dotted :: "nat \<Rightarrow> nat \<Rightarrow> nat \<Rightarrow> nat \<Rightarrow> cstring" where
  "dotted a b c d = dec_nat a @ 46 # dec_nat b @ 46 # dec_nat c @ 46 # dec_nat d"

lemma dec_nat_hd:
  obtains c cs where "dec_nat n = c # cs" and "is_digit c" and "\<not> is_space c" and "c \<noteq> 43" and "c \<noteq> 45" and "c \<noteq> 46"
proof -
  obtain c cs where c: "dec_nat n = c # cs" by (cases "dec_nat n") auto
  then have d: "is_digit c" using dec_nat_digits [of n] by simp
  then have "48 \<le> unat c" by (simp add: is_digit_def word_le_nat_alt)
  then have "\<not> is_space c" "c \<noteq> 43" "c \<noteq> 45" "c \<noteq> 46" by (auto simp: is_space_def word_le_nat_alt)
  then show thesis using that c d by blast
qed

lemma read_ints_dec_nat:
  assumes "r = [] \<or> \<not> is_digit (hd r)"
  shows "read_ints (dec_nat n @ r) = (if n < 2 ^ 31 then int n # read_ints r else [])"
proof -
  obtain c cs where c: "dec_nat n = c # cs" "is_digit c" "\<not> is_space c" "c \<noteq> 43" "c \<noteq> 45" by (rule dec_nat_hd)
  have ds: "\<forall>x\<in>set (dec_nat n). is_digit x" using dec_nat_digits [of n] by (simp add: list_all_iff)
  have r: "takeWhile is_digit r = []" "dropWhile is_digit r = r" using assms by (cases r; simp)+
  have "takeWhile is_digit (dec_nat n @ r) = dec_nat n" "dropWhile is_digit (dec_nat n @ r) = r"
    using ds r by (simp_all add: takeWhile_append2 dropWhile_append2)
  then show ?thesis
    using c digits_value_dec_nat [of n] by (subst read_ints.simps) (simp add: Let_def)
qed

lemma read_ints_space: "read_ints (32 # s) = read_ints s"
proof -
  have "is_space 32" by (simp add: is_space_def)
  then have "dropWhile is_space (32 # s) = dropWhile is_space s" by simp
  then show ?thesis by (subst (1 2) read_ints.simps) (simp only:)
qed

lemma replaceAll_dec_nat: "replaceAll (dec_nat n) 46 32 = dec_nat n"
proof -
  have "c \<noteq> 46" if "c \<in> set (dec_nat n)" for c
    using that dec_nat_digits [of n] by (auto simp: list_all_iff is_digit_def)
  then show ?thesis by (simp add: replaceAll_def map_idI)
qed

lemma read_ints_dotted:
  "read_ints (replaceAll (dotted a b c d) 46 32) =
    (if a < 2 ^ 31 then int a # (if b < 2 ^ 31 then int b # (if c < 2 ^ 31 then int c #
      (if d < 2 ^ 31 then [int d] else []) else []) else []) else [])"
proof -
  have s: "\<not> is_digit 32" by (simp add: is_digit_def)
  have e: "read_ints [] = []" by (subst read_ints.simps) simp
  have "replaceAll (dotted a b c d) 46 32 = dec_nat a @ 32 # dec_nat b @ 32 # dec_nat c @ 32 # dec_nat d @ []"
    by (simp add: dotted_def replaceAll_append replaceAll_dec_nat) (simp add: replaceAll_def replaceAll_dec_nat [unfolded replaceAll_def])
  then show ?thesis using s e by (simp only: read_ints_dec_nat read_ints_space list.sel simp_thms)
qed

lemma valid_tokens_dotted:
  "valid_tokens (read_ints (replaceAll (dotted a b c d) 46 32)) \<longleftrightarrow> a \<le> 255 \<and> b \<le> 255 \<and> c \<le> 255 \<and> d \<le> 255"
  unfolding read_ints_dotted by (auto simp: valid_tokens_def)

lemma dotted_not_empty [simp]: "dotted a b c d \<noteq> []"
  by (simp add: dotted_def)

lemma getIPv4_first:
  "hostname \<noteq> [] \<Longrightarrow> lc_getaddrinfo lc hostname = Some ((True, Some addr) # hs) \<Longrightarrow> getIPv4FromHostname lc hostname = addr"
  by (simp add: getIPv4FromHostname_def)

text \<open>If the first host has no address, none is looked at, and none is freed.\<close>

lemma getIPv4_leaks:
  assumes "\<not> (fst h \<and> snd h \<noteq> None)" shows "ipv4_of_hosts h (h # hs) = ([], 0)"
proof -
  have "ipv4_of_hosts h xs = ([], 0)" for xs
    using assms by (induction xs) (auto split: prod.split option.split bool.split)
  then show ?thesis .
qed

lemma tokens_resolved:
  assumes "h \<noteq> []" and "lc_getaddrinfo lc h = Some ((True, Some (dotted a b c d)) # hs)"
    and "a \<le> 255" and "b \<le> 255" and "c \<le> 255" and "d \<le> 255"
  shows "address_tokens lc h = [int a, int b, int c, int d]" and "valid_tokens (address_tokens lc h)"
  using read_ints_dotted [of a b c d] valid_tokens_dotted [of a b c d] assms by (simp_all add: address_tokens_def getIPv4_first)

section \<open>Who owns which descriptor\<close>

lemma sint_of_nat: "i < 2 ^ 31 \<Longrightarrow> sint (of_nat i :: int32) = int i"
  using signed_take_bit_int_eq_self [of 31 "int i"] by (simp add: signed_of_nat)

lemma lowest_fd_free:
  assumes "length fds < 2 ^ 31 - 1"
  shows "\<not> bad_fd (lowest_fd fds)" and "lowest_fd fds \<notin> set fds"
proof -
  let ?P = "\<lambda>i. (of_nat i :: int32) \<notin> set fds"
  have inj: "inj_on (of_nat :: nat \<Rightarrow> int32) {..length fds}"
  proof (rule inj_onI)
    fix i j assume "i \<in> {..length fds}" "j \<in> {..length fds}" and eq: "(of_nat i :: int32) = of_nat j"
    then have "i < 2 ^ 31" "j < 2 ^ 31" using assms by (simp_all only: atMost_iff)
    then have "int i = int j" using sint_of_nat [of i] sint_of_nat [of j] eq by metis
    then show "i = j" by simp
  qed
  have "\<not> of_nat ` {..length fds} \<subseteq> set fds"
  proof
    assume "of_nat ` {..length fds} \<subseteq> set fds"
    then have "card ((of_nat :: nat \<Rightarrow> int32) ` {..length fds}) \<le> card (set fds)" by (intro card_mono) simp_all
    also have "\<dots> \<le> length fds" by (rule card_length)
    finally show False using card_image [OF inj] by simp
  qed
  then obtain j where "j < Suc (length fds)" "?P j" by (auto simp: less_Suc_eq_le)
  then obtain i where i: "find ?P [0..<Suc (length fds)] = Some i"
    by (cases "find ?P [0..<Suc (length fds)]") (auto simp: find_None_iff simp del: upt_Suc)
  then have "?P i" "i < Suc (length fds)" by (auto simp: find_Some_iff simp del: upt_Suc)
  moreover have "lowest_fd fds = of_nat i" unfolding lowest_fd_def i by simp
  ultimately show "\<not> bad_fd (lowest_fd fds)" "lowest_fd fds \<notin> set fds"
    using sint_of_nat [of i] assms by (simp_all add: bad_fd_def)
qed

text \<open>The change from \<open>n\<close> to \<open>n'\<close> is that a new descriptor has been taken, or nothing.\<close>

definition takes :: "int32 \<Rightarrow> net \<Rightarrow> net \<Rightarrow> bool" where
  "takes fd n n' \<longleftrightarrow> nt_refuses n' = nt_refuses n \<and>
     (if bad_fd fd then nt_open n' = nt_open n else fd \<notin> set (nt_open n) \<and> nt_open n' = fd # nt_open n)"

lemma bad_minus_one [simp]: "bad_fd (- 1)"
  by (simp add: bad_fd_def)

lemma takes_new_fd: "takes (fst (new_fd call n)) n (snd (new_fd call n))"
  using lowest_fd_free [of "nt_open n"] by (auto simp: takes_def new_fd_def Let_def)

lemma takes_none [simp]: "takes (- 1) n n"
  by (simp add: takes_def)

lemma takes_closed: "takes fd n n' \<Longrightarrow> takes (- 1) n (close_socket fd n')"
  by (auto simp: takes_def close_socket_def close_fd_def intro: filter_True)

definition accounted :: "int32 list \<Rightarrow> int32 list \<Rightarrow> net \<Rightarrow> bool" where
  "accounted base fds n \<longleftrightarrow> distinct (nt_open n) \<and> mset (nt_open n) = mset (filter (\<lambda>fd. \<not> bad_fd fd) fds) + mset base"

lemma filter_neq_remove1: "distinct l \<Longrightarrow> filter (\<lambda>x. x \<noteq> s) l = remove1 s l"
proof -
  assume "distinct l"
  have "filter (\<lambda>x. x \<noteq> s) l = removeAll s l" by (induction l) auto
  with \<open>distinct l\<close> show ?thesis by (simp add: distinct_remove1_removeAll)
qed

text \<open>
  What the classes have in common: construction takes at most one descriptor, that of the member
  \<open>m_socket\<close>, and destruction closes it.
\<close>

locale socket_owner =
  fixes make :: "'a \<Rightarrow> net \<Rightarrow> 'o \<times> net" and destroy :: "'o \<Rightarrow> net \<Rightarrow> net" and m_socket :: "'o \<Rightarrow> int32"
  assumes make: "takes (m_socket (fst (make a n))) n (snd (make a n))"
    and destroy: "destroy x n = close_socket (m_socket x) n"
begin

lemma make_accounted:
  "accounted base fds n \<Longrightarrow> accounted base (fds @ [m_socket (fst (make a n))]) (snd (make a n))"
  using make [of a n] by (auto simp: accounted_def takes_def split: if_splits)

lemma destroy_accounted:
  assumes "accounted base (xs @ m_socket x # ys) n" shows "accounted base (xs @ ys) (destroy x n)"
proof (cases "bad_fd (m_socket x)")
  case True
  then show ?thesis using assms by (simp add: accounted_def destroy close_socket_def)
next
  case False
  then show ?thesis using assms by (simp add: accounted_def destroy close_socket_def close_fd_def filter_neq_remove1)
qed

lemma make_then_destroy: "distinct (nt_open n) \<Longrightarrow> nt_open (destroy (fst (make a n)) (snd (make a n))) = nt_open n"
  using make [of a n] by (auto simp: takes_def destroy close_socket_def close_fd_def intro: filter_True)

end

section \<open>The four classes\<close>

lemma takes_udp_close: "takes (ur_socket (fst sn)) n (snd sn) \<Longrightarrow> takes (ur_socket (fst (udp_closeSocket sn))) n (snd (udp_closeSocket sn))"
  using takes_closed by (simp add: udp_closeSocket_def)

lemma takes_udp_try: "takes (ur_socket (fst sn)) n (snd sn) \<Longrightarrow> takes (ur_socket (fst (udp_try c sn))) n (snd (udp_try c sn))"
  using takes_udp_close by (simp add: udp_try_def)

lemma takes_udp_steps:
  assumes "takes (ur_socket (fst sn)) n (snd sn)"
  shows "takes (ur_socket (fst (udp_enable_broadcast lc address sn))) n (snd (udp_enable_broadcast lc address sn))"
    and "takes (ur_socket (fst (udp_nonblock sn))) n (snd (udp_nonblock sn))"
    and "takes (ur_socket (fst (udp_admit valid sn))) n (snd (udp_admit valid sn))"
    and "takes (ur_socket (fst (udp_start lc sn))) n (snd (udp_start lc sn))"
proof -
  note T = takes_udp_try [OF assms] takes_udp_close [OF assms]
  show "takes (ur_socket (fst (udp_enable_broadcast lc address sn))) n (snd (udp_enable_broadcast lc address sn))"
    and "takes (ur_socket (fst (udp_nonblock sn))) n (snd (udp_nonblock sn))"
    and "takes (ur_socket (fst (udp_admit valid sn))) n (snd (udp_admit valid sn))"
    using assms T by (simp_all add: udp_enable_broadcast_def udp_nonblock_def udp_admit_def)
  show "takes (ur_socket (fst (udp_start lc sn))) n (snd (udp_start lc sn))"
    using assms by (simp add: udp_start_def Let_def takes_udp_close)
qed

lemma takes_tcp_close: "takes (tc_socket (fst sn)) n (snd sn) \<Longrightarrow> takes (tc_socket (fst (tcp_closeSocket sn))) n (snd (tcp_closeSocket sn))"
  using takes_closed by (simp add: tcp_closeSocket_def)

lemma takes_tcp_start:
  "takes (tc_socket (fst sn)) n (snd sn) \<Longrightarrow> takes (tc_socket (fst (startReadingFromSocket sn))) n (snd (startReadingFromSocket sn))"
proof -
  assume a: "takes (tc_socket (fst sn)) n (snd sn)"
  define sn' where "sn' = (if nt_refuses (snd sn) N_thread then tcp_closeSocket sn else ((fst sn)\<lparr>tc_running := True\<rparr>, snd sn))"
  have "takes (tc_socket (fst sn')) n (snd sn')" using a takes_tcp_close [OF a] by (simp add: sn'_def)
  then show ?thesis using takes_tcp_close [of sn' n] by (simp add: startReadingFromSocket_def sn'_def [symmetric] Let_def)
qed

lemma takes_server_close: "takes (sv_socket (fst sn)) n (snd sn) \<Longrightarrow> takes (sv_socket (fst (server_closeSocket sn))) n (snd (server_closeSocket sn))"
  using takes_closed by (simp add: server_closeSocket_def)

definition make_sender :: "libc \<times> uint16 \<times> cstring \<times> uint16 \<Rightarrow> net \<Rightarrow> udp_sender \<times> net" where
  "make_sender x = (case x of (lc, local_port, address, port) \<Rightarrow> UDPSender_new lc local_port address port)"

definition make_receiver :: "libc \<times> cstring \<times> uint16 \<times> bool \<times> uint16 \<Rightarrow> net \<Rightarrow> udp_endpoint \<times> net" where
  "make_receiver x = (case x of (lc, address, port, delegate, local_port) \<Rightarrow> UDPReceiver_new lc address port delegate local_port)"

definition make_connection :: "libc \<times> cstring \<times> uint16 \<times> bool \<times> bool \<Rightarrow> net \<Rightarrow> tcp_endpoint \<times> net" where
  "make_connection x = (case x of (lc, address, port, d, l) \<Rightarrow> TCPConnection_new lc address port d l)"

definition make_server :: "uint16 \<times> bool \<Rightarrow> net \<Rightarrow> tcp_server \<times> net" where
  "make_server x = (case x of (port, delegate) \<Rightarrow> TCPServer_new port delegate)"

definition accept_connection :: "unit \<Rightarrow> net \<Rightarrow> tcp_endpoint \<times> net" where
  "accept_connection _ n = (let (fd, n) = new_fd N_accept n in TCPConnection_of fd n)"

interpretation sender: socket_owner make_sender UDPSender_destroy us_socket
proof
  show "takes (us_socket (fst (make_sender a n))) n (snd (make_sender a n))" for a n
  proof (cases a)
    case (fields lc lp address port)
    show ?thesis
      using takes_new_fd [of N_socket n]
      by (cases "new_fd N_socket n") (simp add: fields make_sender_def UDPSender_new_def Let_def)
  qed
qed (simp add: UDPSender_destroy_def)

interpretation receiver: socket_owner make_receiver UDPReceiver_destroy ur_socket
proof
  show "takes (ur_socket (fst (make_receiver a n))) n (snd (make_receiver a n))" for a n
  proof (cases a)
    case (fields lc address port delegate lp)
    obtain fd n1 where f: "new_fd N_socket n = (fd, n1)" by fastforce
    have "takes (ur_socket (fst (s\<lparr>ur_isMulticast := m, ur_socket := fd\<rparr>, n1))) n (snd (s\<lparr>ur_isMulticast := m, ur_socket := fd\<rparr>, n1))"
      for s :: udp_endpoint and m using takes_new_fd [of N_socket n] f by simp
    then show ?thesis
      unfolding fields make_receiver_def UDPReceiver_new_def Let_def f prod.case
      by (cases "address \<noteq> [] \<and> valid_tokens (address_tokens lc address) \<and> 0 < port")
        (simp_all add: takes_udp_steps takes_udp_try)
  qed
qed (simp add: UDPReceiver_destroy_def udp_closeSocket_def)

interpretation connection: socket_owner make_connection TCPConnection_destroy tc_socket
proof
  show "takes (tc_socket (fst (make_connection a n))) n (snd (make_connection a n))" for a n
  proof (cases a)
    case (fields lc address port d l)
    obtain fd n1 where f: "new_fd N_socket n = (fd, n1)" by fastforce
    have t0: "takes fd n n1" using takes_new_fd [of N_socket n] f by simp
    show ?thesis
      using t0 by (simp add: fields make_connection_def TCPConnection_new_def Let_def f tcp_init_def takes_tcp_start takes_tcp_close)
  qed
qed (simp add: TCPConnection_destroy_def tcp_closeSocket_def)

interpretation accepted: socket_owner accept_connection TCPConnection_destroy tc_socket
proof
  show "takes (tc_socket (fst (accept_connection a n))) n (snd (accept_connection a n))" for a n
  proof -
    obtain fd n1 where f: "new_fd N_accept n = (fd, n1)" by fastforce
    have t0: "takes fd n n1" using takes_new_fd [of N_accept n] f by simp
    show ?thesis
      using t0 takes_tcp_start [of "(tcp_init fd False False, n1)" n]
      by (simp add: accept_connection_def TCPConnection_of_def f tcp_init_def Let_def)
  qed
qed (simp add: TCPConnection_destroy_def tcp_closeSocket_def)

interpretation server: socket_owner make_server TCPServer_destroy sv_socket
proof
  show "takes (sv_socket (fst (make_server a n))) n (snd (make_server a n))" for a n
  proof (cases a)
    case (Pair port d)
    obtain fd n1 where f: "new_fd N_socket n = (fd, n1)" by fastforce
    have t0: "takes fd n n1" using takes_new_fd [of N_socket n] f by simp
    then have c: "takes (- 1) n (close_socket fd n1)" by (rule takes_closed)
    show ?thesis
      using t0 c by (simp add: Pair make_server_def TCPServer_new_def Let_def f server_closeSocket_def)
  qed
qed (simp add: TCPServer_destroy_def server_closeSocket_def)

section \<open>Histories\<close>

text \<open>
  The objects of a program, in a list: they are constructed and destroyed, and clients connect to its
  servers; what a server's delegate is called with is kept, too.
\<close>

datatype endpoint = E_sender udp_sender | E_receiver udp_endpoint | E_connection tcp_endpoint | E_server tcp_server

datatype construction =
    C_sender uint16 cstring uint16 | C_receiver cstring uint16 bool uint16 | C_connection cstring uint16 bool bool
  | C_server uint16 bool

fun construct :: "libc \<Rightarrow> construction \<Rightarrow> net \<Rightarrow> endpoint \<times> net" where
  "construct lc (C_sender local_port address port) n = map_prod E_sender id (make_sender (lc, local_port, address, port) n)"
| "construct lc (C_receiver address port d local_port) n = map_prod E_receiver id (make_receiver (lc, address, port, d, local_port) n)"
| "construct lc (C_connection address port d l) n = map_prod E_connection id (make_connection (lc, address, port, d, l) n)"
| "construct lc (C_server port d) n = map_prod E_server id (make_server (port, d) n)"

fun endpoint_socket :: "endpoint \<Rightarrow> int32" where
  "endpoint_socket (E_sender s) = us_socket s"
| "endpoint_socket (E_receiver s) = ur_socket s"
| "endpoint_socket (E_connection s) = tc_socket s"
| "endpoint_socket (E_server s) = sv_socket s"

fun destroy_endpoint :: "endpoint \<Rightarrow> net \<Rightarrow> net" where
  "destroy_endpoint (E_sender s) n = UDPSender_destroy s n"
| "destroy_endpoint (E_receiver s) n = UDPReceiver_destroy s n"
| "destroy_endpoint (E_connection s) n = TCPConnection_destroy s n"
| "destroy_endpoint (E_server s) n = TCPServer_destroy s n"

interpretation endpoint: socket_owner "construct lc" destroy_endpoint endpoint_socket
proof
  show "takes (endpoint_socket (fst (construct lc a n))) n (snd (construct lc a n))" for a n
    using sender.make receiver.make connection.make server.make by (cases a) simp_all
  show "destroy_endpoint x n = close_socket (endpoint_socket x) n" for x n
    using sender.destroy receiver.destroy connection.destroy server.destroy by (cases x) simp_all
qed

datatype event = Construct construction | Client nat "uint32 \<times> uint16" | Destruct nat

fun network_step :: "libc \<Rightarrow> (uint32 \<Rightarrow> cstring) \<Rightarrow> event \<Rightarrow> endpoint list \<times> net \<Rightarrow> endpoint list \<times> net" where
  "network_step lc ntop (Construct c) (os, n) = (let (x, n) = construct lc c n in (os @ [x], n))"
| "network_step lc ntop (Client i remote) (os, n) =
     (if i < length os
      then (case os ! i of
              E_server s \<Rightarrow>
                if sv_running s
                then (case TCPServer_turn ntop remote s n of
                        (None, n) \<Rightarrow> (os, n)
                      | (Some (from, c), n) \<Rightarrow> (os @ [E_connection c], n))
                else (os, n)
            | _ \<Rightarrow> (os, n))
      else (os, n))"
| "network_step lc ntop (Destruct i) (os, n) =
     (if i < length os then (take i os @ drop (Suc i) os, destroy_endpoint (os ! i) n) else (os, n))"

fun answers :: "endpoint \<Rightarrow> bool" where
  "answers (E_server s) = sv_newConnectionDelegate s"
| "answers _ = True"

fun constructs_answering :: "event \<Rightarrow> bool" where
  "constructs_answering (Construct (C_server port d)) = d"
| "constructs_answering _ = True"

lemma construct_answers: "constructs_answering (Construct c) \<Longrightarrow> answers (fst (construct lc c n))"
  by (cases c) (auto simp: make_server_def TCPServer_new_def server_closeSocket_def Let_def split: prod.splits)

lemma turn_accepts:
  "sv_newConnectionDelegate s \<Longrightarrow>
     (\<exists>from. TCPServer_turn ntop remote s n = (Some (from, fst (accept_connection () n)), snd (accept_connection () n))) \<or>
     (TCPServer_turn ntop remote s n = (None, n))"
proof -
  assume d: "sv_newConnectionDelegate s"
  obtain fd n1 where f: "new_fd N_accept n = (fd, n1)" by fastforce
  have "takes fd n n1" using takes_new_fd [of N_accept n] f by simp
  moreover have "n1 = n" if "bad_fd fd"
    using f that lowest_fd_free [of "nt_open n"] by (auto simp: new_fd_def Let_def split: if_splits)
  ultimately show ?thesis
    using d f by (auto simp: TCPServer_turn_def accept_connection_def bad_fd_def split: prod.splits)
qed

lemma network_step_accounted:
  assumes "accounted base (map endpoint_socket os) n" and "list_all answers os" and "constructs_answering e"
  shows "accounted base (map endpoint_socket (fst (network_step lc ntop e (os, n)))) (snd (network_step lc ntop e (os, n))) \<and>
    list_all answers (fst (network_step lc ntop e (os, n)))"
proof (cases e)
  case (Construct c)
  then show ?thesis
    using endpoint.make_accounted [OF assms(1), of lc c] construct_answers [of c lc n] assms(2,3) by (simp add: split_beta)
next
  case (Client i remote)
  show ?thesis
  proof (cases "i < length os \<and> (\<exists>s. os ! i = E_server s \<and> sv_running s)")
    case True
    then obtain s where s: "i < length os" "os ! i = E_server s" "sv_running s" by blast
    then have "sv_newConnectionDelegate s" using assms(2) by (metis answers.simps(1) list_all_length)
    from turn_accepts [OF this, of ntop remote n] show ?thesis
      using accepted.make_accounted [OF assms(1), of "()"] s assms(1,2) Client by auto
  next
    case False
    then show ?thesis using assms(1,2) Client by (auto split: endpoint.split)
  qed
next
  case (Destruct i)
  show ?thesis
  proof (cases "i < length os")
    case True
    then have "map endpoint_socket os = map endpoint_socket (take i os) @ endpoint_socket (os ! i) # map endpoint_socket (drop (Suc i) os)"
      by (metis id_take_nth_drop list.simps(9) map_append)
    then show ?thesis
      using endpoint.destroy_accounted [of base "map endpoint_socket (take i os)" "os ! i" "map endpoint_socket (drop (Suc i) os)" n]
        assms(1,2) True Destruct by (auto simp: list_all_iff dest: in_set_takeD in_set_dropD)
  next
    case False
    then show ?thesis using assms Destruct by simp
  qed
qed

text \<open>
  C19: Whatever a program does with its senders, receivers, connections and servers, and whatever calls
  of the operating system are refused: the descriptors that are open are those it had before and the
  sockets of the objects it has, each once. A server has to have a delegate for that.
\<close>

theorem sockets_accounted:
  assumes "distinct (nt_open n0)" and "list_all constructs_answering es"
  shows "case fold (network_step lc ntop) es ([], n0) of (os, n) \<Rightarrow>
    distinct (nt_open n) \<and> mset (nt_open n) = mset (filter (\<lambda>fd. \<not> bad_fd fd) (map endpoint_socket os)) + mset (nt_open n0)"
proof -
  have "accounted base (map endpoint_socket (fst (fold (network_step lc ntop) es (os, n)))) (snd (fold (network_step lc ntop) es (os, n)))"
    if "accounted base (map endpoint_socket os) n" "list_all answers os" for base os n
    using assms(2) that
  proof (induction es arbitrary: os n)
    case (Cons e es)
    show ?case
      using network_step_accounted [OF Cons.prems(2,3), of e lc ntop] Cons.IH [of "fst (network_step lc ntop e (os, n))" "snd (network_step lc ntop e (os, n))"] Cons.prems(1)
      by simp
  qed simp
  from this [of "nt_open n0" "[]" n0] show ?thesis using assms(1) by (simp add: accounted_def split_beta)
qed

text \<open>A program whose server accepts a connection; its receiver and its server are destroyed.\<close>

definition sample_libc :: libc where
  "sample_libc =
     \<lparr>lc_getaddrinfo = (\<lambda>s. let ip = (if s = str ''localhost'' then str ''127.0.0.1'' else s) in
        if valid_tokens (read_ints (replaceAll ip 46 32)) then Some (replicate 3 (True, Some ip)) else None),
      lc_inet_addr = (\<lambda>s. if s = str ''127.0.0.1'' then 0x0100007F else if s = str ''localhost'' then INADDR_NONE else 1),
      lc_inet_pton = (\<lambda>s. s \<noteq> str ''localhost'' \<and> valid_tokens (read_ints (replaceAll s 46 32))),
      lc_getifaddrs = None\<rparr>"

definition sample_net :: net where
  "sample_net = \<lparr>nt_refuses = (\<lambda>_. False), nt_open = [0, 1, 2]\<rparr>"

definition sample_history :: "event list" where
  "sample_history = [Construct (C_server 1234 True), Construct (C_receiver (str ''225.0.0.111'') 12175 True 0), Client 0 (0, 80),
     Destruct 1, Construct (C_sender 4000 (str ''225.0.0.111'') 12175), Destruct 0]"

theorem sockets_accounted_witness:
  "distinct (nt_open (snd (fold (network_step sample_libc (\<lambda>_. [])) sample_history ([], sample_net)))) \<and>
   map endpoint_socket (fst (fold (network_step sample_libc (\<lambda>_. [])) sample_history ([], sample_net))) = [5, 4] \<and>
   mset (nt_open (snd (fold (network_step sample_libc (\<lambda>_. [])) sample_history ([], sample_net)))) = {#5, 4, 0, 1, 2#}"
proof -
  have m: "map endpoint_socket (fst (fold (network_step sample_libc (\<lambda>_. [])) sample_history ([], sample_net))) = [5, 4]"
    by code_simp
  have d: "distinct (nt_open sample_net)" by code_simp
  have c: "list_all constructs_answering sample_history" by code_simp
  have b: "\<not> bad_fd 5" "\<not> bad_fd 4" by code_simp+
  have o: "nt_open sample_net = [0, 1, 2]" by (simp add: sample_net_def)
  from sockets_accounted [OF d c, of sample_libc "\<lambda>_. []"] show ?thesis unfolding split_beta m o by (simp add: b)
qed

text \<open>
  A server without a delegate accepts connections all the same; their descriptors stay open when it has
  been destroyed.
\<close>

definition accepts :: "(uint32 \<Rightarrow> cstring) \<Rightarrow> uint32 \<times> uint16 \<Rightarrow> tcp_server \<Rightarrow> net \<Rightarrow> net" where
  "accepts ntop remote s n = snd (TCPServer_turn ntop remote s n)"

lemma tcp_server_leaks:
  assumes "distinct (nt_open n)" and "\<not> nt_refuses n N_accept" and "\<not> sv_newConnectionDelegate s"
    and "length (nt_open n) + k < 2 ^ 31 - 1" and "sv_socket s \<in> set (nt_open n)" and "\<not> bad_fd (sv_socket s)"
  shows "length (nt_open (TCPServer_destroy s ((accepts ntop remote s ^^ k) n))) + 1 = length (nt_open n) + k"
proof -
  have step: "distinct (nt_open (accepts ntop remote s m)) \<and> length (nt_open (accepts ntop remote s m)) = Suc (length (nt_open m)) \<and>
      set (nt_open m) \<subseteq> set (nt_open (accepts ntop remote s m)) \<and> nt_refuses (accepts ntop remote s m) = nt_refuses m"
    if "distinct (nt_open m)" "\<not> nt_refuses m N_accept" "length (nt_open m) < 2 ^ 31 - 1" for m
    using that assms(3) lowest_fd_free [OF that(3)]
    by (auto simp: accepts_def TCPServer_turn_def new_fd_def Let_def)
  have "distinct (nt_open ((accepts ntop remote s ^^ j) n)) \<and> length (nt_open ((accepts ntop remote s ^^ j) n)) = length (nt_open n) + j \<and>
      set (nt_open n) \<subseteq> set (nt_open ((accepts ntop remote s ^^ j) n)) \<and> nt_refuses ((accepts ntop remote s ^^ j) n) = nt_refuses n" if "j \<le> k" for j
    using that
  proof (induction j)
    case (Suc j)
    then show ?case using step [of "(accepts ntop remote s ^^ j) n"] assms(2,4) by auto
  qed (use assms(1) in simp)
  from this [of k] obtain m where m: "m = (accepts ntop remote s ^^ k) n" "distinct (nt_open m)"
    "length (nt_open m) = length (nt_open n) + k" "sv_socket s \<in> set (nt_open m)" using assms(5) by auto
  then show ?thesis
    using assms(6) length_pos_if_in_set [OF m(4)]
    by (simp add: server.destroy close_socket_def close_fd_def filter_neq_remove1 length_remove1)
qed

section \<open>Which addresses are accepted\<close>

lemma new_fd_good:
  assumes "nt_refuses n = (\<lambda>_. False)" and "length (nt_open n) < 2 ^ 31 - 1"
  obtains fd n' where "new_fd call n = (fd, n')" and "\<not> bad_fd fd" and "nt_refuses n' = (\<lambda>_. False)"
    and "length (nt_open n') = Suc (length (nt_open n))"
  using lowest_fd_free [OF assms(2)] assms by (auto simp: new_fd_def Let_def)

lemma UDPReceiver_running:
  assumes "nt_refuses n = (\<lambda>_. False)" and "length (nt_open n) < 2 ^ 31 - 1"
    and "address \<noteq> []" and "valid_tokens (address_tokens lc address)" and "0 < port"
  shows "ur_running (fst (UDPReceiver_new lc address port d lp n)) \<longleftrightarrow>
      is_multicast (address_tokens lc address) \<or>
      lc_inet_pton lc address \<and> (address_tokens lc address ! 0 < 224 \<or> address_tokens lc address ! 0 = 255)"
    and "bad_fd (ur_socket (fst (UDPReceiver_new lc address port d lp n))) \<longleftrightarrow>
      \<not> ur_running (fst (UDPReceiver_new lc address port d lp n))"
    and "ur_localSendFromPort (fst (UDPReceiver_new lc address port d lp n)) = lp"
proof -
  obtain fd n1 where f: "new_fd N_socket n = (fd, n1)" "\<not> bad_fd fd" "nt_refuses n1 = (\<lambda>_. False)"
    by (rule new_fd_good [OF assms(1,2)])
  note S = UDPReceiver_new_def udp_start_def udp_admit_def udp_try_def udp_nonblock_def udp_enable_broadcast_def udp_closeSocket_def
  show "ur_running (fst (UDPReceiver_new lc address port d lp n)) \<longleftrightarrow>
      is_multicast (address_tokens lc address) \<or>
      lc_inet_pton lc address \<and> (address_tokens lc address ! 0 < 224 \<or> address_tokens lc address ! 0 = 255)"
    and "bad_fd (ur_socket (fst (UDPReceiver_new lc address port d lp n))) \<longleftrightarrow>
      \<not> ur_running (fst (UDPReceiver_new lc address port d lp n))"
    and "ur_localSendFromPort (fst (UDPReceiver_new lc address port d lp n)) = lp"
    using assms(3-5) f by (simp_all add: S Let_def)
qed

text \<open>
  The documented behaviour of \<open>getaddrinfo\<close> and \<open>inet_pton\<close> for numerical addresses: the first takes
  them as they are, and gives entries for this address (one for every type of socket, as none is asked for), the
  second accepts them.
\<close>

definition numerical_addresses :: "libc \<Rightarrow> bool" where
  "numerical_addresses lc \<longleftrightarrow> (\<forall>a b c d. a \<le> 255 \<and> b \<le> 255 \<and> c \<le> 255 \<and> d \<le> 255 \<longrightarrow>
     (\<exists>hosts. lc_getaddrinfo lc (dotted a b c d) = Some ((True, Some (dotted a b c d)) # hosts)) \<and>
     lc_inet_pton lc (dotted a b c d))"

lemma od4_address: "str ''225.0.0.'' @ dec_nat k = dotted 225 0 0 k"
  by (simp add: dotted_def dec_nat.simps)

lemma od4_session_runs:
  assumes "numerical_addresses lc" and "nt_refuses n = (\<lambda>_. False)" and "length (nt_open n) < 2 ^ 31 - 2"
  shows "case OD4Session_open lc local_port CID n of (m_sender, m_receiver, n') \<Rightarrow>
    (unat CID \<le> 255 \<longrightarrow> (ur_running m_receiver \<longleftrightarrow> CID \<noteq> 0) \<and> \<not> bad_fd (us_socket m_sender) \<and>
      us_portToSentFrom m_sender = local_port \<and> ur_localSendFromPort m_receiver = local_port) \<and>
    (255 < unat CID \<and> lc_getaddrinfo lc (str ''225.0.0.'' @ dec_nat (unat CID)) = None \<longrightarrow>
      \<not> ur_running m_receiver \<and> bad_fd (us_socket m_sender) \<and> bad_fd (ur_socket m_receiver))"
proof -
  let ?k = "unat CID" and ?a = "dotted 225 0 0 (unat CID)"
  obtain fd n1 where f: "new_fd N_socket n = (fd, n1)" "\<not> bad_fd fd" "nt_refuses n1 = (\<lambda>_. False)" "length (nt_open n1) = Suc (length (nt_open n))"
    by (rule new_fd_good [OF assms(2)]) (use assms(3) in simp_all)
  have len: "length (nt_open n1) < 2 ^ 31 - 1" using f(4) assms(3) by simp
  show ?thesis
  proof (cases "?k \<le> 255")
    case True
    then obtain hosts where h: "lc_getaddrinfo lc ?a = Some ((True, Some ?a) # hosts)"
      using assms(1) unfolding numerical_addresses_def by (metis le_refl zero_le numeral_le_iff semiring_norm(68,69,71,72,73,78,79))
    have ts: "address_tokens lc ?a = [225, 0, 0, int ?k]" and v: "valid_tokens (address_tokens lc ?a)"
      using tokens_resolved [of ?a lc 225 0 0 ?k hosts] h True by simp_all
    have s: "UDPSender_new lc local_port ?a 12175 n =
        (\<lparr>us_socket = fd, us_portToSentFrom = local_port, us_address = lc_inet_addr lc ?a, us_port = 12175,
          us_broadcast = is_broadcast False lc ?a\<rparr>, n1)"
      using v f by (simp add: UDPSender_new_def Let_def)
    have "is_multicast [225, 0, 0, i] \<longleftrightarrow> 1 \<le> i \<and> i \<le> 255" for i by (simp add: is_multicast_def)
    moreover have "1 \<le> int ?k \<and> int ?k \<le> 255 \<longleftrightarrow> CID \<noteq> 0" using True unat_gt_0 [of CID] by linarith
    ultimately have "is_multicast [225, 0, 0, int ?k] \<longleftrightarrow> CID \<noteq> 0" by (simp only:)
    then show ?thesis
      using UDPReceiver_running [OF f(3) len dotted_not_empty v, of 12175 True local_port] ts True f(2)
      unfolding OD4Session_open_def Let_def od4_address by (simp add: s split_beta)
  next
    case False
    have "\<not> valid_tokens (address_tokens lc ?a)" if "lc_getaddrinfo lc ?a = None"
      using that by (simp add: address_tokens_def getIPv4FromHostname_def replaceAll_def read_ints.simps [of "[]"] valid_tokens_def)
    then show ?thesis using False unfolding OD4Session_open_def Let_def od4_address
      by (auto simp: UDPSender_new_def UDPReceiver_new_def bad_fd_def Let_def split_beta)
  qed
qed


lemma dotted_not_localhost: "dotted a b c d \<noteq> str ''localhost''"
proof -
  obtain x xs where "dec_nat a = x # xs" "is_digit x" by (rule dec_nat_hd)
  then show ?thesis by (auto simp: dotted_def is_digit_def)
qed

lemma sample_libc_numerical: "numerical_addresses sample_libc"
  unfolding numerical_addresses_def
  using dotted_not_localhost by (simp add: sample_libc_def valid_tokens_dotted Let_def numeral_3_eq_3)


text \<open>
  C21: For the name of a host the classes disagree: \<open>TCPConnection\<close> connects to the address that it
  resolves to; \<open>UDPSender\<close> checks this address, but sends to what \<open>inet_addr\<close> makes of the name,
  255.255.255.255, without having enabled broadcasting; and \<open>UDPReceiver\<close> closes its socket.
\<close>

theorem host_names_disagree:
  assumes "lc_getaddrinfo lc name = Some ((True, Some (dotted a b c d)) # hosts)" and "name \<noteq> []"
    and "a \<le> 223" and "b \<le> 255" and "c \<le> 255" and "d \<le> 255" and "lc_inet_pton lc (dotted a b c d)"
    and "\<not> lc_inet_pton lc name" and "lc_inet_addr lc name = INADDR_NONE" and "\<not> is_broadcast False lc name"
    and "0 < port" and "nt_refuses n = (\<lambda>_. False)" and "length (nt_open n) < 2 ^ 31 - 1"
  shows "tc_running (fst (TCPConnection_new lc name port nd cl n)) \<and>
      tc_address (fst (TCPConnection_new lc name port nd cl n)) = lc_inet_addr lc (dotted a b c d) \<and>
    \<not> bad_fd (us_socket (fst (UDPSender_new lc lp name port n))) \<and>
      us_address (fst (UDPSender_new lc lp name port n)) = INADDR_NONE \<and> \<not> us_broadcast (fst (UDPSender_new lc lp name port n)) \<and>
    \<not> ur_running (fst (UDPReceiver_new lc name port del lp n)) \<and> bad_fd (ur_socket (fst (UDPReceiver_new lc name port del lp n)))"
proof -
  have ts: "address_tokens lc name = [int a, int b, int c, int d]" and v: "valid_tokens (address_tokens lc name)"
    by (rule tokens_resolved [OF assms(2,1)]; use assms in simp)+
  obtain fd n1 where f: "new_fd N_socket n = (fd, n1)" "\<not> bad_fd fd" "nt_refuses n1 = (\<lambda>_. False)"
    by (rule new_fd_good [OF assms(12,13)])
  have "\<not> is_multicast [int a, int b, int c, int d]" using assms(3) by (simp add: is_multicast_def)
  then have "\<not> ur_running (fst (UDPReceiver_new lc name port del lp n)) \<and> bad_fd (ur_socket (fst (UDPReceiver_new lc name port del lp n)))"
    using UDPReceiver_running [OF assms(12,13,2) v assms(11), of del lp] ts assms(8) by simp
  moreover have "tc_running (fst (TCPConnection_new lc name port nd cl n)) \<and>
      tc_address (fst (TCPConnection_new lc name port nd cl n)) = lc_inet_addr lc (dotted a b c d)"
    using v f assms by (simp add: TCPConnection_new_def getIPv4_first startReadingFromSocket_def tcp_init_def Let_def)
  moreover have "\<not> bad_fd (us_socket (fst (UDPSender_new lc lp name port n))) \<and>
      us_address (fst (UDPSender_new lc lp name port n)) = INADDR_NONE \<and> \<not> us_broadcast (fst (UDPSender_new lc lp name port n))"
    using v f assms by (simp add: UDPSender_new_def Let_def)
  ultimately show ?thesis by blast
qed

theorem host_names_disagree_witness:
  "us_address (fst (UDPSender_new sample_libc 4000 (str ''localhost'') 80 sample_net)) = INADDR_NONE \<and>
   tc_address (fst (TCPConnection_new sample_libc (str ''localhost'') 80 True True sample_net)) = 0x0100007F"
proof -
  have d: "dotted 127 0 0 1 = str ''127.0.0.1''" by code_simp
  have h: "lc_getaddrinfo sample_libc (str ''localhost'') = Some ((True, Some (dotted 127 0 0 1)) # replicate 2 (True, Some (dotted 127 0 0 1)))"
    "lc_inet_pton sample_libc (dotted 127 0 0 1)" unfolding d by code_simp+
  have a: "lc_inet_addr sample_libc (dotted 127 0 0 1) = 0x0100007F" unfolding d by code_simp
  have p: "\<not> lc_inet_pton sample_libc (str ''localhost'')" "lc_inet_addr sample_libc (str ''localhost'') = INADDR_NONE"
    "\<not> is_broadcast False sample_libc (str ''localhost'')" by code_simp+
  have n: "nt_refuses sample_net = (\<lambda>_. False)" "length (nt_open sample_net) < 2 ^ 31 - 1" by (simp_all add: sample_net_def)
  show ?thesis
    using host_names_disagree [OF h(1) _ _ _ _ _ h(2) p _ n, of 80] a by simp
qed

end
