(* ===== verification/FilterTool.thy ===== *)
theory FilterTool
  imports PlayerCorrect Strings
begin

text \<open>
  The program \<open>cluon-filter\<close>, which copies the selected envelopes from its standard input to its
  standard output, and the command line of the programs.
\<close>

section \<open>The command line\<close>

text \<open>
  What \<open>getCommandlineArguments\<close> makes of the positional arguments, flags and parameters that the
  vendored \<open>argh\<close> finds on the command line.
\<close>

type_synonym arguments = "(cstring \<times> cstring) list"

definition getCommandlineArguments :: "cstring list \<Rightarrow> cstring list \<Rightarrow> (cstring \<times> cstring) list \<Rightarrow> arguments" where
  "getCommandlineArguments pos_args flags params =
     (let retVal = fold (\<lambda>positionalArgument. assign positionalArgument []) pos_args [];
          retVal = fold (\<lambda>flag. assign flag (str ''1'')) flags retVal
      in fold (\<lambda>(k, v). assign k v) params retVal)"

definition has_arg :: "string \<Rightarrow> arguments \<Rightarrow> bool" where
  "has_arg k args \<longleftrightarrow> map_of args (str k) \<noteq> None"

text \<open>\<open>commandlineArguments[k]\<close>: an argument that is not there is empty.\<close>

definition arg :: "string \<Rightarrow> arguments \<Rightarrow> cstring" where
  "arg k args = (case map_of args (str k) of None \<Rightarrow> [] | Some v \<Rightarrow> v)"

text \<open>\<open>std::stoi\<close>: \<open>None\<close> for an exception, when there is no number or it does not fit.\<close>

definition std_stoi :: "cstring \<Rightarrow> int32 option" where
  "std_stoi s =
     (let t = dropWhile is_space s;
          negative = (t \<noteq> [] \<and> hd t = 45);
          ds = takeWhile is_digit (if t \<noteq> [] \<and> (hd t = 43 \<or> hd t = 45) then tl t else t);
          n = (if negative then - int (digits_value ds 0) else int (digits_value ds 0))
      in if ds = [] \<or> n < - (2 ^ 31) \<or> 2 ^ 31 \<le> n then None else Some (of_int n))"

section \<open>Options\<close>

record filter_options =
  fo_keep :: "cstring list"
  fo_drop :: "cstring list"
  fo_SKIP :: uint32
  fo_START :: int32
  fo_END :: int32
  fo_isRelativeEnd :: bool
  fo_EXIT :: bool

text \<open>The keys of \<open>mapOfEnvelopesToKeep\<close> and \<open>mapOfEnvelopesToDrop\<close>.\<close>

definition filter_entries :: "cstring \<Rightarrow> cstring list" where
  "filter_entries value =
     (let entries = split (value @ [44]) 44
      in map (\<lambda>e. if length (split e 47) = 0 then e @ str ''/0'' else e) (filter (\<lambda>e. length e \<noteq> 0) entries))"

text \<open>\<open>None\<close>: an exception that nobody catches, which ends the program.\<close>

definition filter_options_of :: "arguments \<Rightarrow> filter_options option" where
  "filter_options_of args =
     (let number = (\<lambda>k default. if has_arg k args then std_stoi (arg k args) else Some default)
      in case number ''skip'' 0 of None \<Rightarrow> None | Some skip \<Rightarrow>
         case number ''start'' 0 of None \<Rightarrow> None | Some start \<Rightarrow>
         case number ''end'' (2 ^ 31 - 1) of None \<Rightarrow> None | Some end \<Rightarrow>
           if has_arg ''end'' args \<and> arg ''end'' args = [] then None
           else Some \<lparr>fo_keep = filter_entries (arg ''keep'' args), fo_drop = filter_entries (arg ''drop'' args),
              fo_SKIP = ucast skip, fo_START = start, fo_END = end,
              fo_isRelativeEnd = (has_arg ''end'' args \<and> hd (arg ''end'' args) = 43),
              fo_EXIT = has_arg ''exit'' args\<rparr>)"

section \<open>The loop\<close>

definition PlayerStatus_ID :: int32 where "PlayerStatus_ID = 10"

text \<open>The text \<open>sstr\<close> with which an envelope is looked up.\<close>

definition envelope_key :: "Envelope \<Rightarrow> cstring" where
  "envelope_key e = dec_int (sint (env_dataType e)) @ 47 # dec_nat (unat (env_senderStamp e))"

text \<open>What changes from turn to turn: the counter, the end, and whether a relative end is known.\<close>

type_synonym filter_state = "uint32 \<times> int32 \<times> bool"

text \<open>
  One turn behind \<open>extractEnvelope\<close>: the state, the text written, and whether the program exits.
  \<open>str\<close> becomes the serialised envelope once that is written.
\<close>

definition filter_envelope :: "filter_options \<Rightarrow> Envelope \<Rightarrow> filter_state \<Rightarrow> filter_state \<times> cstring \<times> bool" where
  "filter_envelope opts env st =
     (let (counter, END, endInitialized) = st in
      if 0 < sint (env_dataType env) \<and> env_dataType env \<noteq> PlayerStatus_ID
      then
        (let counter = counter + 1 in
         if fo_SKIP opts < counter
         then
           (let seconds = ts_seconds (env_sampleTimeStamp env);
                (END, endInitialized) =
                  (if fo_isRelativeEnd opts \<and> \<not> endInitialized
                   then (END + (if 0 < sint (fo_START opts) then fo_START opts else seconds), True)
                   else (END, endInitialized));
                out =
                  (if sint (fo_START opts) < sint seconds \<and> sint seconds < sint END
                   then
                     (let s = envelope_key env;
                          kept = (0 < length (fo_keep opts) \<and> s \<in> set (fo_keep opts));
                          s = (if kept then serializeEnvelope env else s)
                      in (if kept then s else []) @
                         (if 0 < length (fo_drop opts) \<and> s \<notin> set (fo_drop opts) then serializeEnvelope env else []))
                   else [])
            in ((counter, END, endInitialized), out, \<not> sint seconds < sint END \<and> fo_EXIT opts))
         else ((counter, END, endInitialized), [], False))
      else ((counter, END, endInitialized), [], False))"

lemma extractEnvelope_found: "extractEnvelope s = Some ((True, e), s') \<Longrightarrow> stream_measure s' < stream_measure s"
proof -
  assume e: "extractEnvelope s = Some ((True, e), s')"
  then have "good s" by (auto simp: extractEnvelope_def split: if_splits)
  then show ?thesis using stream_measure_extractEnvelope e by metis
qed

text \<open>\<open>None\<close>: an envelope in the stream cannot be extracted without undefined behaviour.\<close>

function filter_loop :: "filter_options \<Rightarrow> filter_state \<Rightarrow> istream \<Rightarrow> cstring option" where
  "filter_loop opts st cin =
     (case extractEnvelope cin of
        None \<Rightarrow> None
      | Some ((foundData, env), cin') \<Rightarrow>
          (case filter_envelope opts env st of
             (st, out, exits) \<Rightarrow>
               map_option (append out)
                 (if \<not> exits \<and> good cin' \<and> foundData then filter_loop opts st cin' else Some [])))"
  by pat_completeness auto
termination
  by (relation "measure (\<lambda>(opts, st, cin). stream_measure cin)")
    (auto dest: extractEnvelope_found)

declare filter_loop.simps [simp del]

text \<open>
  The program: its return code and what it writes to standard output; \<open>None\<close> also for an exception of
  \<open>stoi\<close>.
\<close>

definition cluon_filter :: "arguments \<Rightarrow> cstring \<Rightarrow> (int32 \<times> cstring) option" where
  "cluon_filter args cin =
     (if has_arg ''keep'' args = has_arg ''drop'' args then Some (1, [])
      else Option.bind (filter_options_of args)
        (\<lambda>opts. map_option (Pair 0) (filter_loop opts (0, fo_END opts, False) (istream_of cin))))"

section \<open>Properties\<close>

text \<open>The envelopes that count, and those that are selected up to the second \<open>END\<close>.\<close>

definition counts :: "Envelope \<Rightarrow> bool" where
  "counts e \<longleftrightarrow> 0 < sint (env_dataType e) \<and> env_dataType e \<noteq> PlayerStatus_ID"

definition seconds_of :: "Envelope \<Rightarrow> int" where
  "seconds_of e = sint (ts_seconds (env_sampleTimeStamp e))"

definition selected :: "filter_options \<Rightarrow> int \<Rightarrow> Envelope \<Rightarrow> bool" where
  "selected opts END e \<longleftrightarrow> sint (fo_START opts) < seconds_of e \<and> seconds_of e < END \<and>
     (if fo_keep opts \<noteq> [] then envelope_key e \<in> set (fo_keep opts)
      else fo_drop opts \<noteq> [] \<and> envelope_key e \<notin> set (fo_drop opts))"

text \<open>The end: a relative one counts from the start, if there is one, or from the first envelope.\<close>

definition end_of :: "filter_options \<Rightarrow> Envelope list \<Rightarrow> int" where
  "end_of opts ds =
     (if fo_isRelativeEnd opts \<and> ds \<noteq> []
      then sint (fo_END opts + (if 0 < sint (fo_START opts) then fo_START opts else ts_seconds (env_sampleTimeStamp (hd ds))))
      else sint (fo_END opts))"

definition filter_spec :: "filter_options \<Rightarrow> Envelope list \<Rightarrow> Envelope list" where
  "filter_spec opts es =
     (let ds = drop (unat (fo_SKIP opts)) (filter counts es); END = end_of opts ds
      in filter (selected opts END) (if fo_EXIT opts then takeWhile (\<lambda>e. seconds_of e < END) ds else ds))"

lemma selected_before: "selected opts END e \<Longrightarrow> seconds_of e < END"
  by (simp add: selected_def)

lemma filter_loop_at_end:
  assumes "at s []" shows "filter_loop opts st s = Some []"
proof -
  obtain t where t: "extractEnvelope s = Some ((False, Envelope_new), t)" using extractEnvelope_at_end [OF assms] by auto
  have "snd (filter_envelope opts Envelope_new st) = ([], False)"
    by (simp add: filter_envelope_def Envelope_new_def split: prod.split)
  with t show ?thesis by (subst filter_loop.simps) (simp add: split_beta)
qed

lemma filter_loop_recorded:
  assumes "small_envelope e" and "at s (serializeEnvelope e @ r)"
  shows "filter_loop opts st s = (let (st', out, exits) = filter_envelope opts e st
    in map_option (append out) (if exits then Some [] else filter_loop opts st' (consumed (serializeEnvelope e) s)))"
  using extractEnvelope_recorded [OF assms] assms(2) by (subst filter_loop.simps) (auto simp: split_beta at_def)

text \<open>Behind the first envelope that is not skipped: the end is known.\<close>

lemma filter_loop_started:
  assumes "list_all small_envelope es" and "at s (recording es)" and "fo_keep opts = [] \<or> fo_drop opts = []"
    and "unat (fo_SKIP opts) \<le> unat c" and "unat c + length es < 2 ^ 32" and "fo_isRelativeEnd opts \<longrightarrow> init"
  shows "filter_loop opts (c, END, init) s =
    Some (recording (filter (selected opts (sint END))
      (if fo_EXIT opts then takeWhile (\<lambda>e. seconds_of e < sint END) (filter counts es) else filter counts es)))"
  using assms
proof (induction es arbitrary: s c)
  case (Cons e es)
  have at: "at s (serializeEnvelope e @ recording es)" using Cons.prems(2) by simp
  have at': "at (consumed (serializeEnvelope e) s) (recording es)" using at by (rule at_consumed)
  have e: "small_envelope e" using Cons.prems(1) by simp
  note L = filter_loop_recorded [OF e at, of opts "(c, END, init)"]
  show ?case
  proof (cases "counts e")
    case True
    have c1: "unat (c + 1) = unat c + 1" using Cons.prems(5) by (simp add: unat_word_ariths)
    have step: "filter_envelope opts e (c, END, init) = ((c + 1, END, init),
        if selected opts (sint END) e then serializeEnvelope e else [], fo_EXIT opts \<and> \<not> seconds_of e < sint END)"
      using True Cons.prems(3,4,6) c1
      by (auto simp: filter_envelope_def counts_def selected_def seconds_of_def word_less_nat_alt Let_def)
    show ?thesis
      using Cons.IH [OF _ at', of "c + 1"] Cons.prems c1 True by (auto simp: L step dest: selected_before)
  next
    case False
    then have "filter_envelope opts e (c, END, init) = ((c, END, init), [], False)"
      by (auto simp: filter_envelope_def counts_def)
    then show ?thesis using L Cons.IH [OF _ at', of c] Cons.prems False by simp
  qed
qed (simp add: filter_loop_at_end)

text \<open>An envelope behind those that are skipped, when the end is not known yet.\<close>

lemma filter_envelope_first:
  assumes "counts e" and "unat (fo_SKIP opts) < unat (c + 1)" and "fo_keep opts = [] \<or> fo_drop opts = []"
  shows "filter_envelope opts e (c, fo_END opts, False) =
    (let END = of_int (end_of opts (e # ds))
     in ((c + 1, END, fo_isRelativeEnd opts), if selected opts (sint END) e then serializeEnvelope e else [],
         fo_EXIT opts \<and> \<not> seconds_of e < sint END))"
  using assms
  by (auto simp: filter_envelope_def counts_def selected_def seconds_of_def end_of_def word_less_nat_alt Let_def)

lemma filter_loop_all:
  assumes "list_all small_envelope es" and "at s (recording es)" and "fo_keep opts = [] \<or> fo_drop opts = []"
    and "unat c \<le> unat (fo_SKIP opts)" and "unat c + length es < 2 ^ 32"
  shows "filter_loop opts (c, fo_END opts, False) s =
    Some (recording (let ds = drop (unat (fo_SKIP opts) - unat c) (filter counts es); END = end_of opts ds
      in filter (selected opts END) (if fo_EXIT opts then takeWhile (\<lambda>e. seconds_of e < END) ds else ds)))"
  using assms
proof (induction es arbitrary: s c)
  case (Cons e es)
  have at: "at s (serializeEnvelope e @ recording es)" using Cons.prems(2) by simp
  have at': "at (consumed (serializeEnvelope e) s) (recording es)" using at by (rule at_consumed)
  have e: "small_envelope e" and es: "list_all small_envelope es" using Cons.prems(1) by simp_all
  note L = filter_loop_recorded [OF e at, of opts "(c, fo_END opts, False)"]
  have c1: "unat (c + 1) = unat c + 1" using Cons.prems(5) by (simp add: unat_word_ariths)
  show ?case
  proof (cases "counts e")
    case False
    then have "filter_envelope opts e (c, fo_END opts, False) = ((c, fo_END opts, False), [], False)"
      by (auto simp: filter_envelope_def counts_def)
    then show ?thesis using L Cons.IH [OF es at', of c] Cons.prems False by simp
  next
    case True
    show ?thesis
    proof (cases "unat c < unat (fo_SKIP opts)")
      case less: True
      then have "filter_envelope opts e (c, fo_END opts, False) = ((c + 1, fo_END opts, False), [], False)"
        using True c1 by (auto simp: filter_envelope_def counts_def word_less_nat_alt)
      moreover have "unat (fo_SKIP opts) - unat c = Suc (unat (fo_SKIP opts) - unat (c + 1))" using less c1 by simp
      moreover have "filter_loop opts (c + 1, fo_END opts, False) (consumed (serializeEnvelope e) s) =
          Some (recording (let ds = drop (unat (fo_SKIP opts) - unat (c + 1)) (filter counts es); END = end_of opts ds
            in filter (selected opts END) (if fo_EXIT opts then takeWhile (\<lambda>e. seconds_of e < END) ds else ds)))"
        by (rule Cons.IH [OF es at' Cons.prems(3)]) (use less c1 Cons.prems(5) in simp_all)
      ultimately show ?thesis using True by (simp add: L)
    next
      case False
      then have eq: "unat c = unat (fo_SKIP opts)" using Cons.prems(4) by simp
      define END where "END = end_of opts (e # filter counts es)"
      have END: "sint (of_int END :: int32) = END" by (simp add: END_def end_of_def)
      have f: "filter_envelope opts e (c, fo_END opts, False) =
          ((c + 1, of_int END, fo_isRelativeEnd opts), if selected opts END e then serializeEnvelope e else [],
           fo_EXIT opts \<and> \<not> seconds_of e < END)"
        using filter_envelope_first [OF True _ Cons.prems(3), of c "filter counts es"] c1 eq END
        by (simp add: END_def Let_def)
      have "filter_loop opts (c + 1, of_int END, fo_isRelativeEnd opts) (consumed (serializeEnvelope e) s) =
          Some (recording (filter (selected opts END)
            (if fo_EXIT opts then takeWhile (\<lambda>e. seconds_of e < END) (filter counts es) else filter counts es)))"
        using filter_loop_started [OF es at' Cons.prems(3), of "c + 1" "fo_isRelativeEnd opts" "of_int END"] eq c1 Cons.prems(5) END
        by simp
      then show ?thesis
        using True eq by (auto simp: L f END_def [symmetric] dest: selected_before)
    qed
  qed
qed (simp add: filter_loop_at_end)

lemma filter_options_entries:
  "filter_options_of args = Some opts \<Longrightarrow>
     fo_keep opts = filter_entries (arg ''keep'' args) \<and> fo_drop opts = filter_entries (arg ''drop'' args)"
  by (auto simp: filter_options_of_def Let_def split: option.splits if_splits)

lemma arg_none: "\<not> has_arg k args \<Longrightarrow> arg k args = []"
  by (simp add: has_arg_def arg_def)

lemma filter_entries_none: "filter_entries [] = []"
  by code_simp

lemma cluon_filter_recording:
  assumes "list_all small_envelope es" and "length es < 2 ^ 32" and "has_arg ''keep'' args \<noteq> has_arg ''drop'' args"
    and "filter_options_of args = Some opts"
  shows "cluon_filter args (recording es) = Some (0, recording (filter_spec opts es))"
proof -
  have "fo_keep opts = [] \<or> fo_drop opts = []"
    using assms(3) filter_options_entries [OF assms(4)] by (metis arg_none filter_entries_none)
  then show ?thesis
    using filter_loop_all [OF assms(1) at_istream_of, of opts 0] assms(2-4)
    by (simp add: cluon_filter_def filter_spec_def Let_def)
qed

text \<open>
  C16: On a stream of envelopes (each of less than \<open>2 ^ 24\<close> bytes, less than \<open>2 ^ 32\<close> of them),
  \<open>cluon-filter\<close> writes, in order, the envelopes that its options select: behind the ones to skip,
  later than the start and before the end, with a key that is to be kept or not to be dropped; the
  messages about the state of a player are left out and not counted. With \<open>--exit\<close> these are the
  ones in front of the first envelope at or behind the end.
\<close>

theorem filter_selects:
  assumes "list_all small_envelope es" and "length es < 2 ^ 32" and "has_arg ''keep'' args \<noteq> has_arg ''drop'' args"
    and "filter_options_of args = Some opts"
  shows "cluon_filter args (recording es) = Some (0, recording (filter_spec opts es))"
  by (rule cluon_filter_recording [OF assms])

text \<open>Envelopes of a message, a sender and a second.\<close>

definition traffic :: "(int32 \<times> uint32 \<times> int32) list \<Rightarrow> Envelope list" where
  "traffic xs = map (\<lambda>(d, st, sec). Envelope_new\<lparr>env_dataType := d, env_senderStamp := st,
     env_sampleTimeStamp := \<lparr>ts_seconds = sec, ts_microseconds = 0\<rparr>\<rparr>) xs"

definition sample_traffic :: "Envelope list" where
  "sample_traffic = traffic [(19, 0, 5), (10, 0, 6), (25, 1, 7), (19, 0, 8), (19, 1, 9), (19, 0, 12)]"

lemma length_Envelope: "length (proto_encode (Envelope_msg e)) \<le> length (env_serializedData e) + 300"
proof -
  have t: "length (proto_bytes (TimeStamp_msg t)) \<le> 40" "length (leb128 (length (proto_bytes (TimeStamp_msg t)))) \<le> 10" for t
    using TimeStamp_bytes(1) [of t] le_less_trans [OF TimeStamp_bytes(1) [of t], of "2 ^ 64"] length_leb128_64 by simp_all
  have z: "length (leb128 (zigzag (sint v))) \<le> 10" for v :: int32
    using unsigned_less [of "toZigZag32 v", where 'a = nat]
    by (intro length_leb128_64) (simp add: unat_toZigZag32)
  have u: "length (leb128 (unat v)) \<le> 10" for v :: uint32
    using unsigned_less [of v, where 'a = nat] by (intro length_leb128_64) simp
  have s: "length (leb128 (n mod 18446744073709551616)) \<le> 10" for n by (intro length_leb128_64) simp
  have k: "length (leb128 n) \<le> 10" if "n < 100" for n using that by (intro length_leb128_64) simp
  show ?thesis
    using t(1) [of "env_sent e"] t(1) [of "env_received e"] t(1) [of "env_sampleTimeStamp e"]
      t(2) [of "env_sent e"] t(2) [of "env_received e"] t(2) [of "env_sampleTimeStamp e"]
      z [of "env_dataType e"] u [of "env_senderStamp e"] s [of "length (env_serializedData e)"] k [of 8] k [of 18] k [of 26] k [of 34] k [of 42] k [of 48]
    by (simp add: proto_encode_bytes Envelope_msg_def proto_value.simps key_bytes_def length_delimited_def)
qed

lemma small_envelopeI: "length (env_serializedData e) < 2 ^ 20 \<Longrightarrow> small_envelope e"
  using length_Envelope [of e] by (simp add: small_envelope_def)

lemma small_traffic: "list_all small_envelope (traffic xs)"
  by (auto simp: traffic_def list_all_iff Envelope_new_def intro!: small_envelopeI split: prod.splits)

definition sample_filter :: arguments where
  "sample_filter = getCommandlineArguments [str ''cluon-filter''] []
     [(str ''keep'', str ''19/0,25/1''), (str ''skip'', str ''1''), (str ''end'', str ''12'')]"

theorem filter_selects_witness:
  "cluon_filter sample_filter (recording sample_traffic) = Some (0, recording (traffic [(25, 1, 7), (19, 0, 8)]))"
proof -
  have opts: "filter_options_of sample_filter = Some \<lparr>fo_keep = [str ''19/0'', str ''25/1''], fo_drop = [], fo_SKIP = 1,
      fo_START = 0, fo_END = 12, fo_isRelativeEnd = False, fo_EXIT = False\<rparr>" by code_simp
  have "has_arg ''keep'' sample_filter \<noteq> has_arg ''drop'' sample_filter" by code_simp
  moreover have "length sample_traffic < 2 ^ 32" by (simp add: sample_traffic_def traffic_def)
  moreover have "filter_spec \<lparr>fo_keep = [str ''19/0'', str ''25/1''], fo_drop = [], fo_SKIP = 1,
      fo_START = 0, fo_END = 12, fo_isRelativeEnd = False, fo_EXIT = False\<rparr> sample_traffic =
    traffic [(25, 1, 7), (19, 0, 8)]" by code_simp
  ultimately show ?thesis
    using filter_selects [OF small_traffic [of "[(19, 0, 5), (10, 0, 6), (25, 1, 7), (19, 0, 8), (19, 1, 9), (19, 0, 12)]",
      folded sample_traffic_def] _ _ opts] by simp
qed

lemma split_from_subset: "x \<in> set (split_from first s d) \<Longrightarrow> set x \<subseteq> set s"
proof (induction first s d arbitrary: x rule: split_from.induct)
  case (1 first s d)
  have "set (tl xs) \<subseteq> set xs" for xs :: cstring by (cases xs) auto
  then have "set (tl (dropWhile (\<lambda>c. c \<noteq> d) s)) \<subseteq> set s" by (meson set_dropWhileD subset_eq)
  with 1 show ?case
    by (subst (asm) (2) split_from.simps) (auto split: if_splits dest: set_takeWhileD)
qed

lemma filter_entries_plain: "filter_entries value = filter (\<lambda>e. e \<noteq> []) (split (value @ [44]) 44)"
proof -
  have "split e 47 \<noteq> []" if "e \<noteq> []" for e using that by (simp add: split_def split_from.simps)
  then show ?thesis by (auto simp: filter_entries_def Let_def intro!: map_idI)
qed

text \<open>
  A message that is to be kept by its identifier alone, as in \<open>--keep=19\<close>, is not: the sender \<open>/0\<close>
  that the code appends for it is never appended, as splitting a text that is not empty gives one
  part at least. Nothing is written, whatever the stream holds.
\<close>

theorem filter_keeps_no_plain_number:
  assumes "list_all small_envelope es" and "length es < 2 ^ 32" and "47 \<notin> set v"
  shows "cluon_filter [(str ''keep'', v)] (recording es) = Some (0, [])"
proof -
  have opts: "filter_options_of [(str ''keep'', v)] = Some \<lparr>fo_keep = filter_entries v, fo_drop = [], fo_SKIP = 0,
      fo_START = 0, fo_END = 2 ^ 31 - 1, fo_isRelativeEnd = False, fo_EXIT = False\<rparr>"
    by (simp add: filter_options_of_def has_arg_def arg_def filter_entries_none Let_def)
  have "47 \<notin> set k" if "k \<in> set (filter_entries v)" for k
    using that assms(3) split_from_subset [of k True "v @ [44]" 44] by (auto simp: filter_entries_plain split_def)
  moreover have "47 \<in> set (envelope_key e)" for e by (simp add: envelope_key_def)
  ultimately have "\<not> selected \<lparr>fo_keep = filter_entries v, fo_drop = [], fo_SKIP = 0,
      fo_START = 0, fo_END = 2 ^ 31 - 1, fo_isRelativeEnd = False, fo_EXIT = False\<rparr> END e" for END e
    by (auto simp: selected_def)
  then show ?thesis
    using cluon_filter_recording [OF assms(1,2) _ opts] by (simp add: has_arg_def filter_spec_def Let_def)
qed

theorem filter_keeps_no_plain_number_witness:
  "cluon_filter [(str ''keep'', str ''19'')] (recording sample_traffic) = Some (0, [])"
proof (rule filter_keeps_no_plain_number)
  show "list_all small_envelope sample_traffic" by (simp only: sample_traffic_def small_traffic)
qed (simp_all add: sample_traffic_def traffic_def)

text \<open>On envelopes in the order of their seconds, \<open>--exit\<close> makes no difference.\<close>

lemma takeWhile_sorted: "sorted (map f xs) \<Longrightarrow> takeWhile (\<lambda>x. f x < (c :: int)) xs = filter (\<lambda>x. f x < c) xs"
proof (induction xs)
  case (Cons x xs)
  then show ?case by (cases "f x < c") (auto simp: filter_empty_conv [THEN iffD2] intro!: filter_empty_conv [THEN iffD2, symmetric])
qed simp

lemma filter_exit_sorted:
  assumes "sorted (map seconds_of es)"
  shows "filter_spec opts es = filter_spec (opts\<lparr>fo_EXIT := False\<rparr>) es"
proof -
  let ?ds = "drop (unat (fo_SKIP opts)) (filter counts es)"
  have "sorted (map seconds_of ?ds)"
    using assms by (simp add: drop_map [symmetric] sorted_wrt_drop sorted_filter)
  moreover have "end_of (opts\<lparr>fo_EXIT := False\<rparr>) = end_of opts" "selected (opts\<lparr>fo_EXIT := False\<rparr>) = selected opts"
    by (auto simp: end_of_def selected_def fun_eq_iff)
  moreover have "filter (selected opts END) (filter (\<lambda>e. seconds_of e < END) xs) = filter (selected opts END) xs" for END xs
    by (auto intro!: filter_cong dest: selected_before)
  ultimately show ?thesis by (simp add: filter_spec_def Let_def takeWhile_sorted)
qed

end
