(* ===== verification/ReplayTool.thy ===== *)
theory ReplayTool
  imports FilterTool
begin

text \<open>
  The program \<open>cluon-replay\<close>, which replays a recording into a session or to its standard output,
  and the thread of the player that fills the cache and reports its state.
\<close>

section \<open>The filling thread of the player\<close>

record PlayerStatus =
  ps_state :: uint8
  ps_numberOfEntries :: uint32
  ps_currentEntryForPlayback :: uint32

definition PlayerStatus_new :: PlayerStatus where
  "PlayerStatus_new = \<lparr>ps_state = 0, ps_numberOfEntries = 0, ps_currentEntryForPlayback = 0\<rparr>"

definition PlayerStatus_msg :: "PlayerStatus \<Rightarrow> visitable" where
  "PlayerStatus_msg p = Visitable 10 (str ''PlayerStatus'') (str ''cluon.data.PlayerStatus'')
     [(1, str ''uint8_t'', str ''state'', A_uint8 (ps_state p)),
      (2, str ''uint32_t'', str ''numberOfEntries'', A_uint32 (ps_numberOfEntries p)),
      (3, str ''uint32_t'', str ''currentEntryForPlayback'', A_uint32 (ps_currentEntryForPlayback p))]"

text \<open>
  A turn of the loop in \<open>manageCache\<close>: refilling, and in every tenth turn a report to the listener.
  \<open>isLow\<close> and \<open>refill\<close> are the values of the float expressions in \<open>checkRefillingCache\<close>.
\<close>

definition manageCache_turn ::
    "bool \<Rightarrow> uint32 \<Rightarrow> uint8 \<times> player \<Rightarrow> (PlayerStatus option \<times> uint8 \<times> player) option" where
  "manageCache_turn isLow refill s =
     (let (statisticsCounter, p) = s in
      case checkRefillingCache isLow refill p of
        None \<Rightarrow> None
      | Some p \<Rightarrow>
          (let statisticsCounter = statisticsCounter + 1 in
           if unat statisticsCounter mod 10 = 0
           then Some (Some \<lparr>ps_state = 2, ps_numberOfEntries = of_nat (length (pl_index p)),
                        ps_currentEntryForPlayback = ucast (pl_numberOfReturnedEnvelopesInTotal p)\<rparr>, 0, p)
           else Some (None, statisticsCounter, p)))"

section \<open>Options\<close>

text \<open>The order of the keys in a \<open>std::map\<close>.\<close>

primrec cstring_less :: "cstring \<Rightarrow> cstring \<Rightarrow> bool" where
  "cstring_less [] t \<longleftrightarrow> t \<noteq> []"
| "cstring_less (c # s) t \<longleftrightarrow> (case t of [] \<Rightarrow> False | d # t' \<Rightarrow> c < d \<or> c = d \<and> cstring_less s t')"

text \<open>The first argument without a value that is not the name of the program.\<close>

definition replay_recFile :: "cstring \<Rightarrow> arguments \<Rightarrow> cstring" where
  "replay_recFile PROGRAM args =
     (case fold (\<lambda>(k, v) best. if v = [] \<and> k \<noteq> PROGRAM \<and> (case best of None \<Rightarrow> True | Some b \<Rightarrow> cstring_less k b)
          then Some k else best) args None of
        None \<Rightarrow> [] | Some k \<Rightarrow> k)"

record replay_options =
  ro_session :: bool
  ro_playBackToStdout :: bool
  ro_keepRunning :: bool
  ro_noDelay :: bool

definition replay_options_of :: "arguments \<Rightarrow> replay_options" where
  "replay_options_of args =
     \<lparr>ro_session = has_arg ''cid'' args,
      ro_playBackToStdout = (has_arg ''stdout'' args \<or> \<not> has_arg ''cid'' args),
      ro_keepRunning = has_arg ''keeprunning'' args, ro_noDelay = has_arg ''nodelay'' args\<rparr>"

section \<open>The loop\<close>

text \<open>What the program does: sending to the session, writing, sleeping for milli- or microseconds.\<close>

datatype replay_output = Od4_send Envelope | Stdout cstring | Sleep_ms nat | Sleep_us uint32

text \<open>
  What happens in and before a turn of the loop: whether the session runs when it is asked (at the
  head, for a report, for an envelope), the turns of the filling thread, a command that was received (its
  number, and the float values for seeking, see \<open>seekTo\<close>), and the clock for a report.
\<close>

record replay_input =
  ri_running :: "bool \<times> bool \<times> bool"
  ri_thread :: "(bool \<times> uint32) list"
  ri_command :: "(uint8 \<times> bool \<times> bool \<times> bool \<times> uint32 \<times> uint32) option"
  ri_now :: "TimeStamp \<times> TimeStamp"

record replay_run =
  rs_player :: player
  rs_counter :: uint8
  rs_status :: "PlayerStatus option"
  rs_play :: bool

definition status_envelope :: "TimeStamp \<times> TimeStamp \<Rightarrow> PlayerStatus \<Rightarrow> Envelope" where
  "status_envelope now ps =
     Envelope_new\<lparr>env_dataType := PlayerStatus_ID, env_sent := fst now, env_sampleTimeStamp := snd now,
       env_serializedData := proto_encode (PlayerStatus_msg ps)\<rparr>"

definition relay :: "replay_options \<Rightarrow> bool \<Rightarrow> Envelope \<Rightarrow> replay_output list" where
  "relay opts running env =
     (if ro_session opts \<and> running then [Od4_send env] else []) @
     (if ro_playBackToStdout opts then [Stdout (serializeEnvelope env)] else [])"

text \<open>The reports before the loop go to standard output if there is no running session.\<close>

definition announce :: "replay_options \<Rightarrow> bool \<Rightarrow> Envelope \<Rightarrow> replay_output list" where
  "announce opts running env =
     (if ro_session opts \<and> running then [Od4_send env] else [Stdout (serializeEnvelope env)])"

text \<open>Turns of the filling thread; the listener keeps the last report.\<close>

primrec replay_thread :: "(bool \<times> uint32) list \<Rightarrow> replay_run \<Rightarrow> replay_run option" where
  "replay_thread [] s = Some s"
| "replay_thread (x # xs) s =
     (case manageCache_turn (fst x) (snd x) (rs_counter s, rs_player s) of
        None \<Rightarrow> None
      | Some (report, c, p) \<Rightarrow>
          replay_thread xs (s\<lparr>rs_counter := c, rs_player := p,
            rs_status := (case report of None \<Rightarrow> rs_status s | Some ps \<Rightarrow> Some ps)\<rparr>))"

text \<open>A command: 1 play, 2 pause, 3 seek, 4 step. The result is whether to play and whether to step.\<close>

definition replay_command ::
    "rate \<Rightarrow> (uint8 \<times> bool \<times> bool \<times> bool \<times> uint32 \<times> uint32) option \<Rightarrow> bool \<Rightarrow> player \<Rightarrow> (bool \<times> bool \<times> player) option" where
  "replay_command rate cmd play p =
     (case cmd of
        None \<Rightarrow> Some (play, False, p)
      | Some (command, inRange, positive, belowOne, target, refill) \<Rightarrow>
          (let play = (if command = 1 \<or> command = 2 then command \<noteq> 2 else play) in
           case (if command = 3 then seekTo rate inRange positive belowOne target refill p else Some p) of
             None \<Rightarrow> None
           | Some p \<Rightarrow> Some (if command = 4 then (False, True, p) else (play, False, p))))"

definition replay_turn :: "rate \<Rightarrow> replay_options \<Rightarrow> replay_input \<Rightarrow> replay_run \<Rightarrow> (replay_output list \<times> replay_run) option" where
  "replay_turn rate opts inp s =
     (let waiting = (if \<not> hasMoreData (rs_player s) \<and> ro_keepRunning opts then [Sleep_ms 200] else []);
          report = (case rs_status s of
                      None \<Rightarrow> []
                    | Some ps \<Rightarrow> relay opts (fst (snd (ri_running inp))) (status_envelope (ri_now inp) ps));
          s = s\<lparr>rs_status := None\<rparr>
      in case replay_command rate (ri_command inp) (rs_play s) (rs_player s) of
           None \<Rightarrow> None
         | Some (play, step, p) \<Rightarrow>
             (if play \<or> step
              then (case getNextEnvelopeToBeReplayed rate p of
                      None \<Rightarrow> None
                    | Some ((ok, env), p) \<Rightarrow>
                        Some (waiting @ report @
                          (if ok then relay opts (snd (snd (ri_running inp))) env @
                             (if \<not> ro_noDelay opts then [Sleep_us (player_delay p)] else []) else []),
                          s\<lparr>rs_player := p, rs_play := play\<rparr>))
              else Some (waiting @ report @ (if \<not> ro_noDelay opts then [Sleep_ms 100] else []),
                     s\<lparr>rs_player := p, rs_play := play\<rparr>)))"

text \<open>The loop from turn \<open>i\<close> on; \<open>None\<close>: it does not end.\<close>

partial_function (option) replay_loop ::
    "rate \<Rightarrow> replay_options \<Rightarrow> (nat \<Rightarrow> replay_input) \<Rightarrow> nat \<Rightarrow> replay_run \<Rightarrow> replay_output list option" where
  "replay_loop rate opts inputs i s =
     (case (if pl_threading (rs_player s) then replay_thread (ri_thread (inputs i)) s else Some s) of
        None \<Rightarrow> None
      | Some s \<Rightarrow>
          (if \<not> (hasMoreData (rs_player s) \<or> ro_keepRunning opts) \<or> ro_session opts \<and> \<not> fst (ri_running (inputs i))
           then Some []
           else case replay_turn rate opts (inputs i) s of
                  None \<Rightarrow> None
                | Some (out, s) \<Rightarrow>
                    Option.bind (replay_loop rate opts inputs (Suc i) s) (\<lambda>outs. Some (out @ outs))))"

text \<open>
  The program. \<open>files\<close> are the files that can be opened, \<open>sr\<close> tells whether the session runs at the
  two reports before the loop, with the clock for them.
\<close>

definition cluon_replay :: "rate \<Rightarrow> nat \<Rightarrow> cstring \<Rightarrow> arguments \<Rightarrow> (cstring \<Rightarrow> byte list option) \<Rightarrow>
    (bool \<times> TimeStamp \<times> TimeStamp) \<times> (bool \<times> TimeStamp \<times> TimeStamp) \<Rightarrow> (nat \<Rightarrow> replay_input) \<Rightarrow>
    (int32 \<times> replay_output list) option" where
  "cluon_replay rate argc PROGRAM args files sr inputs =
     (if argc = 1 then Some (1, [])
      else
        (let opts = replay_options_of args; file = files (replay_recFile PROGRAM args) in
         if file = None then Some (1, [])
         else if ro_session opts \<and> std_stoi (arg ''cid'' args) = None then None
         else
           (let loading = PlayerStatus_new\<lparr>ps_state := 1\<rparr>;
                first = announce opts (fst (fst sr)) (status_envelope (snd (fst sr)) loading)
            in case Player_new rate file False (\<not> ro_noDelay opts) of
                 None \<Rightarrow> None
               | Some p \<Rightarrow>
                   (let playing = loading\<lparr>ps_numberOfEntries := totalNumberOfEnvelopesInRecFile p, ps_state := 2\<rparr>;
                        second = announce opts (fst (snd sr)) (status_envelope (snd (snd sr)) playing)
                    in case replay_loop rate opts inputs 0
                              \<lparr>rs_player = p, rs_counter = 0, rs_status = None, rs_play = True\<rparr> of
                         None \<Rightarrow> None
                       | Some outs \<Rightarrow> Some (0, first @ second @ outs)))))"

section \<open>Properties\<close>

lemma getNext_at_call:
  assumes "at_call es i p" and "\<not> pl_autoRewind p" and "i < length es"
  obtains p' where "getNextEnvelopeToBeReplayed rate p = Some ((True, replay_order es ! i), p')"
    and "at_call es (Suc i) p'" and "\<not> pl_autoRewind p'"
proof -
  have ne: "es \<noteq> []" using assms(3) by auto
  have "replayed False es i = (True, replay_order es ! i, snd (snd (replayed False es i)))"
    using assms(3) by (simp add: replayed_def Let_def min_def)
  then show thesis
    using at_call_step [OF ne assms(1), of rate] assms(2) that by (metis fst_conv snd_conv)
qed

lemma at_call_threading: "at_call es i p \<Longrightarrow> \<not> pl_threading p"
  by (auto simp: at_call_def Let_def ahead_def)

lemma replay_loop_recording:
  assumes "at_call es i p" and "\<not> pl_autoRewind p" and "i \<le> length es" and "es \<noteq> []"
    and "\<not> ro_session opts" and "ro_playBackToStdout opts" and "\<not> ro_keepRunning opts" and "ro_noDelay opts"
    and "\<forall>j. ri_command (inputs j) = None"
  shows "replay_loop rate opts inputs j \<lparr>rs_player = p, rs_counter = c, rs_status = None, rs_play = True\<rparr> =
    Some (map (Stdout \<circ> serializeEnvelope) (drop i (replay_order es)))"
  using assms(1-3)
proof (induction "length es - i" arbitrary: i p j)
  case 0
  then have "\<not> hasMoreData p" using at_call_hasMoreData [OF assms(4) 0(2)] by simp
  then show ?case using 0 at_call_threading [OF 0(2)] assms(7) by (subst replay_loop.simps) simp
next
  case (Suc n)
  then have i: "i < length es" by simp
  obtain p' where g: "getNextEnvelopeToBeReplayed rate p = Some ((True, replay_order es ! i), p')"
    "at_call es (Suc i) p'" "\<not> pl_autoRewind p'"
    by (rule getNext_at_call [OF Suc.prems(1,2) i])
  have more: "hasMoreData p" using at_call_hasMoreData [OF assms(4) Suc.prems(1)] i by simp
  have turn: "replay_turn rate opts (inputs j) \<lparr>rs_player = p, rs_counter = c, rs_status = None, rs_play = True\<rparr> =
      Some ([Stdout (serializeEnvelope (replay_order es ! i))],
        \<lparr>rs_player = p', rs_counter = c, rs_status = None, rs_play = True\<rparr>)"
    using g(1) assms(5-9) more by (simp add: replay_turn_def replay_command_def relay_def)
  have "replay_loop rate opts inputs (Suc j) \<lparr>rs_player = p', rs_counter = c, rs_status = None, rs_play = True\<rparr> =
      Some (map (Stdout \<circ> serializeEnvelope) (drop (Suc i) (replay_order es)))"
    by (rule Suc.hyps(1)) (use Suc.hyps(2) g i in simp_all)
  moreover have "drop i (replay_order es) = replay_order es ! i # drop (Suc i) (replay_order es)"
    using i by (simp add: Cons_nth_drop_Suc)
  ultimately show ?case
    using more turn at_call_threading [OF Suc.prems(1)] assms(5) by (subst replay_loop.simps) simp
qed

definition status_of :: "uint8 \<Rightarrow> nat \<Rightarrow> PlayerStatus" where
  "status_of state n = \<lparr>ps_state = state, ps_numberOfEntries = of_nat n, ps_currentEntryForPlayback = 0\<rparr>"

text \<open>
  \<open>cluon-replay --nodelay\<close> writes two reports about its state to standard output and then the envelopes of the
  recording, stably sorted by sample time; it ends and returns 0.
\<close>

lemma replay_to_stdout:
  assumes "list_all small_envelope es" and "es \<noteq> []" and "length (recording es) < 2 ^ 64" and "argc \<noteq> 1"
    and "\<not> has_arg ''cid'' args" and "\<not> has_arg ''keeprunning'' args" and "has_arg ''nodelay'' args"
    and "files (replay_recFile PROGRAM args) = Some (recording es)" and "\<forall>j. ri_command (inputs j) = None"
  shows "cluon_replay rate argc PROGRAM args files ((r1, t1), (r2, t2)) inputs =
    Some (0, map (Stdout \<circ> serializeEnvelope)
      (status_envelope t1 (status_of 1 0) # status_envelope t2 (status_of 2 (length es)) # replay_order es))"
proof -
  obtain p where p: "Player_new rate (Some (recording es)) False False = Some p" "at_call es 0 p" "\<not> pl_autoRewind p"
    using Player_new_at_call [OF assms(1-3), of rate False] by auto
  have "totalNumberOfEnvelopesInRecFile p = of_nat (length es)"
    using at_call_index [OF p(2)] by (simp add: totalNumberOfEnvelopesInRecFile_def)
  moreover have "replay_loop rate (replay_options_of args) inputs 0
      \<lparr>rs_player = p, rs_counter = 0, rs_status = None, rs_play = True\<rparr> =
    Some (map (Stdout \<circ> serializeEnvelope) (drop 0 (replay_order es)))"
    by (rule replay_loop_recording [OF p(2,3) _ assms(2)]) (use assms in \<open>simp_all add: replay_options_of_def\<close>)
  ultimately show ?thesis
    using assms p(1)
    by (simp add: cluon_replay_def replay_options_of_def announce_def PlayerStatus_new_def status_of_def Let_def)
qed

definition replay_stdout :: "replay_output list \<Rightarrow> cstring" where
  "replay_stdout outs = concat (map (\<lambda>x. case x of Stdout s \<Rightarrow> s | _ \<Rightarrow> []) outs)"

lemma small_status: "small_envelope (status_envelope t ps)"
proof (rule small_envelopeI)
  have u: "length (leb128 (unat v)) \<le> 10" for v :: uint32
    using unsigned_less [of v, where 'a = nat] by (intro length_leb128_64) simp
  have u8: "length (leb128 (unat v)) \<le> 10" for v :: uint8
    using unsigned_less [of v, where 'a = nat] by (intro length_leb128_64) simp
  have k: "length (leb128 n) \<le> 10" if "n < 100" for n using that by (intro length_leb128_64) simp
  show "length (env_serializedData (status_envelope t ps)) < 2 ^ 20"
    using u [of "ps_numberOfEntries ps"] u [of "ps_currentEntryForPlayback ps"] u8 [of "ps_state ps"] k [of 8] k [of 16] k [of 24]
    by (simp add: status_envelope_def proto_encode_bytes PlayerStatus_msg_def proto_value.simps key_bytes_def)
qed

lemma sorted_seconds:
  assumes "list_all (\<lambda>e. ts_normal (env_sampleTimeStamp e)) es"
  shows "sorted (map seconds_of (replay_order es))"
proof -
  have "sorted (map (\<lambda>e. sint (sample_time e)) (replay_order es))" by (simp add: replay_order_def)
  then have "sorted_wrt (\<lambda>a b. sint (sample_time a) \<le> sint (sample_time b)) (replay_order es)" by (simp add: sorted_wrt_map)
  moreover have "set (replay_order es) = set es" by (simp add: replay_order_def)
  moreover have "seconds_of a \<le> seconds_of b" if "a \<in> set es" "b \<in> set es" "sint (sample_time a) \<le> sint (sample_time b)" for a b
  proof -
    have "ts_normal (env_sampleTimeStamp a)" "ts_normal (env_sampleTimeStamp b)" using assms that(1,2) by (simp_all add: list_all_iff)
    then show ?thesis
      using that(3) by (auto simp: sample_time_def sint_toMicroseconds ts_normal_def seconds_of_def)
  qed
  ultimately have "sorted_wrt (\<lambda>a b. seconds_of a \<le> seconds_of b) (replay_order es)"
    by (auto intro: sorted_wrt_mono_rel [rotated])
  then show ?thesis by (simp add: sorted_wrt_map)
qed

text \<open>
  C17: The pipe \<open>cluon-replay --nodelay recording | cluon-filter\<close>, which the usage of \<open>cluon-filter\<close>
  recommends: the filter gets rid of the reports, and as the replay is sorted, \<open>--exit\<close> cuts off no
  envelope that is to be selected: the output is that of the filter without \<open>--exit\<close> on the sorted recording.
\<close>

theorem replay_filter:
  assumes "list_all small_envelope es" and "es \<noteq> []" and "length (recording es) < 2 ^ 64" and "length es < 2 ^ 32 - 2"
    and "list_all (\<lambda>e. ts_normal (env_sampleTimeStamp e)) es" and "argc \<noteq> 1"
    and "\<not> has_arg ''cid'' args" and "\<not> has_arg ''keeprunning'' args" and "has_arg ''nodelay'' args"
    and "files (replay_recFile PROGRAM args) = Some (recording es)" and "\<forall>j. ri_command (inputs j) = None"
    and "has_arg ''keep'' fargs \<noteq> has_arg ''drop'' fargs" and "filter_options_of fargs = Some opts"
  shows "\<exists>outs. cluon_replay rate argc PROGRAM args files sr inputs = Some (0, outs) \<and>
    cluon_filter fargs (replay_stdout outs) = Some (0, recording (filter_spec (opts\<lparr>fo_EXIT := False\<rparr>) (replay_order es)))"
proof -
  obtain r1 t1 r2 t2 where sr: "sr = ((r1, t1), (r2, t2))" by (metis prod.collapse)
  let ?s1 = "status_envelope t1 (status_of 1 0)" and ?s2 = "status_envelope t2 (status_of 2 (length es))"
  let ?es = "?s1 # ?s2 # replay_order es"
  have "cluon_replay rate argc PROGRAM args files sr inputs = Some (0, map (Stdout \<circ> serializeEnvelope) ?es)"
    unfolding sr by (rule replay_to_stdout; fact)
  moreover have "replay_stdout (map (Stdout \<circ> serializeEnvelope) ?es) = recording ?es"
    by (simp add: replay_stdout_def recording_def comp_def)
  moreover have small: "list_all small_envelope ?es"
    using assms(1) small_status by (simp add: list_all_iff replay_order_def)
  have "cluon_filter fargs (recording ?es) = Some (0, recording (filter_spec opts ?es))"
    by (rule cluon_filter_recording [OF small _ assms(12,13)]) (use assms(4) in simp)
  moreover have "filter_spec opts ?es = filter_spec opts (replay_order es)"
    by (simp add: filter_spec_def counts_def status_envelope_def)
  ultimately show ?thesis using filter_exit_sorted [OF sorted_seconds [OF assms(5)], of opts] by auto
qed

text \<open>The arguments \<open>--nodelay a.rec\<close>, and of the filter with \<open>--exit\<close>.\<close>

definition sample_replay :: arguments where
  "sample_replay = getCommandlineArguments [str ''cluon-replay'', str ''a.rec''] [str ''nodelay''] []"

definition sample_files :: "cstring \<Rightarrow> byte list option" where
  "sample_files name = (if name = str ''a.rec'' then Some (recording (traffic [(19, 0, 8), (25, 1, 5), (19, 0, 4), (25, 0, 6)])) else None)"

definition sample_inputs :: "nat \<Rightarrow> replay_input" where
  "sample_inputs i = \<lparr>ri_running = (False, False, False), ri_thread = [], ri_command = None, ri_now = (TimeStamp_new, TimeStamp_new)\<rparr>"

definition sample_exit :: arguments where
  "sample_exit = getCommandlineArguments [str ''cluon-filter''] [str ''exit''] [(str ''drop'', str ''25/0''), (str ''end'', str ''8'')]"

theorem replay_filter_witness:
  "\<exists>outs. cluon_replay some_rate 3 (str ''cluon-replay'') sample_replay sample_files
      ((False, TimeStamp_new, TimeStamp_new), (False, TimeStamp_new, TimeStamp_new)) sample_inputs = Some (0, outs) \<and>
    cluon_filter sample_exit (replay_stdout outs) = Some (0, recording (traffic [(19, 0, 4), (25, 1, 5)]))"
proof -
  let ?es = "traffic [(19, 0, 8), (25, 1, 5), (19, 0, 4), (25, 0, 6)]"
  have opts: "filter_options_of sample_exit = Some \<lparr>fo_keep = [], fo_drop = [str ''25/0''], fo_SKIP = 0,
      fo_START = 0, fo_END = 8, fo_isRelativeEnd = False, fo_EXIT = True\<rparr>" by code_simp
  have len: "length ?es < 2 ^ 32 - 2" by (simp add: traffic_def)
  have rec: "length (recording ?es) < 2 ^ 64" by (rule length_recording_small [OF small_traffic]) (use len in simp)
  have normal: "list_all (\<lambda>e. ts_normal (env_sampleTimeStamp e)) ?es" by (simp add: traffic_def ts_normal_def)
  have keep: "has_arg ''keep'' sample_exit \<noteq> has_arg ''drop'' sample_exit" by code_simp
  have args: "\<not> has_arg ''cid'' sample_replay" "\<not> has_arg ''keeprunning'' sample_replay" "has_arg ''nodelay'' sample_replay"
    by code_simp+
  have rf: "replay_recFile (str ''cluon-replay'') sample_replay = str ''a.rec''"
    by (simp add: replay_recFile_def sample_replay_def getCommandlineArguments_def)
  have spec: "filter_spec \<lparr>fo_keep = [], fo_drop = [str ''25/0''], fo_SKIP = 0, fo_START = 0, fo_END = 8,
      fo_isRelativeEnd = False, fo_EXIT = False\<rparr> (replay_order ?es) = traffic [(19, 0, 4), (25, 1, 5)]" by code_simp
  have sf: "sample_files (replay_recFile (str ''cluon-replay'') sample_replay) = Some (recording ?es)"
    unfolding rf by (simp add: sample_files_def)
  have "?es \<noteq> []" "(3::nat) \<noteq> 1" "\<forall>j. ri_command (sample_inputs j) = None"
    by (simp_all add: traffic_def sample_inputs_def)
  from replay_filter [where files = sample_files and PROGRAM = "str ''cluon-replay''" and inputs = sample_inputs and rate = some_rate
      and sr = "((False, TimeStamp_new, TimeStamp_new), (False, TimeStamp_new, TimeStamp_new))", OF small_traffic this(1) rec len normal this(2) args(1-3) sf this(3) keep opts] spec
  show ?thesis by simp
qed

end
