(* ===== verification/Rec2Csv.thy ===== *)
theory Rec2Csv
  imports ReplayTool Converter CSV "HOL-Library.List_Lexorder"
begin

text \<open>
  The program \<open>cluon-rec2csv\<close>, which turns a recording into one table for each message and sender.
\<close>

section \<open>State\<close>

text \<open>
  The four maps of the program, the second, third and fourth with the keys of \<open>envelope_key\<close>
  or the names of files, and the files that it has written.
\<close>

record rec2csv =
  rc_filenames :: "(cstring \<times> cstring) list"
  rc_entries :: "(cstring \<times> cstring) list"
  rc_sizes :: "(cstring \<times> nat) list"
  rc_reset :: "(cstring \<times> bool) list"
  rc_files :: "(cstring \<times> cstring) list"

definition rec2csv_new :: rec2csv where
  "rec2csv_new = \<lparr>rc_filenames = [], rc_entries = [], rc_sizes = [], rc_reset = [], rc_files = []\<rparr>"

text \<open>\<open>m[k]\<close> of a map whose values are zero or empty for a new key.\<close>

definition at_key :: "'k \<Rightarrow> 'v \<Rightarrow> ('k \<times> 'v) list \<Rightarrow> 'v" where
  "at_key k v m = (case map_of m k of None \<Rightarrow> v | Some w \<Rightarrow> w)"

lemma at_key_assign: "at_key k d (assign l v m) = (if k = l then v else at_key k d m)"
  by (simp add: at_key_def)

section \<open>Operations\<close>

text \<open>
  The lambda \<open>fileWriter\<close>: one file. \<open>writable name\<close> tells whether the file can be opened; a file is
  emptied when it is opened for the first time.
\<close>

definition write_file :: "(cstring \<Rightarrow> bool) \<Rightarrow> cstring \<times> cstring \<Rightarrow> rec2csv \<Rightarrow> rec2csv" where
  "write_file writable item s =
     (let (key, filename) = item; name = filename @ str ''.csv'';
          s = (if writable name
               then s\<lparr>rc_files := assign name (if map_of (rc_reset s) filename = None then [] else at_key name [] (rc_files s)) (rc_files s)\<rparr>
               else s);
          s = (case map_of (rc_entries s) key of
                 None \<Rightarrow> s
               | Some tmp \<Rightarrow>
                   if writable name
                   then s\<lparr>rc_files := assign name (at_key name [] (rc_files s) @ tmp) (rc_files s),
                          rc_entries := assign key [] (rc_entries s), rc_sizes := assign key 0 (rc_sizes s)\<rparr>
                   else s)
      in s\<lparr>rc_reset := assign filename True (rc_reset s)\<rparr>)"

text \<open>All files, in the order of the keys.\<close>

definition fileWriter :: "(cstring \<Rightarrow> bool) \<Rightarrow> rec2csv \<Rightarrow> rec2csv" where
  "fileWriter writable s = fold (write_file writable) (sort_key fst (rc_filenames s)) s"

text \<open>The columns of an envelope that are shown: the three time stamps.\<close>

definition time_stamp_mask :: "(uint32 \<times> bool) list" where
  "time_stamp_mask = [(1, False), (2, False), (3, True), (4, True), (5, True), (6, False)]"

definition csv_filename :: "MetaMessage \<Rightarrow> Envelope \<Rightarrow> cstring" where
  "csv_filename m env = mm_messageName m @ 45 # dec_nat (unat (env_senderStamp env))"

text \<open>
  The text for the first envelope of a key, from two tables of one line with their headers, and for a
  later one. \<open>None\<close> is an exception: \<open>at\<close> finds no line.
\<close>

definition first_entry :: "cstring \<Rightarrow> cstring \<Rightarrow> cstring option" where
  "first_entry timeStamps values =
     (let t = split timeStamps 10; v = split values 10
      in if length t < 2 \<or> length v < 2 then None
         else Some (t ! 0 @ v ! 0 @ 10 # t ! 1 @ v ! 1 @ [10]))"

definition next_entry :: "cstring \<Rightarrow> cstring \<Rightarrow> cstring" where
  "next_entry timeStamps values = hd (split timeStamps 10) @ values"

definition TEN_MB :: nat where "TEN_MB = 10 * 1024 * 1024"

text \<open>
  An envelope. \<open>k\<close> bounds the nesting of messages; \<open>None\<close> when creating the message does not end, for an
  exception, or when decoding the payload is undefined.
\<close>

definition rec2csv_envelope ::
    "nat \<Rightarrow> MetaMessage list \<Rightarrow> (int32 \<times> MetaMessage) list \<Rightarrow> (cstring \<Rightarrow> bool) \<Rightarrow> Envelope \<Rightarrow> rec2csv \<Rightarrow> rec2csv option" where
  "rec2csv_envelope k mms scope writable env s =
     (case map_of scope (env_dataType env) of
        None \<Rightarrow> Some s
      | Some m \<Rightarrow>
          (let protoDecoder = fst (decodeFrom fromProto_new (istream_of (env_serializedData env))) in
           case Option.bind (gm_createFrom_spec k mms m) (\<lambda>gm. gm_accept fromProto gm protoDecoder) of
             None \<Rightarrow> None
           | Some (gm, protoDecoder) \<Rightarrow>
               if fp_undef protoDecoder then None
               else
               (let KEY = envelope_key env;
                    s = s\<lparr>rc_filenames := assign KEY (csv_filename m env) (rc_filenames s)\<rparr>;
                    withHeader = (map_of (rc_entries s) KEY = None);
                    timeStamps = csv_encode 59 withHeader time_stamp_mask [Envelope_msg env]
                in case gm_accept toCSV gm (toCSV_new 59 withHeader []) of
                     None \<Rightarrow> None
                   | Some (_, csv) \<Rightarrow>
                       (case (if withHeader then first_entry timeStamps (toCSV_csv csv)
                              else Some (next_entry timeStamps (toCSV_csv csv))) of
                          None \<Rightarrow> None
                        | Some entry \<Rightarrow>
                            (let s = s\<lparr>rc_entries := assign KEY (at_key KEY [] (rc_entries s) @ entry) (rc_entries s),
                                       rc_sizes := assign KEY (at_key KEY 0 (rc_sizes s) + length entry) (rc_sizes s)\<rparr>
                             in Some (if TEN_MB < at_key KEY 0 (rc_sizes s) then fileWriter writable s else s))))))"

text \<open>The loop over the recording.\<close>

partial_function (option) rec2csv_loop ::
    "nat \<Rightarrow> rate \<Rightarrow> MetaMessage list \<Rightarrow> (int32 \<times> MetaMessage) list \<Rightarrow> (cstring \<Rightarrow> bool) \<Rightarrow> player \<Rightarrow> rec2csv \<Rightarrow> rec2csv option" where
  "rec2csv_loop k rate mms scope writable p s =
     (if hasMoreData p
      then (case getNextEnvelopeToBeReplayed rate p of
              None \<Rightarrow> None
            | Some ((ok, env), p) \<Rightarrow>
                (case (if ok then rec2csv_envelope k mms scope writable env s else Some s) of
                   None \<Rightarrow> None
                 | Some s \<Rightarrow> rec2csv_loop k rate mms scope writable p s))
      else Some s)"

text \<open>
  The program: \<open>parse\<close> gives the messages of a specification (the vendored parser runs in it), \<open>files\<close>
  the content of the files that can be opened. The result is the return code and the files written.
\<close>

definition rec2csv_scope :: "MetaMessage list \<Rightarrow> (int32 \<times> MetaMessage) list" where
  "rec2csv_scope mms = fold (\<lambda>e. assign (mm_messageIdentifier e) e) mms []"

definition cluon_rec2csv :: "nat \<Rightarrow> rate \<Rightarrow> (cstring \<Rightarrow> MetaMessage list) \<Rightarrow> arguments \<Rightarrow> (cstring \<Rightarrow> cstring option) \<Rightarrow>
    (cstring \<Rightarrow> bool) \<Rightarrow> (int32 \<times> (cstring \<times> cstring) list) option" where
  "cluon_rec2csv k rate parse args files writable =
     (if \<not> has_arg ''rec'' args \<or> \<not> has_arg ''odvd'' args then Some (1, [])
      else case files (arg ''odvd'' args) of
        None \<Rightarrow> Some (1, [])
      | Some input \<Rightarrow>
          (let mms = parse input in
           case files (arg ''rec'' args) of
             None \<Rightarrow> Some (1, [])
           | Some bs \<Rightarrow>
               (case Player_new rate (Some bs) False False of
                  None \<Rightarrow> None
                | Some p \<Rightarrow>
                    map_option (\<lambda>s. (0, rc_files (fileWriter writable s)))
                      (rec2csv_loop k rate mms (rec2csv_scope mms) writable p rec2csv_new))))"

section \<open>Lines\<close>

lemma split_lines:
  assumes "10 \<notin> set a" and "10 \<notin> set b"
  shows "split (a @ 10 # b @ [10]) 10 = [a, b, []]"
proof -
  have "split_from first (b @ 10 # []) 10 = b # split_from False [] 10" for first by (rule split_from_one [OF assms(2)])
  then show ?thesis
    using split_from_one [OF assms(1), of True "b @ [10]"] by (simp add: split_def split_from.simps [of False "[]"])
qed

lemma split_line: "10 \<notin> set b \<Longrightarrow> split (b @ [10]) 10 = [b, []]"
  by (simp add: split_def split_from_one split_from.simps [of False "[]"])

text \<open>The cells of a row: the time stamps of the envelope, then the values of its message.\<close>

definition time_stamp_columns :: "Envelope \<Rightarrow> (cstring \<times> cstring) list" where
  "time_stamp_columns env = csv_columns (masked_in time_stamp_mask) [] (Envelope_msg env)"

definition message_columns :: "visitable \<Rightarrow> (cstring \<times> cstring) list" where
  "message_columns m = csv_columns (\<lambda>_. True) [] m"

definition row_header :: "Envelope \<Rightarrow> visitable \<Rightarrow> cstring" where
  "row_header env m = csv_line 59 (map fst (time_stamp_columns env) @ map fst (message_columns m)) @ [10]"

definition row :: "Envelope \<Rightarrow> visitable \<Rightarrow> cstring" where
  "row env m = csv_line 59 (map snd (time_stamp_columns env) @ map snd (message_columns m)) @ [10]"

lemma dec_no_newline: "10 \<notin> set (dec_int i)" "10 \<notin> set (dec_nat n)"
proof -
  show "10 \<notin> set (dec_nat n)" for n
    using dec_nat_digits [of n] by (auto simp: list_all_iff is_digit_def)
  then show "10 \<notin> set (dec_int i)" by (simp add: dec_int_def)
qed

definition one_line :: "(cstring \<times> cstring) list \<Rightarrow> bool" where
  "one_line cs \<longleftrightarrow> (\<forall>c\<in>set cs. 10 \<notin> set (fst c) \<and> 10 \<notin> set (snd c))"

lemma one_line_cells: "one_line cs \<Longrightarrow> 10 \<notin> set (csv_line 59 (map fst cs)) \<and> 10 \<notin> set (csv_line 59 (map snd cs))"
  by (auto simp: one_line_def csv_line_def)

lemma time_stamp_one_line: "one_line (time_stamp_columns env)"
  by (simp add: one_line_def time_stamp_columns_def time_stamp_mask_def masked_in_def Envelope_msg_def TimeStamp_msg_def
      csv_columns_value.simps csv_column_def csv_scalar_def dec_no_newline)

lemma time_stamps_encoded:
  "csv_encode 59 h time_stamp_mask [Envelope_msg env] =
     (if h then csv_line 59 (map fst (time_stamp_columns env)) @ [10] else []) @
     csv_line 59 (map snd (time_stamp_columns env)) @ [10]"
  by (simp add: csv_table time_stamp_columns_def)

section \<open>Files and buffers\<close>

text \<open>
  The table of a key, from envelopes with their messages; what of it is in the file of a key, whose
  name is \<open>N\<close> of the key.
\<close>

definition table_of :: "(Envelope \<times> visitable) list \<Rightarrow> cstring \<Rightarrow> cstring" where
  "table_of xs K =
     (case filter (\<lambda>x. envelope_key (fst x) = K) xs of
        [] \<Rightarrow> []
      | y # ys \<Rightarrow> row_header (fst y) (snd y) @ concat (map (\<lambda>x. row (fst x) (snd x)) (y # ys)))"

definition file_name :: "(cstring \<Rightarrow> cstring) \<Rightarrow> cstring \<Rightarrow> cstring" where
  "file_name N K = N K @ str ''.csv''"

definition on_disk :: "(cstring \<Rightarrow> cstring) \<Rightarrow> rec2csv \<Rightarrow> cstring \<Rightarrow> cstring" where
  "on_disk N s K = (if map_of (rc_reset s) (N K) = None then [] else at_key (file_name N K) [] (rc_files s))"

definition keys_of :: "(Envelope \<times> visitable) list \<Rightarrow> cstring set" where
  "keys_of xs = (\<lambda>x. envelope_key (fst x)) ` set xs"

definition rec2csv_inv :: "(cstring \<Rightarrow> cstring) \<Rightarrow> (Envelope \<times> visitable) list \<Rightarrow> rec2csv \<Rightarrow> bool" where
  "rec2csv_inv N xs s \<longleftrightarrow>
     map_of (rc_filenames s) = (\<lambda>K. if K \<in> keys_of xs then Some (N K) else None) \<and>
     distinct (map fst (rc_filenames s)) \<and>
     (\<forall>K. map_of (rc_entries s) K = None \<longleftrightarrow> K \<notin> keys_of xs) \<and>
     (\<forall>F. map_of (rc_reset s) F \<noteq> None \<longrightarrow> F \<in> N ` keys_of xs) \<and>
     (\<forall>K\<in>keys_of xs. on_disk N s K @ at_key K [] (rc_entries s) = table_of xs K \<and>
        (map_of (rc_reset s) (N K) \<noteq> None \<longrightarrow> map_of (rc_files s) (file_name N K) \<noteq> None))"

lemma rec2csv_invD:
  assumes "rec2csv_inv N xs s"
  shows "map_of (rc_filenames s) K = (if K \<in> keys_of xs then Some (N K) else None)"
    and "distinct (map fst (rc_filenames s))"
    and "map_of (rc_entries s) K = None \<longleftrightarrow> K \<notin> keys_of xs"
    and "K \<in> keys_of xs \<Longrightarrow> on_disk N s K @ at_key K [] (rc_entries s) = table_of xs K"
    and "K \<in> keys_of xs \<Longrightarrow> map_of (rc_reset s) (N K) \<noteq> None \<Longrightarrow> map_of (rc_files s) (file_name N K) \<noteq> None"
    and "map_of (rc_reset s) F \<noteq> None \<Longrightarrow> F \<in> N ` keys_of xs"
  using assms unfolding rec2csv_inv_def by simp_all

lemma file_name_inject [simp]: "file_name N K = file_name N L \<longleftrightarrow> N K = N L"
  by (simp add: file_name_def)

lemma write_file_entry:
  assumes "\<forall>n. writable n" and "map_of (rc_entries s) K = Some tmp"
  shows "write_file writable (K, N K) s =
    s\<lparr>rc_files := assign (file_name N K) (on_disk N s K @ tmp) (assign (file_name N K) (on_disk N s K) (rc_files s)),
      rc_entries := assign K [] (rc_entries s), rc_sizes := assign K 0 (rc_sizes s),
      rc_reset := assign (N K) True (rc_reset s)\<rparr>"
  using assms by (simp add: write_file_def Let_def at_key_def on_disk_def file_name_def)

text \<open>A key whose buffer is empty, its text being in the file.\<close>

definition flushed :: "(cstring \<Rightarrow> cstring) \<Rightarrow> rec2csv \<Rightarrow> cstring \<Rightarrow> bool" where
  "flushed N s K \<longleftrightarrow> map_of (rc_entries s) K = Some [] \<and> map_of (rc_reset s) (N K) \<noteq> None"

lemma write_file_inv:
  assumes inv: "rec2csv_inv N xs s" and w: "\<forall>n. writable n" and N: "inj_on N (keys_of xs)" and K: "K \<in> keys_of xs"
  shows "rec2csv_inv N xs (write_file writable (K, N K) s)"
    and "flushed N (write_file writable (K, N K) s) K"
    and "L \<in> keys_of xs \<Longrightarrow> flushed N s L \<Longrightarrow> flushed N (write_file writable (K, N K) s) L"
    and "rc_filenames (write_file writable (K, N K) s) = rc_filenames s"
proof -
  note I = rec2csv_invD [OF inv]
  obtain tmp where tmp: "map_of (rc_entries s) K = Some tmp" using I(3) [of K] K by auto
  note W = write_file_entry [OF w tmp, of N]
  have K': "on_disk N s K @ tmp = table_of xs K" using I(4) [OF K] tmp by (simp add: at_key_def)
  have other: "N L \<noteq> N K" if "L \<in> keys_of xs" "L \<noteq> K" for L using inj_onD [OF N _ that(1) K] that(2) by blast
  let ?t = "write_file writable (K, N K) s"
  have c: "on_disk N ?t L @ at_key L [] (rc_entries ?t) = table_of xs L \<and>
      (map_of (rc_reset ?t) (N L) \<noteq> None \<longrightarrow> map_of (rc_files ?t) (file_name N L) \<noteq> None)"
    if "L \<in> keys_of xs" for L
  proof (cases "L = K")
    case True
    then show ?thesis using K' by (simp add: W on_disk_def at_key_def)
  next
    case False
    have n: "N L \<noteq> N K" by (rule other [OF that False])
    then have "on_disk N ?t L = on_disk N s L" by (simp add: W on_disk_def at_key_def)
    moreover have "at_key L [] (rc_entries ?t) = at_key L [] (rc_entries s)" using False by (simp add: W at_key_def)
    moreover have "map_of (rc_reset ?t) (N L) = map_of (rc_reset s) (N L)"
      "map_of (rc_files ?t) (file_name N L) = map_of (rc_files s) (file_name N L)" using n by (simp_all add: W)
    ultimately show ?thesis using I(4,5) [OF that] by simp
  qed
  have f: "rc_filenames ?t = rc_filenames s" and e: "map_of (rc_entries ?t) = (map_of (rc_entries s))(K \<mapsto> [])" by (simp_all add: W)
  have "map_of (rc_filenames s) = (\<lambda>K. if K \<in> keys_of xs then Some (N K) else None)" by (rule ext) (rule I(1))
  moreover have "map_of (rc_entries ?t) L = None \<longleftrightarrow> L \<notin> keys_of xs" for L using I(3) [of L] K by (simp add: e)
  moreover have "map_of (rc_reset ?t) F \<noteq> None \<Longrightarrow> F \<in> N ` keys_of xs" for F
    using I(6) [of F] K by (auto simp: W split: if_splits)
  ultimately show "rec2csv_inv N xs ?t" unfolding rec2csv_inv_def f using I(2) c by blast
  show "flushed N (write_file writable (K, N K) s) K" by (simp add: W flushed_def)
  show "L \<in> keys_of xs \<Longrightarrow> flushed N s L \<Longrightarrow> flushed N (write_file writable (K, N K) s) L"
    by (auto simp: W flushed_def)
  show "rc_filenames (write_file writable (K, N K) s) = rc_filenames s" by (simp add: W)
qed

lemma fileWriter_inv:
  assumes inv: "rec2csv_inv N xs s" and w: "\<forall>n. writable n" and N: "inj_on N (keys_of xs)"
  shows "rec2csv_inv N xs (fileWriter writable s)" and "K \<in> keys_of xs \<Longrightarrow> flushed N (fileWriter writable s) K"
proof -
  have fold: "rec2csv_inv N xs (fold (write_file writable) fs s) \<and> (\<forall>x\<in>set fs. flushed N (fold (write_file writable) fs s) (fst x)) \<and>
      (\<forall>L\<in>keys_of xs. flushed N s L \<longrightarrow> flushed N (fold (write_file writable) fs s) L)"
    if "rec2csv_inv N xs s" "\<forall>x\<in>set fs. fst x \<in> keys_of xs \<and> snd x = N (fst x)" for fs s
    using that
  proof (induction fs arbitrary: s)
    case (Cons x fs)
    then obtain K where x: "x = (K, N K)" "K \<in> keys_of xs" by (cases x) auto
    note A = write_file_inv [OF Cons.prems(1) w N x(2)]
    show ?case using Cons.IH [OF A(1)] Cons.prems(2) A(2,3) x by auto
  qed simp
  have names: "fst x \<in> keys_of xs \<and> snd x = N (fst x)" if "x \<in> set (rc_filenames s)" for x
    using rec2csv_invD(1) [OF inv, of "fst x"] map_of_is_SomeI [OF rec2csv_invD(2) [OF inv], of "fst x" "snd x"] that
    by (auto split: if_splits)
  note F = fold [OF inv, of "sort_key fst (rc_filenames s)"]
  show "rec2csv_inv N xs (fileWriter writable s)" using F names by (simp add: fileWriter_def)
  show "flushed N (fileWriter writable s) K" if "K \<in> keys_of xs"
  proof -
    have "K \<in> fst ` set (rc_filenames s)"
      using rec2csv_invD(1) [OF inv, of K] that by (metis option.distinct(1) map_of_eq_None_iff)
    then show ?thesis using F names by (auto simp: fileWriter_def)
  qed
qed

section \<open>An envelope\<close>

text \<open>An envelope with a message of the specification, whose cells have no line breaks.\<close>

definition carries :: "nat \<Rightarrow> MetaMessage list \<Rightarrow> Envelope \<Rightarrow> MetaMessage \<Rightarrow> visitable \<Rightarrow> bool" where
  "carries k mms env mm m \<longleftrightarrow> map_of (rec2csv_scope mms) (env_dataType env) = Some mm \<and> describes mms mm m \<and>
     proto_ok m \<and> depth m < k \<and> env_serializedData env = proto_encode m \<and> one_line (message_columns m)"

lemma message_decoded:
  assumes "carries k mms env mm m"
  obtains gm fp where "Option.bind (gm_createFrom_spec k mms mm)
      (\<lambda>gm. gm_accept fromProto gm (fst (decodeFrom fromProto_new (istream_of (env_serializedData env))))) = Some (gm, fp)"
    and "\<not> fp_undef fp"
    and "\<forall>h. \<exists>gm'. gm_accept toCSV gm (toCSV_new 59 h []) = Some (gm', snd (accept toCSV m (toCSV_new 59 h [])))"
proof -
  have c: "describes mms mm m" "proto_ok m" "depth m < k" "env_serializedData env = proto_encode m"
    using assms by (simp_all add: carries_def)
  have d: "fst (accept fromProto m' (fst (decodeFrom fromProto_new (istream_of (proto_encode m))))) = m \<and>
      \<not> fp_undef (snd (accept fromProto m' (fst (decodeFrom fromProto_new (istream_of (proto_encode m))))))"
    if "same_shape m' m" for m'
    using proto_decode_encode [OF c(2) that] by (fastforce simp: proto_decode_def)
  obtain g g' t where g: "gm_createFrom_spec k mms mm = Some g"
    "gm_accept fromProto g (fst (decodeFrom fromProto_new (istream_of (proto_encode m)))) = Some (g', t)"
    "gm_ok visitor_names g'" "gm_view visitor_names g' = m" "\<not> fp_undef t"
    using typed_from_proto.described_decoded [where P = "\<lambda>t. \<not> fp_undef t", OF c(1) proto_ok_unique(1) [OF c(2)] c(3) d] by blast
  show thesis
  proof (rule that)
    show "Option.bind (gm_createFrom_spec k mms mm)
      (\<lambda>gm. gm_accept fromProto gm (fst (decodeFrom fromProto_new (istream_of (env_serializedData env))))) = Some (g', t)"
      using g(1,2) c(4) by simp
    show "\<not> fp_undef t" by (rule g(5))
    show "\<forall>h. \<exists>gm'. gm_accept toCSV g' (toCSV_new 59 h []) = Some (gm', snd (accept toCSV m (toCSV_new 59 h [])))"
      using typed_visitor.accept_view [OF to_csv.typed_visitor_axioms g(3)] g(4) by auto
  qed
qed

lemma message_csv:
  "toCSV_csv (snd (accept toCSV m (toCSV_new 59 h []))) =
     (if h then csv_line 59 (map fst (message_columns m)) @ [10] else []) @ csv_line 59 (map snd (message_columns m)) @ [10]"
proof -
  have "masked_in [] = (\<lambda>_. True)" by (simp add: masked_in_def fun_eq_iff)
  then show ?thesis using csv_table [of 59 h "[]" m "[]"] by (simp add: csv_encode_def message_columns_def)
qed

lemma entries_of:
  assumes "one_line (message_columns m)"
  shows "first_entry (csv_encode 59 True time_stamp_mask [Envelope_msg env]) (toCSV_csv (snd (accept toCSV m (toCSV_new 59 True [])))) =
      Some (row_header env m @ row env m)"
    and "next_entry (csv_encode 59 False time_stamp_mask [Envelope_msg env]) (toCSV_csv (snd (accept toCSV m (toCSV_new 59 False [])))) =
      row env m"
  using one_line_cells [OF assms] one_line_cells [OF time_stamp_one_line [of env]]
  by (simp_all add: first_entry_def next_entry_def message_csv time_stamps_encoded split_lines split_line row_header_def row_def Let_def)

lemma keys_of_snoc: "keys_of (xs @ [x]) = insert (envelope_key (fst x)) (keys_of xs)"
  by (simp add: keys_of_def)

lemma table_of_snoc:
  "table_of (xs @ [(env, m)]) K =
     (if envelope_key env = K
      then (if K \<in> keys_of xs then table_of xs K @ row env m else row_header env m @ row env m)
      else table_of xs K)"
proof -
  have "filter (\<lambda>x. envelope_key (fst x) = K) xs = [] \<longleftrightarrow> K \<notin> keys_of xs" by (auto simp: keys_of_def filter_empty_conv)
  then show ?thesis by (auto simp: table_of_def split: list.split)
qed

lemma rec2csv_envelope_inv:
  assumes inv: "rec2csv_inv N xs s" and c: "carries k mms env mm m" and N: "N (envelope_key env) = csv_filename mm env"
    and w: "\<forall>n. writable n" and inj: "inj_on N (insert (envelope_key env) (keys_of xs))"
  obtains s' where "rec2csv_envelope k mms (rec2csv_scope mms) writable env s = Some s'" and "rec2csv_inv N (xs @ [(env, m)]) s'"
proof -
  let ?K = "envelope_key env" and ?ys = "xs @ [(env, m)]"
  note I = rec2csv_invD [OF inv]
  have m: "map_of (rec2csv_scope mms) (env_dataType env) = Some mm" and ol: "one_line (message_columns m)"
    using c by (simp_all add: carries_def)
  obtain gm fp where gm: "Option.bind (gm_createFrom_spec k mms mm)
      (\<lambda>gm. gm_accept fromProto gm (fst (decodeFrom fromProto_new (istream_of (env_serializedData env))))) = Some (gm, fp)"
    "\<forall>h. \<exists>gm'. gm_accept toCSV gm (toCSV_new 59 h []) = Some (gm', snd (accept toCSV m (toCSV_new 59 h [])))"
    "\<not> fp_undef fp"
    by (rule message_decoded [OF c], rule that) assumption+
  define h where "h = (map_of (rc_entries s) ?K = None)"
  have h: "h \<longleftrightarrow> ?K \<notin> keys_of xs" unfolding h_def by (rule I(3))
  define entry where "entry = (if h then row_header env m @ row env m else row env m)"
  obtain gm' where csv: "gm_accept toCSV gm (toCSV_new 59 h []) = Some (gm', snd (accept toCSV m (toCSV_new 59 h [])))"
    using gm(2) by blast
  have e1: "first_entry (csv_encode 59 True time_stamp_mask [Envelope_msg env])
      (toCSV_csv (snd (accept toCSV m (toCSV_new 59 True [])))) = Some entry" if h
    using entries_of(1) [OF ol] that by (simp add: entry_def)
  have e2: "next_entry (csv_encode 59 False time_stamp_mask [Envelope_msg env])
      (toCSV_csv (snd (accept toCSV m (toCSV_new 59 False [])))) = entry" if "\<not> h"
    using entries_of(2) [OF ol] that by (simp add: entry_def)
  define s1 where "s1 = s\<lparr>rc_filenames := assign ?K (N ?K) (rc_filenames s),
    rc_entries := assign ?K (at_key ?K [] (rc_entries s) @ entry) (rc_entries s),
    rc_sizes := assign ?K (at_key ?K 0 (rc_sizes s) + length entry) (rc_sizes s)\<rparr>"
  have step: "rec2csv_envelope k mms (rec2csv_scope mms) writable env s =
      Some (if TEN_MB < at_key ?K 0 (rc_sizes s1) then fileWriter writable s1 else s1)"
  proof (cases h)
    case True
    then have "map_of (rc_entries s) ?K = None" by (simp add: h_def)
    then show ?thesis using m gm(1,3) csv e1 [OF True] True by (simp add: rec2csv_envelope_def Let_def s1_def N)
  next
    case False
    then obtain old where "map_of (rc_entries s) ?K = Some old" by (auto simp: h_def)
    then show ?thesis using m gm(1,3) csv e2 [OF False] False by (simp add: rec2csv_envelope_def Let_def s1_def N)
  qed
  have inv1: "rec2csv_inv N ?ys s1"
  proof -
    have "map_of (rc_filenames s) = (\<lambda>K. if K \<in> keys_of xs then Some (N K) else None)" by (rule ext) (rule I(1))
    then have "map_of (rc_filenames s1) = (\<lambda>K. if K \<in> keys_of ?ys then Some (N K) else None)"
      by (auto simp: s1_def keys_of_snoc fun_eq_iff)
    moreover have "distinct (map fst (rc_filenames s1))" using I(2) by (simp add: s1_def distinct_assign)
    moreover have "map_of (rc_entries s1) L = None \<longleftrightarrow> L \<notin> keys_of ?ys" for L
      using I(3) [of L] by (simp add: s1_def keys_of_snoc)
    moreover have disk: "on_disk N s1 = on_disk N s" by (simp add: s1_def on_disk_def fun_eq_iff)
    moreover have "on_disk N s1 L @ at_key L [] (rc_entries s1) = table_of ?ys L \<and>
        (map_of (rc_reset s1) (N L) \<noteq> None \<longrightarrow> map_of (rc_files s1) (file_name N L) \<noteq> None)" if L: "L \<in> keys_of ?ys" for L
    proof (cases "L = ?K")
      case False
      then show ?thesis using I(4,5) [of L] L by (simp add: disk table_of_snoc keys_of_snoc) (simp add: s1_def at_key_assign)
    next
      case L: True
      show ?thesis
      proof (cases "?K \<in> keys_of xs")
        case True
        then show ?thesis
          using I(4,5) [OF True] h by (simp add: L disk table_of_snoc entry_def) (simp add: s1_def at_key_assign entry_def)
      next
        case False
        then have "N ?K \<notin> N ` keys_of xs" using inj by auto
        then have "map_of (rc_reset s) (N ?K) = None" using I(6) by blast
        moreover have "map_of (rc_entries s) ?K = None" using False by (simp add: I(3))
        ultimately show ?thesis using False h by (simp add: L s1_def table_of_snoc on_disk_def at_key_def entry_def)
      qed
    qed
    moreover have "map_of (rc_reset s1) F \<noteq> None \<Longrightarrow> F \<in> N ` keys_of ?ys" for F
      using I(6) [of F] by (auto simp: s1_def keys_of_snoc)
    ultimately show ?thesis unfolding rec2csv_inv_def by blast
  qed
  have "inj_on N (keys_of ?ys)" using inj by (simp add: keys_of_snoc)
  then have "rec2csv_inv N ?ys (fileWriter writable s1)" by (rule fileWriter_inv(1) [OF inv1 w])
  then show thesis using that [OF step] inv1 by (simp split: if_splits)
qed

section \<open>A recording\<close>

lemma dec_int_inject: "dec_int i = dec_int j \<longleftrightarrow> i = j"
proof
  have d: "dec_nat n = 45 # x \<Longrightarrow> False" for n x
    using dec_nat_digits [of n] by (auto simp: is_digit_def)
  show "i = j" if "dec_int i = dec_int j"
    using that by (auto simp: dec_int_def dec_nat_inject split: if_splits dest: d sym [THEN d])
qed simp

lemma envelope_key_inject:
  assumes "envelope_key e = envelope_key e'"
  shows "env_dataType e = env_dataType e'" and "env_senderStamp e = env_senderStamp e'"
proof -
  have n: "47 \<notin> set (dec_int i)" for i
    using dec_nat_digits [of "nat i"] dec_nat_digits [of "nat (- i)"] by (auto simp: dec_int_def list_all_iff is_digit_def)
  have tw: "takeWhile (\<lambda>c. c \<noteq> 47) (dec_int i @ 47 # x) = dec_int i" for i x
    using while_not_at [OF n] by simp
  have "dec_int (sint (env_dataType e)) = dec_int (sint (env_dataType e'))"
    using arg_cong [OF assms [unfolded envelope_key_def], of "takeWhile (\<lambda>c. c \<noteq> 47)"] by (simp only: tw)
  then show "env_dataType e = env_dataType e'" by (intro signed_word_eqI) (simp add: dec_int_inject)
  then show "env_senderStamp e = env_senderStamp e'"
    using assms by (intro word_unat_eq_iff [THEN iffD2]) (simp add: envelope_key_def dec_nat_inject)
qed

definition in_scope :: "MetaMessage list \<Rightarrow> Envelope \<Rightarrow> bool" where
  "in_scope mms e \<longleftrightarrow> map_of (rec2csv_scope mms) (env_dataType e) \<noteq> None"

text \<open>The envelopes that are shown, in the order of the replay, with their messages.\<close>

definition shown :: "MetaMessage list \<Rightarrow> (Envelope \<Rightarrow> visitable) \<Rightarrow> Envelope list \<Rightarrow> (Envelope \<times> visitable) list" where
  "shown mms msg es = map (\<lambda>e. (e, msg e)) (filter (in_scope mms) es)"

text \<open>The name of the file for an envelope, and for a key of those that are shown.\<close>

definition table_name :: "MetaMessage list \<Rightarrow> Envelope \<Rightarrow> cstring" where
  "table_name mms e = (case map_of (rec2csv_scope mms) (env_dataType e) of None \<Rightarrow> [] | Some mm \<Rightarrow> csv_filename mm e)"

definition key_name :: "MetaMessage list \<Rightarrow> Envelope list \<Rightarrow> cstring \<Rightarrow> cstring" where
  "key_name mms es K = (case filter (\<lambda>e. envelope_key e = K) es of [] \<Rightarrow> [] | e # _ \<Rightarrow> table_name mms e)"

lemma key_name_of: "e \<in> set es \<Longrightarrow> key_name mms es (envelope_key e) = table_name mms e"
proof -
  assume e: "e \<in> set es"
  then obtain e' r where f: "filter (\<lambda>x. envelope_key x = envelope_key e) es = e' # r"
    by (metis (mono_tags, lifting) filter_empty_conv neq_Nil_conv)
  then have "envelope_key e' = envelope_key e" by (metis (mono_tags, lifting) filter_eq_Cons_iff)
  then show ?thesis
    using envelope_key_inject [of e' e]
    by (cases "map_of (rec2csv_scope mms) (env_dataType e)") (simp_all add: key_name_def f table_name_def csv_filename_def)
qed

definition tables_apart :: "MetaMessage list \<Rightarrow> Envelope list \<Rightarrow> bool" where
  "tables_apart mms es \<longleftrightarrow> (\<forall>e\<in>set es. \<forall>e'\<in>set es. in_scope mms e \<longrightarrow> in_scope mms e' \<longrightarrow>
     table_name mms e = table_name mms e' \<longrightarrow> envelope_key e = envelope_key e')"

definition readable :: "nat \<Rightarrow> MetaMessage list \<Rightarrow> (Envelope \<Rightarrow> visitable) \<Rightarrow> Envelope list \<Rightarrow> bool" where
  "readable k mms msg es \<longleftrightarrow> (\<forall>e\<in>set es. case map_of (rec2csv_scope mms) (env_dataType e) of
     None \<Rightarrow> True | Some mm \<Rightarrow> carries k mms e mm (msg e))"

lemma rec2csv_envelope_shown:
  assumes inv: "rec2csv_inv (key_name mms es) (shown mms msg xs) s" and "readable k mms msg es" and "tables_apart mms es"
    and "\<forall>n. writable n" and "e \<in> set es" and "set xs \<subseteq> set es"
  obtains s' where "rec2csv_envelope k mms (rec2csv_scope mms) writable e s = Some s'"
    and "rec2csv_inv (key_name mms es) (shown mms msg (xs @ [e])) s'"
proof (cases "map_of (rec2csv_scope mms) (env_dataType e)")
  case None
  then show thesis using that [of s] inv by (simp add: rec2csv_envelope_def shown_def in_scope_def)
next
  case (Some mm)
  have c: "carries k mms e mm (msg e)" using assms(2,5) Some by (auto simp: readable_def)
  have n: "key_name mms es (envelope_key e) = csv_filename mm e"
    using key_name_of [OF assms(5)] Some by (simp add: table_name_def)
  have ks: "\<exists>x\<in>set es. in_scope mms x \<and> K = envelope_key x" if "K \<in> insert (envelope_key e) (keys_of (shown mms msg xs))" for K
    using that assms(5,6) Some by (auto simp: keys_of_def shown_def in_scope_def)
  have inj: "inj_on (key_name mms es) (insert (envelope_key e) (keys_of (shown mms msg xs)))"
  proof (rule inj_onI)
    fix K L
    assume "K \<in> insert (envelope_key e) (keys_of (shown mms msg xs))" "L \<in> insert (envelope_key e) (keys_of (shown mms msg xs))"
      and eq: "key_name mms es K = key_name mms es L"
    with ks obtain x y where x: "x \<in> set es" "in_scope mms x" "K = envelope_key x" and y: "y \<in> set es" "in_scope mms y" "L = envelope_key y"
      by metis
    then show "K = L" using assms(3) eq key_name_of unfolding tables_apart_def by metis
  qed
  obtain s' where "rec2csv_envelope k mms (rec2csv_scope mms) writable e s = Some s'"
    "rec2csv_inv (key_name mms es) (shown mms msg xs @ [(e, msg e)]) s'"
    by (rule rec2csv_envelope_inv [OF inv c n assms(4) inj])
  then show thesis using that Some by (simp add: shown_def in_scope_def)
qed

lemma rec2csv_loop_inv:
  assumes "at_call es i p" and "\<not> pl_autoRewind p" and "i \<le> length es" and "es \<noteq> []"
    and "readable k mms msg es" and "tables_apart mms es" and "\<forall>n. writable n"
    and "rec2csv_inv (key_name mms es) (shown mms msg (take i (replay_order es))) s"
  shows "\<exists>s'. rec2csv_loop k rate mms (rec2csv_scope mms) writable p s = Some s' \<and>
    rec2csv_inv (key_name mms es) (shown mms msg (replay_order es)) s'"
  using assms(1-3,8)
proof (induction "length es - i" arbitrary: i p s)
  case 0
  then have "\<not> hasMoreData p" using at_call_hasMoreData [OF assms(4) 0(2)] by simp
  then show ?case using 0 by (subst rec2csv_loop.simps) simp
next
  case (Suc n)
  then have i: "i < length es" by simp
  obtain p' where g: "getNextEnvelopeToBeReplayed rate p = Some ((True, replay_order es ! i), p')"
    "at_call es (Suc i) p'" "\<not> pl_autoRewind p'"
    by (rule getNext_at_call [OF Suc.prems(1,2) i])
  have more: "hasMoreData p" using at_call_hasMoreData [OF assms(4) Suc.prems(1)] i by simp
  have sub: "set (replay_order es) = set es" by (simp add: replay_order_def)
  have e: "replay_order es ! i \<in> set es" and t: "set (take i (replay_order es)) \<subseteq> set es"
    using i sub nth_mem [of i "replay_order es"] set_take_subset [of i "replay_order es"] by auto
  obtain s1 where s1: "rec2csv_envelope k mms (rec2csv_scope mms) writable (replay_order es ! i) s = Some s1"
    "rec2csv_inv (key_name mms es) (shown mms msg (take i (replay_order es) @ [replay_order es ! i])) s1"
    by (rule rec2csv_envelope_shown [OF Suc.prems(4) assms(5-7) e t])
  have "take (Suc i) (replay_order es) = take i (replay_order es) @ [replay_order es ! i]"
    using i by (simp add: take_Suc_conv_app_nth)
  then have "\<exists>s'. rec2csv_loop k rate mms (rec2csv_scope mms) writable p' s1 = Some s' \<and>
    rec2csv_inv (key_name mms es) (shown mms msg (replay_order es)) s'"
    by (intro Suc.hyps(1) [of "Suc i"]) (use Suc.hyps(2) g i s1(2) in simp_all)
  then show ?case using more g(1) s1(1) by (subst rec2csv_loop.simps) simp
qed

text \<open>
  C15: \<open>cluon-rec2csv\<close> writes a file for each message and sender of a recording: a line with the names of
  the columns and then, in the order of the replay, a line for every envelope, with its time stamps
  and the values of its message; however often buffers have been written out before the end. The messages
  are those that the specification describes, their cells have no line breaks, and
  no two of them have one file name.
\<close>

theorem rec2csv_tables:
  assumes "list_all small_envelope es" and "es \<noteq> []" and "length (recording es) < 2 ^ 64"
    and "has_arg ''rec'' args" and "has_arg ''odvd'' args"
    and "files (arg ''odvd'' args) = Some input" and "files (arg ''rec'' args) = Some (recording es)"
    and "readable k (parse input) msg es" and "tables_apart (parse input) es" and "\<forall>n. writable n"
  shows "\<exists>fs. cluon_rec2csv k rate parse args files writable = Some (0, fs) \<and>
    (\<forall>e\<in>set es. in_scope (parse input) e \<longrightarrow>
      map_of fs (table_name (parse input) e @ str ''.csv'') =
        Some (table_of (shown (parse input) msg (replay_order es)) (envelope_key e)))"
proof -
  let ?mms = "parse input" and ?xs = "shown (parse input) msg (replay_order es)"
  let ?N = "key_name ?mms es"
  obtain p where p: "Player_new rate (Some (recording es)) False False = Some p" "at_call es 0 p" "\<not> pl_autoRewind p"
    using Player_new_at_call [OF assms(1-3), of rate False] by auto
  have "rec2csv_inv ?N (shown ?mms msg (take 0 (replay_order es))) rec2csv_new"
    by (simp add: rec2csv_inv_def rec2csv_new_def shown_def keys_of_def)
  from rec2csv_loop_inv [OF p(2,3) _ assms(2,8,9,10) this] obtain s where
    s: "rec2csv_loop k rate ?mms (rec2csv_scope ?mms) writable p rec2csv_new = Some s" "rec2csv_inv ?N ?xs s" by auto
  have keys: "\<exists>x\<in>set es. in_scope ?mms x \<and> K = envelope_key x" if "K \<in> keys_of ?xs" for K
    using that by (auto simp: keys_of_def shown_def replay_order_def)
  have inj: "inj_on ?N (keys_of ?xs)"
    using keys assms(9) key_name_of unfolding tables_apart_def by (intro inj_onI) metis
  note W = fileWriter_inv [OF s(2) assms(10) inj]
  have "map_of (rc_files (fileWriter writable s)) (table_name ?mms e @ str ''.csv'') = Some (table_of ?xs (envelope_key e))"
    if "e \<in> set es" "in_scope ?mms e" for e
  proof -
    have K: "envelope_key e \<in> keys_of ?xs" using that by (force simp: keys_of_def shown_def replay_order_def)
    have f: "file_name ?N (envelope_key e) = table_name ?mms e @ str ''.csv''" by (simp add: file_name_def key_name_of [OF that(1)])
    have fl: "map_of (rc_entries (fileWriter writable s)) (envelope_key e) = Some []"
      "map_of (rc_reset (fileWriter writable s)) (?N (envelope_key e)) \<noteq> None"
      using W(2) [OF K] by (simp_all add: flushed_def)
    then show ?thesis
      using rec2csv_invD(4,5) [OF W(1) K] by (auto simp: on_disk_def at_key_def f)
  qed
  then show ?thesis using assms(4-7) p(1) s(1) by (simp add: cluon_rec2csv_def)
qed

definition recorded_message :: "int32 \<Rightarrow> int32 \<Rightarrow> Envelope" where
  "recorded_message sec x = Envelope_new\<lparr>env_dataType := 9, env_senderStamp := 3,
     env_sampleTimeStamp := \<lparr>ts_seconds = sec, ts_microseconds = 0\<rparr>,
     env_serializedData := proto_encode (gen_sample x (str ''hi'') 300)\<rparr>"

definition message_of :: "Envelope \<Rightarrow> visitable" where
  "message_of e = gen_sample (if ts_seconds (env_sampleTimeStamp e) = 2 then - 3 else 4) (str ''hi'') 300"

definition csv_arguments :: arguments where
  "csv_arguments = [(str ''rec'', str ''a.rec''), (str ''odvd'', str ''a.odvd'')]"

definition csv_files :: "cstring \<Rightarrow> cstring option" where
  "csv_files n = (if n = str ''a.rec'' then Some (recording [recorded_message 2 (- 3), recorded_message 1 4])
     else if n = str ''a.odvd'' then Some [] else None)"

lemma sample_scope: "map_of (rec2csv_scope [spec_A, spec_B]) 9 = Some spec_A"
  by (simp add: rec2csv_scope_def spec_A_def spec_B_def)

lemma recorded_messages_small: "list_all small_envelope [recorded_message 2 (- 3), recorded_message 1 4]"
proof -
  have "length (proto_encode (gen_sample (- 3) (str ''hi'') 300)) < 2 ^ 20" "length (proto_encode (gen_sample 4 (str ''hi'') 300)) < 2 ^ 20"
    by (simp_all add: proto_encode_bytes gen_sample_def proto_value.simps key_bytes_def length_delimited_def zigzag_def leb128.simps)
  then show ?thesis by (auto simp: recorded_message_def intro!: small_envelopeI)
qed

lemma recorded_messages_readable: "readable 5 [spec_A, spec_B] message_of [recorded_message 2 (- 3), recorded_message 1 4]"
proof -
  have ol: "one_line (message_columns (gen_sample (- 3) (str ''hi'') 300))" "one_line (message_columns (gen_sample 4 (str ''hi'') 300))"
    by code_simp+
  have "proto_ok (gen_sample 4 (str ''hi'') 300)"
    by (simp add: gen_sample_def proto_ok_value.simps proto_value.simps key_bytes_def leb128.simps)
  moreover have "depth (gen_sample x s v) < 5" for x s v by (simp add: gen_sample_def)
  ultimately show ?thesis
    using sample_scope gen_sample_described gen_sample_proto_ok ol
    by (simp add: readable_def carries_def recorded_message_def message_of_def)
qed

lemma recorded_messages_table:
  "table_of (shown [spec_A, spec_B] message_of (replay_order [recorded_message 2 (- 3), recorded_message 1 4])) (str ''9/3'') =
      str ''sent.seconds;sent.microseconds;received.seconds;received.microseconds;'' @
      str ''sampleTimeStamp.seconds;sampleTimeStamp.microseconds;x;s;b.v;'' @ [10] @
      str ''0;0;0;0;1;0;4;'' @ 34 # str ''aGk='' @ 34 # str '';300;'' @ [10] @
      str ''0;0;0;0;2;0;-3;'' @ 34 # str ''aGk='' @ 34 # str '';300;'' @ [10]"
proof -
  have o: "replay_order [recorded_message 2 (- 3), recorded_message 1 4] = [recorded_message 1 4, recorded_message 2 (- 3)]"
    by (simp add: replay_order_def sample_time_def sint_toMicroseconds recorded_message_def)
  have s: "shown [spec_A, spec_B] message_of [recorded_message 1 4, recorded_message 2 (- 3)] =
      [(recorded_message 1 4, gen_sample 4 (str ''hi'') 300), (recorded_message 2 (- 3), gen_sample (- 3) (str ''hi'') 300)]"
    using sample_scope by (simp add: shown_def in_scope_def recorded_message_def message_of_def)
  have k: "envelope_key (recorded_message t x) = str ''9/3''" for t x
    by (simp add: envelope_key_def recorded_message_def dec_int_def dec_nat.simps)
  have t: "time_stamp_columns (recorded_message t x) =
      time_stamp_columns (Envelope_new\<lparr>env_sampleTimeStamp := \<lparr>ts_seconds = t, ts_microseconds = 0\<rparr>\<rparr>)" for t x
    by (simp add: time_stamp_columns_def Envelope_msg_def recorded_message_def time_stamp_mask_def masked_in_def Envelope_new_def)
  have "csv_line 59 (map fst (time_stamp_columns (Envelope_new\<lparr>env_sampleTimeStamp := \<lparr>ts_seconds = 1, ts_microseconds = 0\<rparr>\<rparr>))) =
      str ''sent.seconds;sent.microseconds;received.seconds;received.microseconds;'' @
      str ''sampleTimeStamp.seconds;sampleTimeStamp.microseconds;''" by code_simp
  moreover have "csv_line 59 (map snd (time_stamp_columns (Envelope_new\<lparr>env_sampleTimeStamp := \<lparr>ts_seconds = 1, ts_microseconds = 0\<rparr>\<rparr>))) =
      str ''0;0;0;0;1;0;''" by code_simp
  moreover have "csv_line 59 (map snd (time_stamp_columns (Envelope_new\<lparr>env_sampleTimeStamp := \<lparr>ts_seconds = 2, ts_microseconds = 0\<rparr>\<rparr>))) =
      str ''0;0;0;0;2;0;''" by code_simp
  moreover have "csv_line 59 (map fst (message_columns (gen_sample 4 (str ''hi'') 300))) = str ''x;s;b.v;''" by code_simp
  moreover have "csv_line 59 (map snd (message_columns (gen_sample 4 (str ''hi'') 300))) =
      str ''4;'' @ 34 # str ''aGk='' @ 34 # str '';300;''" by code_simp
  moreover have "csv_line 59 (map snd (message_columns (gen_sample (- 3) (str ''hi'') 300))) =
      str ''-3;'' @ 34 # str ''aGk='' @ 34 # str '';300;''" by code_simp
  ultimately show ?thesis by (simp add: o s k table_of_def row_header_def row_def t)
qed

theorem rec2csv_tables_witness:
  "\<exists>fs. cluon_rec2csv 5 some_rate (\<lambda>_. [spec_A, spec_B]) csv_arguments csv_files (\<lambda>_. True) = Some (0, fs) \<and>
    map_of fs (str ''A-3.csv'') = Some (str ''sent.seconds;sent.microseconds;received.seconds;received.microseconds;'' @
      str ''sampleTimeStamp.seconds;sampleTimeStamp.microseconds;x;s;b.v;'' @ [10] @
      str ''0;0;0;0;1;0;4;'' @ 34 # str ''aGk='' @ 34 # str '';300;'' @ [10] @
      str ''0;0;0;0;2;0;-3;'' @ 34 # str ''aGk='' @ 34 # str '';300;'' @ [10])"
proof -
  let ?e = "recorded_message 1 4" and ?es = "[recorded_message 2 (- 3), recorded_message 1 4]" and ?mms = "[spec_A, spec_B]"
  have len: "length (recording ?es) < 2 ^ 64" by (rule length_recording_small [OF recorded_messages_small]) simp
  have ap: "tables_apart ?mms ?es" by (simp add: tables_apart_def recorded_message_def envelope_key_def)
  have args: "has_arg ''rec'' csv_arguments" "has_arg ''odvd'' csv_arguments"
    "csv_files (arg ''odvd'' csv_arguments) = Some []" "csv_files (arg ''rec'' csv_arguments) = Some (recording ?es)"
    by (simp_all add: has_arg_def csv_arguments_def csv_files_def arg_def)
  have "table_name ?mms ?e = csv_filename spec_A ?e" using sample_scope by (simp add: table_name_def recorded_message_def)
  then have n: "table_name ?mms ?e @ str ''.csv'' = str ''A-3.csv''"
    by (simp add: recorded_message_def csv_filename_def spec_A_def dec_nat.simps)
  have sc: "in_scope ?mms ?e" using sample_scope by (simp add: in_scope_def recorded_message_def)
  have k: "envelope_key ?e = str ''9/3''" by (simp add: envelope_key_def recorded_message_def dec_int_def dec_nat.simps)
  obtain fs where fs: "cluon_rec2csv 5 some_rate (\<lambda>_. ?mms) csv_arguments csv_files (\<lambda>_. True) = Some (0, fs)"
    "\<forall>e\<in>set ?es. in_scope ?mms e \<longrightarrow> map_of fs (table_name ?mms e @ str ''.csv'') =
        Some (table_of (shown ?mms message_of (replay_order ?es)) (envelope_key e))"
    using rec2csv_tables [where parse = "\<lambda>_. ?mms" and files = csv_files and writable = "\<lambda>_. True" and rate = some_rate,
      OF recorded_messages_small _ len args recorded_messages_readable ap] by blast
  have "?e \<in> set ?es" by simp
  then have "map_of fs (str ''A-3.csv'') = Some (table_of (shown ?mms message_of (replay_order ?es)) (str ''9/3''))"
    using fs(2) sc n k by metis
  then show ?thesis unfolding recorded_messages_table using fs(1) by blast
qed

text \<open>
  A cell with a line break is cut off in the first row of a table, with all cells behind it, though
  not in the rows that follow.
\<close>

theorem rec2csv_line_break:
  assumes "10 \<notin> set (csv_line 59 (map fst (message_columns m)))"
    and "csv_line 59 (map snd (message_columns m)) = v1 @ 10 # v2" and "10 \<notin> set v1"
  shows "first_entry (csv_encode 59 True time_stamp_mask [Envelope_msg env])
      (toCSV_csv (snd (accept toCSV m (toCSV_new 59 True [])))) =
      Some (row_header env m @ csv_line 59 (map snd (time_stamp_columns env)) @ v1 @ [10]) \<and>
    next_entry (csv_encode 59 False time_stamp_mask [Envelope_msg env])
      (toCSV_csv (snd (accept toCSV m (toCSV_new 59 False [])))) =
      csv_line 59 (map snd (time_stamp_columns env)) @ v1 @ 10 # v2 @ [10]"
proof -
  let ?h = "csv_line 59 (map fst (message_columns m))"
  have v: "split (?h @ 10 # v1 @ 10 # v2 @ [10]) 10 = ?h # v1 # split_from False (v2 @ [10]) 10"
    using assms(1,3) by (simp add: split_def split_from_one)
  note T = one_line_cells [OF time_stamp_one_line [of env]]
  show ?thesis
    using T v assms(2)
    by (simp add: first_entry_def next_entry_def message_csv time_stamps_encoded split_lines split_line row_header_def Let_def)
qed

definition break_sample :: visitable where
  "break_sample = Visitable 9 (str ''A'') (str ''p.A'')
     [(1, str ''char'', str ''c'', A_char 10), (2, str ''int32'', str ''x'', A_int32 4)]"

theorem rec2csv_line_break_witness:
  "first_entry (csv_encode 59 True time_stamp_mask [Envelope_msg Envelope_new])
      (toCSV_csv (snd (accept toCSV break_sample (toCSV_new 59 True [])))) =
    Some (row_header Envelope_new break_sample @ str ''0;0;0;0;0;0;'' @ [10])"
proof -
  have h: "10 \<notin> set (csv_line 59 (map fst (message_columns break_sample)))" by code_simp
  have v: "csv_line 59 (map snd (message_columns break_sample)) = [] @ 10 # str '';4;''" by code_simp
  have t: "csv_line 59 (map snd (time_stamp_columns Envelope_new)) = str ''0;0;0;0;0;0;''" by code_simp
  show ?thesis using rec2csv_line_break [OF h v, of Envelope_new] t by simp
qed

end
