(* ===== verification/LiveTools.thy ===== *)
theory LiveTools
  imports SocketLifeCorrect Rec2Csv ProtoFiles Parser
begin

text \<open>
  The programs that show or write what arrives in a session: \<open>cluon-OD4toStdout\<close>, \<open>cluon-OD4toJSON\<close>,
  \<open>cluon-LCMtoJSON\<close> and the bookkeeping of \<open>cluon-livefeed\<close>; and the message compiler \<open>cluon-msc\<close>. From
  sending in a session to replaying the file that \<open>cluon-OD4toStdout\<close> writes.
\<close>

section \<open>Programs in a session\<close>

text \<open>
  The envelopes that a session with a catch-all delegate hands to it, from datagrams with their times; \<open>None\<close>: a
  datagram whose decoding is undefined or ends the program.
\<close>

definition session_envelopes :: "int \<Rightarrow> (cstring \<times> int64) list \<Rightarrow> Envelope list option" where
  "session_envelopes ticks datagrams =
     (case od4_run ticks (\<lambda>_ _. []) (map (\<lambda>(d, t). Datagram d t) datagrams) (OD4Session_new (Some ())) of
        Returned s \<Rightarrow> Some (map snd (od_calls s))
      | _ \<Rightarrow> None)"

text \<open>
  Whether the session for \<open>--cid\<close> runs; \<open>None\<close>: an exception that nobody catches.
\<close>

definition cid_session :: "libc \<Rightarrow> uint16 \<Rightarrow> arguments \<Rightarrow> net \<Rightarrow> bool option" where
  "cid_session lc local_port args n =
     map_option (\<lambda>cid. case OD4Session_open lc local_port (ucast cid) n of (_, m_receiver, _) \<Rightarrow> ur_running m_receiver)
       (std_stoi (arg ''cid'' args))"

definition cluon_OD4toStdout ::
    "libc \<Rightarrow> uint16 \<Rightarrow> net \<Rightarrow> int \<Rightarrow> arguments \<Rightarrow> (cstring \<times> int64) list \<Rightarrow> (int32 \<times> cstring) option" where
  "cluon_OD4toStdout lc local_port n ticks args datagrams =
     (if \<not> has_arg ''cid'' args then Some (1, [])
      else case cid_session lc local_port args n of
        None \<Rightarrow> None
      | Some running \<Rightarrow>
          if running
          then map_option (\<lambda>es. (0, concat (map serializeEnvelope es))) (session_envelopes ticks datagrams)
          else Some (1, []))"

text \<open>
  \<open>nows\<close> is what the clock shows in the calls of the delegate. \<open>None\<close> also when the text of an envelope is
  undefined, see \<open>getJSONFromEnvelope\<close>.
\<close>

definition cluon_OD4toJSON ::
    "nat \<Rightarrow> Converter.spec_parser \<Rightarrow> (cstring \<Rightarrow> cstring option) \<Rightarrow> libc \<Rightarrow> uint16 \<Rightarrow> net \<Rightarrow> int \<Rightarrow> arguments \<Rightarrow>
     (cstring \<times> int64) list \<Rightarrow> (nat \<Rightarrow> TimeStamp) \<Rightarrow> (int32 \<times> cstring) option" where
  "cluon_OD4toJSON k parser files lc local_port n ticks args datagrams nows =
     (if \<not> has_arg ''cid'' args then Some (1, [])
      else
        (let odvdFile = arg ''odvd'' args;
             envConverter =
               (case (if odvdFile \<noteq> [] then files odvdFile else None) of
                  None \<Rightarrow> \<lparr>ec_listOfMetaMessages = [], ec_scopeOfMetaMessages = []\<rparr>
                | Some s \<Rightarrow> snd (ec_setMessageSpecification parser s))
         in case cid_session lc local_port args n of
              None \<Rightarrow> None
            | Some running \<Rightarrow>
                if running
                then Option.bind (session_envelopes ticks datagrams)
                  (\<lambda>es. let lines = map2 (\<lambda>i e. map_option (\<lambda>j. j @ [10])
                                      (getJSONFromEnvelope k envConverter (e\<lparr>env_received := nows i\<rparr>))) [0..<length es] es
                      in map_option (\<lambda>ls. (0, concat ls)) (those lines))
                else Some (1, [])))"

section \<open>\<open>cluon-LCMtoJSON\<close>\<close>

text \<open>\<open>std::istream_iterator<std::string>\<close>: the words of a text.\<close>

function words_of :: "cstring \<Rightarrow> cstring list" where
  "words_of s =
     (let t = dropWhile is_space s
      in if t = [] then [] else takeWhile (\<lambda>c. \<not> is_space c) t # words_of (dropWhile (\<lambda>c. \<not> is_space c) t))"
  by pat_completeness auto
termination
proof (relation "measure length", goal_cases)
  case (2 s t)
  then obtain c cs where t: "t = c # cs" "\<not> is_space c" by (metis hd_dropWhile list.exhaust list.sel(1))
  have "length (c # cs) \<le> length s" using length_dropWhile_le [of is_space s] 2(1) t(1) by metis
  then show ?case using t length_dropWhile_le [of "\<lambda>c. \<not> is_space c" cs] by simp
qed simp

declare words_of.simps [simp del]

definition contains_text :: "cstring \<Rightarrow> cstring \<Rightarrow> bool" where
  "contains_text s x \<longleftrightarrow> list_ex (\<lambda>i. take (length x) (drop i s) = x) [0..<Suc (length s)]"

text \<open>
  \<open>lcm_arg\<close>, \<open>LCM\<close> in the code, is the last positional argument, \<open>odvdFile\<close> the value of \<open>--odvd\<close>, both from the vendored
  argh. \<open>None\<close> stands for exceptions, of \<open>at\<close> and \<open>stoi\<close>, too.
\<close>

definition cluon_LCMtoJSON ::
    "nat \<Rightarrow> Converter.spec_parser \<Rightarrow> (cstring \<Rightarrow> cstring option) \<Rightarrow> libc \<Rightarrow> net \<Rightarrow> cstring \<Rightarrow> cstring \<Rightarrow> cstring \<Rightarrow>
     cstring list \<Rightarrow> (int32 \<times> cstring) option" where
  "cluon_LCMtoJSON k parser files lc n PROGRAM lcm_arg odvdFile datagrams =
     (if contains_text lcm_arg PROGRAM then Some (1, [])
      else case words_of (replaceAll lcm_arg 58 32) of
        ADDRESS # port # _ \<Rightarrow>
          (case std_stoi port of
             None \<Rightarrow> None
           | Some PORT \<Rightarrow>
               (let lcm2GM =
                      (case (if odvdFile \<noteq> [] then files odvdFile else None) of
                         None \<Rightarrow> \<lparr>lg_listOfMetaMessages = [], lg_scopeOfMetaMessages = []\<rparr>
                       | Some s \<Rightarrow> snd (lg_setMessageSpecification parser s))
                in if ur_running (fst (UDPReceiver_new lc ADDRESS (ucast PORT) True 0 n))
                   then map_option (\<lambda>ls. (0, concat ls))
                     (those (map (\<lambda>data. Option.bind (getGenericMessage k lcm2GM data)
                        (\<lambda>gm. map_option (\<lambda>(_, j). toJSON_json j @ [10]) (gm_accept toJSON gm (toJSON_new True [])))) datagrams))
                   else Some (1, [])))
      | _ \<Rightarrow> None)"

section \<open>\<open>cluon-livefeed\<close>\<close>

text \<open>
  The two nested maps: the last envelope of a message and sender, and a float that estimates its rate,
  of type \<open>'f\<close>; \<open>average\<close> computes it from the difference of two time stamps and the value before.
\<close>

record 'f livefeed =
  lf_last :: "(int32 \<times> (uint32 \<times> Envelope) list) list"
  lf_rates :: "(int32 \<times> (uint32 \<times> 'f) list) list"

definition livefeed_receive :: "'f \<Rightarrow> (int64 \<Rightarrow> 'f \<Rightarrow> 'f) \<Rightarrow> Envelope \<Rightarrow> 'f livefeed \<Rightarrow> 'f livefeed" where
  "livefeed_receive zero average envelope s =
     (let dt = env_dataType envelope; sd = env_senderStamp envelope;
          last_entry = at_key dt [] (lf_last s);
          lastTimeStamp = (case map_of last_entry sd of None \<Rightarrow> 0 | Some e \<Rightarrow> toMicroseconds (env_sampleTimeStamp e));
          currentTimeStamp = toMicroseconds (env_sampleTimeStamp envelope)
      in if currentTimeStamp \<noteq> lastTimeStamp
         then (let rates = at_key dt [] (lf_rates s);
                   rate = (case map_of rates sd of None \<Rightarrow> zero | Some a \<Rightarrow> average (currentTimeStamp - lastTimeStamp) a)
               in s\<lparr>lf_last := assign dt (assign sd envelope last_entry) (lf_last s),
                    lf_rates := assign dt (assign sd rate rates) (lf_rates s)\<rparr>)
         else s\<lparr>lf_last := assign dt last_entry (lf_last s)\<rparr>)"

text \<open>The color of a line, from the age of an envelope in microseconds.\<close>

datatype color = RED | GREEN | YELLOW | DEFAULT_COLOR

definition age_color :: "int64 \<Rightarrow> color" where
  "age_color AGE =
     (let c = DEFAULT_COLOR;
          c = (if sint AGE \<le> 2 * 1000 * 1000 then GREEN else c);
          c = (if sint AGE > 2 * 1000 * 1000 \<and> sint AGE \<le> 5 * 1000 * 1000 then YELLOW else c)
      in if sint AGE > 5 * 1000 * 1000 then RED else c)"

definition livefeed_shown :: "'f livefeed \<Rightarrow> int32 \<Rightarrow> uint32 \<Rightarrow> Envelope option" where
  "livefeed_shown s dt sd = map_of (at_key dt [] (lf_last s)) sd"

section \<open>\<open>cluon-msc\<close>\<close>

text \<open>
  The contents for the messages: \<open>cpp\<close> and \<open>proto\<close> are the two transformations (with the vendored
  Mustache), the second with or without the header of a file.
\<close>

fun msc_contents ::
    "(MetaMessage \<Rightarrow> cstring) \<Rightarrow> (bool \<Rightarrow> MetaMessage \<Rightarrow> cstring) \<Rightarrow> bool \<Rightarrow> bool \<Rightarrow> bool \<Rightarrow> MetaMessage list \<Rightarrow> cstring" where
  "msc_contents cpp proto generateCPP generateProto addHeader [] = []"
| "msc_contents cpp proto generateCPP generateProto addHeader (e # es) =
     (let content = (if generateCPP then cpp e else []);
          content = (if generateProto then proto addHeader e else content)
      in content @ 10 # msc_contents cpp proto generateCPP generateProto (if generateProto then False else addHeader) es)"

fun parser_code :: "MessageParserErrorCodes \<Rightarrow> int32" where
  "parser_code NO_MESSAGEPARSER_ERROR = 0"
| "parser_code SYNTAX_ERROR = 1"
| "parser_code DUPLICATE_IDENTIFIERS = 2"

text \<open>
  The return code, what is written to standard output and, with \<open>--out\<close>, the content of that file.
  \<open>inputFilename\<close> is the last positional argument.
\<close>

definition cluon_msc ::
    "(cstring \<Rightarrow> (MetaMessage list \<times> MessageParserErrorCodes) option) \<Rightarrow> (MetaMessage \<Rightarrow> cstring) \<Rightarrow> (bool \<Rightarrow> MetaMessage \<Rightarrow> cstring) \<Rightarrow>
     (cstring \<Rightarrow> cstring option) \<Rightarrow> cstring \<Rightarrow> cstring \<Rightarrow> cstring \<Rightarrow> bool \<Rightarrow> bool \<Rightarrow> (int32 \<times> cstring \<times> cstring option) option" where
  "cluon_msc parser cpp proto files PROGRAM inputFilename outputFilename generateCPP generateProto =
     (if contains_text inputFilename PROGRAM then Some (1, [], None)
      else case files inputFilename of
        None \<Rightarrow> Some (1, [], None)
      | Some input \<Rightarrow>
          (case parser input of
             None \<Rightarrow> None
           | Some (mms, err) \<Rightarrow>
               (let contents = msc_contents cpp proto generateCPP generateProto True mms
                in Some (parser_code err, if outputFilename = [] then contents else [],
                         if outputFilename = [] then None else Some contents))))"

text \<open>With both options, only Proto is written.\<close>

lemma msc_both:
  "cluon_msc parser cpp proto files PROGRAM i out True True = cluon_msc parser cpp proto files PROGRAM i out False True"
proof -
  have "msc_contents cpp proto True True h mms = msc_contents cpp proto False True h mms" for h mms
    by (induction mms arbitrary: h) (simp_all add: Let_def)
  then show ?thesis by (simp only: cluon_msc_def)
qed

text \<open>The header of a Proto file is written for the first message, and for no other.\<close>

lemma msc_header_once:
  "msc_contents cpp proto c True True (m # ms) = proto True m @ 10 # concat (map (\<lambda>m. proto False m @ [10]) ms)"
proof -
  have "msc_contents cpp proto c True False ms = concat (map (\<lambda>m. proto False m @ [10]) ms)"
    by (induction ms) (simp_all add: Let_def)
  then show ?thesis by (simp add: Let_def)
qed

section \<open>What is shown\<close>

text \<open>
  Of the envelopes of one message and sender, the last one whose sample time differs from that of the one
  shown before, which is zero at the beginning.
\<close>

definition newer :: "Envelope \<Rightarrow> Envelope option \<Rightarrow> Envelope option" where
  "newer e x =
     (if toMicroseconds (env_sampleTimeStamp e) =
        (case x of None \<Rightarrow> 0 | Some y \<Rightarrow> toMicroseconds (env_sampleTimeStamp y)) then x else Some e)"

lemma livefeed_receive_shown:
  "livefeed_shown (livefeed_receive zero average e s) dt sd =
     (if env_dataType e = dt \<and> env_senderStamp e = sd then newer e (livefeed_shown s dt sd) else livefeed_shown s dt sd)"
  by (auto simp: livefeed_shown_def livefeed_receive_def newer_def at_key_assign Let_def split: option.split)

lemma livefeed_shown_latest:
  "livefeed_shown (fold (livefeed_receive zero average) es \<lparr>lf_last = [], lf_rates = []\<rparr>) dt sd =
     fold newer (filter (\<lambda>e. env_dataType e = dt \<and> env_senderStamp e = sd) es) None"
proof -
  have "livefeed_shown (fold (livefeed_receive zero average) es s) dt sd =
      fold newer (filter (\<lambda>e. env_dataType e = dt \<and> env_senderStamp e = sd) es) (livefeed_shown s dt sd)" for s
    by (induction es arbitrary: s) (simp_all add: livefeed_receive_shown)
  from this [of "\<lparr>lf_last = [], lf_rates = []\<rparr>"] show ?thesis by (simp add: livefeed_shown_def at_key_def)
qed

text \<open>What is shown has the sample time of the envelope received last; nothing is shown as long as this is zero.\<close>

lemma newer_last:
  "(case fold newer (es @ [e]) None of None \<Rightarrow> 0 | Some x \<Rightarrow> toMicroseconds (env_sampleTimeStamp x)) =
     toMicroseconds (env_sampleTimeStamp e)"
proof -
  have "(case newer e x of None \<Rightarrow> 0 | Some y \<Rightarrow> toMicroseconds (env_sampleTimeStamp y)) = toMicroseconds (env_sampleTimeStamp e)" for x
    by (cases x) (simp_all add: newer_def)
  then show ?thesis by simp
qed

section \<open>From a session to a replay\<close>

lemma run_catch_all:
  assumes "list_all small_envelope es" and "length ts = length es" and "od_delegate s0 = Some d" and "\<not> od_locked s0"
  shows "od4_run ticks (\<lambda>_ _. []) (map (\<lambda>(d, t). Datagram d t) (zip (map serializeEnvelope es) ts)) s0 =
    Returned (s0\<lparr>od_calls := od_calls s0 @ map (Pair d) (map2 (\<lambda>e t. e\<lparr>env_received := convert ticks t\<rparr>) es ts)\<rparr>)"
  using assms
proof (induction es arbitrary: ts s0)
  case (Cons e es)
  then obtain t ts' where ts: "ts = t # ts'" by (cases ts) auto
  have "extractEnvelope (istream_of (serializeEnvelope e)) =
      Some ((True, e), consumed (serializeEnvelope e) (istream_of (serializeEnvelope e)))"
    using Cons.prems(1) by (intro extractEnvelope_serializeEnvelope [of _ _ "[]"]) (simp_all add: small_envelope_def)
  then have "od4_callback ticks (\<lambda>_ _. []) (serializeEnvelope e) t s0 =
      Returned (s0\<lparr>od_calls := od_calls s0 @ [(d, e\<lparr>env_received := convert ticks t\<rparr>)]\<rparr>)"
    using Cons.prems(3,4) by (simp add: od4_callback_def call_delegate_def)
  then show ?case using Cons.IH [of ts' "s0\<lparr>od_calls := od_calls s0 @ [(d, e\<lparr>env_received := convert ticks t\<rparr>)]\<rparr>"] Cons.prems
    by (simp add: ts)
qed simp

lemma session_envelopes_sent:
  assumes "list_all small_envelope es" and "length ts = length es"
  shows "session_envelopes ticks (zip (map serializeEnvelope es) ts) = Some (map2 (\<lambda>e t. e\<lparr>env_received := convert ticks t\<rparr>) es ts)"
  using run_catch_all [OF assms, of "OD4Session_new (Some ())" "()" ticks]
  by (simp add: session_envelopes_def OD4Session_new_def comp_def)

lemma length_serializedData: "length (env_serializedData e) \<le> length (serializeEnvelope e)"
proof -
  have "length (env_serializedData e) \<le> length (proto_encode (Envelope_msg e))"
    by (simp add: proto_encode_bytes Envelope_msg_def proto_value.simps length_delimited_def)
  then show ?thesis by (simp add: serializeEnvelope_bytes)
qed

type_synonym sent_message = "visitable \<times> TimeStamp \<times> uint32 \<times> TimeStamp"

definition message_envelope :: "sent_message \<Rightarrow> Envelope" where
  "message_envelope x = (case x of (m, sampleTimeStamp, senderStamp, now) \<Rightarrow> od4_envelope m sampleTimeStamp senderStamp now)"

definition message_datagrams :: "send_call \<Rightarrow> int32 \<Rightarrow> sent_message \<Rightarrow> cstring list" where
  "message_datagrams sendto m_socket x =
     (case x of (m, sampleTimeStamp, senderStamp, now) \<Rightarrow> od4_send sendto m_socket m sampleTimeStamp senderStamp now)"

lemma message_datagrams:
  assumes "m_socket \<noteq> - 1" and "list_all (\<lambda>x. length (serializeEnvelope (message_envelope x)) \<le> 65507) xs"
  shows "concat (map (message_datagrams sendto m_socket) xs) = map (serializeEnvelope \<circ> message_envelope) xs"
  using assms(2)
proof (induction xs)
  case (Cons x xs)
  obtain m ts st now where "x = (m, ts, st, now)" by (metis prod.collapse)
  then show ?case
    using Cons od4_send_sends [OF assms(1), of sendto "message_envelope x"]
    by (simp add: message_datagrams_def message_envelope_def od4_send_def)
qed simp

lemma unat_ucast_small:
  fixes cid :: int32 assumes "1 \<le> sint cid" and "sint cid \<le> 255"
  shows "unat (ucast cid :: uint16) = nat (sint cid)"
proof -
  define k where "k = nat (sint cid)"
  have k: "k \<le> 255" using assms by (simp add: k_def)
  have "cid = of_int (sint cid)" by simp
  also have "\<dots> = of_nat k" using assms by (simp add: k_def of_nat_nat)
  finally have "unat (ucast cid :: uint16) = unat (of_nat k :: uint16)" by (simp add: ucast_of_nat)
  also have "\<dots> = k" using k by (simp add: unsigned_of_nat take_bit_nat_eq_self)
  finally show ?thesis by (simp add: k_def)
qed

text \<open>
  C18: Messages that are sent in a session, written to a file by \<open>cluon-OD4toStdout\<close> as they arrive and
  replayed from it: the output of the first program is a recording of the messages with their times of
  reception, and \<open>cluon-replay\<close> writes them stably sorted by sample time, behind two reports. The messages
  fit into datagrams, and no call of the operating system is refused.
\<close>

theorem session_recorded:
  assumes "numerical_addresses lc" and "nt_refuses n = (\<lambda>_. False)" and "length (nt_open n) < 2 ^ 31 - 2"
    and "has_arg ''cid'' args" and "std_stoi (arg ''cid'' args) = Some cid" and "1 \<le> sint cid" and "sint cid \<le> 255"
    and "m_socket \<noteq> - 1" and "list_all (\<lambda>x. length (serializeEnvelope (message_envelope x)) \<le> 65507) xs"
    and "length arrivals = length xs" and "xs \<noteq> []" and "length xs < 2 ^ 32"
    and "argc \<noteq> 1" and "\<not> has_arg ''cid'' rargs" and "\<not> has_arg ''keeprunning'' rargs" and "has_arg ''nodelay'' rargs"
    and "\<forall>j. ri_command (inputs j) = None"
    and "files (replay_recFile PROGRAM rargs) = map_option snd
      (cluon_OD4toStdout lc local_port n ticks args (zip (concat (map (message_datagrams sendto m_socket) xs)) arrivals))"
  shows "let es = map2 (\<lambda>x t. (message_envelope x)\<lparr>env_received := convert ticks t\<rparr>) xs arrivals in
    cluon_OD4toStdout lc local_port n ticks args (zip (concat (map (message_datagrams sendto m_socket) xs)) arrivals) =
      Some (0, recording es) \<and>
    cluon_replay rate argc PROGRAM rargs files ((r1, t1), (r2, t2)) inputs =
      Some (0, map (Stdout \<circ> serializeEnvelope)
        (status_envelope t1 (status_of 1 0) # status_envelope t2 (status_of 2 (length es)) # replay_order es))"
proof -
  let ?es = "map2 (\<lambda>x t. (message_envelope x)\<lparr>env_received := convert ticks t\<rparr>) xs arrivals"
  have small: "small_envelope (message_envelope x)" "small_envelope ((message_envelope x)\<lparr>env_received := t\<rparr>)" if "x \<in> set xs" for x t
    using that assms(9) length_serializedData [of "message_envelope x"] by (auto simp: list_all_iff intro!: small_envelopeI)
  have small_es: "list_all small_envelope ?es" using small(2) by (auto simp: list_all_iff dest: set_zip_leftD)
  have "unat (ucast cid :: uint16) = nat (sint cid)" by (rule unat_ucast_small [OF assms(6,7)])
  then have c: "1 \<le> unat (ucast cid :: uint16)" "(ucast cid :: uint16) \<noteq> 0" "unat (ucast cid :: uint16) \<le> 255" using assms(6,7) by auto
  have run: "cid_session lc local_port args n = Some True"
    using od4_session_runs [OF assms(1-3), of "ucast cid" local_port] c assms(5)
    by (simp add: cid_session_def split_beta)
  have "session_envelopes ticks (zip (map serializeEnvelope (map message_envelope xs)) arrivals) =
      Some (map2 (\<lambda>e t. e\<lparr>env_received := convert ticks t\<rparr>) (map message_envelope xs) arrivals)"
    by (rule session_envelopes_sent) (use small(1) assms(10) in \<open>auto simp: list_all_iff\<close>)
  also have "\<dots> = Some ?es" by (simp add: zip_map1 comp_def split_beta)
  finally have out: "cluon_OD4toStdout lc local_port n ticks args (zip (concat (map (message_datagrams sendto m_socket) xs)) arrivals) =
      Some (0, recording ?es)"
    using assms(4) run by (simp add: cluon_OD4toStdout_def message_datagrams [OF assms(8,9)] recording_def comp_def)
  have len: "length ?es = length xs" using assms(10) by simp
  then have ne: "?es \<noteq> []" using assms(11) by (metis length_0_conv)
  have l64: "length (recording ?es) < 2 ^ 64" by (rule length_recording_small [OF small_es]) (use len assms(12) in simp)
  have "cluon_replay rate argc PROGRAM rargs files ((r1, t1), (r2, t2)) inputs =
      Some (0, map (Stdout \<circ> serializeEnvelope)
        (status_envelope t1 (status_of 1 0) # status_envelope t2 (status_of 2 (length ?es)) # replay_order ?es))"
    using replay_to_stdout [where es = ?es and files = files and inputs = inputs and PROGRAM = PROGRAM] small_es ne l64
      assms(13-17) assms(18) [unfolded out] by simp
  then show ?thesis using out by (simp add: Let_def)
qed

text \<open>Two messages of the session 111, the second with the earlier sample time.\<close>

definition sent_sample :: "sent_message list" where
  "sent_sample = map (\<lambda>sec. (sample (- 3) (str ''hi'') 300, \<lparr>ts_seconds = sec, ts_microseconds = 0\<rparr>, 1, TimeStamp_new)) [9, 5]"

definition stdout_args :: arguments where
  "stdout_args = [(str ''cid'', str ''111'')]"

definition stdout_sample :: "(int32 \<times> cstring) option" where
  "stdout_sample = cluon_OD4toStdout sample_libc 4000 sample_net 1000 stdout_args
     (zip (concat (map (message_datagrams (\<lambda>d. (of_nat (length d), 0)) 4) sent_sample)) [3000, 4000])"

theorem session_recorded_witness:
  "let es = map2 (\<lambda>x t. (message_envelope x)\<lparr>env_received := convert 1000 t\<rparr>) sent_sample [3000, 4000] in
   stdout_sample = Some (0, recording es) \<and>
   cluon_replay some_rate 3 (str ''cluon-replay'') sample_replay (\<lambda>_. map_option snd stdout_sample)
     ((False, TimeStamp_new, TimeStamp_new), (False, TimeStamp_new, TimeStamp_new)) sample_inputs =
   Some (0, map (Stdout \<circ> serializeEnvelope)
     (status_envelope (TimeStamp_new, TimeStamp_new) (status_of 1 0) #
       status_envelope (TimeStamp_new, TimeStamp_new) (status_of 2 (length es)) # replay_order es))"
proof -
  have n: "nt_refuses sample_net = (\<lambda>_. False)" "length (nt_open sample_net) < 2 ^ 31 - 2" by (simp_all add: sample_net_def)
  have args: "has_arg ''cid'' stdout_args" "std_stoi (arg ''cid'' stdout_args) = Some 111" "1 \<le> sint (111 :: int32)" "sint (111 :: int32) \<le> 255"
    by code_simp+
  have rargs: "\<not> has_arg ''cid'' sample_replay" "\<not> has_arg ''keeprunning'' sample_replay" "has_arg ''nodelay'' sample_replay"
    by code_simp+
  have "length (proto_encode (sample (- 3) (str ''hi'') 300)) \<le> 1000" by code_simp
  then have "length (serializeEnvelope (message_envelope (sample (- 3) (str ''hi'') 300, t, st, now))) \<le> 65507" for t st now
    using length_Envelope [of "od4_envelope (sample (- 3) (str ''hi'') 300) t st now"]
    by (simp add: message_envelope_def serializeEnvelope_bytes od4_envelope_def)
  then have s: "list_all (\<lambda>x. length (serializeEnvelope (message_envelope x)) \<le> 65507) sent_sample" by (simp add: sent_sample_def)
  have x: "sent_sample \<noteq> []" "length [3000 :: int64, 4000] = length sent_sample" "length sent_sample < 2 ^ 32"
    by (simp_all add: sent_sample_def)
  have i: "\<forall>j. ri_command (sample_inputs j) = None" "(4 :: int32) \<noteq> - 1" "(3 :: nat) \<noteq> 1" by (simp_all add: sample_inputs_def)
  show ?thesis unfolding stdout_sample_def
    by (rule session_recorded [OF sample_libc_numerical n args i(2) s x(2,1,3) i(3) rargs i(1) refl])
qed

end
