(* ===== verification/Spec2Isabelle.thy ===== *)
theory Spec2Isabelle
  imports ProtoCorrect Envelopes LCM MsgPackCorrect GenericCorrect PlayerCorrect OD4 JSONCorrect Converter CSV ODVD
    ParserCorrect ProtoFiles CppFiles SharedMemThreads LiveTools
begin

text \<open>
  Verification of libcluon: the middleware that encodes messages, sends them between programs in
  envelopes, records them and replays them. File names are those under \<open>src/libcluon\<close>; where only a
  class is named, its code is in the header and the source file of that name.

  \<^bold>\<open>How the program is put together.\<close> The message compiler makes a class of every message in a
  specification; its \<open>accept\<close> hands the fields one by one to a visitor. The codecs are visitors:
  Proto, LCM, MsgPack and JSON in both directions, CSV and ODVD as output. \<open>GenericMessage\<close> is a
  message whose type is known at run time only, from a \<open>MetaMessage\<close> that \<open>MessageParser\<close> has made
  of a specification; it accepts visitors and is one itself. An envelope holds an encoded message
  with time stamps and the sender; \<open>Envelope.hpp\<close> writes it behind a header of five bytes.
  \<open>OD4Session\<close> sends envelopes as datagrams and dispatches those that arrive to delegates; between
  the thread that reads the socket and the delegates is a \<open>NotifyingPipeline\<close>. \<open>Player\<close> replays a
  file of envelopes in the order of their sample times. \<open>EnvelopeConverter\<close> and
  \<open>LCMToGenericMessage\<close> connect envelopes and LCM packets with \<open>GenericMessage\<close> and JSON.

  \<^bold>\<open>Theories, and what they model.\<close>

  \<^item> \<open>Prelude\<close>: machine integers, byte strings, \<open>PortableEndian.hpp\<close>, association lists for
    \<open>std::map\<close>. \<open>Streams\<close>: \<open>std::istream\<close> with its flags, and \<open>std::ostream\<close>. \<open>Strings\<close>: decimal
    text, \<open>stringtoolbox.hpp\<close>. \<open>Doubles\<close>: text of floating-point numbers and their conversions.

  \<^item> \<open>Values\<close>: \<open>linb::any\<close> as a datatype of the values that the library puts in it. \<open>Visitors\<close>: the
    code that the template in \<open>MetaMessageToCPPTransformator.cpp\<close> generates, for any message
    (\<open>visitable\<close>); and the contracts of visitors as locales: \<open>reader_visitor\<close> leaves a message
    unchanged, \<open>typed_visitor\<close> keeps the types of its fields, \<open>field_decoder\<close> restores a message if
    every field finds its value. Every codec is an interpretation of one of them.

  \<^item> \<open>ToProto\<close>, \<open>FromProto\<close>, \<open>ProtoCorrect\<close>: \<open>ToProtoVisitor\<close> and \<open>FromProtoVisitor\<close>, with both
    ways to decode. \<open>LCM\<close>: \<open>ToLCMVisitor\<close> and \<open>FromLCMVisitor\<close>. \<open>MsgPack\<close>, \<open>MsgPackCorrect\<close>:
    \<open>ToMsgPackVisitor\<close> and \<open>FromMsgPackVisitor\<close>. \<open>ToJSON\<close>, \<open>FromJSON\<close>, \<open>JSONText\<close>, \<open>JSONCorrect\<close>:
    \<open>ToJSONVisitor\<close> and \<open>FromJSONVisitor\<close>, with base64 and the matcher of the regular expression.
    \<open>CSV\<close>: \<open>ToCSVVisitor\<close>. \<open>ODVD\<close>: \<open>ToODVDVisitor\<close>.

  \<^item> \<open>Envelopes\<close>: \<open>Envelope.hpp\<close>, \<open>Time.hpp\<close> and the messages of \<open>cluonDataStructures.odvd\<close>.

  \<^item> \<open>MetaMessages\<close>, \<open>GenericMessage\<close>, \<open>GenericCorrect\<close>: the two classes of these names. \<open>Parser\<close>,
    \<open>ParserCorrect\<close>: \<open>MessageParser\<close> from the syntax tree on. \<open>ProtoFiles\<close>, \<open>CppFiles\<close>:
    what \<open>MetaMessageToProtoTransformator\<close> and \<open>MetaMessageToCPPTransformator\<close> hand to their templates. \<open>Converter\<close>: \<open>EnvelopeConverter\<close>, \<open>LCMToGenericMessage\<close>.

  \<^item> \<open>Pipeline\<close>: \<open>NotifyingPipeline.hpp\<close>, the worker step by step and the threads together as a step
    relation. \<open>Player\<close>, \<open>PlayerCorrect\<close>: the class \<open>Player\<close>. \<open>Sockets\<close>: sending and a turn of the
    receiving threads of \<open>UDPSender\<close>, \<open>UDPReceiver\<close> and \<open>TCPConnection\<close>. \<open>OD4\<close>: \<open>OD4Session\<close>.
    \<open>SocketLife\<close>, \<open>SocketLifeCorrect\<close>: construction and destruction of these classes and of \<open>TCPServer\<close>,
    its accepting thread, \<open>IPv4Tools.cpp\<close> and \<open>TerminateHandler.cpp\<close>; the contract of an object that owns
    a descriptor is a locale that the four classes are interpretations of.

  \<^item> \<open>SharedMem\<close>: \<open>SharedMemory.cpp\<close> as it is built on Linux, over a state of the operating system: files,
    file descriptors, System V segments and semaphores, POSIX objects, and which calls are refused.
    \<open>SharedMemAreas\<close>: what creating, attaching, locking and time stamps come to, with the contract of
    the lock as a locale that both implementations are interpretations of. \<open>SharedMemThreads\<close>: the threads
    of several processes as a step relation.

  \<^item> The tools: \<open>FilterTool\<close>: \<open>cluon-filter\<close> and \<open>getCommandlineArguments\<close>. \<open>ReplayTool\<close>:
    \<open>cluon-replay\<close>, with the filling thread of the player. \<open>Rec2Csv\<close>: \<open>cluon-rec2csv\<close>. \<open>LiveTools\<close>: \<open>cluon-OD4toStdout\<close>,
    \<open>cluon-OD4toJSON\<close>, \<open>cluon-LCMtoJSON\<close>, \<open>cluon-msc\<close>, and what \<open>cluon-livefeed\<close> keeps.

  State that C++ keeps in members is a record with the members' names behind a short prefix, passed
  and returned; a \<open>std::map\<close> whose order no result shows is an association list. A call that does
  not return, ends the program, or has undefined behaviour is \<open>None\<close>, \<open>Terminated\<close> or a flag of the state
  (\<open>fp_undef\<close>, \<open>mp_throws\<close>, \<open>fj_throws\<close>, \<open>fj_undef\<close>), as the theory says. Decoding Proto sets \<open>fp_undef\<close> for a shift by
  64 bits and more and for bytes that are used without having been read, lengths that \<open>reserve\<close> throws at
  among them; \<open>extractEnvelope\<close> and \<open>extractMessage\<close>, and with them the session, the player, the converter and
  the tools, turn it into \<open>None\<close> or \<open>Terminated\<close>.

  \<^bold>\<open>What the lemmas show.\<close>

  \<^item> Codecs: encoding is the same as a reference definition of the format; decoding restores the
    message, under the bounds that the code really has; where a format loses something, the theorem says what.

  \<^item> \<open>GenericMessage\<close>: visiting one is visiting the message it shows, for every visitor that keeps
    types, so that all facts on codecs carry over to it; creation from a specification ends unless
    a message contains itself.

  \<^item> Envelopes and sessions: back-to-back envelopes are read in order; a session implements a map
    from identifiers to delegates, until a malformed datagram ends it; a message that is sent arrives. The
    pipeline delivers every entry once and in order in all interleavings; a player returns a stable sorting
    of its file, and seeking, with and without its thread, continues it at the selected entry.

  \<^item> Sockets: whatever is constructed, destroyed and refused, no descriptor is lost or closed twice
    (\<open>sockets_accounted\<close>); of the identifiers up to 255 a session runs for all but 0; and what the classes make
    of the names of hosts.

  \<^item> Shared memory: with System V at most one thread of all processes is behind \<open>lock\<close> and before
    \<open>unlock\<close>, and the end of a process releases its lock; with signals, with POSIX owners that
    end, and with names in use this fails, in the ways that the theorems state.

  \<^item> Tools: the filter writes the envelopes that its options describe, the pipe of replay and filter
    loses none of them, and the tables that \<open>cluon-rec2csv\<close> writes are those of the recording. What is sent in a session
    and written by \<open>cluon-OD4toStdout\<close> is what \<open>cluon-replay\<close> replays (\<open>session_recorded\<close>).

  \<^item> Specifications: the parser accepts the trees without duplicates and gives their messages, with the
    identifiers that it counts; the C++ and the Proto text of a message and of the messages in it fit together.

  \<^bold>\<open>Bounds and fuel.\<close> \<open>gm_createFrom_spec\<close> takes a bound on the nesting of messages; it gives a
  result as soon as the bound exceeds the depth of the message, and none for any bound if the
  message contains itself. The bound of \<open>gm_accept\<close> is computed from the depth of the
  \<open>GenericMessage\<close>, that of \<open>readKeyValues\<close> from the length of the stream, and both are shown to be
  enough (\<open>generic_accept_refines\<close>, \<open>readKeyValues_terminates\<close>). \<open>readPairs\<close> of the JSON decoder is a
  partial function: \<open>None\<close> is a loop that never ends.

  \<^bold>\<open>Arguments of the model.\<close> Code outside the repository, and code that it only calls: the parser of
  \<open>peglib\<close> for the grammar of specifications, \<open>inet_ntop\<close>, \<open>sendto\<close>, \<open>send\<close> and what receiving calls
  return, the clock, delegates of the client, the results of the vendored argh on the command line, and the
  conversions of \<open>float\<close> expressions to integers in \<open>Player\<close> and \<open>timeTrigger\<close>. The calls that
  \<open>SharedMemory\<close> makes are definitions after their manual pages, with refusals as an argument.

  Names of hosts, addresses of interfaces, and which calls for sockets and threads are refused are
  arguments as well.

  \<^bold>\<open>Not modelled.\<close> The text of the templates and their rendering in \<open>MetaMessageToCPPTransformator\<close>
  and \<open>MetaMessageToProtoTransformator\<close>, and the grammar that \<open>MessageParser\<close> hands to its library: they are
  interpreted by vendored code. What is printed for the user: usage, error messages, and the screen of
  \<open>cluon-livefeed\<close>. The loops that only wait for sockets around a turn, and the registration of the handlers of
  \<open>TerminateHandler\<close>. \<open>tools/libcluon.cpp\<close>, wrappers for calls from JavaScript. The branches for Windows,
  macOS and BSD.
\<close>

end
